(* ===== verification/Prelude.thy ===== *)
theory Prelude
  imports Main "HOL-Library.Word" "HOL-Library.Multiset"
begin

text \<open>
  What every component of the propagator shares: the machine integers, C strings and the
  functions of the C library the sources call on them, and the resources of a process (heap
  blocks and sockets) with \<open>malloc\<close>, \<open>free\<close>, \<open>_strdup\<close> and \<open>closesocket\<close>.

  A C string is the list of its bytes without the terminating NUL; a buffer that was filled
  from the network or from a file may hold NUL bytes, and \<open>c_str\<close> is the string that C code
  sees in it.  \<open>size_t\<close> counters of objects that exist in memory are naturals; wrap-around is
  written out wherever a value that is not such a counter is computed.
\<close>

unbundle bit_operations_syntax

type_synonym u8 = "8 word"
type_synonym u16 = "16 word"
type_synonym u32 = "32 word"
type_synonym u64 = "64 word"
type_synonym size_t = "64 word"
type_synonym SOCKET = "64 word"

named_theorems os_simps "how the resource operations act on the fields of a process state"
named_theorems os_intros "preservation of the well-formedness of a process state"

section \<open>Resources of a process\<close>

text \<open>
  \<open>live\<close> are the heap blocks that were allocated and not yet freed, \<open>oom\<close> the outcomes of
  the coming allocation requests (\<open>True\<close>: the request fails; when the list is used up every
  request succeeds), \<open>socks\<close> the open sockets.  \<open>ub\<close> is set, and stays set, once the program
  frees a block that is not live or reads through a dangling pointer.
\<close>

record os =
  live :: "nat set"
  next_blk :: nat
  oom :: "bool list"
  socks :: "SOCKET set"
  ub :: bool

definition malloc :: "os \<Rightarrow> nat option \<times> os" where
  "malloc s =
     (case oom s of
        True # os \<Rightarrow> (None, s\<lparr>oom := os\<rparr>)
      | os \<Rightarrow> (Some (next_blk s),
               s\<lparr>live := insert (next_blk s) (live s), next_blk := next_blk s + 1, oom := tl os\<rparr>))"

definition free_blk :: "nat \<Rightarrow> os \<Rightarrow> os" where
  "free_blk b s = (if b \<in> live s then s\<lparr>live := live s - {b}\<rparr> else s\<lparr>ub := True\<rparr>)"

definition closesocket :: "SOCKET \<Rightarrow> os \<Rightarrow> os" where
  "closesocket k s = s\<lparr>socks := socks s - {k}\<rparr>"

definition INVALID_SOCKET :: SOCKET where
  "INVALID_SOCKET = - 1"

text \<open>A string on the heap: its bytes and the block that holds them.\<close>

record hstr =
  chars :: string
  sblk :: nat

definition strdup :: "string \<Rightarrow> os \<Rightarrow> hstr option \<times> os" where
  "strdup str s =
     (case malloc s of
        (None, s') \<Rightarrow> (None, s')
      | (Some b, s') \<Rightarrow> (Some \<lparr>chars = str, sblk = b\<rparr>, s'))"

text \<open>The library call \<open>free\<close> on a string, as it is passed to containers as a callback.\<close>

definition free_str :: "hstr \<Rightarrow> os \<Rightarrow> os" where
  "free_str h s = free_blk (sblk h) s"

text \<open>Well-formed states: no undefined behaviour so far, and fresh blocks are fresh.\<close>

definition os_ok :: "os \<Rightarrow> bool" where
  "os_ok s \<longleftrightarrow> \<not> ub s \<and> (\<forall>b \<in> live s. b < next_blk s)"

text \<open>A process that has allocated nothing.\<close>

definition fresh_os :: os where
  "fresh_os = \<lparr>live = {}, next_blk = 0, oom = [], socks = {}, ub = False\<rparr>"

text \<open>Giving back a set of blocks and a set of sockets, the contract of every destructor.\<close>

definition release :: "nat set \<Rightarrow> SOCKET set \<Rightarrow> os \<Rightarrow> os" where
  "release B K s = s\<lparr>live := live s - B, socks := socks s - K\<rparr>"

text \<open>
  Besides the blocks \<open>L\<close> and the sockets \<open>K\<close> of the surrounding program, exactly the blocks
  \<open>X\<close> are live.
\<close>

definition holds :: "nat set \<Rightarrow> SOCKET set \<Rightarrow> nat list \<Rightarrow> os \<Rightarrow> bool" where
  "holds L K X s \<longleftrightarrow> os_ok s \<and> distinct X \<and> set X \<inter> L = {} \<and> live s = L \<union> set X \<and> socks s = K"

section \<open>C strings and the library functions used on them\<close>

abbreviation NUL :: char where
  "NUL \<equiv> CHR 0x00"

definition c_str :: "string \<Rightarrow> string" where
  "c_str buf = takeWhile (\<lambda>c. c \<noteq> NUL) buf"

definition is_cstr :: "string \<Rightarrow> bool" where
  "is_cstr s \<longleftrightarrow> NUL \<notin> set s"

text \<open>\<open>isspace\<close> in the C locale.\<close>

definition isspace :: "char \<Rightarrow> bool" where
  "isspace c \<longleftrightarrow> (let n = (of_char c :: nat) in n = 32 \<or> (9 \<le> n \<and> n \<le> 13))"

definition isdigit :: "char \<Rightarrow> bool" where
  "isdigit c \<longleftrightarrow> (let n = (of_char c :: nat) in 48 \<le> n \<and> n \<le> 57)"

fun digits_value :: "int \<Rightarrow> string \<Rightarrow> int" where
  "digits_value acc [] = acc"
| "digits_value acc (c # cs) =
     (if isdigit c then digits_value (acc * 10 + (of_char c - 48)) cs else acc)"

text \<open>\<open>atoi\<close>: leading white space, an optional sign, digits; out-of-range values saturate.\<close>

definition atoi :: "string \<Rightarrow> int" where
  "atoi str =
     (let s1 = dropWhile isspace str;
          (neg, s2) = (case s1 of
                         [] \<Rightarrow> (False, s1)
                       | c # r \<Rightarrow> if c = CHR ''-'' then (True, r)
                                 else if c = CHR ''+'' then (False, r) else (False, s1));
          v = digits_value 0 s2
      in if neg then max (- (2 ^ 31)) (- v) else min (2 ^ 31 - 1) v)"

text \<open>The decimal digits of a number, as \<open>%u\<close>, \<open>%hu\<close> and \<open>%d\<close> print it.\<close>

definition digit_char :: "nat \<Rightarrow> char" where
  "digit_char d = char_of (48 + d)"

fun string_of_nat :: "nat \<Rightarrow> string" where
  "string_of_nat n = (if n < 10 then [digit_char n] else string_of_nat (n div 10) @ [digit_char (n mod 10)])"

declare string_of_nat.simps [simp del]

text \<open>One call of \<open>strtok\<close> on what the previous call left: the token and the rest.\<close>

definition strtok :: "char \<Rightarrow> string \<Rightarrow> (string \<times> string) option" where
  "strtok d str =
     (case dropWhile (\<lambda>c. c = d) str of
        [] \<Rightarrow> None
      | c # r \<Rightarrow> Some (takeWhile (\<lambda>x. x \<noteq> d) (c # r), drop 1 (dropWhile (\<lambda>x. x \<noteq> d) (c # r))))"

text \<open>
  One call of \<open>fgets(line, n, f)\<close> on the unread part of a file: at most \<open>n - 1\<close> bytes, up to
  and including the first newline; NULL at the end of the file.
\<close>

fun fgets_take :: "nat \<Rightarrow> string \<Rightarrow> string \<times> string" where
  "fgets_take 0 cs = ([], cs)"
| "fgets_take (Suc n) [] = ([], [])"
| "fgets_take (Suc n) (c # cs) =
     (if c = CHR 0x0A then ([c], cs)
      else (let (l, r) = fgets_take n cs in (c # l, r)))"

definition fgets :: "nat \<Rightarrow> string \<Rightarrow> (string \<times> string) option" where
  "fgets n cs = (if cs = [] then None else Some (fgets_take (n - 1) cs))"

text \<open>\<open>snprintf(buf, n, ...)\<close> keeps the first \<open>n - 1\<close> bytes of what it formats.\<close>

definition snprintf :: "nat \<Rightarrow> string \<Rightarrow> string" where
  "snprintf n text = take (n - 1) text"

section \<open>Ownership\<close>

text \<open>The items of a list of pointers that are not NULL.\<close>

fun somes :: "'a option list \<Rightarrow> 'a list" where
  "somes [] = []"
| "somes (None # ds) = somes ds"
| "somes (Some x # ds) = x # somes ds"

text \<open>
  What a container relies on when it is given a destructor: called on an object whose blocks are
  live, it gives back exactly the blocks and the sockets the object owns.
\<close>

locale destructor =
  fixes destroy :: "'a \<Rightarrow> os \<Rightarrow> os"
    and own :: "'a \<Rightarrow> nat list"
    and own_socks :: "'a \<Rightarrow> SOCKET set"
  assumes destroy_releases: "distinct (own x) \<Longrightarrow> set (own x) \<subseteq> live s \<Longrightarrow>
    destroy x s = release (set (own x)) (own_socks x) s"
begin

text \<open>All the blocks, and all the sockets, of a list of objects.\<close>

definition owns :: "'a list \<Rightarrow> nat list" where
  "owns xs = concat (map own xs)"

definition owns_socks :: "'a list \<Rightarrow> SOCKET set" where
  "owns_socks xs = \<Union> (own_socks ` set xs)"

lemma owns_simps [simp]:
  "owns [] = []" "owns (x # xs) = own x @ owns xs" "owns (xs @ ys) = owns xs @ owns ys"
  "owns_socks [] = {}" "owns_socks (x # xs) = own_socks x \<union> owns_socks xs"
  "owns_socks (xs @ ys) = owns_socks xs \<union> owns_socks ys"
  by (auto simp: owns_def owns_socks_def)

end

section \<open>Lemmas\<close>

subsection \<open>Resources\<close>

lemma malloc_None:
  assumes "malloc s = (None, s')"
  shows "live s' = live s" "socks s' = socks s" "ub s' = ub s" "next_blk s' = next_blk s"
  using assms by (auto simp: malloc_def split: list.splits bool.splits)

lemma malloc_Some:
  assumes "malloc s = (Some b, s')"
  shows "live s' = insert b (live s)" "socks s' = socks s" "ub s' = ub s"
  using assms by (auto simp: malloc_def split: list.splits bool.splits)

lemma malloc_fresh: "os_ok s \<Longrightarrow> malloc s = (Some b, s') \<Longrightarrow> b \<notin> live s"
  by (auto simp: os_ok_def malloc_def split: list.splits bool.splits)

lemma malloc_ok [os_intros]: "os_ok s \<Longrightarrow> malloc s = (r, s') \<Longrightarrow> os_ok s'"
  by (auto simp: os_ok_def malloc_def less_SucI split: list.splits bool.splits)

lemma malloc_mono: "malloc s = (r, s') \<Longrightarrow> live s \<subseteq> live s'"
  by (cases r) (auto dest: malloc_None malloc_Some)

lemma malloc_oom: "malloc s = (r, s') \<Longrightarrow> set (oom s') \<subseteq> set (oom s)"
  by (auto simp: malloc_def split: list.splits bool.splits)

lemma malloc_succeeds: "True \<notin> set (oom s) \<Longrightarrow> \<exists>b s'. malloc s = (Some b, s') \<and> True \<notin> set (oom s')"
  by (auto simp: malloc_def split: list.splits bool.splits)

lemma free_blk_live [os_simps]: "b \<in> live s \<Longrightarrow> free_blk b s = release {b} {} s"
  by (simp add: free_blk_def release_def)

lemma free_str_live [os_simps]: "sblk h \<in> live s \<Longrightarrow> free_str h s = release {sblk h} {} s"
  by (simp add: free_str_def free_blk_live)

lemma closesocket_release [os_simps]: "closesocket k s = release {} {k} s"
  by (simp add: closesocket_def release_def)

lemma release_release [os_simps]:
  "release B K (release B' K' s) = release (B' \<union> B) (K' \<union> K) s"
  by (simp add: release_def Diff_Un set_diff_eq Un_commute conj_ac)

lemma release_empty [os_simps]: "release {} {} s = s"
  by (simp add: release_def)

lemma release_sel [os_simps]:
  "live (release B K s) = live s - B" "socks (release B K s) = socks s - K"
  "ub (release B K s) = ub s" "next_blk (release B K s) = next_blk s" "oom (release B K s) = oom s"
  by (simp_all add: release_def)

lemma release_ok [os_intros]: "os_ok s \<Longrightarrow> os_ok (release B K s)"
  by (simp add: os_ok_def release_def)

lemma strdup_None:
  assumes "strdup str s = (None, s')"
  shows "live s' = live s" "socks s' = socks s" "ub s' = ub s" "next_blk s' = next_blk s"
  using assms by (auto simp: strdup_def split: prod.splits option.splits dest: malloc_None)

lemma strdup_Some:
  assumes "strdup str s = (Some h, s')"
  shows "chars h = str" "live s' = insert (sblk h) (live s)" "socks s' = socks s" "ub s' = ub s"
  using assms by (auto simp: strdup_def split: prod.splits option.splits dest: malloc_Some)

lemma strdup_ok [os_intros]: "os_ok s \<Longrightarrow> strdup str s = (r, s') \<Longrightarrow> os_ok s'"
  by (auto simp: strdup_def split: prod.splits option.splits intro: os_intros)

lemma strdup_fresh: "os_ok s \<Longrightarrow> strdup str s = (Some h, s') \<Longrightarrow> sblk h \<notin> live s"
  by (auto simp: strdup_def split: prod.splits option.splits dest: malloc_fresh)

lemma fresh_os_ok [simp]: "os_ok fresh_os" "oom fresh_os = []" "live fresh_os = {}" "socks fresh_os = {}"
  by (simp_all add: os_ok_def fresh_os_def)

lemma holds_perm: "mset X = mset Y \<Longrightarrow> holds L K X s \<longleftrightarrow> holds L K Y s"
  unfolding holds_def by (metis mset_eq_imp_distinct_iff mset_eq_setD)

lemma holds_start: "os_ok s \<Longrightarrow> holds (live s) (socks s) [] s"
  by (simp add: holds_def)

lemma holds_end: "holds L K [] s \<longleftrightarrow> os_ok s \<and> live s = L \<and> socks s = K"
  by (auto simp: holds_def)

lemma holds_malloc: "holds L K X s \<Longrightarrow> malloc s = (Some b, s') \<Longrightarrow> holds L K (b # X) s'"
  using malloc_fresh [of s b s'] malloc_ok [of s "Some b" s'] malloc_Some(1,2) [of s b s']
  by (auto simp: holds_def)

lemma holds_strdup: "holds L K X s \<Longrightarrow> strdup str s = (Some h, s') \<Longrightarrow> holds L K (sblk h # X) s'"
  using strdup_fresh [of s str h s'] strdup_ok [of s str "Some h" s'] strdup_Some(2,3) [of str s h s']
  by (auto simp: holds_def)

lemma holds_free: "holds L K (b # X) s \<Longrightarrow> holds L K X (free_blk b s)"
  by (auto simp: holds_def os_simps intro: os_intros)

lemma free_blk_oom [os_simps]: "oom (free_blk b s) = oom s" "socks (free_blk b s) = socks s"
  by (simp_all add: free_blk_def)

lemma strdup_succeeds:
  "True \<notin> set (oom s) \<Longrightarrow> \<exists>h s'. strdup str s = (Some h, s') \<and> chars h = str \<and> True \<notin> set (oom s')"
  using malloc_succeeds [of s] by (auto simp: strdup_def)

subsection \<open>Strings\<close>

lemma c_str_id [simp]: "is_cstr s \<Longrightarrow> c_str s = s"
  by (auto simp: is_cstr_def c_str_def)

lemma is_cstr_c_str [simp]: "is_cstr (c_str s)"
  by (auto simp: is_cstr_def c_str_def dest: set_takeWhileD)

lemma is_cstr_append [simp]: "is_cstr (s @ t) \<longleftrightarrow> is_cstr s \<and> is_cstr t"
  by (auto simp: is_cstr_def)

lemma is_cstr_Nil [simp]: "is_cstr []"
  by (simp add: is_cstr_def)

lemma of_char_digit: "d < 10 \<Longrightarrow> (of_char (digit_char d) :: nat) = 48 + d"
  by (simp add: digit_char_def)

lemma isdigit_digit [simp]: "d < 10 \<Longrightarrow> isdigit (digit_char d)"
  by (simp add: isdigit_def of_char_digit)

lemma digits_value_snoc:
  "\<forall>c \<in> set cs. isdigit c \<Longrightarrow> isdigit d \<Longrightarrow>
   digits_value acc (cs @ [d]) = digits_value acc cs * 10 + (of_char d - 48)"
  by (induction cs arbitrary: acc) auto

lemma string_of_nat_digits: "\<forall>c \<in> set (string_of_nat n). isdigit c"
proof (induction n rule: string_of_nat.induct)
  case (1 n)
  then show ?case by (subst string_of_nat.simps) auto
qed

lemma string_of_nat_length: "0 < k \<Longrightarrow> n < 10 ^ k \<Longrightarrow> length (string_of_nat n) \<le> k"
proof (induction k arbitrary: n)
  case (Suc k)
  show ?case
  proof (cases "n < 10")
    case True
    then show ?thesis by (simp add: string_of_nat.simps [of n])
  next
    case False
    with Suc.prems have "0 < k" "n div 10 < 10 ^ k" by (auto simp: less_mult_imp_div_less mult.commute intro: ccontr)
    from Suc.IH [OF this] False show ?thesis by (simp add: string_of_nat.simps [of n])
  qed
qed simp

lemma of_char_int: "(of_char c :: int) = int (of_char c)"
  by (rule of_nat_of_char [symmetric])

lemma digits_value_string_of_nat: "digits_value 0 (string_of_nat n) = int n"
proof (induction n rule: string_of_nat.induct)
  case (1 n)
  show ?case
  proof (cases "n < 10")
    case True
    then show ?thesis by (simp add: string_of_nat.simps [of n] of_char_int of_char_digit)
  next
    case False
    with 1 have "digits_value 0 (string_of_nat (n div 10)) = int (n div 10)" by simp
    with False show ?thesis
      by (simp add: string_of_nat.simps [of n] digits_value_snoc string_of_nat_digits of_char_int of_char_digit)
        presburger
  qed
qed

lemma string_of_nat_hd: "\<exists>c r. string_of_nat n = c # r \<and> isdigit c"
proof -
  have "string_of_nat n \<noteq> []" by (subst string_of_nat.simps) simp
  with string_of_nat_digits [of n] show ?thesis by (cases "string_of_nat n") auto
qed

lemma isdigit_special: "isdigit c \<Longrightarrow> \<not> isspace c \<and> c \<noteq> CHR ''-'' \<and> c \<noteq> CHR ''+''"
  by (auto simp: isdigit_def isspace_def Let_def)

text \<open>What is printed with \<open>%u\<close> is read back by \<open>atoi\<close>.\<close>

lemma atoi_string_of_nat: "n < 2 ^ 31 \<Longrightarrow> atoi (string_of_nat n) = int n"
proof -
  assume n: "n < 2 ^ 31"
  obtain c r where c: "string_of_nat n = c # r" "isdigit c" using string_of_nat_hd by blast
  with isdigit_special [OF c(2)] have "atoi (string_of_nat n) = min (2 ^ 31 - 1) (digits_value 0 (c # r))"
    by (simp add: atoi_def)
  with n c(1) digits_value_string_of_nat [of n] show ?thesis by simp
qed

lemma fgets_take_append: "fgets_take n cs = (l, r) \<Longrightarrow> cs = l @ r"
  by (induction n cs arbitrary: l r rule: fgets_take.induct) (auto split: if_splits prod.splits)

lemma fgets_take_length: "fgets_take n cs = (l, r) \<Longrightarrow> length l \<le> n"
  by (induction n cs arbitrary: l r rule: fgets_take.induct) (auto split: if_splits prod.splits)

lemma fgets_shorter:
  assumes "fgets n cs = Some (l, r)" and "2 \<le> n"
  shows "length r < length cs"
proof -
  from assms(1) obtain c cs' where cs: "cs = c # cs'"
    by (auto simp: fgets_def neq_Nil_conv split: if_splits)
  from assms(2) obtain k where k: "n - Suc 0 = Suc k" by (cases "n - Suc 0") auto
  from assms(1) have t: "fgets_take (Suc k) (c # cs') = (l, r)" by (simp add: fgets_def cs k)
  then have "l \<noteq> []" by (auto split: if_splits prod.splits)
  moreover from fgets_take_append [OF t] have "length cs = length l + length r"
    by (metis cs length_append)
  ultimately show ?thesis by simp
qed

subsection \<open>Ownership\<close>

lemma set_somes: "set (somes ds) = {x. Some x \<in> set ds}"
  by (induction ds rule: somes.induct) auto

lemma somes_append [simp]: "somes (xs @ ys) = somes xs @ somes ys"
  by (induction xs rule: somes.induct) auto

lemma mset_concat_upd:
  assumes "i < length bs"
  shows "mset (concat (bs[i := c])) + mset (bs ! i) = mset (concat bs) + mset c"
proof -
  have "mset (concat bs) = mset (concat (take i bs @ bs ! i # drop (Suc i) bs))"
    using assms by (simp add: id_take_nth_drop [symmetric])
  with assms show ?thesis by (simp add: upd_conv_take_nth_drop)
qed

lemma somes_Some [simp]: "somes (map Some xs) = xs"
  by (induction xs) auto

interpretation str: destructor free_str "\<lambda>h. [sblk h]" "\<lambda>h. {}"
  by unfold_locales (simp add: free_str_live)

end
