(* ===== verification/HashMap.thy ===== *)
theory HashMap
  imports Prelude "HOL-Library.Log_Nat"
begin

text \<open>
  \<open>Common/hashmap.c\<close>: the hash map with separate chaining, a pluggable hash function, key
  equality and destructors, that doubles its bucket array when the load factor would pass 0.75.
  A chain is owned by its bucket alone, so it is the list of its nodes.  A NULL map, key or
  value pointer is \<open>None\<close>.  The lemmas show that the structure implements a finite map modulo
  the key equality (locale \<open>hash_key\<close>), through every resize, and gives back every block.
\<close>

section \<open>Data\<close>

record ('k, 'v) HashNode =
  blk :: nat
  key :: 'k
  val :: "'v option"

record ('k, 'v) HashMap =
  buckets :: "('k, 'v) HashNode list list"
  capacity :: nat
  hsize :: nat
  hashFunc :: "'k \<Rightarrow> size_t"
  keyEqFunc :: "'k \<Rightarrow> 'k \<Rightarrow> bool"
  freeKeyFunc :: "('k \<Rightarrow> os \<Rightarrow> os) option"
  freeValueFunc :: "('v option \<Rightarrow> os \<Rightarrow> os) option"
  map_blk :: nat
  buckets_blk :: nat

section \<open>The load factor test\<close>

text \<open>
  The code computes \<open>(float)(size + 1) / (float)capacity <= 0.75f\<close> in single precision.
  Converting a count rounds it to 24 significant bits (to nearest, ties to even).  The quotient
  is rounded too: the single next to 0.75 is \<open>0.75 + 2^-24\<close>, and the midpoint \<open>0.75 + 2^-25\<close>
  rounds down, to the even significand of 0.75; so the rounded quotient \<open>a / b\<close> is at most 0.75
  exactly when \<open>a / b \<le> 0.75 + 2^-25\<close>, which is the second definition cleared of fractions.
\<close>

definition f32_of_nat :: "nat \<Rightarrow> nat" where
  "f32_of_nat n =
     (let e = floorlog 2 n - 24; q = n div 2 ^ e; r = n mod 2 ^ e; half = 2 ^ e div 2
      in (if half < r \<or> (r = half \<and> 0 < e \<and> odd q) then q + 1 else q) * 2 ^ e)"

definition f32_ratio_le_075 :: "nat \<Rightarrow> nat \<Rightarrow> bool" where
  "f32_ratio_le_075 a b \<longleftrightarrow> f32_of_nat a * 2 ^ 25 \<le> f32_of_nat b * (3 * 2 ^ 23 + 1)"

section \<open>Operations\<close>

definition calloc :: "nat \<Rightarrow> nat \<Rightarrow> os \<Rightarrow> nat option \<times> os" where
  "calloc n sz s = (if n * sz < 2 ^ 64 then malloc s else (None, s))"

definition bucket_index :: "('k \<Rightarrow> size_t) \<Rightarrow> nat \<Rightarrow> 'k \<Rightarrow> nat" where
  "bucket_index hf cap k = unat (hf k) mod cap"

text \<open>Calling an optional destructor.\<close>

definition call_free :: "('a \<Rightarrow> os \<Rightarrow> os) option \<Rightarrow> 'a \<Rightarrow> os \<Rightarrow> os" where
  "call_free f x s = (case f of None \<Rightarrow> s | Some g \<Rightarrow> g x s)"

text \<open>Moving one chain, then all chains, to the new bucket array: each node goes to the head.\<close>

fun rehash_chain :: "('k \<Rightarrow> size_t) \<Rightarrow> nat \<Rightarrow> ('k, 'v) HashNode list \<Rightarrow>
    ('k, 'v) HashNode list list \<Rightarrow> ('k, 'v) HashNode list list" where
  "rehash_chain hf newCap [] nb = nb"
| "rehash_chain hf newCap (node # rest) nb =
     (let idx = bucket_index hf newCap (key node)
      in rehash_chain hf newCap rest (nb[idx := node # nb ! idx]))"

fun rehash :: "('k \<Rightarrow> size_t) \<Rightarrow> nat \<Rightarrow> ('k, 'v) HashNode list list \<Rightarrow>
    ('k, 'v) HashNode list list \<Rightarrow> ('k, 'v) HashNode list list" where
  "rehash hf newCap [] nb = nb"
| "rehash hf newCap (chain # rest) nb = rehash hf newCap rest (rehash_chain hf newCap chain nb)"

definition resize_if_needed :: "('k, 'v) HashMap \<Rightarrow> os \<Rightarrow> bool \<times> ('k, 'v) HashMap \<times> os" where
  "resize_if_needed m s =
     (if f32_ratio_le_075 (hsize m + 1) (capacity m) then (True, m, s)
      else
        (let newCap = (capacity m * 2) mod 2 ^ 64
         in (case calloc newCap 8 s of
               (None, s) \<Rightarrow> (False, m, s)
             | (Some nb, s) \<Rightarrow>
                 (let newBuckets = rehash (hashFunc m) newCap (take (capacity m) (buckets m)) (replicate newCap []);
                      s = free_blk (buckets_blk m) s
                  in (True, m\<lparr>buckets := newBuckets, capacity := newCap, buckets_blk := nb\<rparr>, s)))))"

definition hashmap_create :: "nat \<Rightarrow> ('k \<Rightarrow> size_t) option \<Rightarrow> ('k \<Rightarrow> 'k \<Rightarrow> bool) option \<Rightarrow>
    ('k \<Rightarrow> os \<Rightarrow> os) option \<Rightarrow> ('v option \<Rightarrow> os \<Rightarrow> os) option \<Rightarrow> os \<Rightarrow> ('k, 'v) HashMap option \<times> os" where
  "hashmap_create cap hf eq fk fv s =
     (case (hf, eq) of
        (Some hf, Some eq) \<Rightarrow>
          (if cap = 0 then (None, s)
           else
             (case malloc s of
                (None, s) \<Rightarrow> (None, s)
              | (Some b, s) \<Rightarrow>
                  (case calloc cap 8 s of
                     (None, s) \<Rightarrow> (None, free_blk b s)
                   | (Some bb, s) \<Rightarrow>
                       (Some \<lparr>buckets = replicate cap [], capacity = cap, hsize = 0, hashFunc = hf,
                              keyEqFunc = eq, freeKeyFunc = fk, freeValueFunc = fv,
                              map_blk = b, buckets_blk = bb\<rparr>, s))))
      | _ \<Rightarrow> (None, s))"

text \<open>The scan of \<open>hashmap_put\<close>: \<open>None\<close> when no node of the chain has the key.\<close>

fun put_loop :: "('k \<Rightarrow> 'k \<Rightarrow> bool) \<Rightarrow> ('k \<Rightarrow> os \<Rightarrow> os) option \<Rightarrow> ('v option \<Rightarrow> os \<Rightarrow> os) option \<Rightarrow>
    'k \<Rightarrow> 'v option \<Rightarrow> ('k, 'v) HashNode list \<Rightarrow> os \<Rightarrow> (('k, 'v) HashNode list \<times> os) option" where
  "put_loop eq fk fv k v [] s = None"
| "put_loop eq fk fv k v (node # rest) s =
     (if eq (key node) k then
        Some (node\<lparr>val := v\<rparr> # rest, call_free fk k (call_free fv (val node) s))
      else map_option (\<lambda>(c, s). (node # c, s)) (put_loop eq fk fv k v rest s))"

definition hashmap_put :: "('k, 'v) HashMap option \<Rightarrow> 'k option \<Rightarrow> 'v option \<Rightarrow> os \<Rightarrow>
    int \<times> ('k, 'v) HashMap option \<times> os" where
  "hashmap_put mp kp v s =
     (case (mp, kp) of
        (Some m, Some k) \<Rightarrow>
          (case resize_if_needed m s of
             (False, m, s) \<Rightarrow> (- 1, Some m, s)
           | (True, m, s) \<Rightarrow>
               (let idx = bucket_index (hashFunc m) (capacity m) k
                in (case put_loop (keyEqFunc m) (freeKeyFunc m) (freeValueFunc m) k v (buckets m ! idx) s of
                      Some (chain, s) \<Rightarrow> (0, Some (m\<lparr>buckets := (buckets m)[idx := chain]\<rparr>), s)
                    | None \<Rightarrow>
                        (case malloc s of
                           (None, s) \<Rightarrow> (- 1, Some m, s)
                         | (Some b, s) \<Rightarrow>
                             (0, Some (m\<lparr>buckets := (buckets m)[idx := \<lparr>blk = b, key = k, val = v\<rparr> # buckets m ! idx],
                                        hsize := hsize m + 1\<rparr>), s)))))
      | _ \<Rightarrow> (- 1, mp, s))"

fun get_loop :: "('k \<Rightarrow> 'k \<Rightarrow> bool) \<Rightarrow> 'k \<Rightarrow> ('k, 'v) HashNode list \<Rightarrow> 'v option" where
  "get_loop eq k [] = None"
| "get_loop eq k (node # rest) = (if eq (key node) k then val node else get_loop eq k rest)"

definition hashmap_get :: "('k, 'v) HashMap option \<Rightarrow> 'k option \<Rightarrow> 'v option" where
  "hashmap_get mp kp =
     (case (mp, kp) of
        (Some m, Some k) \<Rightarrow>
          get_loop (keyEqFunc m) k (buckets m ! bucket_index (hashFunc m) (capacity m) k)
      | _ \<Rightarrow> None)"

text \<open>The scan of \<open>hashmap_remove\<close>: the chain without the node, and the node.\<close>

fun remove_loop :: "('k \<Rightarrow> 'k \<Rightarrow> bool) \<Rightarrow> 'k \<Rightarrow> ('k, 'v) HashNode list \<Rightarrow>
    (('k, 'v) HashNode list \<times> ('k, 'v) HashNode) option" where
  "remove_loop eq k [] = None"
| "remove_loop eq k (node # rest) =
     (if eq (key node) k then Some (rest, node)
      else map_option (\<lambda>(c, n). (node # c, n)) (remove_loop eq k rest))"

definition hashmap_remove :: "('k, 'v) HashMap option \<Rightarrow> 'k option \<Rightarrow> os \<Rightarrow>
    bool \<times> ('k, 'v) HashMap option \<times> os" where
  "hashmap_remove mp kp s =
     (case (mp, kp) of
        (Some m, Some k) \<Rightarrow>
          (let idx = bucket_index (hashFunc m) (capacity m) k
           in (case remove_loop (keyEqFunc m) k (buckets m ! idx) of
                 None \<Rightarrow> (False, Some m, s)
               | Some (chain, node) \<Rightarrow>
                   (let s = call_free (freeKeyFunc m) (key node) s;
                        s = call_free (freeValueFunc m) (val node) s;
                        s = free_blk (blk node) s
                    in (True, Some (m\<lparr>buckets := (buckets m)[idx := chain], hsize := hsize m - 1\<rparr>), s))))
      | _ \<Rightarrow> (False, mp, s))"

definition hashmap_contains :: "('k, 'v) HashMap option \<Rightarrow> 'k option \<Rightarrow> bool" where
  "hashmap_contains mp kp \<longleftrightarrow> hashmap_get mp kp \<noteq> None"

definition hashmap_size :: "('k, 'v) HashMap option \<Rightarrow> nat" where
  "hashmap_size mp = (case mp of None \<Rightarrow> 0 | Some m \<Rightarrow> hsize m)"

fun destroy_chain :: "('k \<Rightarrow> os \<Rightarrow> os) option \<Rightarrow> ('v option \<Rightarrow> os \<Rightarrow> os) option \<Rightarrow>
    ('k, 'v) HashNode list \<Rightarrow> os \<Rightarrow> os" where
  "destroy_chain fk fv [] s = s"
| "destroy_chain fk fv (node # rest) s =
     destroy_chain fk fv rest (free_blk (blk node) (call_free fv (val node) (call_free fk (key node) s)))"

definition hashmap_destroy :: "('k, 'v) HashMap option \<Rightarrow> os \<Rightarrow> os" where
  "hashmap_destroy mp s =
     (case mp of
        None \<Rightarrow> s
      | Some m \<Rightarrow>
          (let s = fold (destroy_chain (freeKeyFunc m) (freeValueFunc m)) (take (capacity m) (buckets m)) s
           in free_blk (map_blk m) (free_blk (buckets_blk m) s)))"

section \<open>The load factor\<close>

lemma f32_of_nat_exact: "n < 2 ^ 24 \<Longrightarrow> f32_of_nat n = n"
proof -
  assume "n < 2 ^ 24"
  then have "floorlog 2 n \<le> 24" by (intro floorlog_leI) auto
  then show ?thesis by (simp add: f32_of_nat_def)
qed

lemma f32_ratio_exact:
  assumes "a < 2 ^ 24" "b < 2 ^ 23"
  shows "f32_ratio_le_075 a b \<longleftrightarrow> 4 * a \<le> 3 * b"
  using assms by (auto simp: f32_ratio_le_075_def f32_of_nat_exact)

section \<open>The representation invariant\<close>

definition hm_nodes :: "('k, 'v) HashMap \<Rightarrow> ('k, 'v) HashNode list" where
  "hm_nodes m = concat (buckets m)"

definition hm_ok :: "('k, 'v) HashMap \<Rightarrow> bool" where
  "hm_ok m \<longleftrightarrow>
     0 < capacity m \<and> capacity m * 8 < 2 ^ 64 \<and> length (buckets m) = capacity m \<and>
     hsize m = length (hm_nodes m) \<and>
     (\<forall>i < capacity m. \<forall>n \<in> set (buckets m ! i). bucket_index (hashFunc m) (capacity m) (key n) = i) \<and>
     distinct (map (\<lambda>n. keyEqFunc m (key n)) (hm_nodes m))"

definition placed :: "('k \<Rightarrow> size_t) \<Rightarrow> ('k, 'v) HashNode list list \<Rightarrow> bool" where
  "placed hf bs \<longleftrightarrow> (\<forall>i < length bs. \<forall>n \<in> set (bs ! i). bucket_index hf (length bs) (key n) = i)"

lemma hm_ok_placed:
  "hm_ok m \<longleftrightarrow> 0 < capacity m \<and> capacity m * 8 < 2 ^ 64 \<and> length (buckets m) = capacity m \<and>
     hsize m = length (hm_nodes m) \<and> placed (hashFunc m) (buckets m) \<and>
     distinct (map (\<lambda>n. keyEqFunc m (key n)) (hm_nodes m))"
  by (auto simp: hm_ok_def placed_def)

lemma placed_upd:
  assumes "placed hf bs" "\<And>n. n \<in> set c \<Longrightarrow> bucket_index hf (length bs) (key n) = i"
  shows "placed hf (bs[i := c])"
  unfolding placed_def
proof (intro allI impI ballI)
  fix j n assume "j < length (bs[i := c])" "n \<in> set (bs[i := c] ! j)"
  with assms show "bucket_index hf (length (bs[i := c])) (key n) = j"
    by (cases "j = i") (auto simp: placed_def)
qed

lemma bucket_index_less: "0 < cap \<Longrightarrow> bucket_index hf cap k < cap"
  by (simp add: bucket_index_def)

lemma rehash_chain_spec:
  assumes "0 < length nb" "placed hf nb"
  shows "placed hf (rehash_chain hf (length nb) c nb) \<and>
    length (rehash_chain hf (length nb) c nb) = length nb \<and>
    mset (concat (rehash_chain hf (length nb) c nb)) = mset c + mset (concat nb)"
  using assms
proof (induction c arbitrary: nb)
  case (Cons node c)
  let ?i = "bucket_index hf (length nb) (key node)"
  let ?nb = "nb[?i := node # nb ! ?i]"
  from Cons.prems(1) have i: "?i < length nb" by (rule bucket_index_less)
  with Cons.prems have "placed hf ?nb" by (intro placed_upd) (auto simp: placed_def)
  moreover from i have "mset (concat ?nb) = add_mset node (mset (concat nb))"
    using mset_concat_upd [of ?i nb "node # nb ! ?i"] by simp
  ultimately show ?case using Cons.IH [of ?nb] Cons.prems(1) by (simp add: Let_def)
qed simp

lemma rehash_spec:
  assumes "0 < length nb" "placed hf nb"
  shows "placed hf (rehash hf (length nb) cs nb) \<and> length (rehash hf (length nb) cs nb) = length nb \<and>
    mset (concat (rehash hf (length nb) cs nb)) = mset (concat cs) + mset (concat nb)"
  using assms
proof (induction cs arbitrary: nb)
  case (Cons c cs)
  let ?nb = "rehash_chain hf (length nb) c nb"
  from rehash_chain_spec [OF Cons.prems] have nb: "placed hf ?nb" "length ?nb = length nb"
    "mset (concat ?nb) = mset c + mset (concat nb)" by auto
  with Cons.IH [of ?nb] Cons.prems(1) show ?case by simp
qed simp

lemma distinct_map_mset: "mset xs = mset ys \<Longrightarrow> distinct (map f xs) = distinct (map f ys)"
  by (metis mset_eq_imp_distinct_iff mset_map)

lemma distinct_map_add_mset:
  assumes "mset xs = add_mset n (mset ys)"
  shows "distinct (map f xs) \<longleftrightarrow> f n \<notin> f ` set ys \<and> distinct (map f ys)"
  using assms distinct_map_mset [of xs "n # ys" f] by simp

text \<open>Fields that no operation on an existing map changes.\<close>

definition same_funcs :: "('k, 'v) HashMap \<Rightarrow> ('k, 'v) HashMap \<Rightarrow> bool" where
  "same_funcs m m' \<longleftrightarrow> hashFunc m' = hashFunc m \<and> keyEqFunc m' = keyEqFunc m \<and>
     freeKeyFunc m' = freeKeyFunc m \<and> freeValueFunc m' = freeValueFunc m \<and> map_blk m' = map_blk m"

lemma same_funcs_refl [simp]: "same_funcs m m"
  by (simp add: same_funcs_def)

lemma resize_spec:
  assumes "hm_ok m" and "resize_if_needed m s = (b, m', s')"
  shows "hm_ok m' \<and> same_funcs m m' \<and> mset (hm_nodes m') = mset (hm_nodes m)"
proof (cases "f32_ratio_le_075 (hsize m + 1) (capacity m) \<or> fst (calloc ((capacity m * 2) mod 2 ^ 64) 8 s) = None")
  case True
  with assms show ?thesis by (auto simp: resize_if_needed_def Let_def split: if_splits prod.splits option.splits)
next
  case False
  let ?nc = "capacity m * 2"
  from assms(1) have cap: "0 < capacity m" "capacity m * 8 < 2 ^ 64" "length (buckets m) = capacity m"
    by (auto simp: hm_ok_def)
  then have nc: "?nc mod 2 ^ 64 = ?nc" "0 < ?nc" by auto
  from False nc obtain nb t where c: "calloc ?nc 8 s = (Some nb, t)" by (cases "calloc ?nc 8 s") auto
  then have small: "?nc * 8 < 2 ^ 64" by (auto simp: calloc_def split: if_splits)
  define bs where "bs = rehash (hashFunc m) ?nc (take (capacity m) (buckets m)) (replicate ?nc [])"
  from rehash_spec [of "replicate ?nc []" "hashFunc m" "buckets m"] nc(2) cap(3)
  have bs: "placed (hashFunc m) bs" "length bs = ?nc" "mset (concat bs) = mset (hm_nodes m)"
    by (auto simp: bs_def placed_def hm_nodes_def concat_replicate_trivial)
  from assms(2) False nc c have m': "m' = m\<lparr>buckets := bs, capacity := ?nc, buckets_blk := nb\<rparr>"
    by (auto simp: resize_if_needed_def bs_def Let_def split: prod.splits option.splits)
  from bs(3) have "length (concat bs) = length (hm_nodes m)" by (metis size_mset)
  with assms(1) bs small nc(2) distinct_map_mset [OF bs(3), of "\<lambda>n. keyEqFunc m (key n)"]
  show ?thesis by (simp add: m' hm_ok_placed same_funcs_def hm_nodes_def)
qed

section \<open>The map a structure implements\<close>

text \<open>
  What a client of the map has to provide: an equality of keys that is an equivalence and a hash
  function that does not tell equal keys apart.
\<close>

locale hash_key =
  fixes hf :: "'k \<Rightarrow> size_t" and eq :: "'k \<Rightarrow> 'k \<Rightarrow> bool"
  assumes eq_refl: "eq a a"
    and eq_sym: "eq a b \<Longrightarrow> eq b a"
    and eq_trans: "eq a b \<Longrightarrow> eq b c \<Longrightarrow> eq a c"
    and eq_hash: "eq a b \<Longrightarrow> hf a = hf b"
begin

definition hm_for :: "('k, 'v) HashMap \<Rightarrow> bool" where
  "hm_for m \<longleftrightarrow> hm_ok m \<and> hashFunc m = hf \<and> keyEqFunc m = eq"

text \<open>The entry of a key: the value stored under it, which may be a NULL pointer.\<close>

definition entry :: "('k, 'v) HashMap \<Rightarrow> 'k \<Rightarrow> 'v option \<Rightarrow> bool" where
  "entry m k v \<longleftrightarrow> (\<exists>n \<in> set (hm_nodes m). eq (key n) k \<and> val n = v)"

lemma eq_class: "eq a b \<longleftrightarrow> eq a = eq b"
proof
  assume "eq a b"
  then show "eq a = eq b" using eq_sym eq_trans by (intro ext) blast
next
  assume "eq a = eq b"
  then show "eq a b" using eq_refl by simp
qed

lemma node_unique:
  assumes "hm_for m" "n \<in> set (hm_nodes m)" "n' \<in> set (hm_nodes m)" "eq (key n) k" "eq (key n') k"
  shows "n = n'"
proof -
  from assms(1) have "inj_on (\<lambda>n. eq (key n)) (set (hm_nodes m))"
    by (auto simp: hm_for_def hm_ok_def distinct_map)
  with assms show ?thesis by (metis eq_class inj_on_def)
qed

lemma node_bucket:
  assumes "hm_for m" "eq (key n) k"
  shows "n \<in> set (hm_nodes m) \<longleftrightarrow> n \<in> set (buckets m ! bucket_index hf (capacity m) k)"
proof -
  have idx: "bucket_index hf (capacity m) (key n) = bucket_index hf (capacity m) k"
    by (simp add: bucket_index_def eq_hash [OF assms(2)])
  from assms(1) have m: "length (buckets m) = capacity m" "placed hf (buckets m)" "0 < capacity m"
    by (auto simp: hm_for_def hm_ok_placed)
  show ?thesis
  proof
    assume "n \<in> set (hm_nodes m)"
    then obtain i where "i < length (buckets m)" "n \<in> set (buckets m ! i)"
      by (metis hm_nodes_def UN_iff in_set_conv_nth set_concat)
    with m idx show "n \<in> set (buckets m ! bucket_index hf (capacity m) k)" by (auto simp: placed_def)
  next
    assume "n \<in> set (buckets m ! bucket_index hf (capacity m) k)"
    with m bucket_index_less [OF m(3), of hf k] show "n \<in> set (hm_nodes m)"
      by (auto simp: hm_nodes_def intro: nth_mem)
  qed
qed

lemma get_loop_None: "(\<And>n. n \<in> set c \<Longrightarrow> \<not> eq (key n) k) \<Longrightarrow> get_loop eq k c = None"
  by (induction c) auto

lemma get_loop_Some:
  "\<exists>n \<in> set c. eq (key n) k \<Longrightarrow> \<exists>n \<in> set c. eq (key n) k \<and> get_loop eq k c = val n"
  by (induction c) auto

lemma get_entry:
  assumes "hm_for m" "entry m k v"
  shows "hashmap_get (Some m) (Some k) = v"
proof -
  let ?c = "buckets m ! bucket_index hf (capacity m) k"
  from assms obtain n where n: "n \<in> set ?c" "eq (key n) k" "val n = v"
    by (auto simp: entry_def node_bucket [OF assms(1)])
  then obtain n' where "n' \<in> set ?c" "eq (key n') k" "get_loop eq k ?c = val n'"
    using get_loop_Some [of ?c k] by blast
  with n node_unique [OF assms(1), of n n' k] node_bucket [OF assms(1)] assms(1) show ?thesis
    by (auto simp: hashmap_get_def hm_for_def)
qed

lemma get_no_entry:
  assumes "hm_for m" "\<And>v. \<not> entry m k v"
  shows "hashmap_get (Some m) (Some k) = None"
proof -
  from assms have "get_loop eq k (buckets m ! bucket_index hf (capacity m) k) = None"
    by (intro get_loop_None) (metis entry_def node_bucket)
  with assms(1) show ?thesis by (simp add: hashmap_get_def hm_for_def)
qed

lemma entry_unique: "hm_for m \<Longrightarrow> entry m k v \<Longrightarrow> entry m k v' \<Longrightarrow> v = v'"
  using get_entry by blast

lemma get_eq: "hm_for m \<Longrightarrow> eq k k' \<Longrightarrow> hashmap_get (Some m) (Some k) = hashmap_get (Some m) (Some k')"
  by (cases "\<exists>v. entry m k v") (metis entry_def eq_sym eq_trans get_entry get_no_entry)+

text \<open>Two structures with the same entries answer alike.\<close>

lemma get_cong:
  assumes "hm_for m" "hm_for m'" "\<And>v. entry m k v \<longleftrightarrow> entry m' k v"
  shows "hashmap_get (Some m) (Some k) = hashmap_get (Some m') (Some k)"
  using assms get_entry get_no_entry by metis

lemma hm_for_resize:
  assumes "hm_for m" "resize_if_needed m s = (b, m', s')"
  shows "hm_for m' \<and> (\<forall>k v. entry m' k v = entry m k v) \<and> same_funcs m m'"
proof -
  from assms(1) resize_spec [OF _ assms(2)] have r: "hm_ok m'" "same_funcs m m'" "mset (hm_nodes m') = mset (hm_nodes m)"
    by (auto simp: hm_for_def)
  from r(3) have "set (hm_nodes m') = set (hm_nodes m)" by (metis set_mset_mset)
  with r assms(1) show ?thesis by (auto simp: hm_for_def same_funcs_def entry_def)
qed

end

section \<open>Insertion and removal\<close>

lemma put_loop_Some:
  assumes "put_loop eq fk fv k v c s = Some (c', s')"
  shows "\<exists>xs n ys. c = xs @ n # ys \<and> c' = xs @ n\<lparr>val := v\<rparr> # ys \<and> eq (key n) k \<and>
    s' = call_free fk k (call_free fv (val n) s)"
  using assms
proof (induction c arbitrary: c' s')
  case (Cons a c)
  show ?case
  proof (cases "eq (key a) k")
    case True
    with Cons.prems show ?thesis by (auto intro: exI [of _ "[]"])
  next
    case False
    with Cons.prems obtain c'' where p: "put_loop eq fk fv k v c s = Some (c'', s')" "c' = a # c''"
      by auto
    from Cons.IH [OF p(1)] obtain xs n ys where "c = xs @ n # ys" "c'' = xs @ n\<lparr>val := v\<rparr> # ys"
      "eq (key n) k" "s' = call_free fk k (call_free fv (val n) s)" by blast
    with p(2) show ?thesis by (intro exI [of _ "a # xs"]) auto
  qed
qed simp

lemma put_loop_None: "put_loop eq fk fv k v c s = None \<longleftrightarrow> (\<forall>n \<in> set c. \<not> eq (key n) k)"
  by (induction c) auto

lemma remove_loop_Some:
  assumes "remove_loop eq k c = Some (c', n)"
  shows "\<exists>xs ys. c = xs @ n # ys \<and> c' = xs @ ys \<and> eq (key n) k"
  using assms
proof (induction c arbitrary: c')
  case (Cons a c)
  show ?case
  proof (cases "eq (key a) k")
    case True
    with Cons.prems show ?thesis by (auto intro: exI [of _ "[]"])
  next
    case False
    with Cons.prems obtain c'' where p: "remove_loop eq k c = Some (c'', n)" "c' = a # c''" by auto
    from Cons.IH [OF p(1)] obtain xs ys where "c = xs @ n # ys" "c'' = xs @ ys" "eq (key n) k" by blast
    with p(2) show ?thesis by (metis append_Cons)
  qed
qed simp

lemma remove_loop_None: "remove_loop eq k c = None \<longleftrightarrow> (\<forall>n \<in> set c. \<not> eq (key n) k)"
  by (induction c) auto

text \<open>Replacing one chain of a map.\<close>

lemma mset_concat_mid:
  assumes "i < length bs" "bs ! i = xs @ n # ys"
  shows "mset (concat (bs[i := xs @ c @ ys])) = mset c + mset (concat (bs[i := xs @ ys]))"
    and "mset (concat bs) = add_mset n (mset (concat (bs[i := xs @ ys])))"
proof -
  have c: "mset (concat (bs[i := xs @ c @ ys])) = mset c + mset (concat (bs[i := xs @ ys]))" for c
  proof (rule add_right_imp_eq)
    show "mset (concat (bs[i := xs @ c @ ys])) + mset (bs ! i) =
        mset c + mset (concat (bs[i := xs @ ys])) + mset (bs ! i)"
      unfolding add.assoc mset_concat_upd [OF assms(1)] by (simp add: ac_simps)
  qed
  then show "mset (concat (bs[i := xs @ c @ ys])) = mset c + mset (concat (bs[i := xs @ ys]))" .
  from c [of "[n]"] show "mset (concat bs) = add_mset n (mset (concat (bs[i := xs @ ys])))"
    using assms by simp (metis list_update_id assms(2))
qed

lemma hm_nodes_upd:
  assumes "i < length (buckets m)" "buckets m ! i = xs @ n # ys"
  obtains rest where "mset (hm_nodes m) = add_mset n (mset rest)"
    "\<And>c. mset (concat ((buckets m)[i := xs @ c @ ys])) = mset c + mset rest"
  using mset_concat_mid [OF assms] unfolding hm_nodes_def by blast

context hash_key
begin

text \<open>The two ways \<open>hashmap_put\<close> changes a chain, once the array is large enough.\<close>

lemma put_update:
  assumes "hm_for m" "i = bucket_index hf (capacity m) k" "buckets m ! i = xs @ n # ys" "eq (key n) k"
    and "m' = m\<lparr>buckets := (buckets m)[i := xs @ n\<lparr>val := v\<rparr> # ys]\<rparr>"
  shows "hm_for m' \<and> (\<forall>k' v'. entry m' k' v' \<longleftrightarrow> (if eq k k' then v' = v else entry m k' v'))"
proof -
  from assms(1) have m: "hm_ok m" "length (buckets m) = capacity m" "0 < capacity m"
    "hashFunc m = hf" "keyEqFunc m = eq" by (auto simp: hm_for_def hm_ok_def)
  then have i: "i < length (buckets m)" by (simp add: assms(2) bucket_index_less)
  obtain rest where "mset (hm_nodes m) = add_mset n (mset rest)"
    "\<And>c. mset (concat ((buckets m)[i := xs @ c @ ys])) = mset c + mset rest"
    using hm_nodes_upd [OF i assms(3)] by metis
  from this(1) this(2) [of "[n\<lparr>val := v\<rparr>]"]
  have r: "mset (hm_nodes m) = add_mset n (mset rest)" "mset (hm_nodes m') = add_mset (n\<lparr>val := v\<rparr>) (mset rest)"
    by (simp_all add: assms(5) hm_nodes_def)
  have "distinct (map (\<lambda>n. eq (key n)) (hm_nodes m))" using m by (simp add: hm_ok_def)
  then have d: "eq (key n) \<notin> (\<lambda>n. eq (key n)) ` set rest" "distinct (map (\<lambda>n. eq (key n)) (hm_nodes m'))"
    by (simp_all add: distinct_map_add_mset [OF r(1)] distinct_map_add_mset [OF r(2)])
  have "placed hf (buckets m')" unfolding assms(5)
    using m assms(3) i by (simp, intro placed_upd) (auto simp: hm_ok_placed placed_def)
  moreover have "length (hm_nodes m') = length (hm_nodes m)" using r by (metis size_add_mset size_mset)
  ultimately have ok: "hm_for m'" using m d(2) by (simp add: hm_for_def hm_ok_placed assms(5))
  from d(1) assms(4) have others: "n' \<in> set rest \<Longrightarrow> \<not> eq (key n') k" for n' by (metis eq_class imageI)
  have nodes: "set (hm_nodes m') = insert (n\<lparr>val := v\<rparr>) (set rest)" "set (hm_nodes m) = insert n (set rest)"
    by (metis r set_mset_add_mset_insert set_mset_mset)+
  have "entry m' k' v' \<longleftrightarrow> (if eq k k' then v' = v else entry m k' v')" for k' v'
  proof (cases "eq k k'")
    case True
    then have "eq (key n') k' \<longleftrightarrow> eq (key n') k" for n' by (metis eq_sym eq_trans)
    with True others assms(4) show ?thesis by (auto simp: entry_def nodes)
  next
    case False
    with assms(4) have "\<not> eq (key n) k'" by (metis eq_sym eq_trans)
    with False show ?thesis by (auto simp: entry_def nodes)
  qed
  with ok show ?thesis by blast
qed

lemma put_new:
  assumes "hm_for m" "i = bucket_index hf (capacity m) k" "\<forall>n \<in> set (buckets m ! i). \<not> eq (key n) k"
    and "m' = m\<lparr>buckets := (buckets m)[i := \<lparr>blk = b, key = k, val = v\<rparr> # buckets m ! i], hsize := hsize m + 1\<rparr>"
  shows "hm_for m' \<and> (\<forall>k' v'. entry m' k' v' \<longleftrightarrow> (if eq k k' then v' = v else entry m k' v'))"
proof -
  let ?n = "\<lparr>blk = b, key = k, val = v\<rparr>"
  from assms(1) have m: "hm_ok m" "length (buckets m) = capacity m" "0 < capacity m"
    "hashFunc m = hf" "keyEqFunc m = eq" by (auto simp: hm_for_def hm_ok_def)
  then have i: "i < length (buckets m)" by (simp add: assms(2) bucket_index_less)
  have r: "mset (hm_nodes m') = add_mset ?n (mset (hm_nodes m))"
    using mset_concat_upd [OF i, of "?n # buckets m ! i"] by (simp add: assms(4) hm_nodes_def)
  have others: "n' \<in> set (hm_nodes m) \<Longrightarrow> \<not> eq (key n') k" for n'
    using assms(3) node_bucket [OF assms(1), of n' k] by (auto simp: assms(2))
  have "eq k \<notin> (\<lambda>n. eq (key n)) ` set (hm_nodes m)"
    using others by (metis (no_types, lifting) eq_class imageE)
  then have d: "distinct (map (\<lambda>n. eq (key n)) (hm_nodes m'))"
    using m by (simp add: distinct_map_add_mset [OF r] hm_ok_def)
  have "placed hf (buckets m')" unfolding assms(4)
    using m i by (simp, intro placed_upd) (auto simp: hm_ok_placed placed_def assms(2))
  moreover have "length (hm_nodes m') = length (hm_nodes m) + 1" using r by (metis Suc_eq_plus1 size_add_mset size_mset)
  ultimately have ok: "hm_for m'" using m d by (simp add: hm_for_def hm_ok_placed assms(4))
  have nodes: "set (hm_nodes m') = insert ?n (set (hm_nodes m))"
    by (metis r set_mset_add_mset_insert set_mset_mset)
  have "entry m' k' v' \<longleftrightarrow> (if eq k k' then v' = v else entry m k' v')" for k' v'
  proof (cases "eq k k'")
    case True
    then have "eq (key n') k' \<longleftrightarrow> eq (key n') k" for n' :: "('k, 'v) HashNode" by (metis eq_sym eq_trans)
    with True others show ?thesis by (auto simp: entry_def nodes)
  next
    case False
    then show ?thesis by (auto simp: entry_def nodes)
  qed
  with ok show ?thesis by blast
qed

end

context hash_key
begin

lemma remove_node:
  assumes "hm_for m" "i = bucket_index hf (capacity m) k" "buckets m ! i = xs @ n # ys" "eq (key n) k"
    and "m' = m\<lparr>buckets := (buckets m)[i := xs @ ys], hsize := hsize m - 1\<rparr>"
  shows "hm_for m' \<and> (\<forall>k' v'. entry m' k' v' \<longleftrightarrow> (if eq k k' then False else entry m k' v')) \<and>
    mset (hm_nodes m) = add_mset n (mset (hm_nodes m'))"
proof -
  from assms(1) have m: "hm_ok m" "length (buckets m) = capacity m" "0 < capacity m"
    "hashFunc m = hf" "keyEqFunc m = eq" by (auto simp: hm_for_def hm_ok_def)
  then have i: "i < length (buckets m)" by (simp add: assms(2) bucket_index_less)
  obtain rest where "mset (hm_nodes m) = add_mset n (mset rest)"
    "\<And>c. mset (concat ((buckets m)[i := xs @ c @ ys])) = mset c + mset rest"
    using hm_nodes_upd [OF i assms(3)] by metis
  from this(1) this(2) [of "[]"]
  have r: "mset (hm_nodes m) = add_mset n (mset (hm_nodes m'))"
    by (simp add: assms(5) hm_nodes_def)
  have "distinct (map (\<lambda>n. eq (key n)) (hm_nodes m))" using m by (simp add: hm_ok_def)
  then have d: "eq (key n) \<notin> (\<lambda>n. eq (key n)) ` set (hm_nodes m')" "distinct (map (\<lambda>n. eq (key n)) (hm_nodes m'))"
    by (simp_all add: distinct_map_add_mset [OF r])
  have "placed hf (buckets m')" unfolding assms(5)
    using m assms(3) i by (simp, intro placed_upd) (auto simp: hm_ok_placed placed_def)
  moreover have "length (hm_nodes m) = length (hm_nodes m') + 1" using r by (metis Suc_eq_plus1 size_add_mset size_mset)
  moreover have "hsize m' = hsize m - 1" "capacity m' = capacity m" "length (buckets m') = length (buckets m)"
    "hashFunc m' = hashFunc m" "keyEqFunc m' = keyEqFunc m" by (simp_all add: assms(5))
  ultimately have ok: "hm_for m'" using m d(2) by (simp add: hm_for_def hm_ok_placed)
  from d(1) assms(4) have others: "n' \<in> set (hm_nodes m') \<Longrightarrow> \<not> eq (key n') k" for n' by (metis eq_class imageI)
  have nodes: "set (hm_nodes m) = insert n (set (hm_nodes m'))"
    by (metis r set_mset_add_mset_insert set_mset_mset)
  have "entry m' k' v' \<longleftrightarrow> (if eq k k' then False else entry m k' v')" for k' v'
  proof (cases "eq k k'")
    case True
    then have "eq (key n') k' \<longleftrightarrow> eq (key n') k" for n' :: "('k, 'v) HashNode" by (metis eq_sym eq_trans)
    with True others show ?thesis by (auto simp: entry_def)
  next
    case False
    with assms(4) have "\<not> eq (key n) k'" by (metis eq_sym eq_trans)
    with False show ?thesis by (auto simp: entry_def nodes)
  qed
  with ok r show ?thesis by blast
qed

text \<open>The specification of \<open>hashmap_put\<close> on every branch.\<close>

lemma put_spec:
  assumes "hm_for m" "hashmap_put (Some m) (Some k) v s = (r, mp', s')"
  shows "\<exists>m'. mp' = Some m' \<and> hm_for m' \<and> same_funcs m m' \<and>
    (r = 0 \<and> (\<forall>k' v'. entry m' k' v' \<longleftrightarrow> (if eq k k' then v' = v else entry m k' v')) \<or>
     r = - 1 \<and> (\<forall>k' v'. entry m' k' v' \<longleftrightarrow> entry m k' v'))"
proof -
  obtain b m1 s1 where z: "resize_if_needed m s = (b, m1, s1)" by (cases "resize_if_needed m s")
  note r = hm_for_resize [OF assms(1) z]
  then have f: "hashFunc m1 = hf" "keyEqFunc m1 = eq" "hm_for m1" by (auto simp: hm_for_def)
  let ?i = "bucket_index hf (capacity m1) k"
  show ?thesis
  proof (cases b)
    case False
    with assms(2) z r show ?thesis by (auto simp: hashmap_put_def)
  next
    case True
    show ?thesis
    proof (cases "put_loop eq (freeKeyFunc m1) (freeValueFunc m1) k v (buckets m1 ! ?i) s1")
      case None
      then have n: "\<forall>n \<in> set (buckets m1 ! ?i). \<not> eq (key n) k" by (simp add: put_loop_None)
      from None True assms(2) z f r put_new [OF f(3) refl n] show ?thesis
        by (auto simp: hashmap_put_def Let_def same_funcs_def split: prod.splits option.splits)
    next
      case (Some p)
      obtain c t where p: "p = (c, t)" by force
      from put_loop_Some [OF Some [unfolded p]] obtain xs n ys
        where c: "buckets m1 ! ?i = xs @ n # ys" "c = xs @ n\<lparr>val := v\<rparr> # ys" "eq (key n) k" by blast
      from Some p True assms(2) z f r c(2) put_update [OF f(3) refl c(1,3) refl, of v] show ?thesis
        by (auto simp: hashmap_put_def Let_def same_funcs_def)
    qed
  qed
qed

lemma remove_spec:
  assumes "hm_for m" "hashmap_remove (Some m) (Some k) s = (r, mp', s')"
  shows "\<exists>m'. mp' = Some m' \<and> hm_for m' \<and> same_funcs m m' \<and> (r \<longleftrightarrow> (\<exists>v. entry m k v)) \<and>
    (\<forall>k' v'. entry m' k' v' \<longleftrightarrow> (if eq k k' then False else entry m k' v'))"
proof -
  from assms(1) have f: "hashFunc m = hf" "keyEqFunc m = eq" by (auto simp: hm_for_def)
  let ?i = "bucket_index hf (capacity m) k"
  show ?thesis
  proof (cases "remove_loop eq k (buckets m ! ?i)")
    case None
    then have n: "\<forall>n \<in> set (buckets m ! ?i). \<not> eq (key n) k" by (simp add: remove_loop_None)
    then have no: "eq k k' \<Longrightarrow> \<not> entry m k' v" for k' v
      using node_bucket [OF assms(1)] by (metis entry_def eq_sym eq_trans)
    with None assms f show ?thesis by (auto simp: hashmap_remove_def Let_def eq_refl)
  next
    case (Some p)
    obtain c n where p: "p = (c, n)" by force
    from remove_loop_Some [OF Some [unfolded p]] obtain xs ys
      where c: "buckets m ! ?i = xs @ n # ys" "c = xs @ ys" "eq (key n) k" by blast
    then have "entry m k (val n)" using node_bucket [OF assms(1), of n k] by (auto simp: entry_def)
    with Some p assms f c(2) remove_node [OF assms(1) refl c(1,3) refl] show ?thesis
      by (auto simp: hashmap_remove_def Let_def same_funcs_def)
  qed
qed

end

section \<open>Resources\<close>

lemma resize_cases:
  assumes "resize_if_needed m s = (b, m', s')"
  shows "m' = m \<and> (s' = s \<or> malloc s = (None, s')) \<or>
    (\<exists>nb t. malloc s = (Some nb, t) \<and> s' = free_blk (buckets_blk m) t \<and> buckets_blk m' = nb)"
  using assms by (auto simp: resize_if_needed_def calloc_def Let_def split: if_splits prod.splits option.splits)

lemma resize_socks: "resize_if_needed m s = (b, m', s') \<Longrightarrow> socks s' = socks s"
  by (drule resize_cases) (auto simp: os_simps dest: malloc_None(2) malloc_Some(2))

text \<open>Without allocation failures, and as long as the array stays small, an insertion succeeds.\<close>

lemma resize_succeeds:
  assumes "hm_ok m" "capacity m < 2 ^ 60" "True \<notin> set (oom s)" "resize_if_needed m s = (b, m', s')"
  shows "b \<and> True \<notin> set (oom s')"
proof -
  from assms(2) have "(capacity m * 2 mod 2 ^ 64) * 8 < 2 ^ 64"
    by (simp add: mod_less)
  with malloc_succeeds [OF assms(3)] assms(3,4) show ?thesis
    by (auto simp: resize_if_needed_def calloc_def Let_def free_blk_def split: if_splits)
qed

lemma put_returns_0:
  assumes "hm_ok m" "capacity m < 2 ^ 60" "True \<notin> set (oom s)" "hashmap_put (Some m) (Some k) v s = (r, mp', s')"
  shows "r = 0"
proof -
  obtain b m1 s1 where z: "resize_if_needed m s = (b, m1, s1)" by (cases "resize_if_needed m s")
  from resize_succeeds [OF assms(1-3) z] have b: "b" "True \<notin> set (oom s1)" by auto
  from malloc_succeeds [OF b(2)] assms(4) z b(1) show ?thesis
    by (auto simp: hashmap_put_def Let_def split: option.splits)
qed

text \<open>Destructors do not allocate, so the operations use up allocations only.\<close>

lemma put_oom:
  assumes "\<And>x s. oom (call_free (freeKeyFunc m) x s) = oom s" "\<And>x s. oom (call_free (freeValueFunc m) x s) = oom s"
    and "hashmap_put (Some m) (Some k) v s = (r, mp', s')"
  shows "set (oom s') \<subseteq> set (oom s)"
proof -
  obtain b m1 s1 where z: "resize_if_needed m s = (b, m1, s1)" by (cases "resize_if_needed m s")
  have f: "freeKeyFunc m1 = freeKeyFunc m" "freeValueFunc m1 = freeValueFunc m" "set (oom s1) \<subseteq> set (oom s)"
    using z by (auto simp: resize_if_needed_def calloc_def Let_def free_blk_oom split: if_splits prod.splits option.splits
        dest!: malloc_oom)
  have l: "oom s2 = oom s1" if "put_loop eq (freeKeyFunc m) (freeValueFunc m) k v c s1 = Some (c', s2)" for eq c c' s2
    using put_loop_Some [OF that] by (auto simp: assms(1,2))
  from assms(3) z f show ?thesis
    by (auto simp: hashmap_put_def Let_def split: bool.splits option.splits prod.splits dest!: l malloc_oom)
qed

context hash_key
begin

text \<open>An insertion under a new key calls no destructor.\<close>

lemma put_absent:
  assumes "hm_for m" "\<And>v'. \<not> entry m k v'" "hashmap_put (Some m) (Some k) v s = (r, mp', s')"
  shows "\<exists>m'. mp' = Some m' \<and> socks s' = socks s \<and>
    (r = 0 \<and> (\<exists>b. mset (hm_nodes m') = add_mset \<lparr>blk = b, key = k, val = v\<rparr> (mset (hm_nodes m))) \<or>
     r = - 1 \<and> mset (hm_nodes m') = mset (hm_nodes m))"
proof -
  obtain b m1 s1 where z: "resize_if_needed m s = (b, m1, s1)" by (cases "resize_if_needed m s")
  from hm_for_resize [OF assms(1) z] have r: "hm_for m1" "\<And>k v. entry m1 k v = entry m k v" by auto
  have f: "hashFunc m1 = hf" "keyEqFunc m1 = eq" using r(1) by (auto simp: hm_for_def)
  from assms(1) have "hm_ok m" by (simp add: hm_for_def)
  from resize_spec [OF this z] have n: "mset (hm_nodes m1) = mset (hm_nodes m)" by simp
  note sk = resize_socks [OF z]
  let ?i = "bucket_index hf (capacity m1) k"
  have i: "?i < length (buckets m1)" using r(1) by (auto simp: hm_for_def hm_ok_def bucket_index_less)
  have "\<not> eq (key n) k" if "n \<in> set (buckets m1 ! ?i)" for n
  proof
    assume e: "eq (key n) k"
    with that node_bucket [OF r(1) e] have "entry m1 k (val n)" by (auto simp: entry_def)
    with assms(2) r(2) show False by blast
  qed
  then have l: "put_loop eq (freeKeyFunc m1) (freeValueFunc m1) k v (buckets m1 ! ?i) s1 = None"
    by (simp add: put_loop_None)
  show ?thesis
  proof (cases b)
    case False
    with assms(3) z n sk show ?thesis by (auto simp: hashmap_put_def)
  next
    case True
    obtain a t where m: "malloc s1 = (a, t)" by force
    show ?thesis
    proof (cases a)
      case None
      with assms(3) z True f l m n sk malloc_None(2) [of s1 t] show ?thesis by (auto simp: hashmap_put_def Let_def)
    next
      case (Some bb)
      have "mset (concat ((buckets m1)[?i := \<lparr>blk = bb, key = k, val = v\<rparr> # buckets m1 ! ?i])) =
          add_mset \<lparr>blk = bb, key = k, val = v\<rparr> (mset (hm_nodes m1))"
        using mset_concat_upd [OF i, of "\<lparr>blk = bb, key = k, val = v\<rparr> # buckets m1 ! ?i"] by (simp add: hm_nodes_def)
      with assms(3) z True f l m n sk Some malloc_Some(2) [of s1 bb t] show ?thesis
        by (auto simp: hashmap_put_def Let_def hm_nodes_def)
    qed
  qed
qed

end

text \<open>
  A map whose destructors meet their contract: \<open>fk\<close> and \<open>fv\<close> are the optional callbacks, and
  a missing one owns nothing.
\<close>

locale hm_owner = hash_key hf eq +
    kd: destructor "call_free fk" ownk osk + vd: destructor "call_free fv" ownv osv
  for hf :: "'k \<Rightarrow> size_t" and eq and fk :: "('k \<Rightarrow> os \<Rightarrow> os) option" and ownk and osk
    and fv :: "('v option \<Rightarrow> os \<Rightarrow> os) option" and ownv and osv
begin

definition node_blks :: "('k, 'v) HashNode \<Rightarrow> nat list" where
  "node_blks n = ownk (key n) @ ownv (val n) @ [blk n]"

definition node_socks :: "('k, 'v) HashNode \<Rightarrow> SOCKET set" where
  "node_socks n = osk (key n) \<union> osv (val n)"

definition hm_blks :: "('k, 'v) HashMap \<Rightarrow> nat list" where
  "hm_blks m = concat (map node_blks (hm_nodes m)) @ [buckets_blk m, map_blk m]"

definition hm_socks :: "('k, 'v) HashMap \<Rightarrow> SOCKET set" where
  "hm_socks m = \<Union> (node_socks ` set (hm_nodes m))"

definition hm_owned :: "('k, 'v) HashMap \<Rightarrow> os \<Rightarrow> bool" where
  "hm_owned m s \<longleftrightarrow> hm_for m \<and> freeKeyFunc m = fk \<and> freeValueFunc m = fv \<and> os_ok s \<and>
     distinct (hm_blks m) \<and> set (hm_blks m) \<subseteq> live s"

lemma free_node:
  assumes "distinct (node_blks n)" "set (node_blks n) \<subseteq> live s"
  shows "free_blk (blk n) (call_free fv (val n) (call_free fk (key n) s)) =
    release (set (node_blks n)) (node_socks n) s"
proof -
  from assms have a: "call_free fk (key n) s = release (set (ownk (key n))) (osk (key n)) s"
    by (intro kd.destroy_releases) (auto simp: node_blks_def)
  moreover from assms have "call_free fv (val n) (release (set (ownk (key n))) (osk (key n)) s) =
      release (set (ownv (val n))) (osv (val n)) (release (set (ownk (key n))) (osk (key n)) s)"
    by (intro vd.destroy_releases) (auto simp: node_blks_def release_sel)
  ultimately show ?thesis using assms
    by (auto simp: node_blks_def node_socks_def os_simps Un_ac)
qed

lemma destroy_chain_releases:
  assumes "distinct (concat (map node_blks c))" "set (concat (map node_blks c)) \<subseteq> live s"
  shows "destroy_chain fk fv c s =
    release (set (concat (map node_blks c))) (\<Union> (node_socks ` set c)) s"
  using assms
proof (induction c arbitrary: s)
  case (Cons n c)
  from Cons.prems have n: "distinct (node_blks n)" "set (node_blks n) \<subseteq> live s" by auto
  have "destroy_chain fk fv (n # c) s = destroy_chain fk fv c (release (set (node_blks n)) (node_socks n) s)"
    by (simp add: free_node [OF n])
  also have "\<dots> = release (set (concat (map node_blks c))) (\<Union> (node_socks ` set c))
      (release (set (node_blks n)) (node_socks n) s)"
    using Cons.prems by (intro Cons.IH) (auto simp: release_sel)
  finally show ?case by (simp add: release_release)
qed (simp add: release_empty)

lemma fold_destroy_chain: "fold (destroy_chain fk fv) bs s = destroy_chain fk fv (concat bs) s"
proof (induction bs arbitrary: s)
  case (Cons b bs)
  have "destroy_chain fk fv (b @ c) s = destroy_chain fk fv c (destroy_chain fk fv b s)" for c s
    by (induction b arbitrary: s) auto
  with Cons show ?case by simp
qed simp

lemma destroy_releases:
  assumes "hm_owned m s"
  shows "hashmap_destroy (Some m) s = release (set (hm_blks m)) (hm_socks m) s"
proof -
  from assms have "take (capacity m) (buckets m) = buckets m" by (simp add: hm_owned_def hm_for_def hm_ok_def)
  with assms show ?thesis
    by (auto simp: hm_owned_def hashmap_destroy_def fold_destroy_chain hm_blks_def hm_socks_def
      hm_nodes_def [symmetric] destroy_chain_releases os_simps Un_ac)
qed

lemma create_owned:
  assumes "os_ok s" "hashmap_create cap (Some hf) (Some eq) fk fv s = (Some m, s')"
  shows "hm_owned m s' \<and> hm_nodes m = [] \<and> live s' - set (hm_blks m) = live s \<and> set (hm_blks m) \<inter> live s = {} \<and>
    socks s' = socks s"
proof -
  from assms(2) obtain b s1 bb where m: "malloc s = (Some b, s1)" "calloc cap 8 s1 = (Some bb, s')" "0 < cap"
    "m = \<lparr>buckets = replicate cap [], capacity = cap, hsize = 0, hashFunc = hf, keyEqFunc = eq,
      freeKeyFunc = fk, freeValueFunc = fv, map_blk = b, buckets_blk = bb\<rparr>"
    by (auto simp: hashmap_create_def split: prod.splits option.splits if_splits)
  from m(2) have c: "malloc s1 = (Some bb, s')" "cap * 8 < 2 ^ 64" by (auto simp: calloc_def split: if_splits)
  note ok = malloc_ok [OF assms(1) m(1)]
  have "hm_for m" using m(3,4) c(2) by (simp add: hm_for_def hm_ok_def hm_nodes_def concat_replicate_trivial)
  moreover have nodes: "hm_nodes m = []" by (simp add: m(4) hm_nodes_def concat_replicate_trivial)
  ultimately show ?thesis
    using malloc_Some [OF m(1)] malloc_Some [OF c(1)] malloc_fresh [OF assms(1) m(1)] malloc_fresh [OF ok c(1)]
      malloc_ok [OF ok c(1)]
    by (auto simp: hm_owned_def hm_blks_def m(4))
qed

lemma create_None:
  assumes "os_ok s" "hashmap_create cap (Some hf) (Some eq) fk fv s = (None, s')"
  shows "os_ok s' \<and> live s' = live s \<and> socks s' = socks s"
proof (cases "cap = 0 \<or> fst (malloc s) = None")
  case True
  with assms show ?thesis
    by (auto simp: hashmap_create_def split: prod.splits option.splits if_splits
      intro: os_intros dest: malloc_None)
next
  case False
  then obtain b s1 where m: "malloc s = (Some b, s1)" by (cases "malloc s") auto
  note ok = malloc_ok [OF assms(1) m]
  from assms(2) m False obtain s2 where c: "calloc cap 8 s1 = (None, s2)" "s' = free_blk b s2"
    by (auto simp: hashmap_create_def split: prod.splits option.splits if_splits)
  then have "live s2 = live s1" "socks s2 = socks s1" "os_ok s2"
    using ok malloc_ok malloc_None by (fastforce simp: calloc_def split: if_splits)+
  with c(2) malloc_Some [OF m] malloc_fresh [OF assms(1) m] release_ok show ?thesis by (auto simp: os_simps)
qed

end

context hm_owner
begin

text \<open>The blocks that do not belong to the map.\<close>

definition foreign :: "('k, 'v) HashMap \<Rightarrow> os \<Rightarrow> nat set" where
  "foreign m s = live s - set (hm_blks m)"

lemma mset_concat_blks:
  "mset (concat (map node_blks xs)) = sum_mset (image_mset (\<lambda>n. mset (node_blks n)) (mset xs))"
  by (induction xs) auto

lemma hm_socks_cong: "mset (hm_nodes m) = mset (hm_nodes m') \<Longrightarrow> hm_socks m = hm_socks m'"
  by (metis hm_socks_def set_mset_mset)

lemma resize_owned:
  assumes "hm_owned m s" "resize_if_needed m s = (b, m', s')"
  shows "hm_owned m' s' \<and> foreign m' s' = foreign m s \<and> socks s' = socks s \<and> hm_socks m' = hm_socks m"
proof -
  from assms(1) have m: "hm_for m" "freeKeyFunc m = fk" "freeValueFunc m = fv" "os_ok s"
    "distinct (hm_blks m)" "set (hm_blks m) \<subseteq> live s" by (auto simp: hm_owned_def)
  note r = hm_for_resize [OF m(1) assms(2)]
  from m(1) have "hm_ok m" by (simp add: hm_for_def)
  from resize_spec [OF this assms(2)] have n: "mset (hm_nodes m') = mset (hm_nodes m)" by simp
  have sk: "hm_socks m' = hm_socks m" by (rule hm_socks_cong [OF n])
  consider "m' = m" "s' = s" | "m' = m" "malloc s = (None, s')"
    | nb t where "malloc s = (Some nb, t)" "s' = free_blk (buckets_blk m) t" "buckets_blk m' = nb"
    using resize_cases [OF assms(2)] by blast
  then show ?thesis
  proof cases
    case 1
    with assms(1) show ?thesis by simp
  next
    case 2
    with assms(1) m(4) malloc_None [OF 2(2)] malloc_ok [OF m(4) 2(2)] show ?thesis
      by (simp add: hm_owned_def foreign_def)
  next
    case c: 3
    from malloc_Some [OF c(1)] m(6) have s': "s' = release {buckets_blk m} {} t" "live t = insert nb (live s)"
      by (auto simp: c(2) hm_blks_def os_simps)
    let ?N = "concat (map node_blks (hm_nodes m))"
    from n have N: "mset (concat (map node_blks (hm_nodes m'))) = mset ?N"
      by (simp add: mset_concat_blks)
    have b: "hm_blks m' = concat (map node_blks (hm_nodes m')) @ [nb, map_blk m]"
      using r c(3) by (simp add: hm_blks_def same_funcs_def)
    have sets: "set (hm_blks m') = insert nb (set (hm_blks m) - {buckets_blk m})"
      using m(5) mset_eq_setD [OF N] unfolding b hm_blks_def [of m] by auto
    have "nb \<notin> live s" by (rule malloc_fresh [OF m(4) c(1)])
    moreover from this m(5,6) mset_eq_setD [OF N] mset_eq_imp_distinct_iff [OF N]
    have "distinct (hm_blks m')" unfolding b hm_blks_def [of m] by auto
    moreover have "os_ok s'" using malloc_ok [OF m(4) c(1)] s' by (simp add: release_ok)
    moreover have "buckets_blk m \<in> set (hm_blks m)" by (simp add: hm_blks_def)
    ultimately show ?thesis using r m s' sk malloc_Some(1,2) [OF c(1)]
      by (auto simp: hm_owned_def same_funcs_def foreign_def sets release_sel)
  qed
qed

text \<open>Adding or dropping one node of the node list.\<close>

lemma hm_blks_add:
  assumes "mset (hm_nodes m') = add_mset n (mset (hm_nodes m))"
    and "buckets_blk m' = buckets_blk m" "map_blk m' = map_blk m"
  shows "set (hm_blks m') = set (node_blks n) \<union> set (hm_blks m)"
    and "distinct (hm_blks m') \<longleftrightarrow> distinct (node_blks n @ hm_blks m)"
    and "hm_socks m' = node_socks n \<union> hm_socks m"
proof -
  have "mset (hm_blks m') = mset (node_blks n @ hm_blks m)"
    using assms by (simp add: hm_blks_def mset_concat_blks)
  from mset_eq_setD [OF this] mset_eq_imp_distinct_iff [OF this]
  show "set (hm_blks m') = set (node_blks n) \<union> set (hm_blks m)"
    "distinct (hm_blks m') \<longleftrightarrow> distinct (node_blks n @ hm_blks m)" by simp_all
  have "set (hm_nodes m') = insert n (set (hm_nodes m))"
    by (metis assms(1) set_mset_add_mset_insert set_mset_mset)
  then show "hm_socks m' = node_socks n \<union> hm_socks m" by (simp add: hm_socks_def)
qed

lemma remove_owned:
  assumes "hm_owned m s" "hashmap_remove (Some m) (Some k) s = (r, mp', s')"
  shows "\<exists>m'. mp' = Some m' \<and> hm_owned m' s' \<and> foreign m' s' = foreign m s \<and>
    (r \<longrightarrow> (\<exists>n. eq (key n) k \<and> mset (hm_nodes m) = add_mset n (mset (hm_nodes m')) \<and>
      s' = release (set (node_blks n)) (node_socks n) s)) \<and>
    (\<not> r \<longrightarrow> m' = m \<and> s' = s)"
proof -
  from assms(1) have m: "hm_for m" "freeKeyFunc m = fk" "freeValueFunc m = fv" "os_ok s" "hashFunc m = hf" "keyEqFunc m = eq"
    "distinct (hm_blks m)" "set (hm_blks m) \<subseteq> live s" by (auto simp: hm_owned_def hm_for_def)
  let ?i = "bucket_index hf (capacity m) k"
  show ?thesis
  proof (cases "remove_loop eq k (buckets m ! ?i)")
    case None
    with assms m show ?thesis by (auto simp: hashmap_remove_def Let_def)
  next
    case (Some p)
    obtain c n where p: "p = (c, n)" by force
    from remove_loop_Some [OF Some [unfolded p]] obtain xs ys
      where c: "buckets m ! ?i = xs @ n # ys" "c = xs @ ys" "eq (key n) k" by blast
    let ?m = "m\<lparr>buckets := (buckets m)[?i := xs @ ys], hsize := hsize m - 1\<rparr>"
    from remove_node [OF m(1) refl c(1,3) refl] have r: "hm_for ?m" "mset (hm_nodes m) = add_mset n (mset (hm_nodes ?m))"
      by auto
    note b = hm_blks_add [OF r(2), simplified]
    from m(7,8) b have f: "distinct (node_blks n)" "set (node_blks n) \<subseteq> live s" "set (node_blks n) \<inter> set (hm_blks ?m) = {}"
      "distinct (hm_blks ?m)" by auto
    from Some p assms(2) m c(2) have res: "r" "mp' = Some ?m" "s' = release (set (node_blks n)) (node_socks n) s"
      by (auto simp: hashmap_remove_def Let_def free_node [OF f(1,2)])
    have "hm_owned ?m s'" using r(1) m f(3,4) b(1) by (auto simp: hm_owned_def res release_sel release_ok)
    moreover have "foreign ?m s' = foreign m s" using b(1) f(3) by (auto simp: foreign_def res release_sel)
    ultimately show ?thesis using res r(2) c(3)
      by (intro exI [of _ ?m] conjI impI exI [of _ n]; (assumption | blast))
  qed
qed

text \<open>
  \<open>hashmap_put\<close> takes over the key and the value it is given: they belong to the map or have
  been freed when it succeeds, and stay with the caller when it fails.
\<close>

lemma put_owned_update:
  assumes "hm_owned m s" "i = bucket_index hf (capacity m) k" "buckets m ! i = xs @ n # ys" "eq (key n) k"
    and "m' = m\<lparr>buckets := (buckets m)[i := xs @ n\<lparr>val := v\<rparr> # ys]\<rparr>"
    and "distinct (ownk k @ ownv v)" "set (ownk k @ ownv v) \<subseteq> foreign m s"
    and "s' = call_free fk k (call_free fv (val n) s)"
  shows "hm_owned m' s' \<and> foreign m' s' = foreign m s - set (ownk k @ ownv v)"
proof -
  from assms(1) have m: "hm_for m" "freeKeyFunc m = fk" "freeValueFunc m = fv" "os_ok s" "hashFunc m = hf" "keyEqFunc m = eq"
    "distinct (hm_blks m)" "set (hm_blks m) \<subseteq> live s" by (auto simp: hm_owned_def hm_for_def)
  from m(1) have i: "i < length (buckets m)" by (auto simp: hm_for_def hm_ok_def assms(2) bucket_index_less)
  let ?r = "m\<lparr>buckets := (buckets m)[i := xs @ ys]\<rparr>"
  have one: "mset (hm_nodes m) = add_mset n (mset (hm_nodes ?r))" "mset (hm_nodes m') = add_mset (n\<lparr>val := v\<rparr>) (mset (hm_nodes ?r))"
    using mset_concat_mid(1) [OF i assms(3), of "[n\<lparr>val := v\<rparr>]"] mset_concat_mid(2) [OF i assms(3)] by (simp_all add: hm_nodes_def assms(5))
  note b = hm_blks_add [OF one(1), simplified] and b' = hm_blks_add [OF one(2), simplified]
  have same: "buckets_blk m' = buckets_blk m" "map_blk m' = map_blk m" by (simp_all add: assms(5))
  note b = b and b' = b' [OF same]
  have nb: "set (node_blks n) = set (ownk (key n)) \<union> set (ownv (val n)) \<union> {blk n}"
    "set (node_blks (n\<lparr>val := v\<rparr>)) = set (ownk (key n)) \<union> set (ownv v) \<union> {blk n}" by (auto simp: node_blks_def)
  from m(7,8) b have f: "distinct (node_blks n)" "set (node_blks n) \<subseteq> live s" "set (node_blks n) \<inter> set (hm_blks ?r) = {}"
    "distinct (hm_blks ?r)" by auto
  from assms(6,7) have kv: "set (ownk k) \<subseteq> live s" "set (ownv v) \<subseteq> live s" "set (ownk k) \<inter> set (ownv v) = {}"
    "(set (ownk k) \<union> set (ownv v)) \<inter> (set (node_blks n) \<union> set (hm_blks ?r)) = {}" by (auto simp: foreign_def b(1))
  have "call_free fv (val n) s = release (set (ownv (val n))) (osv (val n)) s"
    using f(1,2) by (intro vd.destroy_releases) (auto simp: node_blks_def)
  moreover have "call_free fk k \<dots> = release (set (ownk k)) (osk k) \<dots>"
    using assms(6) kv(1,4) nb(1) by (intro kd.destroy_releases) (auto simp: release_sel)
  ultimately have s': "s' = release (set (ownv (val n)) \<union> set (ownk k)) (osv (val n) \<union> osk k) s"
    by (simp add: assms(8) release_release)
  have "distinct (hm_blks m')" using b'(2) f assms(6) kv(4) nb by (auto simp: node_blks_def)
  moreover have "hm_for m'" using put_update [OF m(1) assms(2-5)] by blast
  moreover have "freeKeyFunc m' = fk" "freeValueFunc m' = fv" using m by (simp_all add: assms(5))
  moreover have "set (hm_blks m') \<subseteq> live s'"
    using b b' f m(8) kv nb by (auto simp: s' release_sel node_blks_def)
  moreover have "foreign m' s' = foreign m s - set (ownk k @ ownv v)"
    using b b' nb kv f by (auto simp: foreign_def s' release_sel)
  ultimately show ?thesis using m(4) by (simp add: hm_owned_def s' release_ok)
qed

lemma put_owned_new:
  assumes "hm_owned m s" "i = bucket_index hf (capacity m) k" "\<forall>n \<in> set (buckets m ! i). \<not> eq (key n) k"
    and "m' = m\<lparr>buckets := (buckets m)[i := \<lparr>blk = b, key = k, val = v\<rparr> # buckets m ! i], hsize := hsize m + 1\<rparr>"
    and "distinct (ownk k @ ownv v)" "set (ownk k @ ownv v) \<subseteq> foreign m s" "malloc s = (Some b, s')"
  shows "hm_owned m' s' \<and> foreign m' s' = foreign m s - set (ownk k @ ownv v)"
proof -
  let ?n = "\<lparr>blk = b, key = k, val = v\<rparr>"
  from assms(1) have m: "hm_for m" "freeKeyFunc m = fk" "freeValueFunc m = fv" "os_ok s"
    "distinct (hm_blks m)" "set (hm_blks m) \<subseteq> live s" by (auto simp: hm_owned_def hm_for_def)
  from m(1) have i: "i < length (buckets m)" by (auto simp: hm_for_def hm_ok_def assms(2) bucket_index_less)
  have one: "mset (hm_nodes m') = add_mset ?n (mset (hm_nodes m))"
    using mset_concat_upd [OF i, of "?n # buckets m ! i"] by (simp add: assms(4) hm_nodes_def)
  have same: "buckets_blk m' = buckets_blk m" "map_blk m' = map_blk m" by (simp_all add: assms(4))
  note b = hm_blks_add [OF one same]
  have n: "node_blks ?n = ownk k @ ownv v @ [b]" by (simp add: node_blks_def)
  have l: "live s' = insert b (live s)" "b \<notin> live s" "os_ok s'"
    using malloc_Some(1) [OF assms(7)] malloc_fresh [OF m(4) assms(7)] malloc_ok [OF m(4) assms(7)] by auto
  from assms(5,6) m(5,6) l(2) have "distinct (hm_blks m')" by (auto simp: b(2) n foreign_def)
  moreover have "set (hm_blks m') \<subseteq> live s'" using m(6) assms(6) l by (auto simp: b(1) n foreign_def)
  moreover have "hm_for m'" using put_new [OF m(1) assms(2-4)] by blast
  moreover have "freeKeyFunc m' = fk" "freeValueFunc m' = fv" using m by (simp_all add: assms(4))
  moreover have "foreign m' s' = foreign m s - set (ownk k @ ownv v)"
    using l by (auto simp: foreign_def b(1) n)
  ultimately show ?thesis using l(3) by (simp add: hm_owned_def)
qed

lemma put_owned:
  assumes "hm_owned m s" "hashmap_put (Some m) (Some k) v s = (r, mp', s')"
    and "distinct (ownk k @ ownv v)" "set (ownk k @ ownv v) \<subseteq> foreign m s"
  shows "\<exists>m'. mp' = Some m' \<and> hm_owned m' s' \<and>
    (r = 0 \<and> foreign m' s' = foreign m s - set (ownk k @ ownv v) \<or> r = - 1 \<and> foreign m' s' = foreign m s)"
proof -
  obtain b m1 s1 where z: "resize_if_needed m s = (b, m1, s1)" by (cases "resize_if_needed m s")
  from resize_owned [OF assms(1) z] have r: "hm_owned m1 s1" "foreign m1 s1 = foreign m s" by auto
  then have f: "hashFunc m1 = hf" "keyEqFunc m1 = eq" "freeKeyFunc m1 = fk" "freeValueFunc m1 = fv" "os_ok s1"
    by (auto simp: hm_owned_def hm_for_def)
  let ?i = "bucket_index hf (capacity m1) k"
  have own: "set (ownk k @ ownv v) \<subseteq> foreign m1 s1" using assms(4) r(2) by simp
  show ?thesis
  proof (cases b)
    case False
    with assms(2) z r show ?thesis by (auto simp: hashmap_put_def)
  next
    case True
    show ?thesis
    proof (cases "put_loop eq fk fv k v (buckets m1 ! ?i) s1")
      case (Some p)
      obtain c t where p: "p = (c, t)" by force
      from put_loop_Some [OF Some [unfolded p]] obtain xs n ys
        where c: "buckets m1 ! ?i = xs @ n # ys" "c = xs @ n\<lparr>val := v\<rparr> # ys" "eq (key n) k"
          "t = call_free fk k (call_free fv (val n) s1)" by blast
      from put_owned_update [OF r(1) refl c(1,3) refl assms(3) own c(4)] Some p True assms(2) z f r(2) c(2)
      show ?thesis by (auto simp: hashmap_put_def Let_def)
    next
      case None
      then have n: "\<forall>n \<in> set (buckets m1 ! ?i). \<not> eq (key n) k" by (simp add: put_loop_None)
      show ?thesis
      proof (cases "malloc s1")
        case (Pair a t)
        show ?thesis
        proof (cases a)
          case None': None
          with Pair have t: "malloc s1 = (None, t)" by simp
          have "hm_owned m1 t" "foreign m1 t = foreign m1 s1"
            using r(1) malloc_None [OF t] malloc_ok [OF f(5) t] by (auto simp: hm_owned_def foreign_def)
          with None t True assms(2) z f r(2) show ?thesis by (auto simp: hashmap_put_def Let_def)
        next
          case (Some bb)
          with Pair have t: "malloc s1 = (Some bb, t)" by simp
          from put_owned_new [OF r(1) refl n refl assms(3) own t] None t True assms(2) z f r(2)
          show ?thesis by (auto simp: hashmap_put_def Let_def)
        qed
      qed
    qed
  qed
qed

end

section \<open>Load factor\<close>

lemma put_loop_length:
  "put_loop eq fk fv k v c s = Some (c', s') \<Longrightarrow> length c' = length c"
  by (drule put_loop_Some) auto

lemma resize_load:
  assumes "hm_ok m" "capacity m < 2 ^ 22" "4 * hsize m \<le> 3 * capacity m" "resize_if_needed m s = (True, m', s')"
  shows "4 * (hsize m' + 1) \<le> 3 * capacity m' \<and> hsize m' = hsize m"
proof (cases "f32_ratio_le_075 (hsize m + 1) (capacity m)")
  case True
  with assms show ?thesis by (auto simp: resize_if_needed_def f32_ratio_exact)
next
  case False
  from assms(1,2) have "capacity m * 2 mod 2 ^ 64 = capacity m * 2" "0 < capacity m" by (auto simp: hm_ok_def)
  moreover from assms(3) this(2) have "4 + 4 * hsize m \<le> 6 * capacity m" by presburger
  ultimately show ?thesis using assms(4) False
    by (auto simp: resize_if_needed_def Let_def split: prod.splits option.splits)
qed

lemma put_load:
  assumes "hm_ok m" "capacity m < 2 ^ 22" "4 * hsize m \<le> 3 * capacity m"
    and "hashmap_put (Some m) kp v s = (r, mp', s')"
  shows "\<exists>m'. mp' = Some m' \<and> 4 * hsize m' \<le> 3 * capacity m'"
proof (cases kp)
  case None
  with assms show ?thesis by (auto simp: hashmap_put_def)
next
  case (Some k)
  obtain b m1 s1 where z: "resize_if_needed m s = (b, m1, s1)" by (cases "resize_if_needed m s")
  show ?thesis
  proof (cases b)
    case True
    with z have "resize_if_needed m s = (True, m1, s1)" by simp
    from resize_load [OF assms(1-3) this] assms(4) Some z True show ?thesis
      by (auto simp: hashmap_put_def Let_def split: prod.splits option.splits)
  next
    case False
    then have "m1 = m" using z
      by (auto simp: resize_if_needed_def Let_def split: if_splits prod.splits option.splits)
    with assms Some z False show ?thesis by (auto simp: hashmap_put_def)
  qed
qed

section \<open>Properties\<close>

text \<open>
  C30. The load factor stays at most 0.75 through every insertion, whether it succeeds, replaces a
  value or fails, as long as the bucket array has fewer than $2^{22}$ slots, where the single
  precision arithmetic of the test is exact; the structure stays well formed.
\<close>

theorem load_factor_bound:
  assumes "hm_ok m" "capacity m < 2 ^ 22" "4 * hsize m \<le> 3 * capacity m"
    and "hashmap_put (Some m) kp v s = (r, mp', s')"
  shows "\<exists>m'. mp' = Some m' \<and> 4 * hsize m' \<le> 3 * capacity m' \<and> capacity m' \<in> {capacity m, 2 * capacity m}"
proof -
  from put_load [OF assms] obtain m' where m': "mp' = Some m'" "4 * hsize m' \<le> 3 * capacity m'" by blast
  from assms(2) have "capacity m * 2 mod 2 ^ 64 = 2 * capacity m" by simp
  with assms(4) m' show ?thesis
    by (auto simp: hashmap_put_def resize_if_needed_def Let_def split: option.splits prod.splits if_splits bool.splits)
qed

definition one_slot :: "(nat, nat) HashMap" where
  "one_slot = \<lparr>buckets = [[]], capacity = 1, hsize = 0, hashFunc = word_of_nat, keyEqFunc = (=), freeKeyFunc = None,
     freeValueFunc = None, map_blk = 1, buckets_blk = 2\<rparr>"

text \<open>The first key does not fit: the array doubles.\<close>

theorem load_factor_bound_witness:
  "\<exists>r m' s'. hashmap_put (Some one_slot) (Some 8) (Some 9) (fresh_os\<lparr>live := {1, 2}, next_blk := 3\<rparr>) = (r, Some m', s') \<and>
     4 * hsize m' \<le> 3 * capacity m' \<and> capacity m' \<le> 2"
proof -
  have ok: "hm_ok one_slot" "capacity one_slot < 2 ^ 22" "4 * hsize one_slot \<le> 3 * capacity one_slot"
    by (auto simp: hm_ok_def one_slot_def hm_nodes_def)
  obtain r mp s' where p: "hashmap_put (Some one_slot) (Some 8) (Some 9) (fresh_os\<lparr>live := {1, 2}, next_blk := 3\<rparr>) = (r, mp, s')"
    by (cases "hashmap_put (Some one_slot) (Some 8) (Some 9) (fresh_os\<lparr>live := {1, 2}, next_blk := 3\<rparr>)")
  from load_factor_bound [OF ok p] p show ?thesis by (auto simp: one_slot_def)
qed

end
