(* ===== verification/StringMap.thy ===== *)
theory StringMap
  imports HashMap
begin

text \<open>
  The hash maps that \<open>Common/node.c\<close> and \<open>CentralPropagator/cp_context.c\<close> build: the keys are
  heap copies of node ids, hashed with \<open>hash_string\<close> and compared with \<open>eq_string\<close>; the
  destructor of a key is \<open>free\<close>, and there is none for the values, which point into the node
  array.  The interpretation \<open>smap\<close> gives these maps the contract of \<open>HashMap\<close>.
\<close>

section \<open>String keys\<close>

text \<open>\<open>h << 5\<close> and the additions wrap around at the 64 bits of \<open>size_t\<close>.\<close>

fun djb2 :: "size_t \<Rightarrow> string \<Rightarrow> size_t" where
  "djb2 h [] = h"
| "djb2 h (c # cs) = djb2 ((push_bit 5 h + h) + word_of_nat (of_char c)) cs"

definition hash_string :: "hstr \<Rightarrow> size_t" where
  "hash_string k = djb2 5381 (chars k)"

definition eq_string :: "hstr \<Rightarrow> hstr \<Rightarrow> bool" where
  "eq_string a b \<longleftrightarrow> chars a = chars b"

text \<open>A string a key is compared with, but which no map owns.\<close>

definition tmp_str :: "string \<Rightarrow> hstr" where
  "tmp_str str = \<lparr>chars = str, sblk = 0\<rparr>"

text \<open>\<open>_strdup\<close> of a pointer that may be NULL.\<close>

definition strdup_ptr :: "hstr option \<Rightarrow> os \<Rightarrow> hstr option \<times> os" where
  "strdup_ptr p s = (case p of None \<Rightarrow> (None, s) | Some h \<Rightarrow> strdup (chars h) s)"

text \<open>\<open>hashmap_put(m, _strdup(id), v)\<close>, with the return value ignored as the callers do.\<close>

definition put_id :: "hstr option \<Rightarrow> 'v \<Rightarrow> (hstr, 'v) HashMap option \<Rightarrow> os \<Rightarrow> (hstr, 'v) HashMap option \<times> os" where
  "put_id idp v m s =
     (case strdup_ptr idp s of
        (k, s) \<Rightarrow> (case hashmap_put m k (Some v) s of (_, m, s) \<Rightarrow> (m, s)))"

fun put_ids :: "(hstr option \<times> 'v) list \<Rightarrow> (hstr, 'v) HashMap option \<Rightarrow> os \<Rightarrow> (hstr, 'v) HashMap option \<times> os" where
  "put_ids [] m s = (m, s)"
| "put_ids ((idp, v) # rest) m s = (case put_id idp v m s of (m, s) \<Rightarrow> put_ids rest m s)"

section \<open>The contract\<close>

interpretation smap: hm_owner hash_string eq_string "Some free_str" "\<lambda>k. [sblk k]" "\<lambda>k. {}"
    "None :: ('v option \<Rightarrow> os \<Rightarrow> os) option" "\<lambda>v. []" "\<lambda>v. {}"
  by unfold_locales (auto simp: hash_string_def eq_string_def call_free_def os_simps)

lemma put_loop_oom:
  assumes "put_loop eq (Some free_str) None k v c s = Some (c', s')"
  shows "oom s' = oom s"
  using put_loop_Some [OF assms] by (auto simp: call_free_def free_str_def free_blk_def)

lemma put_succeeds:
  assumes "smap.hm_owned m s" "capacity m < 2 ^ 60" "True \<notin> set (oom s)"
    and "hashmap_put (Some m) (Some k) v s = (r, mp', s')"
  shows "r = 0 \<and> True \<notin> set (oom s')"
proof -
  from assms(1) have m: "hm_ok m" "freeKeyFunc m = Some free_str" "freeValueFunc m = None"
    by (auto simp: smap.hm_owned_def smap.hm_for_def)
  obtain b m1 s1 where z: "resize_if_needed m s = (b, m1, s1)" by (cases "resize_if_needed m s")
  from resize_succeeds [OF m(1) assms(2,3) z] have b: "b" "True \<notin> set (oom s1)" by auto
  from resize_spec [OF m(1) z] m have f: "freeKeyFunc m1 = Some free_str" "freeValueFunc m1 = None"
    by (auto simp: same_funcs_def)
  from malloc_succeeds [OF b(2)] assms(4) z b f show ?thesis
    by (auto simp: hashmap_put_def Let_def split: prod.splits option.splits dest: put_loop_oom)
qed

text \<open>A map that was created with room for \<open>c\<close> keys doubles at most once while it takes them.\<close>

definition roomy :: "nat \<Rightarrow> nat \<Rightarrow> ('k, 'v) HashMap \<Rightarrow> bool" where
  "roomy c n m \<longleftrightarrow> c < 2 ^ 21 \<and> (capacity m = c \<or> capacity m = 2 * c) \<and> hsize m + n \<le> c"

lemma resize_roomy:
  assumes "hm_ok m" "roomy c (Suc n) m" "resize_if_needed m s = (b, m', s')"
  shows "(capacity m' = c \<or> capacity m' = 2 * c) \<and> hsize m' = hsize m"
proof -
  from assms(2) have c: "c < 2 ^ 21" "hsize m + 1 \<le> c" "capacity m = c \<or> capacity m = 2 * c"
    by (auto simp: roomy_def)
  show ?thesis
  proof (cases "f32_ratio_le_075 (hsize m + 1) (capacity m)")
    case True
    with assms(3) c show ?thesis by (auto simp: resize_if_needed_def)
  next
    case False
    then have "\<not> 4 * (hsize m + 1) \<le> 3 * capacity m" using c by (subst (asm) f32_ratio_exact) auto
    with c have "capacity m = c" by auto
    moreover from c(1) this have "c * 2 mod 2 ^ 64 = c * 2" by simp
    ultimately show ?thesis using assms(3) False
      by (auto simp: resize_if_needed_def Let_def split: prod.splits option.splits)
  qed
qed

lemma put_roomy:
  assumes "hm_ok m" "roomy c (Suc n) m" "hashmap_put (Some m) (Some k) v s = (r, Some m', s')"
  shows "roomy c n m'"
proof -
  obtain b m1 s1 where z: "resize_if_needed m s = (b, m1, s1)" by (cases "resize_if_needed m s")
  from resize_roomy [OF assms(1,2) z] assms(2,3) z show ?thesis
    by (auto simp: hashmap_put_def roomy_def Let_def split: prod.splits option.splits bool.splits)
qed

text \<open>One \<open>hashmap_put(m, _strdup(id), v)\<close>.\<close>

lemma put_id_spec:
  assumes "smap.hm_owned m s" "roomy c (Suc n) m" "True \<notin> set (oom s)"
  shows "\<exists>m' s'. put_id (Some h) v (Some m) s = (Some m', s') \<and> smap.hm_owned m' s' \<and> roomy c n m' \<and>
    True \<notin> set (oom s') \<and> smap.foreign m' s' = smap.foreign m s \<and>
    (\<forall>k. hashmap_get (Some m') (Some k) = (if chars k = chars h then Some v else hashmap_get (Some m) (Some k)))"
proof -
  from assms(1) have ok: "os_ok s" "hm_ok m" "smap.hm_for m" by (auto simp: smap.hm_owned_def smap.hm_for_def)
  have "\<exists>k s1. strdup (chars h) s = (Some k, s1) \<and> True \<notin> set (oom s1)"
    using malloc_succeeds [OF assms(3)] by (auto simp: strdup_def)
  then obtain k s1 where k: "strdup (chars h) s = (Some k, s1)" "True \<notin> set (oom s1)" by blast
  note S = strdup_Some(1,2) [OF k(1)] strdup_ok [OF ok(1) k(1)] strdup_fresh [OF ok(1) k(1)]
  have owned: "smap.hm_owned m s1" using assms(1) S by (auto simp: smap.hm_owned_def)
  have fresh: "sblk k \<notin> set (smap.hm_blks m)" using assms(1) S(4) by (auto simp: smap.hm_owned_def)
  then have own: "set ([sblk k] @ []) \<subseteq> smap.foreign m s1" using S(2) by (simp add: smap.foreign_def)
  obtain r mp s2 where p: "hashmap_put (Some m) (Some k) (Some v) s1 = (r, mp, s2)"
    by (cases "hashmap_put (Some m) (Some k) (Some v) s1")
  have "capacity m < 2 ^ 60" using assms(2) by (auto simp: roomy_def)
  from put_succeeds [OF owned this k(2) p] have r: "r = 0" "True \<notin> set (oom s2)" by auto
  from smap.put_owned [OF owned p _ own] r obtain m'
    where m': "mp = Some m'" "smap.hm_owned m' s2" "smap.foreign m' s2 = smap.foreign m s1 - {sblk k}" by auto
  then have "smap.hm_for m'" by (simp add: smap.hm_owned_def)
  with smap.put_spec [OF ok(3) p] r m'(1)
  have e: "\<And>k' v'. smap.entry m' k' v' \<longleftrightarrow> (if eq_string k k' then v' = Some v else smap.entry m k' v')" by auto
  have "hashmap_get (Some m') (Some k') = (if chars k' = chars h then Some v else hashmap_get (Some m) (Some k'))" for k'
  proof (cases "chars k' = chars h")
    case True
    with e [of k' "Some v"] S(1) smap.get_entry [OF \<open>smap.hm_for m'\<close>, of k' "Some v"] show ?thesis
      by (simp add: eq_string_def)
  next
    case False
    with e S(1) smap.get_cong [OF \<open>smap.hm_for m'\<close> ok(3), of k'] show ?thesis by (simp add: eq_string_def)
  qed
  moreover have "smap.foreign m' s2 = smap.foreign m s"
    using m'(3) S(2,4) fresh by (auto simp: smap.foreign_def)
  moreover have "roomy c n m'" by (rule put_roomy [OF ok(2) assms(2) p [unfolded m'(1)]])
  ultimately show ?thesis using k p m' r by (simp add: put_id_def strdup_ptr_def)
qed

lemma put_ids_spec:
  assumes "smap.hm_owned m s" "roomy c (length kvs) m" "True \<notin> set (oom s)"
  shows "\<exists>m' s'. put_ids (map (\<lambda>(h, v). (Some h, v)) kvs) (Some m) s = (Some m', s') \<and>
    smap.hm_owned m' s' \<and> roomy c 0 m' \<and> True \<notin> set (oom s') \<and> smap.foreign m' s' = smap.foreign m s \<and>
    (\<forall>k. hashmap_get (Some m') (Some k) =
      (case map_of (rev (map (\<lambda>(h, v). (chars h, v)) kvs)) (chars k) of
         Some v \<Rightarrow> Some v | None \<Rightarrow> hashmap_get (Some m) (Some k)))"
  using assms
proof (induction kvs arbitrary: m s)
  case (Cons kv kvs)
  obtain h v where kv: "kv = (h, v)" by force
  from Cons.prems have roomy: "roomy c (Suc (length kvs)) m" by simp
  from put_id_spec [OF Cons.prems(1) roomy Cons.prems(3), of h v] obtain m1 s1
    where p: "put_id (Some h) v (Some m) s = (Some m1, s1)" "smap.hm_owned m1 s1" "roomy c (length kvs) m1"
      "True \<notin> set (oom s1)" "smap.foreign m1 s1 = smap.foreign m s"
      "\<And>k. hashmap_get (Some m1) (Some k) = (if chars k = chars h then Some v else hashmap_get (Some m) (Some k))"
    by blast
  from Cons.IH [OF p(2-4)] obtain m2 s2
    where q: "put_ids (map (\<lambda>(h, v). (Some h, v)) kvs) (Some m1) s1 = (Some m2, s2)" "smap.hm_owned m2 s2"
      "roomy c 0 m2" "True \<notin> set (oom s2)" "smap.foreign m2 s2 = smap.foreign m1 s1"
      "\<And>k. hashmap_get (Some m2) (Some k) = (case map_of (rev (map (\<lambda>(h, v). (chars h, v)) kvs)) (chars k) of
         Some v \<Rightarrow> Some v | None \<Rightarrow> hashmap_get (Some m1) (Some k))"
    by blast
  show ?case using p q by (simp add: kv map_add_def split: option.splits)
qed (auto simp: roomy_def)

text \<open>No operation on a string map touches a socket.\<close>

lemma put_id_socks:
  assumes "smap.hm_owned m s" "put_id idp v (Some m) s = (mp, s')"
  shows "socks s' = socks s"
proof -
  obtain k s1 where k: "strdup_ptr idp s = (k, s1)" by force
  then have s1: "socks s1 = socks s"
    by (cases k) (auto simp: strdup_ptr_def split: option.splits dest: strdup_None(2) strdup_Some(3))
  show ?thesis
  proof (cases k)
    case None
    with k s1 assms(2) show ?thesis by (auto simp: put_id_def hashmap_put_def)
  next
    case (Some h)
    from assms(1) have m: "hm_ok m" "freeKeyFunc m = Some free_str" "freeValueFunc m = None"
      by (auto simp: smap.hm_owned_def smap.hm_for_def)
    obtain b m1 s2 where z: "resize_if_needed m s1 = (b, m1, s2)" by (cases "resize_if_needed m s1")
    from resize_spec [OF m(1) z] m have f: "freeKeyFunc m1 = Some free_str" "freeValueFunc m1 = None"
      by (auto simp: same_funcs_def)
    have "socks s2 = socks s1" using z
      by (auto simp: resize_if_needed_def calloc_def Let_def free_blk_def split: if_splits prod.splits option.splits
        dest: malloc_None(2) malloc_Some(2))
    moreover have "socks t = socks s2" if "put_loop eq (Some free_str) None h (Some v) c s2 = Some (c', t)" for eq c c' t
      using put_loop_Some [OF that] by (auto simp: call_free_def free_str_def free_blk_def split: if_splits)
    ultimately show ?thesis using assms(2) k s1 Some z f
      by (auto simp: put_id_def hashmap_put_def Let_def split: prod.splits option.splits bool.splits
        dest: malloc_None(2) malloc_Some(2))
  qed
qed

lemma put_ids_socks:
  assumes "smap.hm_owned m s" "roomy c (length kvs) m" "True \<notin> set (oom s)"
    and "put_ids (map (\<lambda>(h, v). (Some h, v)) kvs) (Some m) s = (mp, s')"
  shows "socks s' = socks s"
  using assms
proof (induction kvs arbitrary: m s)
  case (Cons kv kvs)
  obtain h v where kv: "kv = (h, v)" by force
  from Cons.prems have roomy: "roomy c (Suc (length kvs)) m" by simp
  from put_id_spec [OF Cons.prems(1) roomy Cons.prems(3), of h v] obtain m1 s1
    where p: "put_id (Some h) v (Some m) s = (Some m1, s1)" "smap.hm_owned m1 s1" "roomy c (length kvs) m1"
      "True \<notin> set (oom s1)" by blast
  from Cons.IH [OF p(2-4)] put_id_socks [OF Cons.prems(1) p(1)] Cons.prems(4) p(1) show ?case by (simp add: kv)
qed simp

text \<open>Creating a map with room for \<open>c\<close> keys and putting at most so many ids into it.\<close>

lemma build_map:
  fixes kvs :: "(hstr \<times> 'v) list"
  assumes "holds L K X s" "True \<notin> set (oom s)" "0 < c" "c < 2 ^ 21" "length kvs \<le> c"
  shows "\<exists>m s1 m' s'. hashmap_create c (Some hash_string) (Some eq_string) (Some free_str) None s = (Some m, s1) \<and>
    put_ids (map (\<lambda>(h, v). (Some h, v)) kvs) (Some m) s1 = (Some m', s') \<and>
    smap.hm_owned m' s' \<and> holds L K (smap.hm_blks m' @ X) s' \<and> True \<notin> set (oom s') \<and>
    (\<forall>k. hashmap_get (Some m') (Some k) = map_of (rev (map (\<lambda>(h, v). (chars h, v)) kvs)) (chars k))"
proof -
  from assms(1) have s: "os_ok s" "distinct X" "set X \<inter> L = {}" "live s = L \<union> set X" "socks s = K"
    by (auto simp: holds_def)
  obtain b t where b: "malloc s = (Some b, t)" "True \<notin> set (oom t)" using malloc_succeeds [OF assms(2)] by blast
  obtain d u where d: "malloc t = (Some d, u)" "True \<notin> set (oom u)" using malloc_succeeds [OF b(2)] by blast
  from assms(3,4) b d obtain m :: "(hstr, 'v) HashMap"
    where m: "hashmap_create c (Some hash_string) (Some eq_string) (Some free_str) None s = (Some m, u)"
      "capacity m = c" "hsize m = 0"
    by (auto simp: hashmap_create_def calloc_def)
  from smap.create_owned [OF s(1) m(1)]
  have o: "smap.hm_owned m u" "hm_nodes m = []" "smap.foreign m u = live s" "socks u = socks s"
    by (auto simp: smap.foreign_def)
  from m(2,3) assms(4,5) have r: "roomy c (length kvs) m" by (simp add: roomy_def)
  have e: "hashmap_get (Some m) (Some k) = None" for k
    using o(1,2) by (intro smap.get_no_entry) (auto simp: smap.hm_owned_def smap.entry_def)
  from put_ids_spec [OF o(1) r d(2)] obtain m' :: "(hstr, 'v) HashMap" and s'
    where p: "put_ids (map (\<lambda>(h, v). (Some h, v)) kvs) (Some m) u = (Some m', s')" "smap.hm_owned m' s'"
      "True \<notin> set (oom s')" "smap.foreign m' s' = smap.foreign m u"
      "\<And>k. hashmap_get (Some m') (Some k) = (case map_of (rev (map (\<lambda>(h, v). (chars h, v)) kvs)) (chars k) of
         Some v \<Rightarrow> Some v | None \<Rightarrow> hashmap_get (Some m) (Some k))"
    by blast
  have "holds L K (smap.hm_blks m' @ X) s'"
    using p(2,4) o(3,4) s put_ids_socks [OF o(1) r d(2) p(1)]
    by (auto simp: holds_def smap.hm_owned_def smap.foreign_def)
  moreover have "hashmap_get (Some m') (Some k) = map_of (rev (map (\<lambda>(h, v). (chars h, v)) kvs)) (chars k)" for k
    unfolding p(5) e by (simp split: option.splits)
  ultimately show ?thesis using m(1) p(1-3) by blast
qed

lemma destroy_map:
  assumes "smap.hm_owned m s" "holds L K (smap.hm_blks m @ X) s"
  shows "holds L K X (hashmap_destroy (Some m) s)"
proof -
  have "smap.hm_socks m = {}" by (simp add: smap.hm_socks_def smap.node_socks_def)
  with smap.destroy_releases [OF assms(1)] assms(2) show ?thesis
    by (auto simp: holds_def os_simps intro: os_intros)
qed

lemma destroy_map_oom: "smap.hm_owned m s \<Longrightarrow> oom (hashmap_destroy (Some m) s) = oom s"
  by (simp add: smap.destroy_releases release_sel)

section \<open>The map against its specification\<close>

text \<open>
  A sequence of calls of a client that owns a map: it copies a key before it inserts it, and frees
  the copy when the insertion fails.  The result lists which calls succeeded.
\<close>

datatype 'v map_op = MPut string 'v | MRemove string

fun map_run :: "'v map_op list \<Rightarrow> (hstr, 'v) HashMap option \<Rightarrow> os \<Rightarrow> bool list \<times> (hstr, 'v) HashMap option \<times> os" where
  "map_run [] m s = ([], m, s)"
| "map_run (MPut k v # ops) m s =
     (case strdup k s of
        (None, s) \<Rightarrow> (case map_run ops m s of (rs, m, s) \<Rightarrow> (False # rs, m, s))
      | (Some h, s) \<Rightarrow>
          (case hashmap_put m (Some h) (Some v) s of
             (r, m, s) \<Rightarrow>
               (case map_run ops m (if r = 0 then s else free_str h s) of
                  (rs, m, s) \<Rightarrow> ((r = 0) # rs, m, s))))"
| "map_run (MRemove k # ops) m s =
     (case hashmap_remove m (Some (tmp_str k)) s of
        (r, m, s) \<Rightarrow> (case map_run ops m s of (rs, m, s) \<Rightarrow> (r # rs, m, s)))"

text \<open>The specification: a finite map, changed by the calls that succeeded.\<close>

fun spec_run :: "'v map_op list \<Rightarrow> bool list \<Rightarrow> (string \<rightharpoonup> 'v) \<Rightarrow> (string \<rightharpoonup> 'v)" where
  "spec_run (MPut k v # ops) (r # rs) f = spec_run ops rs (if r then f(k \<mapsto> v) else f)"
| "spec_run (MRemove k # ops) (r # rs) f = spec_run ops rs (f(k := None))"
| "spec_run _ _ f = f"

text \<open>The map \<open>m\<close> holds \<open>f\<close>.\<close>

definition represents :: "(hstr, 'v) HashMap \<Rightarrow> (string \<rightharpoonup> 'v) \<Rightarrow> bool" where
  "represents m f \<longleftrightarrow> (\<forall>h v. smap.entry m h v \<longleftrightarrow> v \<noteq> None \<and> f (chars h) = v)"

lemma represents_get:
  assumes "smap.hm_for m" "represents m f"
  shows "hashmap_get (Some m) (Some h) = f (chars h)"
proof (cases "f (chars h)")
  case None
  with assms(2) have "\<And>v. \<not> smap.entry m h v" by (auto simp: represents_def)
  from smap.get_no_entry [OF assms(1) this] None show ?thesis by simp
next
  case (Some v)
  with assms(2) have "smap.entry m h (Some v)" by (auto simp: represents_def)
  from smap.get_entry [OF assms(1) this] Some show ?thesis by simp
qed

lemma map_run_spec:
  assumes "smap.hm_owned m s" "represents m f" "map_run ops (Some m) s = (rs, mp, s')"
  shows "\<exists>m'. mp = Some m' \<and> smap.hm_owned m' s' \<and> represents m' (spec_run ops rs f) \<and>
    smap.foreign m' s' = smap.foreign m s"
  using assms
proof (induction ops arbitrary: m s f rs)
  case (Cons op ops)
  from Cons.prems(1) have ok: "os_ok s" "smap.hm_for m" by (auto simp: smap.hm_owned_def)
  show ?case
  proof (cases op)
    case (MRemove k)
    obtain r mp1 s1 where r: "hashmap_remove (Some m) (Some (tmp_str k)) s = (r, mp1, s1)"
      by (cases "hashmap_remove (Some m) (Some (tmp_str k)) s")
    from smap.remove_owned [OF Cons.prems(1) r] obtain m1
      where m1: "mp1 = Some m1" "smap.hm_owned m1 s1" "smap.foreign m1 s1 = smap.foreign m s" by blast
    from smap.remove_spec [OF ok(2) r] m1(1) Cons.prems(2) have "represents m1 (f(k := None))"
      by (auto simp: represents_def eq_string_def tmp_str_def)
    from Cons.IH [OF m1(2) this] Cons.prems(3) MRemove r m1 show ?thesis
      by (auto simp: fun_upd_def split: prod.splits)
  next
    case (MPut k v)
    obtain hp s1 where h: "strdup k s = (hp, s1)" by force
    show ?thesis
    proof (cases hp)
      case None
      with h have n: "strdup k s = (None, s1)" by simp
      from Cons.prems(1) strdup_None [OF n] strdup_ok [OF ok(1) n] have "smap.hm_owned m s1" "smap.foreign m s1 = smap.foreign m s"
        by (auto simp: smap.hm_owned_def smap.foreign_def)
      from Cons.IH [OF this(1) Cons.prems(2)] this(2) Cons.prems(3) MPut n show ?thesis by (auto split: prod.splits)
    next
      case (Some h0)
      with h have n: "strdup k s = (Some h0, s1)" by simp
      note S = strdup_Some(1,2) [OF n] strdup_ok [OF ok(1) n] strdup_fresh [OF ok(1) n]
      have o: "smap.hm_owned m s1" using Cons.prems(1) S by (auto simp: smap.hm_owned_def)
      have fr: "smap.foreign m s1 = insert (sblk h0) (smap.foreign m s)" "sblk h0 \<notin> smap.foreign m s"
        using Cons.prems(1) S by (auto simp: smap.foreign_def smap.hm_owned_def)
      obtain r mp1 s2 where p: "hashmap_put (Some m) (Some h0) (Some v) s1 = (r, mp1, s2)"
        by (cases "hashmap_put (Some m) (Some h0) (Some v) s1")
      from smap.put_owned [OF o p] fr obtain m1
        where m1: "mp1 = Some m1" "smap.hm_owned m1 s2"
          "r = 0 \<and> smap.foreign m1 s2 = smap.foreign m s \<or> r = - 1 \<and> smap.foreign m1 s2 = smap.foreign m s1" by auto
      let ?s = "if r = 0 then s2 else free_str h0 s2"
      have own: "smap.hm_owned m1 ?s \<and> smap.foreign m1 ?s = smap.foreign m s"
      proof (cases "r = 0")
        case False
        with m1(3) fr(1) have l: "sblk h0 \<in> smap.foreign m1 s2" by auto
        then have e: "free_str h0 s2 = release {sblk h0} {} s2" "sblk h0 \<notin> set (smap.hm_blks m1)"
          by (auto simp: smap.foreign_def os_simps)
        then have "smap.foreign m1 (free_str h0 s2) = smap.foreign m1 s2 - {sblk h0}"
          by (auto simp: smap.foreign_def os_simps)
        with m1 False fr e show ?thesis by (auto simp: smap.hm_owned_def os_simps intro: os_intros)
      qed (use m1 in auto)
      have "represents m1 (if r = 0 then f(k \<mapsto> v) else f)"
        using smap.put_spec [OF ok(2) p] m1(1,3) Cons.prems(2) S(1) by (auto simp: represents_def eq_string_def)
      with own Cons.IH [of m1 ?s] Cons.prems(3) MPut n p m1(1) show ?thesis
        by (fastforce split: prod.splits)
    qed
  qed
qed auto

lemma map_run_length: "map_run ops m s = (rs, m', s') \<Longrightarrow> length rs = length ops"
  by (induction ops m s arbitrary: rs m' s' rule: map_run.induct) (auto split: prod.splits option.splits)

section \<open>Properties\<close>

text \<open>
  C13. The hash map refines a finite map from strings: after any sequence of insertions and
  removals on a new map, with its resizings and with any pattern of allocation failures, a lookup
  of any key returns what the finite map holds after the calls that reported success, and
  destroying the map gives back every block the sequence left behind.
\<close>

theorem string_map_refines:
  assumes "os_ok s" "hashmap_create cap (Some hash_string) (Some eq_string) (Some free_str) None s = (Some m, s1)"
    and "map_run ops (Some m) s1 = (rs, mp, s2)"
  shows "(\<forall>h. hashmap_get mp (Some h) = spec_run ops rs Map.empty (chars h)) \<and>
    (\<forall>h. hashmap_contains mp (Some h) \<longleftrightarrow> chars h \<in> dom (spec_run ops rs Map.empty)) \<and>
    os_ok (hashmap_destroy mp s2) \<and> live (hashmap_destroy mp s2) = live s"
proof -
  from smap.create_owned [OF assms(1,2)]
  have m: "smap.hm_owned m s1" "hm_nodes m = []" "smap.foreign m s1 = live s" by (auto simp: smap.foreign_def)
  then have "represents m Map.empty" by (auto simp: represents_def smap.entry_def)
  from map_run_spec [OF m(1) this assms(3)] m(3) obtain m'
    where m': "mp = Some m'" "smap.hm_owned m' s2" "represents m' (spec_run ops rs Map.empty)" "smap.foreign m' s2 = live s" by auto
  then have "smap.hm_for m'" "os_ok s2" by (auto simp: smap.hm_owned_def)
  with represents_get [OF this(1) m'(3)] m' smap.destroy_releases [OF m'(2)] show ?thesis
    by (auto simp: hashmap_contains_def os_simps smap.foreign_def intro: os_intros)
qed

theorem string_map_refines_witness:
  "\<exists>m s1 rs mp s2. hashmap_create 1 (Some hash_string) (Some eq_string) (Some free_str) None fresh_os = (Some m, s1) \<and>
     map_run [MPut ''CP1'' (1 :: nat), MPut ''D1'' 2, MPut ''CP1'' 3, MRemove ''D1''] (Some m) s1 = (rs, mp, s2) \<and>
     hashmap_get mp (Some (tmp_str ''CP1'')) = spec_run [MPut ''CP1'' 1, MPut ''D1'' 2, MPut ''CP1'' 3, MRemove ''D1''] rs Map.empty ''CP1'' \<and>
     hashmap_get mp (Some (tmp_str ''D1'')) = None \<and> live (hashmap_destroy mp s2) = {}"
proof -
  let ?ops = "[MPut ''CP1'' (1 :: nat), MPut ''D1'' 2, MPut ''CP1'' 3, MRemove ''D1'']"
  obtain m :: "(hstr, nat) HashMap" and s1 where c: "hashmap_create 1 (Some hash_string) (Some eq_string) (Some free_str) None fresh_os = (Some m, s1)"
    by (auto simp: hashmap_create_def calloc_def malloc_def fresh_os_def)
  obtain rs mp s2 where r: "map_run ?ops (Some m) s1 = (rs, mp, s2)" by (cases "map_run ?ops (Some m) s1")
  have "length rs = 4" using map_run_length [OF r] by simp
  then obtain a b d e where rs: "rs = [a, b, d, e]" by (auto simp: numeral_eq_Suc length_Suc_conv)
  from string_map_refines [OF fresh_os_ok(1) c r] c r show ?thesis by (auto simp: rs tmp_str_def)
qed

end
