(* ===== verification/Node.thy ===== *)
theory Node
  imports StringMap
begin

text \<open>
  \<open>Common/node.h\<close> and \<open>Common/node.c\<close>: reading \<open>nodes.csv\<close> into the array of nodes and linking
  parents and children.  A pointer to a node is its index in the array.  The array of child
  pointers is a list of slots, \<open>None\<close> until the slot is written; a write outside of it is
  undefined behaviour.  The text of the file is what the C library delivers in text mode.
\<close>

section \<open>Data\<close>

datatype NodeType = NODE_ROOT | NODE_CENTRAL | NODE_DESTINATION

record NodeInfo =
  nid :: "hstr option"
  naddress :: "hstr option"
  nport :: u16
  nparent :: "nat option"
  children :: "nat option list"
  children_blk :: "nat option"
  child_count :: nat
  ntype :: NodeType

record NodeArray =
  arr :: "NodeInfo list"
  arr_blk :: nat

section \<open>Reading a line\<close>

definition trim :: "string \<Rightarrow> string" where
  "trim str =
     (case dropWhile isspace str of
        [] \<Rightarrow> []
      | c # r \<Rightarrow> c # rev (dropWhile isspace (rev r)))"

definition strip_eol :: "string \<Rightarrow> string" where
  "strip_eol p = (if p \<noteq> [] \<and> (last p = CHR 0x0A \<or> last p = CHR 0x0D) then butlast p else p)"

text \<open>The four columns of a line; a line with fewer than three is skipped.\<close>

type_synonym row = "string \<times> string \<times> string \<times> string option"

definition parse_line :: "string \<Rightarrow> row option" where
  "parse_line line =
     (case strtok CHR '','' (strip_eol (c_str line)) of
        None \<Rightarrow> None
      | Some (i0, r) \<Rightarrow>
          (case strtok CHR '','' r of
             None \<Rightarrow> None
           | Some (addr, r) \<Rightarrow>
               (case strtok CHR '','' r of
                  None \<Rightarrow> None
                | Some (ps, r) \<Rightarrow> Some (i0, addr, ps, map_option fst (strtok CHR '','' r)))))"

section \<open>The growing array\<close>

record loader =
  l_arr :: "NodeInfo list"
  l_pids :: "hstr option list"
  l_cap :: nat
  l_ablk :: nat
  l_pblk :: nat

text \<open>The results of \<open>realloc\<close> are used unchecked: where it fails, NULL is written through.\<close>

definition realloc :: "nat \<Rightarrow> os \<Rightarrow> nat \<times> os" where
  "realloc b s =
     (case malloc s of
        (None, s) \<Rightarrow> (b, s\<lparr>ub := True\<rparr>)
      | (Some b', s) \<Rightarrow> (b', free_blk b s))"

definition grow :: "loader \<Rightarrow> os \<Rightarrow> loader \<times> os" where
  "grow l s =
     (if length (l_arr l) \<ge> l_cap l then
        (case realloc (l_ablk l) s of
           (a, s) \<Rightarrow>
             (case realloc (l_pblk l) s of
                (p, s) \<Rightarrow> (l\<lparr>l_cap := l_cap l * 2, l_ablk := a, l_pblk := p\<rparr>, s)))
      else (l, s))"

definition load_row :: "row \<Rightarrow> loader \<Rightarrow> os \<Rightarrow> loader \<times> os" where
  "load_row row l s =
     (case row of
        (i0, addr, ps, pid) \<Rightarrow>
          (case grow l s of
             (l, s) \<Rightarrow>
               (case strdup (trim i0) s of
                  (i, s) \<Rightarrow>
                    (case strdup (trim addr) s of
                       (a, s) \<Rightarrow>
                         (case (case pid of
                                  None \<Rightarrow> (None, s)
                                | Some pid \<Rightarrow> if trim pid \<noteq> [] then strdup (trim pid) s else (None, s)) of
                            (p, s) \<Rightarrow>
                              (l\<lparr>l_arr := l_arr l @
                                   [\<lparr>nid = i, naddress = a, nport = word_of_int (atoi (trim ps)), nparent = None,
                                     children = [], children_blk = None, child_count = 0,
                                     ntype = NODE_DESTINATION\<rparr>],
                                 l_pids := l_pids l @ [p]\<rparr>, s))))))"

function read_rows :: "string \<Rightarrow> loader \<Rightarrow> os \<Rightarrow> loader \<times> os" where
  "read_rows txt l s =
     (case fgets 512 txt of
        None \<Rightarrow> (l, s)
      | Some (line, rest) \<Rightarrow>
          (case parse_line line of
             None \<Rightarrow> read_rows rest l s
           | Some row \<Rightarrow> (case load_row row l s of (l, s) \<Rightarrow> read_rows rest l s)))"
  by pat_completeness auto
termination
  by (relation "measure (\<lambda>(txt, l, s). length txt)") (auto dest: fgets_shorter)

declare read_rows.simps [simp del]

section \<open>Linking\<close>

definition link_parent :: "(hstr, nat) HashMap option \<Rightarrow> hstr option list \<Rightarrow> nat \<Rightarrow> NodeInfo list \<Rightarrow> NodeInfo list" where
  "link_parent m pids i ns =
     (case pids ! i of
        None \<Rightarrow> ns
      | Some p \<Rightarrow>
          (let par = hashmap_get m (Some p);
               ns = ns[i := (ns ! i)\<lparr>nparent := par\<rparr>]
           in (case par of
                 None \<Rightarrow> ns
               | Some j \<Rightarrow> ns[j := (ns ! j)\<lparr>child_count := child_count (ns ! j) + 1\<rparr>])))"

definition alloc_children :: "nat \<Rightarrow> NodeInfo list \<times> os \<Rightarrow> NodeInfo list \<times> os" where
  "alloc_children i = (\<lambda>(ns, s).
     if 0 < child_count (ns ! i) then
       (case malloc s of
          (b, s) \<Rightarrow>
            (ns[i := (ns ! i)\<lparr>children := (case b of None \<Rightarrow> [] | Some _ \<Rightarrow> replicate (child_count (ns ! i)) None),
                              children_blk := b, child_count := 0\<rparr>], s))
     else (ns, s))"

definition link_child :: "nat \<Rightarrow> NodeInfo list \<times> os \<Rightarrow> NodeInfo list \<times> os" where
  "link_child i = (\<lambda>(ns, s).
     case nparent (ns ! i) of
       None \<Rightarrow> (ns, s)
     | Some p \<Rightarrow>
         (let n = ns ! p; k = child_count n
          in if k < length (children n)
             then (ns[p := n\<lparr>children := (children n)[k := Some i], child_count := k + 1\<rparr>], s)
             else (ns, s\<lparr>ub := True\<rparr>)))"

definition classify :: "NodeInfo \<Rightarrow> NodeInfo" where
  "classify n =
     n\<lparr>ntype := (if nparent n = None then NODE_ROOT
                 else if child_count n \<noteq> 0 then NODE_CENTRAL else NODE_DESTINATION)\<rparr>"

definition free_ptr :: "nat option \<Rightarrow> os \<Rightarrow> os" where
  "free_ptr p s = (case p of None \<Rightarrow> s | Some b \<Rightarrow> free_blk b s)"

definition free_hstr :: "hstr option \<Rightarrow> os \<Rightarrow> os" where
  "free_hstr p s = (case p of None \<Rightarrow> s | Some h \<Rightarrow> free_str h s)"

definition link_nodes :: "loader \<Rightarrow> os \<Rightarrow> NodeArray \<times> os" where
  "link_nodes l s =
     (let cnt = length (l_arr l)
      in (case hashmap_create (l_cap l) (Some hash_string) (Some eq_string) (Some free_str) None s of
            (m, s) \<Rightarrow>
              (case put_ids (zip (map nid (l_arr l)) [0..<cnt]) m s of
                 (m, s) \<Rightarrow>
                   (let ns = fold (link_parent m (l_pids l)) [0..<cnt] (l_arr l);
                        (ns, s) = fold alloc_children [0..<cnt] (ns, s);
                        (ns, s) = fold link_child [0..<cnt] (ns, s);
                        ns = map classify ns;
                        s = fold free_hstr (l_pids l) s;
                        s = free_blk (l_pblk l) s;
                        s = hashmap_destroy m s
                    in (\<lparr>arr = ns, arr_blk = l_ablk l\<rparr>, s)))))"

text \<open>
  \<open>node_load_all\<close>: the contents of the file, or \<open>None\<close> where it cannot be opened; the result is
  NULL, or the array, whose length is the returned count.
\<close>

definition node_load_all :: "string option \<Rightarrow> os \<Rightarrow> NodeArray option \<times> os" where
  "node_load_all file s =
     (case file of
        None \<Rightarrow> (None, s)
      | Some txt \<Rightarrow>
          (case malloc s of
             (None, s) \<Rightarrow> (None, s)
           | (Some a, s) \<Rightarrow>
               (case malloc s of
                  (None, s) \<Rightarrow> (None, free_blk a s)
                | (Some p, s) \<Rightarrow>
                    (case read_rows txt \<lparr>l_arr = [], l_pids = [], l_cap = 16, l_ablk = a, l_pblk = p\<rparr> s of
                       (l, s) \<Rightarrow> (case link_nodes l s of (na, s) \<Rightarrow> (Some na, s))))))"

definition node_info_destroy :: "NodeInfo \<Rightarrow> os \<Rightarrow> os" where
  "node_info_destroy n s = free_ptr (children_blk n) (free_hstr (naddress n) (free_hstr (nid n) s))"

definition node_info_destroy_all :: "NodeArray option \<Rightarrow> os \<Rightarrow> os" where
  "node_info_destroy_all na s =
     (case na of
        None \<Rightarrow> s
      | Some na \<Rightarrow> free_blk (arr_blk na) (fold node_info_destroy (arr na) s))"

section \<open>What a file means\<close>

text \<open>The rows of a file, in order.\<close>

function file_rows :: "string \<Rightarrow> row list" where
  "file_rows txt =
     (case fgets 512 txt of
        None \<Rightarrow> []
      | Some (line, rest) \<Rightarrow>
          (case parse_line line of None \<Rightarrow> file_rows rest | Some row \<Rightarrow> row # file_rows rest))"
  by pat_completeness auto
termination
  by (relation "measure length") (auto dest: fgets_shorter)

declare file_rows.simps [simp del]

definition row_id :: "row \<Rightarrow> string" where
  "row_id r = trim (fst r)"

text \<open>The parent column, when it is there and not blank.\<close>

definition row_pid :: "row \<Rightarrow> string option" where
  "row_pid r = (case snd (snd (snd r)) of None \<Rightarrow> None | Some p \<Rightarrow> if trim p \<noteq> [] then Some (trim p) else None)"

text \<open>The node a row names as its parent: the last row with that id.\<close>

definition row_parent :: "row list \<Rightarrow> nat \<Rightarrow> nat option" where
  "row_parent rs i =
     (case row_pid (rs ! i) of
        None \<Rightarrow> None
      | Some p \<Rightarrow> map_of (rev (zip (map row_id rs) [0..<length rs])) p)"

definition row_children :: "row list \<Rightarrow> nat \<Rightarrow> nat list" where
  "row_children rs j = filter (\<lambda>i. row_parent rs i = Some j) [0..<length rs]"

text \<open>The array \<open>na\<close> is what the rows \<open>rs\<close> describe.\<close>

definition describes :: "row list \<Rightarrow> NodeInfo list \<Rightarrow> bool" where
  "describes rs ns \<longleftrightarrow>
     length ns = length rs \<and>
     (\<forall>i < length rs.
        map_option chars (nid (ns ! i)) = Some (row_id (rs ! i)) \<and>
        map_option chars (naddress (ns ! i)) = Some (trim (fst (snd (rs ! i)))) \<and>
        nport (ns ! i) = word_of_int (atoi (trim (fst (snd (snd (rs ! i)))))) \<and>
        nparent (ns ! i) = row_parent rs i \<and>
        children (ns ! i) = map Some (row_children rs i) \<and>
        child_count (ns ! i) = length (row_children rs i) \<and>
        ntype (ns ! i) =
          (if row_parent rs i = None then NODE_ROOT
           else if row_children rs i \<noteq> [] then NODE_CENTRAL else NODE_DESTINATION))"

section \<open>Reading the rows\<close>

text \<open>The blocks a node owns.\<close>

definition str_blk :: "hstr option \<Rightarrow> nat list" where
  "str_blk p = (case p of None \<Rightarrow> [] | Some h \<Rightarrow> [sblk h])"

definition node_blks :: "NodeInfo \<Rightarrow> nat list" where
  "node_blks n = str_blk (nid n) @ str_blk (naddress n) @ (case children_blk n of None \<Rightarrow> [] | Some b \<Rightarrow> [b])"

definition nodes_blks :: "NodeInfo list \<Rightarrow> nat list" where
  "nodes_blks ns = concat (map node_blks ns)"

text \<open>A node as the reading loop leaves it.\<close>

definition row_node :: "row \<Rightarrow> NodeInfo \<Rightarrow> bool" where
  "row_node r n \<longleftrightarrow>
     (\<exists>i a. n = \<lparr>nid = Some i, naddress = Some a, nport = word_of_int (atoi (trim (fst (snd (snd r))))),
                nparent = None, children = [], children_blk = None, child_count = 0, ntype = NODE_DESTINATION\<rparr> \<and>
            chars i = row_id r \<and> chars a = trim (fst (snd r)))"

definition loader_ok :: "row list \<Rightarrow> loader \<Rightarrow> bool" where
  "loader_ok rs l \<longleftrightarrow>
     list_all2 row_node rs (l_arr l) \<and> list_all2 (\<lambda>r p. map_option chars p = row_pid r) rs (l_pids l) \<and>
     16 \<le> l_cap l \<and> length rs \<le> l_cap l \<and> l_cap l \<le> 16 + 2 * length rs"

definition loader_blks :: "loader \<Rightarrow> nat list" where
  "loader_blks l = l_ablk l # l_pblk l # nodes_blks (l_arr l) @ concat (map str_blk (l_pids l))"

lemma realloc_spec:
  assumes "holds L K (b # X) s" "True \<notin> set (oom s)" "realloc b s = (b', s')"
  shows "holds L K (b' # X) s' \<and> True \<notin> set (oom s')"
proof -
  from malloc_succeeds [OF assms(2)] obtain c t where c: "malloc s = (Some c, t)" "True \<notin> set (oom t)" by blast
  have "holds L K (c # b # X) t" by (rule holds_malloc [OF assms(1) c(1)])
  then have "holds L K (b # c # X) t" by (subst holds_perm [of _ "c # b # X"]) auto
  then have "holds L K (c # X) (free_blk b t)" by (rule holds_free)
  with assms(3) c show ?thesis by (auto simp: realloc_def os_simps)
qed

lemma grow_spec:
  assumes "loader_ok rs l" "holds L K (loader_blks l) s" "True \<notin> set (oom s)" "grow l s = (l', s')"
  shows "holds L K (loader_blks l') s' \<and> True \<notin> set (oom s') \<and> l_arr l' = l_arr l \<and> l_pids l' = l_pids l \<and>
    16 \<le> l_cap l' \<and> length rs < l_cap l' \<and> l_cap l' \<le> 16 + 2 * length rs"
proof (cases "length (l_arr l) \<ge> l_cap l")
  case True
  let ?R = "nodes_blks (l_arr l) @ concat (map str_blk (l_pids l))"
  obtain a s1 where a: "realloc (l_ablk l) s = (a, s1)" by force
  obtain p s2 where p: "realloc (l_pblk l) s1 = (p, s2)" by force
  from realloc_spec [OF _ assms(3) a, of L K "l_pblk l # ?R"] assms(2)
  have "holds L K (a # l_pblk l # ?R) s1" and o1: "True \<notin> set (oom s1)" by (auto simp: loader_blks_def)
  then have "holds L K (l_pblk l # a # ?R) s1" by (subst holds_perm [of _ "a # l_pblk l # ?R"]) auto
  from realloc_spec [OF this o1 p] have "holds L K (p # a # ?R) s2" and o2: "True \<notin> set (oom s2)" by auto
  then have "holds L K (a # p # ?R) s2" by (subst holds_perm [of _ "p # a # ?R"]) auto
  with True a p o2 assms(1,4) show ?thesis
    by (auto simp: grow_def loader_ok_def loader_blks_def dest: list_all2_lengthD)
next
  case False
  with assms show ?thesis by (auto simp: grow_def loader_ok_def dest: list_all2_lengthD)
qed

lemma load_row_spec:
  assumes "loader_ok rs l" "holds L K (loader_blks l) s" "True \<notin> set (oom s)" "load_row r l s = (l', s')"
  shows "loader_ok (rs @ [r]) l' \<and> holds L K (loader_blks l') s' \<and> True \<notin> set (oom s')"
proof -
  obtain i0 addr ps pid where r: "r = (i0, addr, ps, pid)" by (cases r)
  obtain l1 s1 where g: "grow l s = (l1, s1)" by force
  note G = grow_spec [OF assms(1-3) g]
  obtain i s2 where i: "strdup (trim i0) s1 = (Some i, s2)" "chars i = trim i0" "True \<notin> set (oom s2)"
    using G strdup_succeeds by metis
  obtain a s3 where a: "strdup (trim addr) s2 = (Some a, s3)" "chars a = trim addr" "True \<notin> set (oom s3)"
    using i(3) strdup_succeeds by metis
  have h3: "holds L K (sblk a # sblk i # loader_blks l1) s3"
    using G holds_strdup [OF _ i(1)] holds_strdup [OF _ a(1)] by blast
  define p where "p = (case pid of None \<Rightarrow> (None, s3)
    | Some pid \<Rightarrow> if trim pid \<noteq> [] then strdup (trim pid) s3 else (None, s3))"
  obtain q s4 where q: "p = (q, s4)" by force
  have P: "map_option chars q = row_pid r \<and> True \<notin> set (oom s4) \<and> holds L K (str_blk q @ sblk a # sblk i # loader_blks l1) s4"
  proof (cases "\<exists>pid'. pid = Some pid' \<and> trim pid' \<noteq> []")
    case True
    then obtain pid' where pid: "pid = Some pid'" "trim pid' \<noteq> []" by blast
    obtain h t where h: "strdup (trim pid') s3 = (Some h, t)" "chars h = trim pid'" "True \<notin> set (oom t)"
      using a(3) strdup_succeeds by metis
    with q pid holds_strdup [OF h3 h(1)] show ?thesis by (auto simp: p_def r row_pid_def str_blk_def)
  next
    case False
    then have "p = (None, s3)" "row_pid r = None" by (auto simp: p_def r row_pid_def split: option.splits)
    with q h3 a(3) show ?thesis by (simp add: str_blk_def)
  qed
  let ?n = "\<lparr>nid = Some i, naddress = Some a, nport = word_of_int (atoi (trim ps)), nparent = None,
    children = [], children_blk = None, child_count = 0, ntype = NODE_DESTINATION\<rparr>"
  have l': "l' = l1\<lparr>l_arr := l_arr l1 @ [?n], l_pids := l_pids l1 @ [q]\<rparr>" "s' = s4"
    using assms(4) g i(1) a(1) q by (simp_all add: load_row_def r p_def)
  have "row_node r ?n" using i(2) a(2) by (simp add: row_node_def r row_id_def)
  with assms(1) G P have "loader_ok (rs @ [r]) l'" by (simp add: loader_ok_def l' list_all2_appendI)
  moreover have "holds L K (loader_blks l') s'"
    using P by (subst holds_perm [of _ "str_blk q @ sblk a # sblk i # loader_blks l1"])
      (auto simp: l' loader_blks_def nodes_blks_def node_blks_def str_blk_def)
  ultimately show ?thesis using P l' by simp
qed

lemma read_rows_spec:
  assumes "loader_ok rs l" "holds L K (loader_blks l) s" "True \<notin> set (oom s)" "read_rows cs l s = (l', s')"
  shows "loader_ok (rs @ file_rows cs) l' \<and> holds L K (loader_blks l') s' \<and> True \<notin> set (oom s')"
  using assms
proof (induction cs l s arbitrary: rs rule: read_rows.induct)
  case (1 cs l s)
  note unf = read_rows.simps [of cs l s] file_rows.simps [of cs]
  show ?case
  proof (cases "fgets 512 cs")
    case None
    with 1 show ?thesis by (simp add: unf)
  next
    case (Some p)
    then obtain line rest where f: "fgets 512 cs = Some (line, rest)" by (cases p) auto
    show ?thesis
    proof (cases "parse_line line")
      case None
      with 1 f show ?thesis by (simp add: unf)
    next
      case (Some row)
      obtain l1 s1 where r: "load_row row l s = (l1, s1)" by force
      from load_row_spec [OF "1.prems"(1-3) r] 1(2) [OF f refl Some r [symmetric], of "rs @ [row]"] "1.prems"(4)
      show ?thesis by (simp add: unf f Some r)
    qed
  qed
qed

section \<open>The linking passes\<close>

text \<open>The indices below \<open>k\<close> whose parent, by the table \<open>par\<close>, is \<open>i\<close>.\<close>

definition kids :: "(nat \<Rightarrow> nat option) \<Rightarrow> nat \<Rightarrow> nat \<Rightarrow> nat list" where
  "kids par k i = filter (\<lambda>j. par j = Some i) [0..<k]"

lemma kids_simps [simp]:
  "kids par 0 i = []"
  "kids par (Suc k) i = (if par k = Some i then kids par k i @ [k] else kids par k i)"
  by (auto simp: kids_def)

lemma link_parents:
  assumes "length ns = n" "\<And>i. i < n \<Longrightarrow> par i = (case pids ! i of None \<Rightarrow> None | Some p \<Rightarrow> hashmap_get m (Some p))"
    and "\<And>i j. i < n \<Longrightarrow> par i = Some j \<Longrightarrow> j < n"
    and "\<And>i. i < n \<Longrightarrow> nparent (ns ! i) = None \<and> child_count (ns ! i) = 0" and "k \<le> n"
  shows "fold (link_parent m pids) [0..<k] ns =
    map (\<lambda>i. (ns ! i)\<lparr>nparent := if i < k then par i else None, child_count := length (kids par k i)\<rparr>) [0..<n]"
  using assms(5)
proof (induction k)
  case 0
  have "(ns ! i)\<lparr>nparent := None, child_count := 0\<rparr> = ns ! i" if "i < n" for i
    using assms(4) [OF that] by (cases "ns ! i") simp
  then show ?case using assms(1) by (auto intro: nth_equalityI)
next
  case (Suc k)
  then have k: "k < n" by simp
  note p = assms(2,3) [OF k]
  have "link_parent m pids k (map (\<lambda>i. (ns ! i)\<lparr>nparent := if i < k then par i else None, child_count := length (kids par k i)\<rparr>) [0..<n]) =
    map (\<lambda>i. (ns ! i)\<lparr>nparent := if i < Suc k then par i else None, child_count := length (kids par (Suc k) i)\<rparr>) [0..<n]"
  proof (cases "par k")
    case None
    with k p(1) show ?thesis
      by (auto simp: link_parent_def Let_def nth_list_update less_Suc_eq split: option.splits intro!: nth_equalityI)
  next
    case (Some j)
    with k p(1) p(2) [OF Some] show ?thesis
      by (auto simp: link_parent_def Let_def nth_list_update less_Suc_eq split: option.splits intro!: nth_equalityI)
  qed
  with Suc show ?case by simp
qed

lemma nodes_blks_update:
  assumes "i < length ns" "mset (node_blks n) = mset (X @ node_blks (ns ! i))"
  shows "mset (nodes_blks (ns[i := n])) = mset (X @ nodes_blks ns)"
  using mset_concat_upd [of i "map node_blks ns" "node_blks n"] assms
  by (simp add: nodes_blks_def map_update)

text \<open>The nodes that get an array of children, and how it looks when it is fresh.\<close>

definition with_array :: "nat \<Rightarrow> (nat \<Rightarrow> nat) \<Rightarrow> nat \<Rightarrow> NodeInfo \<Rightarrow> NodeInfo" where
  "with_array k bs i n =
     (if i < k \<and> 0 < child_count n
      then n\<lparr>children := replicate (child_count n) None, children_blk := Some (bs i), child_count := 0\<rparr> else n)"

lemma alloc_pass:
  assumes "holds L K (nodes_blks ns @ R) s" "True \<notin> set (oom s)" "k \<le> length ns"
    and "\<And>i. i < length ns \<Longrightarrow> children_blk (ns ! i) = None"
  shows "\<exists>bs s'. fold alloc_children [0..<k] (ns, s) = (map (\<lambda>i. with_array k bs i (ns ! i)) [0..<length ns], s') \<and>
    holds L K (nodes_blks (map (\<lambda>i. with_array k bs i (ns ! i)) [0..<length ns]) @ R) s' \<and> True \<notin> set (oom s')"
  using assms(3)
proof (induction k)
  case 0
  have "map (\<lambda>i. with_array 0 (\<lambda>_. 0) i (ns ! i)) [0..<length ns] = ns"
    by (auto simp: with_array_def map_nth)
  with assms(1,2) show ?case by (intro exI [of _ "\<lambda>_. 0"] exI [of _ s]) simp
next
  case (Suc k)
  then obtain bs s1 where IH: "fold alloc_children [0..<k] (ns, s) = (map (\<lambda>i. with_array k bs i (ns ! i)) [0..<length ns], s1)"
    "holds L K (nodes_blks (map (\<lambda>i. with_array k bs i (ns ! i)) [0..<length ns]) @ R) s1" "True \<notin> set (oom s1)"
    by auto
  let ?ns = "map (\<lambda>i. with_array k bs i (ns ! i)) [0..<length ns]"
  from Suc.prems have k: "k < length ns" "?ns ! k = ns ! k" by (auto simp: with_array_def)
  show ?case
  proof (cases "0 < child_count (ns ! k)")
    case True
    from malloc_succeeds [OF IH(3)] obtain b s2 where b: "malloc s1 = (Some b, s2)" "True \<notin> set (oom s2)" by blast
    let ?n = "(ns ! k)\<lparr>children := replicate (child_count (ns ! k)) None, children_blk := Some b, child_count := 0\<rparr>"
    have eq: "?ns[k := ?n] = map (\<lambda>i. with_array (Suc k) (bs(k := b)) i (ns ! i)) [0..<length ns]"
      using True by (auto simp: with_array_def nth_list_update less_Suc_eq intro!: nth_equalityI)
    have "mset (nodes_blks (?ns[k := ?n])) = mset ([b] @ nodes_blks ?ns)"
      using k assms(4) [OF k(1)] by (intro nodes_blks_update) (auto simp: node_blks_def)
    then have "mset (nodes_blks (?ns[k := ?n]) @ R) = mset (b # nodes_blks ?ns @ R)" by simp
    with holds_malloc [OF IH(2) b(1)] have "holds L K (nodes_blks (?ns[k := ?n]) @ R) s2" using holds_perm by blast
    moreover have "fold alloc_children [0..<Suc k] (ns, s) = (?ns[k := ?n], s2)"
      using IH(1) True b(1) k by (simp add: alloc_children_def)
    ultimately show ?thesis using b(2) unfolding eq by blast
  next
    case False
    have "?ns = map (\<lambda>i. with_array (Suc k) bs i (ns ! i)) [0..<length ns]"
      using False by (auto simp: with_array_def less_Suc_eq)
    moreover have "fold alloc_children [0..<Suc k] (ns, s) = (?ns, s1)"
      using IH(1) False k by (simp add: alloc_children_def)
    ultimately show ?thesis using IH(2,3) by metis
  qed
qed

lemma child_pass:
  assumes "length ns = n" "\<And>i. i < n \<Longrightarrow> nparent (ns ! i) = par i"
    and "\<And>i j. i < n \<Longrightarrow> par i = Some j \<Longrightarrow> j < n"
    and "\<And>i. i < n \<Longrightarrow> child_count (ns ! i) = 0 \<and> children (ns ! i) = replicate (length (kids par n i)) None" and "k \<le> n"
  shows "fold link_child [0..<k] (ns, s) =
    (map (\<lambda>i. (ns ! i)\<lparr>children := map Some (kids par k i) @ replicate (length (kids par n i) - length (kids par k i)) None,
                      child_count := length (kids par k i)\<rparr>) [0..<n], s)"
  using assms(5)
proof (induction k)
  case 0
  have "(ns ! i)\<lparr>children := replicate (length (kids par n i)) None, child_count := 0\<rparr> = ns ! i" if "i < n" for i
    using assms(4) [OF that] by (cases "ns ! i") simp
  then show ?case using assms(1) by (auto intro: nth_equalityI)
next
  case (Suc k)
  then have k: "k < n" by simp
  let ?f = "\<lambda>k i. (ns ! i)\<lparr>children := map Some (kids par k i) @ replicate (length (kids par n i) - length (kids par k i)) None,
                      child_count := length (kids par k i)\<rparr>"
  have "link_child k (map (?f k) [0..<n], s) = (map (?f (Suc k)) [0..<n], s)"
  proof (cases "par k")
    case None
    with k assms(2) [OF k] show ?thesis by (simp add: link_child_def)
  next
    case (Some j)
    have "[0..<n] = [0..<k] @ k # [Suc k..<n]" using upt_add_eq_append [of 0 k "n - k"] k by (simp add: upt_conv_Cons)
    with Some have less: "length (kids par k j) < length (kids par n j)" by (simp add: kids_def)
    then obtain d where d: "length (kids par n j) - length (kids par k j) = Suc d" by (metis Suc_diff_Suc)
    have "(map (?f k) [0..<n])[j := ?f (Suc k) j] = map (?f (Suc k)) [0..<n]"
      using Some by (auto simp: nth_list_update intro!: nth_equalityI)
    moreover have "(map Some (kids par k j) @ replicate (Suc d) None)[length (kids par k j) := Some k] =
        map Some (kids par k j) @ Some k # replicate d None"
      by (simp add: list_update_append)
    ultimately show ?thesis using k Some assms(2) [OF k] assms(3) [OF k Some] less d
      by (simp add: link_child_def Let_def diff_Suc)
  qed
  with Suc show ?case by simp
qed

section \<open>The loader\<close>

lemma free_hstr_holds: "holds L K (str_blk p @ X) s \<Longrightarrow> holds L K X (free_hstr p s)"
  by (auto simp: free_hstr_def str_blk_def free_str_def intro: holds_free split: option.splits)

lemma fold_free_hstr: "holds L K (concat (map str_blk ps) @ X) s \<Longrightarrow> holds L K X (fold free_hstr ps s)"
  by (induction ps arbitrary: s) (auto dest: free_hstr_holds)

lemma node_info_destroy_holds:
  assumes "holds L K (node_blks n @ X) s"
  shows "holds L K X (node_info_destroy n s)"
proof -
  let ?c = "case children_blk n of None \<Rightarrow> [] | Some b \<Rightarrow> [b]"
  from assms have "holds L K (?c @ X) (free_hstr (naddress n) (free_hstr (nid n) s))"
    by (intro free_hstr_holds) (simp add: node_blks_def)
  then show ?thesis by (auto simp: node_info_destroy_def free_ptr_def intro: holds_free split: option.splits)
qed

lemma destroy_all_holds:
  assumes "holds L K (nodes_blks (arr na) @ arr_blk na # X) s"
  shows "holds L K X (node_info_destroy_all (Some na) s)"
proof -
  have "holds L K X (fold node_info_destroy ns s)" if "holds L K (nodes_blks ns @ X) s" for ns s X
    using that by (induction ns arbitrary: s) (auto simp: nodes_blks_def dest: node_info_destroy_holds)
  from this [OF assms] show ?thesis by (simp add: node_info_destroy_all_def holds_free)
qed

text \<open>The table of parents is what the hash map of ids answers.\<close>

lemma row_parent_less: "i < length rs \<Longrightarrow> row_parent rs i = Some j \<Longrightarrow> j < length rs"
  by (auto simp: row_parent_def split: option.splits dest!: map_of_SomeD in_set_zipE set_zip_rightD)

lemma id_map:
  assumes "loader_ok rs l" "holds L K (loader_blks l) s" "True \<notin> set (oom s)" "length rs < 2 ^ 19"
  shows "\<exists>m s1 m' s'. hashmap_create (l_cap l) (Some hash_string) (Some eq_string) (Some free_str) None s = (Some m, s1) \<and>
    put_ids (zip (map nid (l_arr l)) [0..<length (l_arr l)]) (Some m) s1 = (Some m', s') \<and>
    smap.hm_owned m' s' \<and> holds L K (smap.hm_blks m' @ loader_blks l) s' \<and> True \<notin> set (oom s') \<and>
    (\<forall>k. hashmap_get (Some m') (Some k) = map_of (rev (zip (map row_id rs) [0..<length rs])) (chars k))"
proof -
  let ?n = "length rs" and ?hs = "map (\<lambda>n. the (nid n)) (l_arr l)"
  from assms(1) have l: "length (l_arr l) = ?n" "list_all2 row_node rs (l_arr l)" "16 \<le> l_cap l" "?n \<le> l_cap l"
    "l_cap l \<le> 16 + 2 * ?n" by (auto simp: loader_ok_def list_all2_lengthD)
  have nid: "map nid (l_arr l) = map Some ?hs" and ids: "map chars ?hs = map row_id rs"
    using l(1,2) by (fastforce simp: list_all2_conv_all_nth row_node_def in_set_conv_nth intro!: nth_equalityI)+
  have z: "zip (map nid (l_arr l)) [0..<?n] = map (\<lambda>(h, v). (Some h, v)) (zip ?hs [0..<?n])"
    unfolding nid by (simp add: zip_map1 case_prod_beta)
  have c: "map (\<lambda>(h, v). (chars h, v)) (zip ?hs [0..<?n]) = zip (map row_id rs) [0..<?n]"
    unfolding ids [symmetric] by (simp only: zip_map1 [of chars] case_prod_beta)
  from l assms(4) have "0 < l_cap l" "l_cap l < 2 ^ 21" "length (zip ?hs [0..<?n]) \<le> l_cap l" by auto
  from build_map [OF assms(2,3) this] show ?thesis unfolding l(1) z c by blast
qed

lemma node_blks_cong:
  "nid n = nid n' \<Longrightarrow> naddress n = naddress n' \<Longrightarrow> children_blk n = children_blk n' \<Longrightarrow> node_blks n = node_blks n'"
  by (simp add: node_blks_def)

lemma nodes_blks_cong:
  assumes "length ns = length ns'"
    and "\<And>i. i < length ns' \<Longrightarrow> nid (ns ! i) = nid (ns' ! i) \<and> naddress (ns ! i) = naddress (ns' ! i) \<and>
      children_blk (ns ! i) = children_blk (ns' ! i)"
  shows "nodes_blks ns = nodes_blks ns'"
proof -
  have "map node_blks ns = map node_blks ns'"
    by (rule nth_equalityI) (use assms in \<open>simp_all add: node_blks_def\<close>)
  then show ?thesis by (simp add: nodes_blks_def)
qed

lemma row_children_kids: "row_children rs i = kids (row_parent rs) (length rs) i"
  by (simp add: row_children_def kids_def)

text \<open>The four passes over the array, given what the map of ids answers.\<close>

lemma link_passes:
  fixes m :: "(hstr, nat) HashMap option"
  assumes "loader_ok rs l" "holds L K (nodes_blks (l_arr l) @ R) s" "True \<notin> set (oom s)"
    and "\<And>k. hashmap_get m (Some k) = map_of (rev (zip (map row_id rs) [0..<length rs])) (chars k)"
  shows "\<exists>ns1 ns2 ns3 s1. fold (link_parent m (l_pids l)) [0..<length rs] (l_arr l) = ns1 \<and>
    fold alloc_children [0..<length rs] (ns1, s) = (ns2, s1) \<and>
    fold link_child [0..<length rs] (ns2, s1) = (ns3, s1) \<and>
    describes rs (map classify ns3) \<and> holds L K (nodes_blks (map classify ns3) @ R) s1 \<and> True \<notin> set (oom s1)"
proof -
  let ?n = "length rs" and ?par = "row_parent rs" and ?ns = "l_arr l"
  from assms(1) have l: "length ?ns = ?n" "length (l_pids l) = ?n"
    and rn: "\<And>i. i < ?n \<Longrightarrow> row_node (rs ! i) (?ns ! i)"
    and rp: "\<And>i. i < ?n \<Longrightarrow> map_option chars (l_pids l ! i) = row_pid (rs ! i)"
    by (auto simp: loader_ok_def list_all2_conv_all_nth)
  have par: "?par i = (case l_pids l ! i of None \<Rightarrow> None | Some p \<Rightarrow> hashmap_get m (Some p))" if "i < ?n" for i
    using rp [OF that] by (auto simp: row_parent_def assms(4) split: option.splits)
  have init: "nparent (?ns ! i) = None \<and> child_count (?ns ! i) = 0 \<and> children (?ns ! i) = [] \<and> children_blk (?ns ! i) = None"
    if "i < ?n" for i using rn [OF that] by (auto simp: row_node_def)
  define ns1 where "ns1 = map (\<lambda>i. (?ns ! i)\<lparr>nparent := ?par i, child_count := length (kids ?par ?n i)\<rparr>) [0..<?n]"
  have "fold (link_parent m (l_pids l)) [0..<?n] ?ns =
      map (\<lambda>i. (?ns ! i)\<lparr>nparent := if i < ?n then ?par i else None, child_count := length (kids ?par ?n i)\<rparr>) [0..<?n]"
    by (rule link_parents [OF l(1) par row_parent_less]) (use init in auto)
  then have 1: "fold (link_parent m (l_pids l)) [0..<?n] ?ns = ns1" by (simp add: ns1_def cong: map_cong)
  have "nodes_blks ns1 = nodes_blks ?ns" by (rule nodes_blks_cong) (auto simp: ns1_def l(1))
  with assms(2) have "holds L K (nodes_blks ns1 @ R) s" by simp
  from alloc_pass [OF this assms(3), of ?n] init obtain bs s1
    where a: "fold alloc_children [0..<?n] (ns1, s) = (map (\<lambda>i. with_array ?n bs i (ns1 ! i)) [0..<?n], s1)"
      "holds L K (nodes_blks (map (\<lambda>i. with_array ?n bs i (ns1 ! i)) [0..<?n]) @ R) s1" "True \<notin> set (oom s1)"
    by (auto simp: ns1_def)
  define ns2 where "ns2 = map (\<lambda>i. with_array ?n bs i (ns1 ! i)) [0..<?n]"
  have n2: "nparent (ns2 ! i) = ?par i" "child_count (ns2 ! i) = 0"
    "children (ns2 ! i) = replicate (length (kids ?par ?n i)) None"
    "nid (ns2 ! i) = nid (?ns ! i)" "naddress (ns2 ! i) = naddress (?ns ! i)" "nport (ns2 ! i) = nport (?ns ! i)"
    if "i < ?n" for i using that init by (auto simp: ns2_def with_array_def ns1_def)
  define ns3 where "ns3 = map (\<lambda>i. (ns2 ! i)\<lparr>children := map Some (kids ?par ?n i), child_count := length (kids ?par ?n i)\<rparr>) [0..<?n]"
  have 3: "fold link_child [0..<?n] (ns2, s1) = (ns3, s1)"
  proof -
    have "length ns2 = ?n" by (simp add: ns2_def)
    from child_pass [where s = s1, OF this n2(1) row_parent_less _ order_refl] n2(2,3) show ?thesis by (simp add: ns3_def)
  qed
  have "nodes_blks (map classify ns3) = nodes_blks ns2"
    by (rule nodes_blks_cong) (auto simp: ns3_def ns2_def classify_def)
  with a(2) have "holds L K (nodes_blks (map classify ns3) @ R) s1" by (simp add: ns2_def)
  moreover have "describes rs (map classify ns3)"
    unfolding describes_def
  proof (intro conjI allI impI)
    fix i assume i: "i < ?n"
    from rn [OF i] obtain h a where r: "nid (?ns ! i) = Some h" "naddress (?ns ! i) = Some a" "chars h = row_id (rs ! i)"
      "chars a = trim (fst (snd (rs ! i)))" "nport (?ns ! i) = word_of_int (atoi (trim (fst (snd (snd (rs ! i))))))"
      by (auto simp: row_node_def)
    have c: "map classify ns3 ! i = classify ((ns2 ! i)\<lparr>children := map Some (kids ?par ?n i), child_count := length (kids ?par ?n i)\<rparr>)"
      using i by (simp add: ns3_def)
    note n2 [OF i, simp] row_children_kids [simp] r [simp] c [simp] classify_def [simp]
    show "map_option chars (nid (map classify ns3 ! i)) = Some (row_id (rs ! i))"
      "map_option chars (naddress (map classify ns3 ! i)) = Some (trim (fst (snd (rs ! i))))"
      "nport (map classify ns3 ! i) = word_of_int (atoi (trim (fst (snd (snd (rs ! i))))))"
      "nparent (map classify ns3 ! i) = ?par i"
      "children (map classify ns3 ! i) = map Some (row_children rs i)"
      "child_count (map classify ns3 ! i) = length (row_children rs i)"
      "ntype (map classify ns3 ! i) = (if ?par i = None then NODE_ROOT
         else if row_children rs i \<noteq> [] then NODE_CENTRAL else NODE_DESTINATION)" by simp_all
  qed (simp add: ns3_def)
  ultimately show ?thesis using 1 3 a(1,3) ns2_def by blast
qed

lemma link_nodes_spec:
  assumes "loader_ok rs l" "holds L K (loader_blks l) s" "True \<notin> set (oom s)" "length rs < 2 ^ 19"
  shows "\<exists>na s'. link_nodes l s = (na, s') \<and> describes rs (arr na) \<and>
    holds L K (nodes_blks (arr na) @ [arr_blk na]) s' \<and> True \<notin> set (oom s')"
proof -
  from assms(1) have n: "length (l_arr l) = length rs" by (auto simp: loader_ok_def list_all2_lengthD)
  from id_map [OF assms] obtain m0 s1 m s2
    where m: "hashmap_create (l_cap l) (Some hash_string) (Some eq_string) (Some free_str) None s = (Some m0, s1)"
      "put_ids (zip (map nid (l_arr l)) [0..<length rs]) (Some m0) s1 = (Some m, s2)"
      "smap.hm_owned m s2" "holds L K (smap.hm_blks m @ loader_blks l) s2" "True \<notin> set (oom s2)"
      "\<And>k. hashmap_get (Some m) (Some k) = map_of (rev (zip (map row_id rs) [0..<length rs])) (chars k)"
    unfolding n by blast
  let ?P = "concat (map str_blk (l_pids l))"
  let ?R = "?P @ l_pblk l # smap.hm_blks m @ [l_ablk l]"
  have "holds L K (nodes_blks (l_arr l) @ ?R) s2"
    using m(4) by (subst holds_perm [of _ "smap.hm_blks m @ loader_blks l"]) (auto simp: loader_blks_def)
  from link_passes [OF assms(1) this m(5,6)] obtain ns1 ns2 ns3 s3
    where p: "fold (link_parent (Some m) (l_pids l)) [0..<length rs] (l_arr l) = ns1"
      "fold alloc_children [0..<length rs] (ns1, s2) = (ns2, s3)"
      "fold link_child [0..<length rs] (ns2, s3) = (ns3, s3)" "describes rs (map classify ns3)"
      "holds L K (nodes_blks (map classify ns3) @ ?R) s3" "True \<notin> set (oom s3)"
    by blast
  let ?N = "nodes_blks (map classify ns3) @ [l_ablk l]"
  let ?t = "free_blk (l_pblk l) (fold free_hstr (l_pids l) s3)"
  from p(5) have "holds L K (?P @ l_pblk l # smap.hm_blks m @ ?N) s3"
    by (subst holds_perm [of _ "nodes_blks (map classify ns3) @ ?R"]) auto
  then have t: "holds L K (smap.hm_blks m @ ?N) ?t" by (intro holds_free fold_free_hstr)
  then have o: "smap.hm_owned m ?t" using m(3) by (auto simp: smap.hm_owned_def holds_def)
  have "oom (fold free_hstr ps u) = oom u" for ps u
    by (induction ps arbitrary: u) (auto simp: free_hstr_def free_str_def os_simps split: option.splits)
  then have "True \<notin> set (oom (hashmap_destroy (Some m) ?t))"
    using p(6) by (simp add: smap.destroy_releases [OF o] os_simps)
  with destroy_map [OF o t] p(1-4) m(1,2) show ?thesis by (simp add: link_nodes_def n Let_def)
qed

lemma node_load_all_spec:
  assumes "os_ok s" "True \<notin> set (oom s)" "length (file_rows cs) < 2 ^ 19"
  shows "\<exists>na s'. node_load_all (Some cs) s = (Some na, s') \<and> describes (file_rows cs) (arr na) \<and>
    holds (live s) (socks s) (nodes_blks (arr na) @ [arr_blk na]) s' \<and> True \<notin> set (oom s')"
proof -
  obtain a s1 where a: "malloc s = (Some a, s1)" "True \<notin> set (oom s1)" using malloc_succeeds [OF assms(2)] by blast
  obtain p s2 where p: "malloc s1 = (Some p, s2)" "True \<notin> set (oom s2)" using malloc_succeeds [OF a(2)] by blast
  let ?l = "\<lparr>l_arr = [], l_pids = [], l_cap = 16, l_ablk = a, l_pblk = p\<rparr>"
  have "holds (live s) (socks s) [p, a] s2"
    using holds_malloc [OF holds_malloc [OF holds_start [OF assms(1)] a(1)] p(1)] .
  then have h: "holds (live s) (socks s) (loader_blks ?l) s2"
    by (subst holds_perm [of _ "[p, a]"]) (auto simp: loader_blks_def nodes_blks_def)
  obtain l s3 where r: "read_rows cs ?l s2 = (l, s3)" by force
  have "loader_ok [] ?l" by (simp add: loader_ok_def)
  from read_rows_spec [OF this h p(2) r] have R: "loader_ok (file_rows cs) l"
    "holds (live s) (socks s) (loader_blks l) s3" "True \<notin> set (oom s3)" by auto
  from link_nodes_spec [OF R assms(3)] show ?thesis using a p r by (auto simp: node_load_all_def)
qed

section \<open>Properties\<close>

text \<open>
  C26. Loading \<open>nodes.csv\<close> is correct: for every text of a file with fewer than $2^{19}$ rows, when no
  allocation fails, the array has one node per line with at least three columns, in the order of
  the file, with the trimmed id and address and the port of the line; the parent of a node is the
  last node whose id is the fourth column (none for a blank or unknown one), the children of a
  node are exactly the nodes it is the parent of, in order, and the type is root, central or
  destination accordingly.
\<close>

theorem node_load_all_correct:
  assumes "os_ok s" "True \<notin> set (oom s)" "length (file_rows cs) < 2 ^ 19"
  shows "\<exists>na s'. node_load_all (Some cs) s = (Some na, s') \<and> \<not> ub s' \<and> describes (file_rows cs) (arr na)"
  using node_load_all_spec [OF assms] by (auto simp: holds_def os_ok_def)

definition demo_csv :: string where
  "demo_csv = ''CP1, 127.0.0.1 ,5000,'' @ [CHR 0x0A] @ ''bad line'' @ [CHR 0x0A] @ ''D1,127.0.0.1,5001,CP1'' @ [CHR 0x0A] @ ''D2,host,70000,X''"

lemma demo_rows: "file_rows demo_csv =
  [(''CP1'', '' 127.0.0.1 '', ''5000'', None), (''D1'', ''127.0.0.1'', ''5001'', Some ''CP1''), (''D2'', ''host'', ''70000'', Some ''X'')]"
  by code_simp

theorem node_load_all_correct_witness:
  "\<exists>na s'. node_load_all (Some demo_csv) fresh_os = (Some na, s') \<and> map nparent (arr na) = [None, Some 0, None] \<and>
     map children (arr na) = [[Some 1], [], []] \<and> map ntype (arr na) = [NODE_ROOT, NODE_DESTINATION, NODE_ROOT]"
proof -
  have "length (file_rows demo_csv) < 2 ^ 19" by (simp add: demo_rows)
  from node_load_all_correct [OF fresh_os_ok(1) _ this] obtain na s'
    where n: "node_load_all (Some demo_csv) fresh_os = (Some na, s')" "describes (file_rows demo_csv) (arr na)" by auto
  have par: "row_parent (file_rows demo_csv) 0 = None" "row_parent (file_rows demo_csv) 1 = Some 0"
    "row_parent (file_rows demo_csv) 2 = None" unfolding demo_rows by code_simp+
  have kid: "row_children (file_rows demo_csv) 0 = [1]" "row_children (file_rows demo_csv) 1 = []"
    "row_children (file_rows demo_csv) 2 = []" unfolding demo_rows by code_simp+
  from n(2) have len: "length (arr na) = 3" by (simp add: describes_def demo_rows)
  have "\<forall>i < 3. nparent (arr na ! i) = row_parent (file_rows demo_csv) i \<and>
      children (arr na ! i) = map Some (row_children (file_rows demo_csv) i) \<and>
      ntype (arr na ! i) = (if row_parent (file_rows demo_csv) i = None then NODE_ROOT
           else if row_children (file_rows demo_csv) i \<noteq> [] then NODE_CENTRAL else NODE_DESTINATION)"
    using n(2) by (simp add: describes_def demo_rows)
  then have "nparent (arr na ! i) = row_parent (file_rows demo_csv) i"
    "children (arr na ! i) = map Some (row_children (file_rows demo_csv) i)"
    "ntype (arr na ! i) = (if row_parent (file_rows demo_csv) i = None then NODE_ROOT
       else if row_children (file_rows demo_csv) i \<noteq> [] then NODE_CENTRAL else NODE_DESTINATION)" if "i < 3" for i
    using that by blast+
  from this [of 0] this [of 1] this [of 2] par kid
  have "nparent (arr na ! 0) = None" "nparent (arr na ! 1) = Some 0" "nparent (arr na ! 2) = None"
    "children (arr na ! 0) = [Some 1]" "children (arr na ! 1) = []" "children (arr na ! 2) = []"
    "ntype (arr na ! 0) = NODE_ROOT" "ntype (arr na ! 1) = NODE_DESTINATION" "ntype (arr na ! 2) = NODE_ROOT" by simp_all
  moreover obtain a b c where "arr na = [a, b, c]" using len by (auto simp: numeral_eq_Suc length_Suc_conv)
  ultimately show ?thesis using n(1) by simp
qed

text \<open>
  Loading and destroying the nodes is balanced: after \<open>node_load_all\<close> and
  \<open>node_info_destroy_all\<close> exactly the blocks of before are live, so the temporary hash map, the
  copies of the parent ids, every id, address and array of children have been freed, each once.
\<close>

theorem node_load_destroy_balanced:
  assumes "os_ok s" "True \<notin> set (oom s)" "length (file_rows cs) < 2 ^ 19" "node_load_all (Some cs) s = (na, s')"
  shows "os_ok (node_info_destroy_all na s') \<and> live (node_info_destroy_all na s') = live s"
proof -
  from node_load_all_spec [OF assms(1-3)] assms(4) obtain n
    where n: "na = Some n" "holds (live s) (socks s) (nodes_blks (arr n) @ [arr_blk n]) s'" by auto
  from destroy_all_holds [OF n(2)] n(1) show ?thesis by (simp add: holds_end)
qed

theorem node_load_destroy_balanced_witness:
  "live (node_info_destroy_all (fst (node_load_all (Some demo_csv) fresh_os)) (snd (node_load_all (Some demo_csv) fresh_os))) = {}"
  using node_load_destroy_balanced [OF fresh_os_ok(1), of demo_csv "fst (node_load_all (Some demo_csv) fresh_os)"
      "snd (node_load_all (Some demo_csv) fresh_os)"]
  by (simp add: demo_rows)

end
