(* ===== verification/Routing.thy ===== *)
theory Routing
  imports Node
begin

text \<open>
  The searches of \<open>Common/utils.c\<close> in the node table, and the climb of
  \<open>CentralPropagator/cp_dispatcher.c\<close> that finds the next hop: three loops along parent
  pointers, which do not end on a cyclic table (\<open>None\<close>).  A table whose parent chains end is a
  \<open>forest\<close>; the lemmas show what the loops compute there and that repeating the hop
  leads from the root of a node to that node.
\<close>

section \<open>Searches\<close>

text \<open>An id that is NULL makes \<open>strcmp\<close> read through NULL.\<close>

fun node_find_from :: "nat \<Rightarrow> NodeInfo list \<Rightarrow> string \<Rightarrow> os \<Rightarrow> nat option \<times> os" where
  "node_find_from i [] str s = (None, s)"
| "node_find_from i (n # ns) str s =
     (case nid n of
        None \<Rightarrow> (None, s\<lparr>ub := True\<rparr>)
      | Some h \<Rightarrow> if chars h = str then (Some i, s) else node_find_from (i + 1) ns str s)"

definition node_find_by_id :: "NodeInfo list \<Rightarrow> string \<Rightarrow> os \<Rightarrow> nat option \<times> os" where
  "node_find_by_id ns str s = node_find_from 0 ns str s"

partial_function (option) find_root :: "NodeInfo list \<Rightarrow> nat \<Rightarrow> nat option" where
  "find_root ns n = (case nparent (ns ! n) of None \<Rightarrow> Some n | Some p \<Rightarrow> find_root ns p)"

text \<open>The loop of \<open>dispatch_job_fn\<close>: up to the child of \<open>me\<close> that is above \<open>x\<close>.\<close>

partial_function (option) climb_below :: "NodeInfo list \<Rightarrow> nat \<Rightarrow> nat \<Rightarrow> nat option" where
  "climb_below ns me x =
     (case nparent (ns ! x) of None \<Rightarrow> Some x | Some p \<Rightarrow> if p \<noteq> me then climb_below ns me p else Some x)"

section \<open>Forests\<close>

text \<open>The root above a node, when it is at most \<open>k\<close> nodes away.\<close>

fun climb :: "nat \<Rightarrow> NodeInfo list \<Rightarrow> nat \<Rightarrow> nat option" where
  "climb 0 ns i = None"
| "climb (Suc k) ns i = (case nparent (ns ! i) of None \<Rightarrow> Some i | Some p \<Rightarrow> climb k ns p)"

definition forest :: "NodeInfo list \<Rightarrow> bool" where
  "forest ns \<longleftrightarrow> (\<forall>i < length ns.
     (case nparent (ns ! i) of None \<Rightarrow> True | Some p \<Rightarrow> p < length ns) \<and> climb (length ns) ns i \<noteq> None)"

definition up :: "NodeInfo list \<Rightarrow> nat \<Rightarrow> nat \<Rightarrow> bool" where
  "up ns i p \<longleftrightarrow> nparent (ns ! i) = Some p"

text \<open>\<open>below ns a i\<close>: the node \<open>i\<close> is \<open>a\<close> or a descendant of it.\<close>

abbreviation below :: "NodeInfo list \<Rightarrow> nat \<Rightarrow> nat \<Rightarrow> bool" where
  "below ns a i \<equiv> (up ns)\<^sup>*\<^sup>* i a"

lemma forest_parent: "forest ns \<Longrightarrow> i < length ns \<Longrightarrow> nparent (ns ! i) = Some p \<Longrightarrow> p < length ns"
  by (auto simp: forest_def)

lemma forest_induct [consumes 2, case_names node]:
  assumes "forest ns" "i < length ns"
    and "\<And>i. i < length ns \<Longrightarrow> (\<And>p. nparent (ns ! i) = Some p \<Longrightarrow> p < length ns \<Longrightarrow> P p) \<Longrightarrow> P i"
  shows "P i"
proof -
  have "P i" if "climb k ns i \<noteq> None" "i < length ns" for k
    using that
  proof (induction k arbitrary: i)
    case (Suc k)
    show ?case
    proof (rule assms(3))
      fix p assume "nparent (ns ! i) = Some p" "p < length ns"
      with Suc show "P p" by simp
    qed (use Suc.prems in simp)
  qed simp
  with assms(1,2) show ?thesis by (auto simp: forest_def)
qed

lemma below_less:
  assumes "below ns a i" "forest ns" "i < length ns"
  shows "a < length ns"
  using assms by (induction rule: rtranclp_induct) (auto simp: up_def dest: forest_parent)

text \<open>The chain of parents is linear.\<close>

lemma up_unique: "up ns i p \<Longrightarrow> up ns i q \<Longrightarrow> p = q"
  by (simp add: up_def)

lemma below_cases: "below ns a i \<Longrightarrow> i = a \<or> (\<exists>p. up ns i p \<and> below ns a p)"
  by (erule converse_rtranclpE) auto

lemma below_linear: "below ns a i \<Longrightarrow> below ns b i \<Longrightarrow> below ns a b \<or> below ns b a"
proof (induction rule: converse_rtranclp_induct)
  case (step i p)
  from below_cases [OF step.prems] show ?case
  proof
    assume "i = b"
    with step.hyps have "below ns a b" by (metis converse_rtranclp_into_rtranclp)
    then show ?thesis ..
  next
    assume "\<exists>q. up ns i q \<and> below ns b q"
    with step.hyps(1) have "below ns b p" using up_unique by blast
    then show ?thesis by (rule step.IH)
  qed
qed simp

lemma no_cycle:
  assumes "forest ns" "i < length ns" "up ns i p"
  shows "\<not> below ns i p"
  using assms
proof (induction i arbitrary: p rule: forest_induct)
  case (node i)
  from node.prems have p: "nparent (ns ! i) = Some p" "p < length ns"
    using forest_parent [OF assms(1) node.hyps] by (auto simp: up_def)
  show ?case
  proof
    assume "below ns i p"
    from below_cases [OF this] show False
    proof
      assume "p = i"
      with node.IH [OF p, of i] node.prems show False by simp
    next
      assume "\<exists>q. up ns p q \<and> below ns i q"
      then obtain q where q: "up ns p q" "below ns i q" by blast
      have "below ns p q" using q(2) node.prems by (meson rtranclp.rtrancl_into_rtrancl)
      with node.IH [OF p q(1)] show False ..
    qed
  qed
qed

section \<open>Files without cycles\<close>

text \<open>The same condition on the rows of a file.\<close>

fun row_climb :: "nat \<Rightarrow> row list \<Rightarrow> nat \<Rightarrow> bool" where
  "row_climb 0 rs i = False"
| "row_climb (Suc k) rs i = (case row_parent rs i of None \<Rightarrow> True | Some p \<Rightarrow> row_climb k rs p)"

definition acyclic_rows :: "row list \<Rightarrow> bool" where
  "acyclic_rows rs \<longleftrightarrow> (\<forall>i < length rs. row_climb (length rs) rs i)"

lemma describes_parent: "describes rs ns \<Longrightarrow> i < length rs \<Longrightarrow> nparent (ns ! i) = row_parent rs i"
  by (simp add: describes_def)

lemma describes_forest:
  assumes "describes rs ns" "acyclic_rows rs"
  shows "forest ns"
proof -
  have len: "length ns = length rs" using assms(1) by (simp add: describes_def)
  have "climb k ns i \<noteq> None" if "row_climb k rs i" "i < length rs" for k i
    using that
  proof (induction k arbitrary: i)
    case (Suc k)
    then show ?case
      by (cases "row_parent rs i") (auto simp: describes_parent [OF assms(1)] dest: row_parent_less)
  qed simp
  then show ?thesis using assms(2) row_parent_less
    by (auto simp: forest_def acyclic_rows_def len describes_parent [OF assms(1)] split: option.splits)
qed

section \<open>What the loops compute\<close>

lemma find_root_Some:
  assumes "find_root ns i = Some r"
  shows "below ns r i \<and> nparent (ns ! r) = None"
proof (rule find_root.raw_induct [where P = "\<lambda>ns i r. below ns r i \<and> nparent (ns ! r) = None", OF _ assms])
  fix f ns n r
  assume IH: "\<And>ns n r. f ns n = Some r \<Longrightarrow> below ns r n \<and> nparent (ns ! r) = None"
    and e: "(case nparent (ns ! n) of None \<Rightarrow> Some n | Some p \<Rightarrow> f ns p) = Some r"
  show "below ns r n \<and> nparent (ns ! r) = None"
  proof (cases "nparent (ns ! n)")
    case (Some p)
    with e IH [of ns p r] have "below ns r p" "nparent (ns ! r) = None" by auto
    moreover have "up ns n p" using Some by (simp add: up_def)
    ultimately show ?thesis by (simp add: converse_rtranclp_into_rtranclp)
  qed (use e in simp)
qed

lemma find_root_forest:
  assumes "forest ns" "i < length ns"
  shows "\<exists>r. find_root ns i = Some r \<and> r < length ns"
  using assms
proof (induction i rule: forest_induct)
  case (node i)
  show ?case
  proof (cases "nparent (ns ! i)")
    case None
    with node.hyps show ?thesis by (subst find_root.simps) simp
  next
    case (Some p)
    with node.IH [OF Some] forest_parent [OF assms(1) node.hyps Some] show ?thesis by (subst find_root.simps) simp
  qed
qed

lemma climb_below_hop:
  assumes "forest ns" "d < length ns" "(up ns ^^ Suc n) d a"
  shows "\<exists>h. climb_below ns a d = Some h \<and> up ns h a \<and> (up ns ^^ n) d h"
  using assms(2,3)
proof (induction n arbitrary: d)
  case 0
  from relpowp_Suc_D2 [OF 0(2)] have u: "up ns d a" by auto
  then have "climb_below ns a d = Some d" by (subst climb_below.simps) (simp add: up_def)
  with u show ?case by simp
next
  case (Suc n)
  from relpowp_Suc_D2 [OF Suc.prems(2)] obtain p where p: "up ns d p" "(up ns ^^ Suc n) p a" by blast
  then have par: "nparent (ns ! d) = Some p" by (simp add: up_def)
  have less: "p < length ns" by (rule forest_parent [OF assms(1) Suc.prems(1) par])
  have "p \<noteq> a"
  proof
    assume "p = a"
    with relpowp_Suc_D2 [OF p(2)] obtain q where "up ns p q" "(up ns ^^ n) q p" by blast
    with no_cycle [OF assms(1) less] show False by (meson relpowp_imp_rtranclp)
  qed
  then have "climb_below ns a d = climb_below ns a p" using par by (subst climb_below.simps) simp
  with Suc.IH [OF less p(2)] p(1) show ?case by (metis relpowp_Suc_I2)
qed

lemma node_find_from_spec:
  assumes "\<forall>n \<in> set ns. nid n \<noteq> None"
  shows "\<exists>r. node_find_from i ns str s = (r, s) \<and>
    (case r of
       None \<Rightarrow> \<forall>j < length ns. map_option chars (nid (ns ! j)) \<noteq> Some str
     | Some k \<Rightarrow> i \<le> k \<and> k - i < length ns \<and> map_option chars (nid (ns ! (k - i))) = Some str \<and>
         (\<forall>j < k - i. map_option chars (nid (ns ! j)) \<noteq> Some str))"
  using assms
proof (induction ns arbitrary: i)
  case (Cons n ns)
  from Cons.prems obtain h where h: "nid n = Some h" by auto
  show ?case
  proof (cases "chars h = str")
    case True
    with h show ?thesis by simp
  next
    case False
    from Cons.IH [of "i + 1"] Cons.prems obtain r where r: "node_find_from (i + 1) ns str s = (r, s)"
      "case r of
         None \<Rightarrow> \<forall>j < length ns. map_option chars (nid (ns ! j)) \<noteq> Some str
       | Some k \<Rightarrow> i + 1 \<le> k \<and> k - (i + 1) < length ns \<and> map_option chars (nid (ns ! (k - (i + 1)))) = Some str \<and>
           (\<forall>j < k - (i + 1). map_option chars (nid (ns ! j)) \<noteq> Some str)" by auto
    show ?thesis
    proof (cases r)
      case None
      with r False h show ?thesis by (auto simp: nth_Cons split: nat.splits)
    next
      case (Some k)
      with r(2) have k: "i + 1 \<le> k" "k - i = Suc (k - (i + 1))" by auto
      with r Some False h show ?thesis by (auto simp: nth_Cons split: nat.splits)
    qed
  qed
qed simp

section \<open>Properties\<close>

text \<open>
  In a table without cycles \<open>find_root\<close> terminates for every node and returns the root of
  its tree: a node without a parent, above the node it started from.
\<close>

theorem find_root_correct:
  assumes "forest ns" "i < length ns"
  shows "\<exists>r. find_root ns i = Some r \<and> r < length ns \<and> nparent (ns ! r) = None \<and> below ns r i"
  using find_root_forest [OF assms] find_root_Some by blast

text \<open>
  The next hop is right: at a propagator \<open>a\<close> that is \<open>n + 1\<close> levels above the destination, the
  climb of \<open>dispatch_job_fn\<close> terminates and yields the child of \<open>a\<close> that is \<open>n\<close> levels above the
  destination, so every hop brings a warning one level closer.
\<close>

theorem next_hop_correct:
  assumes "forest ns" "d < length ns" "(up ns ^^ Suc n) d a"
  shows "\<exists>h. climb_below ns a d = Some h \<and> nparent (ns ! h) = Some a \<and> (up ns ^^ n) d h"
  using climb_below_hop [OF assms] by (simp add: up_def)

text \<open>
  A table with a cycle makes \<open>find_root\<close> run for ever: from a node whose chain of parents
  never reaches a node without a parent, it does not return.
\<close>

theorem find_root_cycle:
  assumes "\<And>r. below ns r i \<Longrightarrow> nparent (ns ! r) \<noteq> None"
  shows "find_root ns i = None"
  using find_root_Some [of ns i] assms by (cases "find_root ns i") blast+

definition demo_node :: "nat option \<Rightarrow> NodeInfo" where
  "demo_node p = \<lparr>nid = None, naddress = None, nport = 0, nparent = p, children = [], children_blk = None,
     child_count = 0, ntype = NODE_ROOT\<rparr>"

definition demo_tree :: "NodeInfo list" where
  "demo_tree = map demo_node [None, Some 0, Some 1, Some 1]"

theorem find_root_correct_witness: "find_root demo_tree 3 = Some 0"
proof -
  have "forest demo_tree" by code_simp
  from find_root_correct [OF this, of 3] obtain r where r: "find_root demo_tree 3 = Some r" "nparent (demo_tree ! r) = None" "r < 4"
    by (auto simp: demo_tree_def)
  then have "r = 0" by (auto simp: demo_tree_def demo_node_def less_Suc_eq numeral_eq_Suc)
  with r show ?thesis by simp
qed

theorem next_hop_correct_witness: "\<exists>h. climb_below demo_tree 0 3 = Some h \<and> nparent (demo_tree ! h) = Some 0"
proof -
  have f: "forest demo_tree" by code_simp
  have u: "up demo_tree 3 1" "up demo_tree 1 0" unfolding up_def by code_simp+
  then have "(up demo_tree ^^ Suc 1) 3 0" by auto
  from next_hop_correct [OF f _ this] show ?thesis by (auto simp: demo_tree_def)
qed

theorem find_root_cycle_witness: "find_root [demo_node (Some 1), demo_node (Some 0)] 0 = None"
proof (rule find_root_cycle)
  fix r assume "below [demo_node (Some 1), demo_node (Some 0)] r 0"
  then have "r = 0 \<or> r = 1" by (induction rule: rtranclp_induct) (auto simp: up_def demo_node_def)
  then show "nparent ([demo_node (Some 1), demo_node (Some 0)] ! r) \<noteq> None" by (auto simp: demo_node_def)
qed



end
