(* ===== verification/Connections.thy ===== *)
theory Connections
  imports HashMap
begin

text \<open>
  \<open>Common/propagator_connections.c\<close>: the table of open connections, a hash map from address and
  port to a socket.  Every operation runs inside the critical section \<open>conn_mutex\<close>, so it is one
  step.  What \<open>socket\<close> and \<open>connect\<close> answer comes from outside: \<open>new_socks\<close> are the sockets that the
  coming calls of \<open>socket\<close> return (\<open>INVALID_SOCKET\<close>, also when the list is used up, where they
  fail), \<open>refused\<close> says which of the coming calls of \<open>connect\<close> fail.
\<close>

section \<open>Data\<close>

record ConnectionKey =
  kaddress :: hstr
  kport :: u16
  kblk :: nat

text \<open>A heap cell with a socket, \<open>SOCKET*\<close>.\<close>

record sock_ptr =
  sval :: SOCKET
  svblk :: nat

record conns =
  connections_map :: "(ConnectionKey, sock_ptr) HashMap option"
  new_socks :: "SOCKET list"
  refused :: "bool list"

section \<open>Keys\<close>

text \<open>A plain \<open>char\<close> is signed: bytes above 127 are extended with their sign.\<close>

definition schar :: "char \<Rightarrow> size_t" where
  "schar c = scast (word_of_nat (of_char c) :: u8)"

fun djb2_signed :: "size_t \<Rightarrow> string \<Rightarrow> size_t" where
  "djb2_signed h [] = h"
| "djb2_signed h (c # cs) = djb2_signed ((push_bit 5 h + h) + schar c) cs"

definition hash_conn_key :: "ConnectionKey \<Rightarrow> size_t" where
  "hash_conn_key k = (let h = djb2_signed 5381 (chars (kaddress k)) in (push_bit 5 h + h) + ucast (kport k))"

definition eq_conn_key :: "ConnectionKey \<Rightarrow> ConnectionKey \<Rightarrow> bool" where
  "eq_conn_key a b \<longleftrightarrow> chars (kaddress a) = chars (kaddress b) \<and> kport a = kport b"

definition free_conn_key :: "ConnectionKey \<Rightarrow> os \<Rightarrow> os" where
  "free_conn_key k s = free_blk (kblk k) (free_str (kaddress k) s)"

definition free_socket :: "sock_ptr option \<Rightarrow> os \<Rightarrow> os" where
  "free_socket v s =
     (case v of
        None \<Rightarrow> s
      | Some p \<Rightarrow> if sval p \<noteq> INVALID_SOCKET then free_blk (svblk p) (closesocket (sval p) s) else s)"

section \<open>Operations\<close>

definition connections_init :: "conns \<Rightarrow> os \<Rightarrow> conns \<times> os" where
  "connections_init n s =
     (case hashmap_create 16 (Some hash_conn_key) (Some eq_conn_key) (Some free_conn_key) (Some free_socket) s of
        (m, s) \<Rightarrow> (n\<lparr>connections_map := m\<rparr>, s))"

text \<open>The system calls \<open>socket\<close> and \<open>connect\<close>.\<close>

definition sys_socket :: "conns \<Rightarrow> os \<Rightarrow> SOCKET \<times> conns \<times> os" where
  "sys_socket n s =
     (case new_socks n of
        [] \<Rightarrow> (INVALID_SOCKET, n, s)
      | k # ks \<Rightarrow> (k, n\<lparr>new_socks := ks\<rparr>, if k = INVALID_SOCKET then s else s\<lparr>socks := insert k (socks s)\<rparr>))"

definition sys_connect :: "conns \<Rightarrow> bool \<times> conns" where
  "sys_connect n = (case refused n of [] \<Rightarrow> (True, n) | r # rs \<Rightarrow> (\<not> r, n\<lparr>refused := rs\<rparr>))"

text \<open>A new key on the heap: \<open>malloc\<close> of the record, then \<open>_strdup\<close> of the address.\<close>

definition new_key :: "string \<Rightarrow> u16 \<Rightarrow> os \<Rightarrow> ConnectionKey option \<times> os" where
  "new_key address port s =
     (case malloc s of
        (None, s) \<Rightarrow> (None, s)
      | (Some b, s) \<Rightarrow>
          (case strdup address s of
             (None, s) \<Rightarrow> (None, free_blk b s)
           | (Some h, s) \<Rightarrow> (Some \<lparr>kaddress = h, kport = port, kblk = b\<rparr>, s)))"

text \<open>The part that stores a connected socket; every failure closes it.\<close>

definition store_connection :: "string \<Rightarrow> u16 \<Rightarrow> SOCKET \<Rightarrow> conns \<Rightarrow> os \<Rightarrow> SOCKET \<times> conns \<times> os" where
  "store_connection address port k n s =
     (case new_key address port s of
        (None, s) \<Rightarrow> (INVALID_SOCKET, n, closesocket k s)
      | (Some nk, s) \<Rightarrow>
          (case malloc s of
             (None, s) \<Rightarrow> (INVALID_SOCKET, n, closesocket k (free_conn_key nk s))
           | (Some b, s) \<Rightarrow>
               (case hashmap_put (connections_map n) (Some nk) (Some \<lparr>sval = k, svblk = b\<rparr>) s of
                  (r, m, s) \<Rightarrow>
                    if r \<noteq> 0
                    then (INVALID_SOCKET, n\<lparr>connections_map := m\<rparr>, closesocket k (free_blk b (free_conn_key nk s)))
                    else (k, n\<lparr>connections_map := m\<rparr>, s))))"

definition open_connection :: "string \<Rightarrow> u16 \<Rightarrow> conns \<Rightarrow> os \<Rightarrow> SOCKET \<times> conns \<times> os" where
  "open_connection address port n s =
     (case sys_socket n s of
        (k, n, s) \<Rightarrow>
          if k = INVALID_SOCKET then (INVALID_SOCKET, n, s)
          else
            (case sys_connect n of
               (ok, n) \<Rightarrow>
                 if \<not> ok then (INVALID_SOCKET, n, closesocket k s) else store_connection address port k n s))"

definition get_or_create_connection :: "string \<Rightarrow> u16 \<Rightarrow> conns \<Rightarrow> os \<Rightarrow> SOCKET \<times> conns \<times> os" where
  "get_or_create_connection address port n s =
     (if connections_map n = None then (INVALID_SOCKET, n, s)
      else
        (case new_key address port s of
           (None, s) \<Rightarrow> (INVALID_SOCKET, n, s)
         | (Some temp_key, s) \<Rightarrow>
             (case hashmap_get (connections_map n) (Some temp_key) of
                Some p \<Rightarrow>
                  (if sval p \<noteq> INVALID_SOCKET then (sval p, n, free_conn_key temp_key s)
                   else open_connection address port n (free_conn_key temp_key s))
              | None \<Rightarrow> open_connection address port n (free_conn_key temp_key s))))"

definition close_connection :: "string \<Rightarrow> u16 \<Rightarrow> conns \<Rightarrow> os \<Rightarrow> conns \<times> os" where
  "close_connection address port n s =
     (case hashmap_remove (connections_map n)
             (Some \<lparr>kaddress = \<lparr>chars = address, sblk = 0\<rparr>, kport = port, kblk = 0\<rparr>) s of
        (_, m, s) \<Rightarrow> (n\<lparr>connections_map := m\<rparr>, s))"

definition connections_cleanup :: "conns \<Rightarrow> os \<Rightarrow> conns \<times> os" where
  "connections_cleanup n s =
     (case connections_map n of
        None \<Rightarrow> (n, s)
      | Some m \<Rightarrow> (n\<lparr>connections_map := None\<rparr>, hashmap_destroy (Some m) s))"

section \<open>The contract\<close>

definition val_blks :: "sock_ptr option \<Rightarrow> nat list" where
  "val_blks v = (case v of None \<Rightarrow> [] | Some p \<Rightarrow> if sval p \<noteq> INVALID_SOCKET then [svblk p] else [])"

definition val_socks :: "sock_ptr option \<Rightarrow> SOCKET set" where
  "val_socks v = (case v of None \<Rightarrow> {} | Some p \<Rightarrow> if sval p \<noteq> INVALID_SOCKET then {sval p} else {})"

interpretation conn: hm_owner hash_conn_key eq_conn_key "Some free_conn_key" "\<lambda>k. [sblk (kaddress k), kblk k]" "\<lambda>k. {}"
    "Some free_socket" val_blks val_socks
  by unfold_locales (auto simp: hash_conn_key_def eq_conn_key_def call_free_def free_conn_key_def free_socket_def
      val_blks_def val_socks_def os_simps insert_commute split: option.splits)

text \<open>The key that is looked up for an address and a port.\<close>

abbreviation conn_key :: "string \<Rightarrow> u16 \<Rightarrow> ConnectionKey" where
  "conn_key a p \<equiv> \<lparr>kaddress = \<lparr>chars = a, sblk = 0\<rparr>, kport = p, kblk = 0\<rparr>"

text \<open>
  A well-formed table: every entry holds a valid socket, no two the same; exactly the blocks and
  the sockets of the table, and those of the surrounding program, are in use.
\<close>

definition conn_inv :: "nat set \<Rightarrow> SOCKET set \<Rightarrow> (ConnectionKey, sock_ptr) HashMap \<Rightarrow> os \<Rightarrow> bool" where
  "conn_inv L K m s \<longleftrightarrow> conn.hm_owned m s \<and> conn.foreign m s = L \<and>
     socks s = K \<union> set (map (\<lambda>n. sval (the (val n))) (hm_nodes m)) \<and>
     distinct (map (\<lambda>n. sval (the (val n))) (hm_nodes m)) \<and>
     K \<inter> set (map (\<lambda>n. sval (the (val n))) (hm_nodes m)) = {} \<and>
     (\<forall>n \<in> set (hm_nodes m). val n \<noteq> None \<and> sval (the (val n)) \<noteq> INVALID_SOCKET)"

text \<open>What the operating system promises of the sockets it creates: they are not in use.\<close>

definition fresh_socks :: "conns \<Rightarrow> os \<Rightarrow> bool" where
  "fresh_socks n s \<longleftrightarrow> (\<forall>k ks. new_socks n = k # ks \<longrightarrow> k \<noteq> INVALID_SOCKET \<longrightarrow> k \<notin> socks s)"

section \<open>Lemmas\<close>

lemma conn_inv_ok: "conn_inv L K m s \<Longrightarrow> os_ok s"
  by (simp add: conn_inv_def conn.hm_owned_def)

lemma conn_inv_frame:
  assumes "conn_inv L K m s" "os_ok s'" "live s' = live s" "socks s' = socks s"
  shows "conn_inv L K m s'"
  using assms unfolding conn_inv_def conn.hm_owned_def conn.foreign_def by simp

lemma conn_inv_malloc:
  assumes "conn_inv L K m s" "malloc s = (Some b, s')"
  shows "conn_inv (insert b L) K m s' \<and> b \<notin> L"
proof -
  from assms(1) have i: "conn.hm_owned m s" "conn.foreign m s = L" "os_ok s" by (auto simp: conn_inv_def conn.hm_owned_def)
  note M = malloc_Some(1,2) [OF assms(2)] malloc_fresh [OF i(3) assms(2)] malloc_ok [OF i(3) assms(2)]
  have sub: "set (conn.hm_blks m) \<subseteq> live s" using i(1) by (simp add: conn.hm_owned_def)
  have "conn.hm_owned m s'" using i(1) M sub by (auto simp: conn.hm_owned_def)
  moreover have "conn.foreign m s' = insert b L" using i(2) M sub by (auto simp: conn.foreign_def)
  moreover have "b \<notin> L" using i(2) M(3) by (auto simp: conn.foreign_def)
  ultimately show ?thesis using assms(1) M(2) by (simp add: conn_inv_def)
qed

lemma conn_inv_malloc_None: "conn_inv L K m s \<Longrightarrow> malloc s = (None, s') \<Longrightarrow> conn_inv L K m s'"
  using conn_inv_frame [of L K m s s'] malloc_None [of s s'] malloc_ok [of s None s'] conn_inv_ok by blast

lemma conn_inv_free:
  assumes "conn_inv (insert b L) K m s" "b \<notin> L"
  shows "conn_inv L K m (free_blk b s)"
proof -
  from assms(1) have i: "conn.hm_owned m s" "conn.foreign m s = insert b L" by (auto simp: conn_inv_def)
  then have b: "b \<in> live s" "b \<notin> set (conn.hm_blks m)" by (auto simp: conn.foreign_def)
  then have f: "free_blk b s = release {b} {} s" by (simp add: os_simps)
  have "conn.hm_owned m (free_blk b s)" using i(1) b unfolding f
    by (auto simp: conn.hm_owned_def release_sel intro: os_intros)
  moreover have "conn.foreign m (free_blk b s) = L" using i(2) assms(2) b unfolding f
    by (auto simp: conn.foreign_def release_sel)
  moreover have "socks (free_blk b s) = socks s" by (simp add: os_simps)
  ultimately show ?thesis using assms(1) by (simp add: conn_inv_def)
qed

lemma conn_inv_strdup:
  assumes "conn_inv L K m s" "strdup a s = (Some h, s')"
  shows "conn_inv (insert (sblk h) L) K m s' \<and> sblk h \<notin> L \<and> chars h = a"
proof -
  from assms(2) have "malloc s = (Some (sblk h), s')" by (auto simp: strdup_def split: prod.splits option.splits)
  from conn_inv_malloc [OF assms(1) this] strdup_Some(1) [OF assms(2)] show ?thesis by simp
qed

lemma conn_inv_new_key:
  assumes "conn_inv L K m s" "new_key a p s = (r, s')"
  shows "case r of None \<Rightarrow> conn_inv L K m s'
    | Some k \<Rightarrow> eq_conn_key k (conn_key a p) \<and> conn_inv (insert (sblk (kaddress k)) (insert (kblk k) L)) K m s' \<and>
        kblk k \<notin> L \<and> sblk (kaddress k) \<notin> insert (kblk k) L"
proof -
  obtain b s1 where b: "malloc s = (b, s1)" by force
  show ?thesis
  proof (cases b)
    case None
    with b assms conn_inv_malloc_None show ?thesis by (auto simp: new_key_def)
  next
    case (Some x)
    with b have m: "malloc s = (Some x, s1)" by simp
    note M = conn_inv_malloc [OF assms(1) m]
    obtain h s2 where h: "strdup a s1 = (h, s2)" by force
    show ?thesis
    proof (cases h)
      case None
      with h assms(2) m have r: "r = None" "s' = free_blk x s2" by (auto simp: new_key_def)
      have "malloc s1 = (None, s2)" using h None by (auto simp: strdup_def split: prod.splits option.splits)
      from conn_inv_malloc_None [OF M [THEN conjunct1] this] r M show ?thesis by (simp add: conn_inv_free)
    next
      case (Some y)
      with h have s: "strdup a s1 = (Some y, s2)" by simp
      from conn_inv_strdup [OF M [THEN conjunct1] s] M assms(2) m s show ?thesis
        by (auto simp: new_key_def eq_conn_key_def)
    qed
  qed
qed

lemma conn_inv_free_key:
  assumes "conn_inv (insert (sblk (kaddress k)) (insert (kblk k) L)) K m s" "kblk k \<notin> L" "sblk (kaddress k) \<notin> insert (kblk k) L"
  shows "conn_inv L K m (free_conn_key k s)"
  unfolding free_conn_key_def free_str_def using conn_inv_free conn_inv_free [OF assms(1,3)] assms(2) by blast

lemma conn_inv_close:
  assumes "conn_inv L (insert k K) m s" "k \<notin> K"
  shows "conn_inv L K m (closesocket k s)"
  using assms unfolding conn_inv_def conn.hm_owned_def conn.foreign_def closesocket_def os_ok_def by auto

text \<open>A lookup in a well-formed table finds open sockets only.\<close>

lemma conn_inv_get:
  assumes "conn_inv L K m s" "hashmap_get (Some m) (Some k) = Some v"
  shows "sval v \<noteq> INVALID_SOCKET \<and> sval v \<in> socks s \<and> sval v \<notin> K"
proof -
  from assms(1) have f: "conn.hm_for m" by (simp add: conn_inv_def conn.hm_owned_def)
  have "\<exists>w. conn.entry m k w" using assms(2) conn.get_no_entry [OF f, of k] by force
  with conn.get_entry [OF f] assms(2) have "conn.entry m k (Some v)" by metis
  then obtain n where n: "n \<in> set (hm_nodes m)" "val n = Some v" by (auto simp: conn.entry_def)
  from assms(1) have i: "socks s = K \<union> set (map (\<lambda>n. sval (the (val n))) (hm_nodes m))"
    "K \<inter> set (map (\<lambda>n. sval (the (val n))) (hm_nodes m)) = {}" "sval (the (val n)) \<noteq> INVALID_SOCKET"
    using n(1) by (auto simp: conn_inv_def)
  have "sval v \<in> set (map (\<lambda>n. sval (the (val n))) (hm_nodes m))" using n by force
  with i n(2) show ?thesis by auto
qed

lemma conn_no_entry:
  assumes "conn_inv L K m s" "hashmap_get (Some m) (Some k) = None"
  shows "\<not> conn.entry m k v"
proof
  assume e: "conn.entry m k v"
  from assms(1) have f: "conn.hm_for m" "\<forall>n \<in> set (hm_nodes m). val n \<noteq> None" by (auto simp: conn_inv_def conn.hm_owned_def)
  from conn.get_entry [OF f(1) e] assms(2) e f(2) show False by (auto simp: conn.entry_def)
qed

lemma close_free: "closesocket k (free_blk b s) = free_blk b (closesocket k s)"
  by (simp add: closesocket_def free_blk_def)

lemma free_free:
  assumes "b \<noteq> b'"
  shows "free_blk b (free_blk b' s) = free_blk b' (free_blk b s)"
proof -
  have "live s - {b'} - {b} = live s - {b} - {b'}" by blast
  with assms show ?thesis by (simp add: free_blk_def)
qed

lemma conn_put:
  assumes "conn_inv (insert b (insert (sblk (kaddress nk)) (insert (kblk nk) L))) (insert k K) m s"
    and "b \<notin> insert (sblk (kaddress nk)) (insert (kblk nk) L)" "kblk nk \<notin> L" "sblk (kaddress nk) \<notin> insert (kblk nk) L"
    and "k \<notin> K" "k \<noteq> INVALID_SOCKET" "hashmap_get (Some m) (Some nk) = None"
    and "hashmap_put (Some m) (Some nk) (Some \<lparr>sval = k, svblk = b\<rparr>) s = (r, mp, s')"
  shows "\<exists>m'. mp = Some m' \<and>
    (if r = 0
     then conn_inv L K m' s' \<and>
       (\<forall>q. hashmap_get (Some m') (Some q) = (if eq_conn_key nk q then Some \<lparr>sval = k, svblk = b\<rparr> else hashmap_get (Some m) (Some q)))
     else conn_inv L K m' (closesocket k (free_blk b (free_conn_key nk s'))) \<and>
       (\<forall>q. hashmap_get (Some m') (Some q) = hashmap_get (Some m) (Some q)))"
proof -
  let ?v = "\<lparr>sval = k, svblk = b\<rparr>" and ?L = "insert b (insert (sblk (kaddress nk)) (insert (kblk nk) L))"
  let ?f = "\<lambda>n. sval (the (val n))"
  from assms(1) have i: "conn.hm_owned m s" "conn.foreign m s = ?L" "conn.hm_for m" "socks s = insert k K \<union> ?f ` set (hm_nodes m)"
    by (auto simp: conn_inv_def conn.hm_owned_def)
  have own: "distinct ([sblk (kaddress nk), kblk nk] @ val_blks (Some ?v))" "set ([sblk (kaddress nk), kblk nk] @ val_blks (Some ?v)) \<subseteq> conn.foreign m s"
    using assms(2-4,6) i(2) by (auto simp: val_blks_def)
  have set: "set ([sblk (kaddress nk), kblk nk] @ val_blks (Some ?v)) = {b, sblk (kaddress nk), kblk nk}"
    using assms(6) by (auto simp: val_blks_def)
  from conn.put_owned [OF i(1) assms(8) own] obtain m'
    where o: "mp = Some m'" "conn.hm_owned m' s'"
      "r = 0 \<and> conn.foreign m' s' = ?L - {b, sblk (kaddress nk), kblk nk} \<or> r = - 1 \<and> conn.foreign m' s' = ?L"
    unfolding set i(2) by blast
  then have f': "conn.hm_for m'" by (simp add: conn.hm_owned_def)
  from conn.put_absent [OF i(3) conn_no_entry [OF assms(1,7)] assms(8)] o(1)
  have a: "socks s' = socks s"
    "r = 0 \<and> (\<exists>x. mset (hm_nodes m') = add_mset \<lparr>blk = x, key = nk, val = Some ?v\<rparr> (mset (hm_nodes m))) \<or>
     r = - 1 \<and> mset (hm_nodes m') = mset (hm_nodes m)" by auto
  from conn.put_spec [OF i(3) assms(8)] o(1)
  have e: "r = 0 \<and> (\<forall>k' v'. conn.entry m' k' v' \<longleftrightarrow> (if eq_conn_key nk k' then v' = Some ?v else conn.entry m k' v')) \<or>
     r = - 1 \<and> (\<forall>k' v'. conn.entry m' k' v' \<longleftrightarrow> conn.entry m k' v')" by auto
  show ?thesis
  proof (cases "r = 0")
    case True
    with a(2) obtain x where x: "mset (hm_nodes m') = add_mset \<lparr>blk = x, key = nk, val = Some ?v\<rparr> (mset (hm_nodes m))" by auto
    have sets: "set (hm_nodes m') = insert \<lparr>blk = x, key = nk, val = Some ?v\<rparr> (set (hm_nodes m))"
      using arg_cong [OF x, of set_mset] by simp
    have dist: "distinct (map ?f (hm_nodes m')) \<longleftrightarrow> k \<notin> ?f ` set (hm_nodes m) \<and> distinct (map ?f (hm_nodes m))"
      using distinct_map_add_mset [OF x, of ?f] by simp
    have "conn.foreign m' s' = L" using o(3) True assms(2-4) by auto
    then have "conn_inv L K m' s'"
      using o(2) a(1) i(4) sets dist assms(1,5,6) by (auto simp: conn_inv_def)
    moreover have "hashmap_get (Some m') (Some q) = (if eq_conn_key nk q then Some ?v else hashmap_get (Some m) (Some q))" for q
    proof (cases "eq_conn_key nk q")
      case eq: True
      with e True have "conn.entry m' q (Some ?v)" by auto
      from conn.get_entry [OF f' this] eq show ?thesis by simp
    next
      case False
      with e True have "\<And>v. conn.entry m' q v \<longleftrightarrow> conn.entry m q v" by auto
      from conn.get_cong [OF f' i(3) this] False show ?thesis by simp
    qed
    ultimately show ?thesis using o(1) True by auto
  next
    case False
    with a(2) o(3) e have n: "mset (hm_nodes m') = mset (hm_nodes m)" "conn.foreign m' s' = ?L"
      "\<And>q v. conn.entry m' q v \<longleftrightarrow> conn.entry m q v" by auto
    have "distinct (map ?f (hm_nodes m')) = distinct (map ?f (hm_nodes m))" "set (hm_nodes m') = set (hm_nodes m)"
      using distinct_map_mset [OF n(1)] mset_eq_setD [OF n(1)] by auto
    then have "conn_inv ?L (insert k K) m' s'" using o(2) a(1) n(2) assms(1) by (simp add: conn_inv_def)
    then have "conn_inv ?L K m' (closesocket k s')" using assms(5) by (rule conn_inv_close)
    moreover have "closesocket k (free_blk b (free_conn_key nk s')) = free_conn_key nk (free_blk b (closesocket k s'))"
      using assms(2) by (simp add: free_conn_key_def free_str_def close_free free_free [of b "kblk nk"]
        free_free [of b "sblk (kaddress nk)"])
    moreover have "conn_inv (insert (sblk (kaddress nk)) (insert (kblk nk) L)) K m' (free_blk b (closesocket k s'))"
      using calculation(1) assms(2) by (rule conn_inv_free)
    ultimately have "conn_inv L K m' (closesocket k (free_blk b (free_conn_key nk s')))"
      using conn_inv_free_key [OF _ assms(3,4)] by simp
    moreover have "hashmap_get (Some m') (Some q) = hashmap_get (Some m) (Some q)" for q
      by (rule conn.get_cong [OF f' i(3) n(3)])
    ultimately show ?thesis using o(1) False by auto
  qed
qed

lemma conn_inv_extra:
  assumes "conn_inv L K m s" "k \<notin> socks s"
  shows "conn_inv L (insert k K) m (s\<lparr>socks := insert k (socks s)\<rparr>) \<and> k \<notin> K"
proof -
  from assms have "k \<notin> K \<and> k \<notin> set (map (\<lambda>n. sval (the (val n))) (hm_nodes m))" by (auto simp: conn_inv_def)
  with assms(1) show ?thesis
    by (auto simp: conn_inv_def conn.hm_owned_def conn.foreign_def os_ok_def)
qed

text \<open>Answers of two tables.\<close>

abbreviation answers :: "(ConnectionKey, sock_ptr) HashMap \<Rightarrow> string \<Rightarrow> u16 \<Rightarrow> SOCKET option" where
  "answers m a p \<equiv> map_option sval (hashmap_get (Some m) (Some (conn_key a p)))"

lemma store_connection_spec:
  assumes "connections_map n = Some m" "conn_inv L (insert k K) m s" "k \<notin> K" "k \<noteq> INVALID_SOCKET"
    and "answers m a p = None" "store_connection a p k n s = (r, n', s')"
  shows "\<exists>m'. connections_map n' = Some m' \<and> conn_inv L K m' s' \<and> r \<in> {k, INVALID_SOCKET} \<and>
    (\<forall>a' p'. answers m' a' p' = (if r \<noteq> INVALID_SOCKET \<and> a' = a \<and> p' = p then Some r else answers m a' p'))"
proof -
  from assms(2) have f: "conn.hm_for m" by (simp add: conn_inv_def conn.hm_owned_def)
  obtain kp s1 where k: "new_key a p s = (kp, s1)" by force
  note N = conn_inv_new_key [OF assms(2) k]
  show ?thesis
  proof (cases kp)
    case None
    with N k assms(1,3,6) show ?thesis by (auto simp: store_connection_def conn_inv_close)
  next
    case (Some nk)
    let ?L = "insert (sblk (kaddress nk)) (insert (kblk nk) L)"
    from N Some have N: "eq_conn_key nk (conn_key a p)" "conn_inv ?L (insert k K) m s1" "kblk nk \<notin> L" "sblk (kaddress nk) \<notin> insert (kblk nk) L"
      by auto
    obtain bp s2 where b: "malloc s1 = (bp, s2)" by force
    show ?thesis
    proof (cases bp)
      case None
      from conn_inv_close [OF conn_inv_free_key [OF conn_inv_malloc_None [OF N(2)] N(3,4)] assms(3)] None b k Some assms(1,6)
      show ?thesis by (auto simp: store_connection_def)
    next
      case (Some b')
      with b have b': "malloc s1 = (Some b', s2)" by simp
      note M = conn_inv_malloc [OF N(2) b']
      have g: "hashmap_get (Some m) (Some nk) = None" using assms(5) conn.get_eq [OF f N(1)] by simp
      obtain r' mp s3 where p: "hashmap_put (Some m) (Some nk) (Some \<lparr>sval = k, svblk = b'\<rparr>) s2 = (r', mp, s3)"
        by (cases "hashmap_put (Some m) (Some nk) (Some \<lparr>sval = k, svblk = b'\<rparr>) s2")
      have eq: "eq_conn_key nk (conn_key a' p') \<longleftrightarrow> a' = a \<and> p' = p" for a' p'
        using N(1) by (auto simp: eq_conn_key_def)
      from conn_put [OF M [THEN conjunct1] M [THEN conjunct2] N(3,4) assms(3,4) g p] obtain m'
        where m': "mp = Some m'" "if r' = 0
     then conn_inv L K m' s3 \<and>
       (\<forall>q. hashmap_get (Some m') (Some q) = (if eq_conn_key nk q then Some \<lparr>sval = k, svblk = b'\<rparr> else hashmap_get (Some m) (Some q)))
     else conn_inv L K m' (closesocket k (free_blk b' (free_conn_key nk s3))) \<and>
       (\<forall>q. hashmap_get (Some m') (Some q) = hashmap_get (Some m) (Some q))" by blast
      show ?thesis
      proof (cases "r' = 0")
        case True
        with m' assms(1,4,6) k \<open>kp = Some nk\<close> b' p show ?thesis by (auto simp: store_connection_def eq)
      next
        case False
        with m' assms(1,6) k \<open>kp = Some nk\<close> b' p show ?thesis by (auto simp: store_connection_def)
      qed
    qed
  qed
qed

lemma open_connection_spec:
  assumes "connections_map n = Some m" "conn_inv L K m s" "fresh_socks n s"
    and "answers m a p = None" "open_connection a p n s = (r, n', s')"
  shows "\<exists>m'. connections_map n' = Some m' \<and> conn_inv L K m' s' \<and>
    (\<forall>a' p'. answers m' a' p' = (if r \<noteq> INVALID_SOCKET \<and> a' = a \<and> p' = p then Some r else answers m a' p'))"
proof (cases "new_socks n")
  case Nil
  with assms show ?thesis by (auto simp: open_connection_def sys_socket_def)
next
  case (Cons k ks)
  show ?thesis
  proof (cases "k = INVALID_SOCKET")
    case True
    with Cons assms show ?thesis by (auto simp: open_connection_def sys_socket_def)
  next
    case False
    with assms(3) Cons have "k \<notin> socks s" by (auto simp: fresh_socks_def)
    note E = conn_inv_extra [OF assms(2) this]
    let ?s = "s\<lparr>socks := insert k (socks s)\<rparr>"
    obtain ok n1 where c: "sys_connect (n\<lparr>new_socks := ks\<rparr>) = (ok, n1)" by force
    then have m1: "connections_map n1 = Some m" using assms(1) by (auto simp: sys_connect_def split: list.splits)
    show ?thesis
    proof (cases ok)
      case True
      with Cons False c assms(5) have st: "store_connection a p k n1 ?s = (r, n', s')"
        by (simp add: open_connection_def sys_socket_def)
      from store_connection_spec [OF m1 E [THEN conjunct1] E [THEN conjunct2] False assms(4) st] show ?thesis by blast
    next
      case no: False
      with Cons False c assms(5) have "r = INVALID_SOCKET" "n' = n1" "s' = closesocket k ?s"
        by (auto simp: open_connection_def sys_socket_def)
      with conn_inv_close [OF E [THEN conjunct1] E [THEN conjunct2]] m1 show ?thesis by (intro exI [of _ m]) simp
    qed
  qed
qed

lemma get_or_create_spec:
  assumes "connections_map n = Some m" "conn_inv L K m s" "fresh_socks n s"
    and "get_or_create_connection a p n s = (r, n', s')"
  shows "\<exists>m'. connections_map n' = Some m' \<and> conn_inv L K m' s' \<and>
    (\<forall>a' p'. answers m' a' p' = (if r \<noteq> INVALID_SOCKET \<and> a' = a \<and> p' = p then Some r else answers m a' p')) \<and>
    (\<forall>k. answers m a p = Some k \<longrightarrow> r \<in> {k, INVALID_SOCKET} \<and> n' = n \<and> socks s' = socks s)"
proof -
  from assms(2) have f: "conn.hm_for m" by (simp add: conn_inv_def conn.hm_owned_def)
  obtain kp s1 where k: "new_key a p s = (kp, s1)" by force
  note N = conn_inv_new_key [OF assms(2) k]
  show ?thesis
  proof (cases kp)
    case None
    have "socks s1 = socks s" using N None assms(2) by (simp add: conn_inv_def)
    with N k None assms(1,4) show ?thesis by (auto simp: get_or_create_connection_def)
  next
    case (Some nk)
    let ?s = "free_conn_key nk s1"
    from N Some have N: "eq_conn_key nk (conn_key a p)" "conn_inv (insert (sblk (kaddress nk)) (insert (kblk nk) L)) K m s1"
      "kblk nk \<notin> L" "sblk (kaddress nk) \<notin> insert (kblk nk) L" by auto
    note C = conn_inv_free_key [OF N(2-4)]
    have sk: "socks ?s = socks s" using C assms(2) by (simp add: conn_inv_def)
    have g: "hashmap_get (Some m) (Some nk) = hashmap_get (Some m) (Some (conn_key a p))" by (rule conn.get_eq [OF f N(1)])
    show ?thesis
    proof (cases "hashmap_get (Some m) (Some (conn_key a p))")
      case (Some v)
      from conn_inv_get [OF assms(2) Some] have "sval v \<noteq> INVALID_SOCKET" by simp
      with Some g k \<open>kp = Some nk\<close> assms(1,4) have r: "r = sval v" "n' = n" "s' = ?s"
        by (auto simp: get_or_create_connection_def)
      with Some C sk assms(1) show ?thesis by auto
    next
      case None
      with g k \<open>kp = Some nk\<close> assms(1,4) have o: "open_connection a p n ?s = (r, n', s')"
        by (simp add: get_or_create_connection_def)
      have fr: "fresh_socks n ?s" using assms(3) sk by (simp add: fresh_socks_def)
      have "answers m a p = None" using None by simp
      from open_connection_spec [OF assms(1) C fr this o] None show ?thesis by auto
    qed
  qed
qed

lemma new_key_succeeds: "True \<notin> set (oom s) \<Longrightarrow> \<exists>k s'. new_key a p s = (Some k, s')"
  using malloc_succeeds [of s] strdup_succeeds [of _ a] by (fastforce simp: new_key_def)

lemma get_found_spec:
  assumes "connections_map n = Some m" "conn_inv L K m s" "answers m a p = Some k"
    and "get_or_create_connection a p n s = (r, n', s')"
  shows "r \<in> {k, INVALID_SOCKET} \<and> n' = n \<and> socks s' = socks s \<and> k \<in> socks s \<and> (True \<notin> set (oom s) \<longrightarrow> r = k)"
proof -
  from assms(2) have f: "conn.hm_for m" by (simp add: conn_inv_def conn.hm_owned_def)
  from assms(3) obtain v where v: "hashmap_get (Some m) (Some (conn_key a p)) = Some v" "sval v = k" by auto
  from conn_inv_get [OF assms(2) v(1)] have kv: "sval v \<noteq> INVALID_SOCKET" "k \<in> socks s" using assms(2) v(2) by (auto simp: conn_inv_def)
  obtain kp s1 where kp: "new_key a p s = (kp, s1)" by force
  note N = conn_inv_new_key [OF assms(2) kp]
  show ?thesis
  proof (cases kp)
    case None
    have "socks s1 = socks s" using N None assms(2) by (simp add: conn_inv_def)
    moreover have "True \<in> set (oom s)" using new_key_succeeds [of s a p] kp None by auto
    ultimately show ?thesis using kp None assms(1,4) kv by (simp add: get_or_create_connection_def)
  next
    case (Some nk)
    from N Some have N: "eq_conn_key nk (conn_key a p)" "conn_inv (insert (sblk (kaddress nk)) (insert (kblk nk) L)) K m s1"
      "kblk nk \<notin> L" "sblk (kaddress nk) \<notin> insert (kblk nk) L" by auto
    have "socks (free_conn_key nk s1) = socks s" using conn_inv_free_key [OF N(2-4)] assms(2) by (simp add: conn_inv_def)
    moreover have "hashmap_get (Some m) (Some nk) = Some v" using conn.get_eq [OF f N(1)] v(1) by simp
    ultimately show ?thesis using kp Some assms(1,4) kv v(2) by (auto simp: get_or_create_connection_def)
  qed
qed

lemma store_new_socks: "store_connection a p k n s = (r, n', s') \<Longrightarrow> new_socks n' = new_socks n"
  by (auto simp: store_connection_def split: prod.splits option.splits if_splits)

lemma open_new_socks: "open_connection a p n s = (r, n', s') \<Longrightarrow> new_socks n' = tl (new_socks n)"
  by (auto simp: open_connection_def sys_socket_def sys_connect_def split: list.splits if_splits dest: store_new_socks)

lemma get_or_create_new_socks:
  "get_or_create_connection a p n s = (r, n', s') \<Longrightarrow> new_socks n' \<in> {new_socks n, tl (new_socks n)}"
  by (auto simp: get_or_create_connection_def split: prod.splits option.splits if_splits dest: open_new_socks)

lemma new_key_oom: "new_key a p s = (r, s') \<Longrightarrow> set (oom s') \<subseteq> set (oom s)"
  by (auto simp: new_key_def strdup_def free_blk_oom split: prod.splits option.splits dest!: malloc_oom)

lemma free_conn_oom [simp]: "oom (free_conn_key k s) = oom s" "oom (free_socket v s) = oom s"
  by (simp_all add: free_conn_key_def free_socket_def free_str_def free_blk_def closesocket_def split: option.split)

lemma closesocket_oom [simp]: "oom (closesocket k s) = oom s"
  by (simp add: closesocket_def)

lemma conn_put_oom:
  assumes "conn.hm_owned m s0" "hashmap_put (Some m) (Some k) v s = (r, mp, s')"
  shows "set (oom s') \<subseteq> set (oom s)"
  by (rule put_oom [OF _ _ assms(2)]) (use assms(1) in \<open>simp_all add: conn.hm_owned_def call_free_def\<close>)

lemma store_oom:
  assumes "connections_map n = Some m" "conn.hm_owned m s0" "store_connection a p k n s = (r, n', s')"
  shows "set (oom s') \<subseteq> set (oom s)"
  using assms(3,1)
  by (auto simp: store_connection_def free_blk_oom split: prod.splits option.splits if_splits
      dest!: new_key_oom malloc_oom conn_put_oom [OF assms(2)]) blast

lemma open_oom:
  assumes "connections_map n = Some m" "conn.hm_owned m s0" "open_connection a p n s = (r, n', s')"
  shows "set (oom s') \<subseteq> set (oom s)"
  using assms(3,1)
  by (auto simp: open_connection_def sys_socket_def sys_connect_def split: prod.splits list.splits if_splits
      dest!: store_oom [OF _ assms(2), rotated])

lemma get_or_create_oom:
  assumes "connections_map n = Some m" "conn.hm_owned m s0" "get_or_create_connection a p n s = (r, n', s')"
  shows "set (oom s') \<subseteq> set (oom s)"
proof -
  obtain kp s1 where k: "new_key a p s = (kp, s1)" by force
  note o = new_key_oom [OF k]
  have "set (oom s') \<subseteq> set (oom s1)"
    using assms(1,3) k
    by (auto simp: get_or_create_connection_def split: option.splits if_splits dest!: open_oom [OF assms(1,2)])
  with o show ?thesis by blast
qed

text \<open>Without failures a request for a new connection stores and returns the next socket.\<close>

lemma store_connection_succeeds:
  assumes "connections_map n = Some m" "hm_ok m" "capacity m < 2 ^ 60" "True \<notin> set (oom s)"
    and "store_connection a p k n s = (r, n', s')"
  shows "r = k"
proof -
  from new_key_succeeds [OF assms(4)] obtain nk s1 where nk: "new_key a p s = (Some nk, s1)" by blast
  with new_key_oom assms(4) have "True \<notin> set (oom s1)" by blast
  from malloc_succeeds [OF this] obtain b s2 where b: "malloc s1 = (Some b, s2)" "True \<notin> set (oom s2)" by blast
  obtain r' mp s3 where h: "hashmap_put (Some m) (Some nk) (Some \<lparr>sval = k, svblk = b\<rparr>) s2 = (r', mp, s3)"
    by (cases "hashmap_put (Some m) (Some nk) (Some \<lparr>sval = k, svblk = b\<rparr>) s2")
  from put_returns_0 [OF assms(2,3) b(2) h] nk b(1) h assms(1,5) show ?thesis by (simp add: store_connection_def)
qed

lemma get_or_create_succeeds:
  assumes "connections_map n = Some m" "conn_inv L K m s" "capacity m < 2 ^ 60" "True \<notin> set (oom s)"
    and "answers m a p = None" "new_socks n = k # ks" "k \<noteq> INVALID_SOCKET" "refused n = []"
    and "get_or_create_connection a p n s = (r, n', s')"
  shows "r = k \<and> new_socks n' = ks"
proof -
  from assms(2) have f: "conn.hm_for m" "hm_ok m" by (auto simp: conn_inv_def conn.hm_owned_def conn.hm_for_def)
  from new_key_succeeds [OF assms(4)] obtain nk s1 where nk: "new_key a p s = (Some nk, s1)" by blast
  from conn_inv_new_key [OF assms(2) nk] have "eq_conn_key nk (conn_key a p)" by simp
  from conn.get_eq [OF f(1) this] assms(5) have g: "hashmap_get (Some m) (Some nk) = None" by simp
  let ?s = "free_conn_key nk s1"
  have o: "True \<notin> set (oom (?s\<lparr>socks := insert k (socks ?s)\<rparr>))"
    using new_key_oom [OF nk] assms(4) by (auto simp: free_conn_key_def free_str_def free_blk_oom)
  have st: "store_connection a p k (n\<lparr>new_socks := ks\<rparr>) (?s\<lparr>socks := insert k (socks ?s)\<rparr>) = (r, n', s')"
    using assms(1,6-9) nk g
    by (simp add: get_or_create_connection_def open_connection_def sys_socket_def sys_connect_def)
  show ?thesis using store_connection_succeeds [OF _ f(2) assms(3) o st] store_new_socks [OF st] assms(1) by simp
qed

lemma close_connection_spec:
  assumes "connections_map n = Some m" "conn_inv L K m s" "close_connection a p n s = (n', s')"
  shows "\<exists>m'. connections_map n' = Some m' \<and> conn_inv L K m' s' \<and>
    (\<forall>a' p'. answers m' a' p' = (if a' = a \<and> p' = p then None else answers m a' p'))"
proof -
  let ?f = "\<lambda>n. sval (the (val n))"
  from assms(2) have i: "conn.hm_owned m s" "conn.hm_for m" "socks s = K \<union> ?f ` set (hm_nodes m)" "K \<inter> ?f ` set (hm_nodes m) = {}"
    "distinct (map ?f (hm_nodes m))" "\<forall>n \<in> set (hm_nodes m). val n \<noteq> None \<and> ?f n \<noteq> INVALID_SOCKET" "conn.foreign m s = L"
    by (auto simp: conn_inv_def conn.hm_owned_def)
  obtain r mp s1 where r: "hashmap_remove (Some m) (Some (conn_key a p)) s = (r, mp, s1)"
    by (cases "hashmap_remove (Some m) (Some (conn_key a p)) s")
  from conn.remove_owned [OF i(1) r] obtain m'
    where m': "mp = Some m'" "conn.hm_owned m' s1" "conn.foreign m' s1 = conn.foreign m s"
      "r \<longrightarrow> (\<exists>x. eq_conn_key (key x) (conn_key a p) \<and> mset (hm_nodes m) = add_mset x (mset (hm_nodes m')) \<and>
        s1 = release (set (conn.node_blks x)) (conn.node_socks x) s)" "\<not> r \<longrightarrow> m' = m \<and> s1 = s" by blast
  then have f': "conn.hm_for m'" by (simp add: conn.hm_owned_def)
  from conn.remove_spec [OF i(2) r] m'(1)
  have e: "\<And>k v. conn.entry m' k v \<longleftrightarrow> (if eq_conn_key (conn_key a p) k then False else conn.entry m k v)" by auto
  have n': "n' = n\<lparr>connections_map := Some m'\<rparr>" "s' = s1" using assms(1,3) r m'(1) by (auto simp: close_connection_def)
  have "conn_inv L K m' s1"
  proof (cases r)
    case False
    with m'(5) assms(2) show ?thesis by simp
  next
    case True
    with m'(4) obtain x where x: "mset (hm_nodes m) = add_mset x (mset (hm_nodes m'))"
      "s1 = release (set (conn.node_blks x)) (conn.node_socks x) s" by blast
    have sets: "set (hm_nodes m) = insert x (set (hm_nodes m'))" using arg_cong [OF x(1), of set_mset] by simp
    have d: "?f x \<notin> ?f ` set (hm_nodes m')" "distinct (map ?f (hm_nodes m'))"
      using i(5) distinct_map_add_mset [OF x(1), of ?f] by auto
    from i(6) sets have "val x \<noteq> None" "?f x \<noteq> INVALID_SOCKET" by auto
    then have "conn.node_socks x = {?f x}" by (auto simp: conn.node_socks_def val_socks_def)
    then have "socks s1 = socks s - {?f x}" by (simp add: x(2) release_sel)
    also have "\<dots> = K \<union> ?f ` set (hm_nodes m')" using i(3,4) sets d(1) by auto
    finally show ?thesis using m'(2,3) i(4,6,7) sets d(2) by (simp add: conn_inv_def)
  qed
  moreover have "hashmap_get (Some m') (Some (conn_key a' p')) =
      (if a' = a \<and> p' = p then None else hashmap_get (Some m) (Some (conn_key a' p')))" for a' p'
  proof (cases "a' = a \<and> p' = p")
    case True
    then have "\<And>v. \<not> conn.entry m' (conn_key a' p') v" using e by (simp add: eq_conn_key_def)
    from conn.get_no_entry [OF f' this] True show ?thesis by simp
  next
    case False
    then have "\<And>v. conn.entry m' (conn_key a' p') v \<longleftrightarrow> conn.entry m (conn_key a' p') v" using e by (auto simp: eq_conn_key_def)
    from conn.get_cong [OF f' i(2) this] False show ?thesis by auto
  qed
  ultimately show ?thesis using n' by auto
qed

lemma connections_cleanup_spec:
  assumes "connections_map n = Some m" "conn_inv L K m s" "connections_cleanup n s = (n', s')"
  shows "connections_map n' = None \<and> os_ok s' \<and> live s' = L \<and> socks s' = K"
proof -
  let ?f = "\<lambda>n. sval (the (val n))"
  from assms(2) have i: "conn.hm_owned m s" "socks s = K \<union> ?f ` set (hm_nodes m)" "K \<inter> ?f ` set (hm_nodes m) = {}"
    "\<forall>n \<in> set (hm_nodes m). val n \<noteq> None \<and> ?f n \<noteq> INVALID_SOCKET" "conn.foreign m s = L" "os_ok s"
    by (auto simp: conn_inv_def conn.hm_owned_def)
  have "conn.node_socks x = {?f x}" if x: "x \<in> set (hm_nodes m)" for x
  proof -
    from i(4) x obtain p where "val x = Some p" "sval p \<noteq> INVALID_SOCKET" by fastforce
    then show ?thesis by (simp add: conn.node_socks_def val_socks_def)
  qed
  then have "conn.hm_socks m = ?f ` set (hm_nodes m)" unfolding conn.hm_socks_def by auto
  with conn.destroy_releases [OF i(1)]
  have d: "hashmap_destroy (Some m) s = release (set (conn.hm_blks m)) (?f ` set (hm_nodes m)) s" by simp
  have "live s - set (conn.hm_blks m) = L" "socks s - ?f ` set (hm_nodes m) = K"
    using i(2,3,5) by (auto simp: conn.foreign_def)
  with release_sel [of "set (conn.hm_blks m)" "?f ` set (hm_nodes m)" s] release_ok [OF i(6)]
  have r: "os_ok (hashmap_destroy (Some m) s)" "live (hashmap_destroy (Some m) s) = L" "socks (hashmap_destroy (Some m) s) = K"
    by (simp_all only: d)
  from assms(1,3) have "n' = n\<lparr>connections_map := None\<rparr>" "s' = hashmap_destroy (Some m) s" by (simp_all add: connections_cleanup_def)
  then show ?thesis by (simp add: r)
qed

lemma init_succeeds:
  assumes "True \<notin> set (oom s)"
  shows "\<exists>t' m s'. connections_init t s = (t', s') \<and> connections_map t' = Some m \<and> new_socks t' = new_socks t \<and> True \<notin> set (oom s')"
proof -
  from malloc_succeeds [OF assms] obtain b s1 where b: "malloc s = (Some b, s1)" "True \<notin> set (oom s1)" by blast
  from malloc_succeeds [OF b(2)] obtain c s2 where c: "malloc s1 = (Some c, s2)" "True \<notin> set (oom s2)" by blast
  from b c show ?thesis by (simp add: connections_init_def hashmap_create_def calloc_def)
qed

lemma connections_init_spec:
  assumes "os_ok s" "connections_init n s = (n', s')" "connections_map n' = Some m"
  shows "conn_inv (live s) (socks s) m s' \<and> (\<forall>a p. answers m a p = None)"
proof -
  from assms(2,3) have c: "hashmap_create 16 (Some hash_conn_key) (Some eq_conn_key) (Some free_conn_key) (Some free_socket) s = (Some m, s')"
    by (auto simp: connections_init_def split: prod.splits)
  from conn.create_owned [OF assms(1) c]
  have m: "conn.hm_owned m s'" "hm_nodes m = []" "conn.foreign m s' = live s" "socks s' = socks s" by (auto simp: conn.foreign_def)
  have "hashmap_get (Some m) (Some k) = None" for k
    using m(1,2) by (intro conn.get_no_entry) (auto simp: conn.hm_owned_def conn.entry_def)
  with m show ?thesis by (simp add: conn_inv_def)
qed

lemma store_result: "store_connection a p k n s = (r, n', s') \<Longrightarrow> r \<in> {k, INVALID_SOCKET}"
  by (auto simp: store_connection_def split: prod.splits option.splits if_splits)

lemma open_result:
  "open_connection a p n s = (r, n', s') \<Longrightarrow> r \<noteq> INVALID_SOCKET \<Longrightarrow> new_socks n = r # new_socks n'"
  by (auto simp: open_connection_def sys_socket_def sys_connect_def split: list.splits if_splits
      dest: store_result store_new_socks)

lemma get_or_create_result:
  assumes "get_or_create_connection a p n s = (r, n', s')" "r \<noteq> INVALID_SOCKET" "connections_map n = Some m"
    and "conn_inv L K m s" "answers m a p = None"
  shows "new_socks n = r # new_socks n'"
proof -
  obtain kp s1 where k: "new_key a p s = (kp, s1)" by force
  with assms(1-3) obtain nk where nk: "kp = Some nk" by (cases kp) (auto simp: get_or_create_connection_def)
  from conn_inv_new_key [OF assms(4) k] nk have "eq_conn_key nk (conn_key a p)" by simp
  moreover from assms(4) have "conn.hm_for m" by (simp add: conn_inv_def conn.hm_owned_def)
  ultimately have "hashmap_get (Some m) (Some nk) = None" using conn.get_eq assms(5) by fastforce
  with assms(1,3) k nk have "open_connection a p n (free_conn_key nk s1) = (r, n', s')"
    by (simp add: get_or_create_connection_def)
  from open_result [OF this assms(2)] show ?thesis .
qed

section \<open>Sequences of calls\<close>

datatype conn_op = Connect string u16 | Disconnect string u16

fun conn_run :: "conn_op list \<Rightarrow> conns \<Rightarrow> os \<Rightarrow> conns \<times> os" where
  "conn_run [] n s = (n, s)"
| "conn_run (Connect a p # ops) n s =
     (case get_or_create_connection a p n s of (_, n, s) \<Rightarrow> conn_run ops n s)"
| "conn_run (Disconnect a p # ops) n s = (case close_connection a p n s of (n, s) \<Rightarrow> conn_run ops n s)"

text \<open>The promise of the operating system, at every call of the sequence.\<close>

fun fresh_run :: "conn_op list \<Rightarrow> conns \<Rightarrow> os \<Rightarrow> bool" where
  "fresh_run [] n s = True"
| "fresh_run (Connect a p # ops) n s =
     (fresh_socks n s \<and> (case get_or_create_connection a p n s of (_, n, s) \<Rightarrow> fresh_run ops n s))"
| "fresh_run (Disconnect a p # ops) n s = (case close_connection a p n s of (n, s) \<Rightarrow> fresh_run ops n s)"

lemma conn_run_inv:
  assumes "connections_map n = Some m" "conn_inv L K m s" "fresh_run ops n s" "conn_run ops n s = (n', s')"
  shows "\<exists>m'. connections_map n' = Some m' \<and> conn_inv L K m' s'"
  using assms
proof (induction ops arbitrary: n m s)
  case (Cons op ops)
  show ?case
  proof (cases op)
    case (Connect a p)
    obtain r n1 s1 where g: "get_or_create_connection a p n s = (r, n1, s1)"
      by (cases "get_or_create_connection a p n s")
    from Cons.prems(3) Connect g have f: "fresh_socks n s" "fresh_run ops n1 s1" by auto
    from get_or_create_spec [OF Cons.prems(1,2) f(1) g] Cons.IH [OF _ _ f(2)] Cons.prems(4) Connect g show ?thesis by auto
  next
    case (Disconnect a p)
    obtain n1 s1 where g: "close_connection a p n s = (n1, s1)" by force
    from close_connection_spec [OF Cons.prems(1,2) g] Cons.IH Cons.prems(3,4) Disconnect g show ?thesis by auto
  qed
qed auto

lemma conn_run_keeps:
  assumes "connections_map n = Some m" "conn_inv L K m s" "fresh_run ops n s" "conn_run ops n s = (n', s')"
    and "Disconnect a p \<notin> set ops" "answers m a p = Some k"
  shows "\<exists>m'. connections_map n' = Some m' \<and> conn_inv L K m' s' \<and> answers m' a p = Some k"
  using assms
proof (induction ops arbitrary: n m s)
  case (Cons op ops)
  show ?case
  proof (cases op)
    case (Connect b q)
    obtain r n1 s1 where g: "get_or_create_connection b q n s = (r, n1, s1)"
      by (cases "get_or_create_connection b q n s")
    from Cons.prems(3) Connect g have f: "fresh_socks n s" "fresh_run ops n1 s1" by auto
    from get_or_create_spec [OF Cons.prems(1,2) f(1) g] obtain m1 where
      m1: "connections_map n1 = Some m1" "conn_inv L K m1 s1"
        "answers m1 a p = (if r \<noteq> INVALID_SOCKET \<and> a = b \<and> p = q then Some r else answers m a p)"
        "\<And>k. answers m b q = Some k \<Longrightarrow> r \<in> {k, INVALID_SOCKET}" by blast
    from m1(3,4) Cons.prems(6) have "answers m1 a p = Some k" by (auto split: if_splits)
    from Cons.IH [OF m1(1,2) f(2) _ _ this] Cons.prems(4,5) Connect g show ?thesis by auto
  next
    case (Disconnect b q)
    obtain n1 s1 where g: "close_connection b q n s = (n1, s1)" by force
    from close_connection_spec [OF Cons.prems(1,2) g] obtain m1 where
      m1: "connections_map n1 = Some m1" "conn_inv L K m1 s1"
        "answers m1 a p = (if a = b \<and> p = q then None else answers m a p)" by blast
    from m1(3) Cons.prems(5,6) Disconnect have k: "answers m1 a p = Some k" by (auto split: if_splits)
    from Cons.prems(3) Disconnect g have f: "fresh_run ops n1 s1" by auto
    from Cons.IH [OF m1(1,2) f _ _ k] Cons.prems(4,5) Disconnect g show ?thesis by auto
  qed
qed auto

section \<open>Properties\<close>

text \<open>
  The table of connections leaks neither memory nor sockets: after its creation, any sequence of
  connection requests and closings, with any pattern of failing allocations, \<open>socket\<close> and
  \<open>connect\<close> calls, \<open>connections_cleanup\<close> leaves exactly the blocks and exactly the open sockets of
  before, nothing is freed or closed twice.  (The operating system hands out sockets that are not
  in use.)
\<close>

theorem connections_no_leak:
  assumes "os_ok s" "connections_init n s = (n1, s1)" "connections_map n1 \<noteq> None"
    and "fresh_run ops n1 s1" "conn_run ops n1 s1 = (n2, s2)" "connections_cleanup n2 s2 = (n3, s3)"
  shows "connections_map n3 = None \<and> os_ok s3 \<and> live s3 = live s \<and> socks s3 = socks s"
proof -
  obtain m where m: "connections_map n1 = Some m" using assms(3) by blast
  from connections_init_spec [OF assms(1,2) m] have "conn_inv (live s) (socks s) m s1" ..
  from conn_run_inv [OF m this assms(4,5)] connections_cleanup_spec [OF _ _ assms(6)] show ?thesis by blast
qed

definition demo_conns :: conns where
  "demo_conns = \<lparr>connections_map = None, new_socks = [5, INVALID_SOCKET], refused = [False]\<rparr>"

text \<open>A connection that is reused and closed, one whose socket cannot be created.\<close>

theorem connections_no_leak_witness:
  "\<exists>n1 s1 n2 s2 n3 s3. connections_init demo_conns fresh_os = (n1, s1) \<and>
     conn_run [Connect ''a'' 1, Connect ''a'' 1, Connect ''b'' 2, Disconnect ''a'' 1] n1 s1 = (n2, s2) \<and>
     connections_cleanup n2 s2 = (n3, s3) \<and> live s3 = {} \<and> socks s3 = {}"
proof -
  obtain n1 s1 where i: "connections_init demo_conns fresh_os = (n1, s1)" by force
  then have m: "connections_map n1 \<noteq> None" and s1: "socks s1 = {}" and n1: "new_socks n1 = [5, INVALID_SOCKET]" and o1: "oom s1 = []"
    by (auto simp: connections_init_def hashmap_create_def calloc_def malloc_def fresh_os_def demo_conns_def)
  let ?ops = "[Connect ''a'' 1, Connect ''a'' 1, Connect ''b'' 2, Disconnect ''a'' 1]"
  obtain n2 s2 where r: "conn_run ?ops n1 s1 = (n2, s2)" by force
  obtain n3 s3 where c: "connections_cleanup n2 s2 = (n3, s3)" by force
  have fr: "fresh_run ?ops n1 s1"
  proof -
    obtain m1 where m1: "connections_map n1 = Some m1" using m by blast
    from connections_init_spec [OF fresh_os_ok(1) i m1] have no: "answers m1 ''a'' 1 = None" and inv: "conn_inv {} {} m1 s1" by auto
    obtain k s1' where k: "new_key ''a'' 1 s1 = (Some k, s1')"
      using o1 new_key_succeeds [of s1 "''a''" 1] by auto
    from conn_inv_new_key [OF inv k] have "eq_conn_key k (conn_key ''a'' 1)" by simp
    moreover from inv have "conn.hm_for m1" by (simp add: conn_inv_def conn.hm_owned_def)
    ultimately have "hashmap_get (Some m1) (Some k) = hashmap_get (Some m1) (Some (conn_key ''a'' 1))" by (intro conn.get_eq)
    with no have no': "hashmap_get (Some m1) (Some k) = None" by simp
    obtain ra na sa where a: "get_or_create_connection ''a'' 1 n1 s1 = (ra, na, sa)" by (cases "get_or_create_connection ''a'' 1 n1 s1")
    then have "new_socks na = [INVALID_SOCKET]" using k no' m1 n1
      by (auto simp: get_or_create_connection_def dest: open_new_socks)
    moreover obtain rb nb sb where b: "get_or_create_connection ''a'' 1 na sa = (rb, nb, sb)" by (cases "get_or_create_connection ''a'' 1 na sa")
    ultimately have "fresh_socks na sa" "fresh_socks nb sb" using get_or_create_new_socks [OF b] by (auto simp: fresh_socks_def)
    moreover have "fresh_socks n1 s1" using s1 by (simp add: fresh_socks_def)
    ultimately show ?thesis using a b by (simp split: prod.split)
  qed
  from connections_no_leak [OF fresh_os_ok(1) i m fr r c] i r c show ?thesis by auto
qed

text \<open>
  A connection is opened once and reused: when a request for an address and a port has given a
  socket, then after any sequence of further requests and closings (of other connections), the next
  request for the same address and port gives that same socket, which is still open; it opens and
  closes nothing and does not touch the table.  Only where an allocation for the temporary key
  fails may it answer \<open>INVALID_SOCKET\<close>.
\<close>

theorem connection_reused:
  assumes "os_ok s" "connections_init n s = (n1, s1)" "connections_map n1 \<noteq> None"
    and "fresh_run ops n1 s1" "conn_run ops n1 s1 = (n2, s2)" "fresh_socks n2 s2"
    and "get_or_create_connection a p n2 s2 = (k, n3, s3)" "k \<noteq> INVALID_SOCKET"
    and "fresh_run ops' n3 s3" "conn_run ops' n3 s3 = (n4, s4)" "Disconnect a p \<notin> set ops'"
    and "get_or_create_connection a p n4 s4 = (k', n5, s5)"
  shows "k \<in> socks s4 \<and> n5 = n4 \<and> socks s5 = socks s4 \<and> k' \<in> {k, INVALID_SOCKET} \<and> (True \<notin> set (oom s4) \<longrightarrow> k' = k)"
proof -
  obtain m where m: "connections_map n1 = Some m" using assms(3) by blast
  from connections_init_spec [OF assms(1,2) m] have "conn_inv (live s) (socks s) m s1" ..
  from conn_run_inv [OF m this assms(4,5)] obtain m2 where
    m2: "connections_map n2 = Some m2" "conn_inv (live s) (socks s) m2 s2" by blast
  from get_or_create_spec [OF m2 assms(6,7)] assms(8) obtain m3 where
    m3: "connections_map n3 = Some m3" "conn_inv (live s) (socks s) m3 s3" "answers m3 a p = Some k" by (metis (no_types, lifting))
  from conn_run_keeps [OF m3(1,2) assms(9,10,11) m3(3)] obtain m4 where
    m4: "connections_map n4 = Some m4" "conn_inv (live s) (socks s) m4 s4" "answers m4 a p = Some k" by blast
  from get_found_spec [OF m4 assms(12)] show ?thesis by blast
qed

definition demo_reuse :: conns where
  "demo_reuse = \<lparr>connections_map = None, new_socks = [5], refused = []\<rparr>"

theorem connection_reused_witness:
  "\<exists>n1 s1 n3 s3 n4 s4 k' n5 s5. connections_init demo_reuse fresh_os = (n1, s1) \<and>
     get_or_create_connection ''a'' 1 n1 s1 = (5, n3, s3) \<and> conn_run [Connect ''b'' 2, Disconnect ''b'' 2] n3 s3 = (n4, s4) \<and>
     get_or_create_connection ''a'' 1 n4 s4 = (k', n5, s5) \<and> k' \<in> {5, INVALID_SOCKET} \<and> 5 \<in> socks s4 \<and> socks s5 = socks s4"
proof -
  obtain n1 s1 where i: "connections_init demo_reuse fresh_os = (n1, s1)" by force
  then obtain m where m: "connections_map n1 = Some m" "capacity m = 16" "socks s1 = {}" "new_socks n1 = [5]" "refused n1 = []" "oom s1 = []"
    by (auto simp: connections_init_def hashmap_create_def calloc_def malloc_def fresh_os_def demo_reuse_def)
  from connections_init_spec [OF fresh_os_ok(1) i m(1)] have inv: "conn_inv {} {} m s1" "answers m ''a'' 1 = None" by auto
  obtain k n3 s3 where g: "get_or_create_connection ''a'' 1 n1 s1 = (k, n3, s3)" by (cases "get_or_create_connection ''a'' 1 n1 s1")
  have "(5 :: SOCKET) \<noteq> INVALID_SOCKET" by (simp add: INVALID_SOCKET_def)
  with get_or_create_succeeds [OF m(1) inv(1) _ _ inv(2) m(4) _ m(5) g] m have k: "k = 5" "new_socks n3 = []" "k \<noteq> INVALID_SOCKET" by auto
  let ?ops = "[Connect ''b'' 2, Disconnect ''b'' 2]"
  obtain n4 s4 where r: "conn_run ?ops n3 s3 = (n4, s4)" by force
  obtain k' n5 s5 where h: "get_or_create_connection ''a'' 1 n4 s4 = (k', n5, s5)" by (cases "get_or_create_connection ''a'' 1 n4 s4")
  have f: "fresh_socks n1 s1" "fresh_run ?ops n3 s3" using m(3) k(2) by (auto simp: fresh_socks_def split: prod.splits)
  from connection_reused [OF fresh_os_ok(1) i _ _ _ f(1) g k(3) f(2) r _ h, of "[]"] m(1) i g k(1) r h
  show ?thesis by auto
qed

end
