(* ===== verification/Queue.thy ===== *)
theory Queue
  imports Prelude
begin

text \<open>
  \<open>Common/queue.c\<close>: the singly linked FIFO queue, at the level of its nodes and pointers.
  A node lives in the heap block whose number is its address; \<open>cells\<close> is the part of the heap
  that holds the nodes of the queue.  A NULL queue pointer is \<open>None\<close>, and so is a NULL item.
  The lemmas show that the pointer structure implements the list of its items: the locale
  \<open>fifo\<close> states that contract and is interpreted on the operations of the code.
\<close>

section \<open>Data and operations\<close>

record 'a QueueNode =
  data :: "'a option"
  nxt :: "nat option"

record 'a Queue =
  front :: "nat option"
  rear :: "nat option"
  qsize :: nat
  freeFunc :: "('a \<Rightarrow> os \<Rightarrow> os) option"
  self :: nat
  cells :: "nat \<rightharpoonup> 'a QueueNode"

definition queue_create :: "('a \<Rightarrow> os \<Rightarrow> os) option \<Rightarrow> os \<Rightarrow> 'a Queue option \<times> os" where
  "queue_create ff s =
     (case malloc s of
        (None, s) \<Rightarrow> (None, s)
      | (Some b, s) \<Rightarrow>
          (Some \<lparr>front = None, rear = None, qsize = 0, freeFunc = ff, self = b, cells = Map.empty\<rparr>, s))"

text \<open>The two ways a new node is hooked in: behind the rear node, or as the front.\<close>

definition queue_link :: "'a Queue \<Rightarrow> nat \<Rightarrow> os \<Rightarrow> 'a Queue \<times> os" where
  "queue_link q n s =
     (case rear q of
        Some r \<Rightarrow>
          (case cells q r of
             None \<Rightarrow> (q, s\<lparr>ub := True\<rparr>)
           | Some nd \<Rightarrow> (q\<lparr>cells := (cells q)(r \<mapsto> nd\<lparr>nxt := Some n\<rparr>)\<rparr>, s))
      | None \<Rightarrow> (q\<lparr>front := Some n\<rparr>, s))"

definition queue_enqueue :: "'a Queue option \<Rightarrow> 'a option \<Rightarrow> os \<Rightarrow> int \<times> 'a Queue option \<times> os" where
  "queue_enqueue qp d s =
     (case qp of
        None \<Rightarrow> (- 1, None, s)
      | Some q \<Rightarrow>
          (case malloc s of
             (None, s) \<Rightarrow> (- 1, Some q, s)
           | (Some n, s) \<Rightarrow>
               (let q = q\<lparr>cells := (cells q)(n \<mapsto> \<lparr>data = d, nxt = None\<rparr>)\<rparr>;
                    (q, s) = queue_link q n s
                in (0, Some (q\<lparr>rear := Some n, qsize := qsize q + 1\<rparr>), s))))"

definition queue_dequeue :: "'a Queue option \<Rightarrow> os \<Rightarrow> 'a option \<times> 'a Queue option \<times> os" where
  "queue_dequeue qp s =
     (case qp of
        None \<Rightarrow> (None, None, s)
      | Some q \<Rightarrow>
          (case front q of
             None \<Rightarrow> (None, Some q, s)
           | Some n \<Rightarrow>
               (case cells q n of
                  None \<Rightarrow> (None, Some q, s\<lparr>ub := True\<rparr>)
                | Some nd \<Rightarrow>
                    (let q = q\<lparr>front := nxt nd\<rparr>;
                         q = (if front q = None then q\<lparr>rear := None\<rparr> else q);
                         q = q\<lparr>cells := (cells q)(n := None)\<rparr>;
                         s = free_blk n s
                     in (data nd, Some (q\<lparr>qsize := qsize q - 1\<rparr>), s)))))"

definition queue_peek :: "'a Queue option \<Rightarrow> os \<Rightarrow> 'a option \<times> os" where
  "queue_peek qp s =
     (case qp of
        None \<Rightarrow> (None, s)
      | Some q \<Rightarrow>
          (case front q of
             None \<Rightarrow> (None, s)
           | Some n \<Rightarrow>
               (case cells q n of
                  None \<Rightarrow> (None, s\<lparr>ub := True\<rparr>)
                | Some nd \<Rightarrow> (data nd, s))))"

definition queue_is_empty :: "'a Queue option \<Rightarrow> bool" where
  "queue_is_empty qp = (case qp of None \<Rightarrow> True | Some q \<Rightarrow> qsize q = 0)"

definition queue_size :: "'a Queue option \<Rightarrow> nat" where
  "queue_size qp = (case qp of None \<Rightarrow> 0 | Some q \<Rightarrow> qsize q)"

text \<open>
  The loop of \<open>queue_destroy\<close> follows the chain; \<open>None\<close> stands for a loop that does not end.
\<close>

definition free_item :: "('a \<Rightarrow> os \<Rightarrow> os) option \<Rightarrow> 'a option \<Rightarrow> os \<Rightarrow> os" where
  "free_item ff d s = (case (ff, d) of (Some f, Some x) \<Rightarrow> f x s | _ \<Rightarrow> s)"

partial_function (option) queue_destroy_loop ::
  "('a \<Rightarrow> os \<Rightarrow> os) option \<Rightarrow> (nat \<rightharpoonup> 'a QueueNode) \<Rightarrow> nat option \<Rightarrow> os \<Rightarrow> os option" where
  "queue_destroy_loop ff h cur s =
     (case cur of
        None \<Rightarrow> Some s
      | Some n \<Rightarrow>
          (case h n of
             None \<Rightarrow> Some (s\<lparr>ub := True\<rparr>)
           | Some nd \<Rightarrow>
               queue_destroy_loop ff (h(n := None)) (nxt nd) (free_blk n (free_item ff (data nd) s))))"

definition queue_destroy :: "'a Queue option \<Rightarrow> os \<Rightarrow> os option" where
  "queue_destroy qp s =
     (case qp of
        None \<Rightarrow> Some s
      | Some q \<Rightarrow> map_option (free_blk (self q)) (queue_destroy_loop (freeFunc q) (cells q) (front q) s))"

section \<open>The list a queue holds\<close>

text \<open>\<open>lseg h p xs\<close>: from the pointer \<open>p\<close> the chain runs through the addresses and items \<open>xs\<close>.\<close>

fun lseg :: "(nat \<rightharpoonup> 'a QueueNode) \<Rightarrow> nat option \<Rightarrow> (nat \<times> 'a option) list \<Rightarrow> bool" where
  "lseg h p [] \<longleftrightarrow> p = None"
| "lseg h p ((a, d) # xs) \<longleftrightarrow> p = Some a \<and> (\<exists>n. h a = Some \<lparr>data = d, nxt = n\<rparr> \<and> lseg h n xs)"

definition queue_holds :: "'a Queue \<Rightarrow> (nat \<times> 'a option) list \<Rightarrow> os \<Rightarrow> bool" where
  "queue_holds q xs s \<longleftrightarrow>
     lseg (cells q) (front q) xs \<and> distinct (map fst xs) \<and>
     rear q = (if xs = [] then None else Some (fst (last xs))) \<and>
     qsize q = length xs \<and> dom (cells q) = set (map fst xs) \<and>
     insert (self q) (dom (cells q)) \<subseteq> live s \<and> self q \<notin> dom (cells q)"

definition queue_ok :: "'a Queue option \<Rightarrow> os \<Rightarrow> bool" where
  "queue_ok qp s \<longleftrightarrow> os_ok s \<and> (\<exists>q xs. qp = Some q \<and> queue_holds q xs s)"

fun walk :: "nat \<Rightarrow> (nat \<rightharpoonup> 'a QueueNode) \<Rightarrow> nat option \<Rightarrow> 'a option list" where
  "walk (Suc k) h (Some a) = (case h a of None \<Rightarrow> [] | Some nd \<Rightarrow> data nd # walk k h (nxt nd))"
| "walk _ _ _ = []"

definition queue_items :: "'a Queue option \<Rightarrow> 'a option list" where
  "queue_items qp = (case qp of None \<Rightarrow> [] | Some q \<Rightarrow> walk (qsize q) (cells q) (front q))"

definition queue_blocks :: "'a Queue option \<Rightarrow> nat set" where
  "queue_blocks qp = (case qp of None \<Rightarrow> {} | Some q \<Rightarrow> insert (self q) (dom (cells q)))"

section \<open>Lemmas\<close>

lemma lseg_upd [simp]: "a \<notin> fst ` set xs \<Longrightarrow> lseg (h(a := v)) p xs = lseg h p xs"
  by (induction h p xs rule: lseg.induct) auto

lemma lseg_snoc:
  assumes "lseg h p xs" "distinct (map fst xs)" "xs \<noteq> []" "n \<notin> fst ` set xs" "r = fst (last xs)"
    and "h r = Some nd"
  shows "lseg (h(n \<mapsto> \<lparr>data = d, nxt = None\<rparr>, r \<mapsto> nd\<lparr>nxt := Some n\<rparr>)) p (xs @ [(n, d)])"
  using assms
proof (induction xs arbitrary: p)
  case (Cons x xs)
  obtain a e where x: "x = (a, e)" by force
  show ?case
  proof (cases "xs = []")
    case True
    with Cons.prems x show ?thesis by (auto simp: fun_upd_twist)
  next
    case False
    with Cons.prems x have a: "a \<noteq> r" "a \<noteq> n" by auto
    from Cons.prems x obtain m where m: "h a = Some \<lparr>data = e, nxt = m\<rparr>" "lseg h m xs" by auto
    from Cons.prems x False have prems: "distinct (map fst xs)" "n \<notin> fst ` set xs" "r = fst (last xs)"
      by auto
    have "lseg (h(n \<mapsto> \<lparr>data = d, nxt = None\<rparr>, r \<mapsto> nd\<lparr>nxt := Some n\<rparr>)) m (xs @ [(n, d)])"
      by (rule Cons.IH [OF m(2) prems(1) False prems(2,3) Cons.prems(6)])
    moreover from Cons.prems(1) x have "p = Some a" by simp
    ultimately show ?thesis using x a m(1) by (simp add: fun_upd_def)
  qed
qed simp

lemma lseg_dom: "lseg h p xs \<Longrightarrow> fst ` set xs \<subseteq> dom h"
  by (induction h p xs rule: lseg.induct) auto

lemma walk_lseg: "lseg h p xs \<Longrightarrow> walk (length xs) h p = map snd xs"
  by (induction h p xs rule: lseg.induct) auto

lemma queue_items_holds: "queue_holds q xs s \<Longrightarrow> queue_items (Some q) = map snd xs"
  by (simp add: queue_holds_def queue_items_def walk_lseg)

lemma queue_okE:
  assumes "queue_ok qp s"
  obtains q xs where "qp = Some q" "queue_holds q xs s" "queue_items qp = map snd xs" "os_ok s"
  using assms queue_items_holds that by (metis queue_ok_def)

lemma queue_create_ok:
  assumes "os_ok s" "queue_create ff s = (Some q, s')"
  shows "queue_ok (Some q) s' \<and> queue_items (Some q) = [] \<and> live s' = live s \<union> queue_blocks (Some q) \<and>
    queue_blocks (Some q) \<inter> live s = {} \<and> freeFunc q = ff \<and> socks s' = socks s"
proof -
  from assms(2) obtain b where m: "malloc s = (Some b, s')"
    and q: "q = \<lparr>front = None, rear = None, qsize = 0, freeFunc = ff, self = b, cells = Map.empty\<rparr>"
    by (auto simp: queue_create_def split: prod.splits option.splits)
  have "queue_holds q [] s'" using malloc_Some [OF m] by (simp add: queue_holds_def q)
  with malloc_ok [OF assms(1) m] have "queue_ok (Some q) s'" by (auto simp: queue_ok_def)
  with malloc_fresh [OF assms(1) m] malloc_Some [OF m] show ?thesis
    by (simp add: queue_items_def queue_blocks_def q)
qed

text \<open>Appending a node keeps the representation.\<close>

lemma queue_link_holds:
  assumes "queue_holds q xs s" and m: "malloc s = (Some n, s')" and "os_ok s"
    and "queue_link (q\<lparr>cells := (cells q)(n \<mapsto> \<lparr>data = d, nxt = None\<rparr>)\<rparr>) n s' = (q', s'')"
  shows "s'' = s' \<and> queue_holds (q'\<lparr>rear := Some n, qsize := qsize q' + 1\<rparr>) (xs @ [(n, d)]) s' \<and>
    freeFunc q' = freeFunc q \<and> self q' = self q"
proof -
  from malloc_fresh [OF assms(3) m] assms(1) have n: "n \<notin> fst ` set xs" "n \<noteq> self q"
    by (auto simp: queue_holds_def)
  show ?thesis
  proof (cases "xs = []")
    case True
    with assms(1,4) n malloc_Some [OF m] show ?thesis by (auto simp: queue_link_def queue_holds_def)
  next
    case False
    let ?r = "fst (last xs)"
    from False have "?r \<in> fst ` set xs" by simp
    with assms(1) have "?r \<in> dom (cells q)" by (simp add: queue_holds_def)
    then obtain nd where nd: "cells q ?r = Some nd" by blast
    from n \<open>?r \<in> fst ` set xs\<close> have r: "?r \<noteq> n" by blast
    from False assms(1) have "rear q = Some ?r" by (simp add: queue_holds_def)
    with nd r assms(4)
    have q': "q' = q\<lparr>cells := (cells q)(n \<mapsto> \<lparr>data = d, nxt = None\<rparr>, ?r \<mapsto> nd\<lparr>nxt := Some n\<rparr>)\<rparr>"
      "s'' = s'" by (simp_all add: queue_link_def)
    have "lseg (cells q') (front q') (xs @ [(n, d)])"
      using assms(1) False n nd lseg_snoc [of "cells q" "front q" xs n ?r nd d]
      by (simp add: q' queue_holds_def)
    moreover from nd have "dom (cells q') = insert n (dom (cells q))" by (auto simp: q')
    moreover have "qsize q' = qsize q" "self q' = self q" "freeFunc q' = freeFunc q" by (simp_all add: q')
    moreover note assms(1) [unfolded queue_holds_def]
    ultimately show ?thesis using n malloc_Some(1) [OF m] q'(2)
      by (simp add: queue_holds_def subset_insertI2 del: fun_upd_apply) blast
  qed
qed

lemma queue_enqueue_spec:
  assumes "queue_ok qp s" and "queue_enqueue qp d s = (r, qp', s')"
  shows "queue_ok qp' s' \<and>
    (r = 0 \<and> queue_items qp' = queue_items qp @ [d] \<or> r = - 1 \<and> qp' = qp \<and> live s' = live s) \<and>
    live s' - queue_blocks qp' = live s - queue_blocks qp \<and> socks s' = socks s \<and>
    map_option freeFunc qp' = map_option freeFunc qp"
proof -
  from assms(1) obtain q xs where q: "qp = Some q" "queue_holds q xs s" "queue_items qp = map snd xs" "os_ok s"
    by (rule queue_okE)
  show ?thesis
  proof (cases "fst (malloc s)")
    case None
    then obtain t where t: "malloc s = (None, t)" by (cases "malloc s") auto
    with assms(2) q(1) have "r = - 1" "qp' = qp" "s' = t" by (auto simp: queue_enqueue_def)
    moreover from q(2) have "queue_holds q xs t" unfolding queue_holds_def malloc_None [OF t] .
    ultimately show ?thesis using q(1) malloc_None [OF t] malloc_ok [OF q(4) t]
      by (simp add: queue_ok_def) blast
  next
    case (Some n)
    then obtain t where t: "malloc s = (Some n, t)" by (cases "malloc s") auto
    obtain q' t' where l: "queue_link (q\<lparr>cells := (cells q)(n \<mapsto> \<lparr>data = d, nxt = None\<rparr>)\<rparr>) n t = (q', t')"
      by force
    let ?q = "q'\<lparr>rear := Some n, qsize := qsize q' + 1\<rparr>"
    from queue_link_holds [OF q(2) t q(4) l]
    have h: "t' = t" "queue_holds ?q (xs @ [(n, d)]) t" "freeFunc q' = freeFunc q" "self q' = self q"
      by auto
    from assms(2) q(1) t l h(1) have r: "r = 0" "qp' = Some ?q" "s' = t"
      by (auto simp: queue_enqueue_def)
    from h(2) q(2) have "dom (cells q') = insert n (dom (cells q))" by (auto simp: queue_holds_def)
    with h malloc_Some [OF t] malloc_fresh [OF q(4) t] q(1) r
    have "live s' - queue_blocks qp' = live s - queue_blocks qp" by (auto simp: queue_blocks_def)
    with h q(1,3) r malloc_ok [OF q(4) t] malloc_Some(2) [OF t] queue_items_holds [OF h(2)]
    show ?thesis by (auto simp: queue_ok_def)
  qed
qed

text \<open>A queue only depends on its own blocks.\<close>

lemma queue_blocks_live:
  assumes "queue_ok qp s"
  shows "queue_blocks qp \<subseteq> live s"
proof -
  from assms obtain q xs where q: "qp = Some q" "queue_holds q xs s" by (auto simp: queue_ok_def)
  then have "insert (self q) (dom (cells q)) \<subseteq> live s" unfolding queue_holds_def by (elim conjE)
  then show ?thesis by (simp add: q(1) queue_blocks_def)
qed

lemma queue_ok_frame:
  assumes "queue_ok qp s" "os_ok s'" "queue_blocks qp \<subseteq> live s'"
  shows "queue_ok qp s'"
proof -
  from assms(1) obtain q xs where q: "qp = Some q" "queue_holds q xs s" by (auto simp: queue_ok_def)
  moreover have "queue_holds q xs s'"
    using q(2) assms(3) unfolding queue_holds_def q(1) queue_blocks_def option.case by (elim conjE) (intro conjI)
  ultimately show ?thesis using assms(2) unfolding queue_ok_def by blast
qed

lemma lseg_tail_upd:
  assumes "lseg h (Some n) ((n, d) # xs)" and "distinct (n # map fst xs)"
  shows "\<exists>m. h n = Some \<lparr>data = d, nxt = m\<rparr> \<and> lseg (h(n := None)) m xs"
  using assms by auto

lemma lseg_Nil_iff: "lseg h p xs \<Longrightarrow> (p = None) = (xs = [])"
  by (cases xs) auto

lemma queue_dequeue_spec:
  assumes "queue_ok qp s" and "queue_items qp = x # ys" and "queue_dequeue qp s = (d, qp', s')"
  shows "queue_ok qp' s' \<and> d = x \<and> queue_items qp' = ys \<and>
    live s' - queue_blocks qp' = live s - queue_blocks qp \<and> socks s' = socks s \<and>
    map_option freeFunc qp' = map_option freeFunc qp"
proof -
  from assms(1) obtain q xs where q: "qp = Some q" "queue_holds q xs s" "queue_items qp = map snd xs" "os_ok s"
    by (rule queue_okE)
  with assms(2) obtain n zs where xs: "xs = (n, x) # zs" and ys: "ys = map snd zs" by auto
  note H = q(2) [unfolded queue_holds_def xs]
  from H obtain m where m: "cells q n = Some \<lparr>data = x, nxt = m\<rparr>" "lseg ((cells q)(n := None)) m zs" by auto
  from H have f: "front q = Some n" "n \<in> live s" by auto
  define q' where "q' = q\<lparr>front := m, rear := (if m = None then None else rear q),
    cells := (cells q)(n := None), qsize := qsize q - 1\<rparr>"
  from assms(3) q(1) f m(1) have r: "d = x" "qp' = Some q'" "s' = release {n} {} s"
    by (auto simp: queue_dequeue_def q'_def Let_def free_blk_live)
  from lseg_Nil_iff [OF m(2)] H m(2) have "queue_holds q' zs s'"
    by (auto simp: queue_holds_def q'_def r release_sel)
  moreover have "live s' - queue_blocks qp' = live s - queue_blocks qp"
    using q(1) r m(1) by (auto simp: queue_blocks_def q'_def release_sel)
  ultimately show ?thesis
    using q(1,4) r release_ok [OF q(4)] queue_items_holds [of q' zs s']
    by (auto simp: queue_ok_def q'_def ys release_sel)
qed

lemma queue_dequeue_empty: "queue_ok qp s \<Longrightarrow> queue_items qp = [] \<Longrightarrow> queue_dequeue qp s = (None, qp, s)"
  by (erule queue_okE) (auto simp: queue_dequeue_def queue_holds_def)

lemma queue_size_items: "queue_ok qp s \<Longrightarrow> queue_size qp = length (queue_items qp)"
  by (erule queue_okE) (auto simp: queue_size_def queue_holds_def)

lemma queue_is_empty_items: "queue_ok qp s \<Longrightarrow> queue_is_empty qp = (queue_items qp = [])"
  by (erule queue_okE) (auto simp: queue_is_empty_def queue_holds_def)

lemma queue_peek_spec:
  "queue_ok qp s \<Longrightarrow> queue_peek qp s = ((case queue_items qp of [] \<Rightarrow> None | x # _ \<Rightarrow> x), s)"
  by (erule queue_okE) (auto simp: queue_peek_def queue_holds_def split: list.splits elim: lseg.elims)

section \<open>Tearing a queue down\<close>

context destructor
begin

abbreviation holds_blks :: "(nat \<times> 'a option) list \<Rightarrow> nat list" where
  "holds_blks xs \<equiv> map fst xs @ owns (somes (map snd xs))"

lemma destroy_loop_releases:
  assumes "lseg h p xs" "distinct (holds_blks xs)" "set (holds_blks xs) \<subseteq> live s"
  shows "queue_destroy_loop (Some destroy) h p s =
    Some (release (set (holds_blks xs)) (owns_socks (somes (map snd xs))) s)"
  using assms
proof (induction xs arbitrary: h p s)
  case Nil
  then show ?case by (simp add: queue_destroy_loop.simps release_empty)
next
  case (Cons x xs)
  obtain n d where x: "x = (n, d)" by force
  from Cons.prems(1) x obtain m where m: "p = Some n" "h n = Some \<lparr>data = d, nxt = m\<rparr>" "lseg h m xs"
    by auto
  let ?B = "owns (somes [d])" and ?K = "owns_socks (somes [d])"
  let ?s = "release (insert n (set ?B)) ?K s"
  from Cons.prems x have n: "n \<in> live s" "n \<notin> set ?B" "set ?B \<subseteq> live s" "distinct ?B" by (cases d; auto)+
  then have "free_blk n (free_item (Some destroy) d s) = ?s"
    by (cases d) (auto simp: free_item_def destroy_releases os_simps)
  moreover have "queue_destroy_loop (Some destroy) (h(n := None)) m ?s =
    Some (release (set (holds_blks xs)) (owns_socks (somes (map snd xs))) ?s)"
  proof (rule Cons.IH)
    show "lseg (h(n := None)) m xs" using m(3) Cons.prems(2) x by simp
    show "set (holds_blks xs) \<subseteq> live ?s" using Cons.prems(2,3) x
      by (cases d) (auto simp: release_sel)
  qed (use Cons.prems(2) x in \<open>cases d; auto\<close>)
  ultimately have "queue_destroy_loop (Some destroy) h p s =
    Some (release (set (holds_blks xs)) (owns_socks (somes (map snd xs))) ?s)"
    by (subst queue_destroy_loop.simps) (simp add: m(1,2))
  moreover have "insert n (set ?B) \<union> set (holds_blks xs) = set (holds_blks (x # xs))"
    "?K \<union> owns_socks (somes (map snd xs)) = owns_socks (somes (map snd (x # xs)))"
    by (cases d; auto simp: x)+
  ultimately show ?case by (simp only: release_release)
qed

lemma queue_destroy_releases:
  assumes "queue_ok (Some q) s" "freeFunc q = Some destroy"
    and "distinct (owns (somes (queue_items (Some q))))"
    and "set (owns (somes (queue_items (Some q)))) \<subseteq> live s - queue_blocks (Some q)"
  shows "queue_destroy (Some q) s =
    Some (release (queue_blocks (Some q) \<union> set (owns (somes (queue_items (Some q)))))
      (owns_socks (somes (queue_items (Some q)))) s)"
proof -
  from assms(1) obtain xs where h: "queue_holds q xs s" "queue_items (Some q) = map snd xs"
    by (auto elim: queue_okE)
  note H = h(1) [unfolded queue_holds_def]
  from H assms(4) h(2) have b: "self q \<in> live s" "self q \<notin> set (holds_blks xs)"
    "queue_blocks (Some q) = insert (self q) (fst ` set xs)"
    by (auto simp: queue_blocks_def)
  have "queue_destroy_loop (Some destroy) (cells q) (front q) s =
    Some (release (set (holds_blks xs)) (owns_socks (somes (map snd xs))) s)"
  proof (rule destroy_loop_releases)
    have "fst ` set xs \<subseteq> live s" using H by (elim conjE) simp
    then show "set (holds_blks xs) \<subseteq> live s" "distinct (holds_blks xs)"
      using H assms(3,4) h(2) b(3) by auto
  qed (use H in simp)
  with assms(2) b h(2) show ?thesis
    by (simp add: queue_destroy_def free_blk_live release_sel release_release)
qed

end

section \<open>The queue contract\<close>

text \<open>
  What the clients of a queue (the thread-safe queue, the thread pool, the pipelines of the
  processes) rely on: a queue holds a list, an accepted item goes to its end, a removed item is
  its head, and every operation keeps the representation.
\<close>

datatype 'a qop = Enq 'a | Deq

text \<open>
  A sequence of calls on a queue: the items it accepted, the items it handed out, the queue it
  leaves.  A client takes an item only where the queue is not empty.
\<close>

fun fifo_run :: "('q \<Rightarrow> 'a \<Rightarrow> 's \<Rightarrow> int \<times> 'q \<times> 's) \<Rightarrow> ('q \<Rightarrow> 's \<Rightarrow> 'a \<times> 'q \<times> 's) \<Rightarrow> ('q \<Rightarrow> bool) \<Rightarrow>
    'a qop list \<Rightarrow> 'q \<Rightarrow> 's \<Rightarrow> 'a list \<times> 'a list \<times> 'q \<times> 's" where
  "fifo_run enq deq emp [] q s = ([], [], q, s)"
| "fifo_run enq deq emp (Enq d # ops) q s =
     (let (r, q1, s1) = enq q d s;
          (ins, outs, q2, s2) = fifo_run enq deq emp ops q1 s1
      in ((if r = 0 then d # ins else ins), outs, q2, s2))"
| "fifo_run enq deq emp (Deq # ops) q s =
     (if emp q then fifo_run enq deq emp ops q s
      else let (d, q1, s1) = deq q s;
               (ins, outs, q2, s2) = fifo_run enq deq emp ops q1 s1
           in (ins, d # outs, q2, s2))"

abbreviation queue_run where
  "queue_run \<equiv> fifo_run queue_enqueue queue_dequeue queue_is_empty"

locale fifo =
  fixes items :: "'q \<Rightarrow> 'a list"
    and ok :: "'q \<Rightarrow> 's \<Rightarrow> bool"
    and enq :: "'q \<Rightarrow> 'a \<Rightarrow> 's \<Rightarrow> int \<times> 'q \<times> 's"
    and deq :: "'q \<Rightarrow> 's \<Rightarrow> 'a \<times> 'q \<times> 's"
    and emp :: "'q \<Rightarrow> bool"
    and len :: "'q \<Rightarrow> nat"
  assumes enq_items: "ok q s \<Longrightarrow> enq q d s = (r, q', s') \<Longrightarrow>
      ok q' s' \<and> items q' = (if r = 0 then items q @ [d] else items q)"
    and deq_items: "ok q s \<Longrightarrow> items q = x # xs \<Longrightarrow> deq q s = (d, q', s') \<Longrightarrow>
      ok q' s' \<and> d = x \<and> items q' = xs"
    and emp_items: "ok q s \<Longrightarrow> emp q = (items q = [])"
    and len_items: "ok q s \<Longrightarrow> len q = length (items q)"
begin

lemma run_fifo:
  "ok q s \<Longrightarrow> fifo_run enq deq emp ops q s = (ins, outs, q', s') \<Longrightarrow>
   ok q' s' \<and> items q @ ins = outs @ items q'"
proof (induction ops arbitrary: q s ins outs q' s')
  case Nil
  then show ?case by simp
next
  case (Cons op ops)
  show ?case
  proof (cases op)
    case (Enq d)
    obtain r q1 s1 where e: "enq q d s = (r, q1, s1)" by (cases "enq q d s")
    obtain ins' outs' q2 s2 where f: "fifo_run enq deq emp ops q1 s1 = (ins', outs', q2, s2)"
      by (cases "fifo_run enq deq emp ops q1 s1")
    from enq_items [OF Cons.prems(1) e] Cons.IH [OF _ f] Cons.prems(2) Enq e f show ?thesis
      by (auto split: if_splits)
  next
    case Deq
    show ?thesis
    proof (cases "emp q")
      case True
      with Cons Deq show ?thesis by simp
    next
      case False
      with emp_items [OF Cons.prems(1)] obtain x xs where xs: "items q = x # xs" by (cases "items q") auto
      obtain d q1 s1 where e: "deq q s = (d, q1, s1)" by (cases "deq q s")
      obtain ins' outs' q2 s2 where f: "fifo_run enq deq emp ops q1 s1 = (ins', outs', q2, s2)"
        by (cases "fifo_run enq deq emp ops q1 s1")
      from deq_items [OF Cons.prems(1) xs e] Cons.IH [OF _ f] Cons.prems(2) Deq False e f xs show ?thesis
        by auto
    qed
  qed
qed

end

interpretation lq: fifo queue_items queue_ok queue_enqueue queue_dequeue queue_is_empty queue_size
proof unfold_locales
  fix q :: "'a Queue option" and s d r q' s'
  assume "queue_ok q s" "queue_enqueue q d s = (r, q', s')"
  then show "queue_ok q' s' \<and> queue_items q' = (if r = 0 then queue_items q @ [d] else queue_items q)"
    using queue_enqueue_spec by fastforce
qed (use queue_dequeue_spec queue_is_empty_items queue_size_items in blast)+

section \<open>Properties\<close>

lemma queue_run_fifo:
  assumes "os_ok s" "queue_create ff s = (Some q, s1)" "queue_run ops (Some q) s1 = (ins, outs, q', s2)"
  shows "ins = outs @ queue_items q' \<and> queue_ok q' s2"
  using lq.run_fifo [OF _ assms(3)] queue_create_ok [OF assms(1,2)] by auto

text \<open>
  C25. The linked queue is a FIFO queue for every sequence of calls and every pattern of
  allocation failures: starting from a new queue, the items that were accepted are the items
  that came out, in that order, followed by the items still inside; the pointer structure stays
  well formed, and size and emptiness test agree with the list of items.
\<close>

theorem queue_is_fifo:
  assumes "os_ok s" "queue_create ff s = (Some q, s1)" "queue_run ops (Some q) s1 = (ins, outs, q', s2)"
  shows "ins = outs @ queue_items q' \<and> queue_ok q' s2 \<and> queue_size q' = length ins - length outs \<and>
    (queue_is_empty q' \<longleftrightarrow> ins = outs) \<and>
    fst (queue_peek q' s2) = (case drop (length outs) ins of [] \<Rightarrow> None | x # _ \<Rightarrow> x)"
  using queue_run_fifo [OF assms] queue_size_items [of q' s2] queue_is_empty_items [of q' s2] queue_peek_spec [of q' s2]
  by simp

definition demo_ops :: "nat option qop list" where
  "demo_ops = [Enq (Some 7), Enq None, Enq (Some 9), Deq, Deq, Enq (Some 4)]"

text \<open>The sixth request for memory fails: the last item is not accepted.\<close>

theorem queue_is_fifo_witness:
  "\<exists>q s1 q' s2. queue_create None (fresh_os\<lparr>oom := [False, False, False, False, True]\<rparr>) = (Some q, s1) \<and>
     queue_run demo_ops (Some q) s1 = ([Some 7, None, Some 9], [Some 7, None], q', s2) \<and>
     queue_items q' = [Some 9] \<and> queue_size q' = 1"
proof -
  let ?s = "fresh_os\<lparr>oom := [False, False, False, False, True]\<rparr>"
  let ?q = "queue_create None ?s :: nat Queue option \<times> os"
  have ok: "os_ok ?s" by (simp add: os_ok_def fresh_os_def)
  obtain q s1 where c: "?q = (Some q, s1)" by (simp add: queue_create_def malloc_def fresh_os_def)
  obtain q' s2 where r: "queue_run demo_ops (Some q) s1 = ([Some 7, None, Some 9], [Some 7, None], q', s2)"
    using c by (auto simp: demo_ops_def queue_create_def queue_enqueue_def queue_dequeue_def queue_is_empty_def
      queue_link_def malloc_def free_blk_def fresh_os_def Let_def)
  from queue_is_fifo [OF ok c r] show ?thesis using c r by auto
qed

end
