(* ===== verification/Warning.thy ===== *)
theory Warning
  imports Prelude Queue
begin

text \<open>
  \<open>Common/Warning.h\<close> and \<open>Common/warning.c\<close>: the warning message, its construction, its text for
  the logs and its destructor.  The two strings are copies on the heap.  The value is kept as
  the 64 bits of the IEEE double, which the program only copies and formats; the enum is kept
  at its 32 bits, because a received one may be any number.
\<close>

section \<open>Data and operations\<close>

record Warning =
  city :: hstr
  wtype :: u32
  wvalue :: u64
  timestamp :: u64
  dest_node :: hstr
  wblk :: nat

definition WARNING_TYPE_FLOOD :: u32 where "WARNING_TYPE_FLOOD = 0"
definition WARNING_TYPE_FIRE :: u32 where "WARNING_TYPE_FIRE = 1"
definition WARNING_TYPE_STORM :: u32 where "WARNING_TYPE_STORM = 2"
definition WARNING_TYPE_OTHER :: u32 where "WARNING_TYPE_OTHER = 3"

definition WarningTypeNames :: "string list" where
  "WarningTypeNames = [''Flood alert'', ''Fire alert'', ''Storm alert'', ''Other alert'']"

text \<open>What a warning says, without where it is stored.\<close>

type_synonym warning_view = "string \<times> u32 \<times> u64 \<times> u64 \<times> string"

definition view :: "Warning \<Rightarrow> warning_view" where
  "view w = (chars (city w), wtype w, wvalue w, timestamp w, chars (dest_node w))"

definition warning_create ::
  "string \<Rightarrow> u32 \<Rightarrow> u64 \<Rightarrow> u64 \<Rightarrow> string \<Rightarrow> os \<Rightarrow> Warning option \<times> os" where
  "warning_create cty t v ts dest s =
     (case malloc s of
        (None, s) \<Rightarrow> (None, s)
      | (Some b, s) \<Rightarrow>
          (case strdup cty s of
             (None, s) \<Rightarrow> (None, free_blk b s)
           | (Some c, s) \<Rightarrow>
               (case strdup dest s of
                  (None, s) \<Rightarrow> (None, free_blk b (free_str c s))
                | (Some d, s) \<Rightarrow>
                    (Some \<lparr>city = c, wtype = t, wvalue = v, timestamp = ts, dest_node = d, wblk = b\<rparr>, s))))"

definition warning_destroy :: "Warning option \<Rightarrow> os \<Rightarrow> os" where
  "warning_destroy wp s =
     (case wp of
        None \<Rightarrow> s
      | Some w \<Rightarrow> free_blk (wblk w) (free_str (dest_node w) (free_str (city w) s)))"

definition warning_type_to_string :: "u32 \<Rightarrow> string" where
  "warning_type_to_string t =
     (if sint t < 0 \<or> sint t > sint WARNING_TYPE_OTHER then ''Unknown warning type''
      else WarningTypeNames ! unat t)"

text \<open>
  The broken-down local time.  Which one a time stamp has depends on the time zone of the
  machine, so the conversion is a parameter; the format string is the program's.
\<close>

record tm =
  tm_mday :: nat
  tm_mon :: nat
  tm_year :: nat
  tm_hour :: nat
  tm_min :: nat
  tm_sec :: nat

definition two_digits :: "nat \<Rightarrow> string" where
  "two_digits n = [digit_char (n div 10 mod 10), digit_char (n mod 10)]"

definition format_local_time :: "(u64 \<Rightarrow> tm) \<Rightarrow> u64 \<Rightarrow> string" where
  "format_local_time localtime ts =
     (let t = localtime ts
      in two_digits (tm_mday t) @ ''.'' @ two_digits (tm_mon t + 1) @ ''.'' @
         string_of_nat (tm_year t + 1900) @ '' '' @
         two_digits (tm_hour t) @ '':'' @ two_digits (tm_min t) @ '':'' @ two_digits (tm_sec t))"

text \<open>
  \<open>fmt2f\<close> is the text the C library prints for a double with \<open>%.2f\<close>.  The buffer holds the text
  and its NUL; a text too long for the \<open>int\<close> that \<open>_scprintf\<close> returns gives a negative length.
\<close>

definition warning_text :: "(u64 \<Rightarrow> string) \<Rightarrow> (u64 \<Rightarrow> tm) \<Rightarrow> Warning \<Rightarrow> string" where
  "warning_text fmt2f localtime w =
     ''city='' @ chars (city w) @ '', type='' @ warning_type_to_string (wtype w) @
     '', value='' @ fmt2f (wvalue w) @ '', time='' @ format_local_time localtime (timestamp w) @
     '', dest='' @ chars (dest_node w)"

definition warning_to_string ::
  "(u64 \<Rightarrow> string) \<Rightarrow> (u64 \<Rightarrow> tm) \<Rightarrow> Warning option \<Rightarrow> os \<Rightarrow> hstr option \<times> os" where
  "warning_to_string fmt2f localtime wp s =
     (case wp of
        None \<Rightarrow> (None, s)
      | Some w \<Rightarrow>
          (let text = warning_text fmt2f localtime w
           in if 2 ^ 31 \<le> length text then (None, s)
              else (case malloc s of
                      (None, s) \<Rightarrow> (None, s)
                    | (Some b, s) \<Rightarrow> (Some \<lparr>chars = text, sblk = b\<rparr>, s))))"

definition warning_blks :: "Warning \<Rightarrow> nat list" where
  "warning_blks w = [sblk (city w), sblk (dest_node w), wblk w]"

section \<open>Lemmas\<close>

interpretation wd: destructor "\<lambda>w. warning_destroy (Some w)" warning_blks "\<lambda>w. {}"
  by unfold_locales (auto simp: warning_destroy_def warning_blks_def os_simps insert_commute)

lemma warning_create_Some:
  assumes "os_ok s" "warning_create cty t v ts dest s = (Some w, s')"
  shows "view w = (cty, t, v, ts, dest) \<and> os_ok s' \<and> distinct (warning_blks w) \<and>
    live s' = live s \<union> set (warning_blks w) \<and> live s \<inter> set (warning_blks w) = {} \<and> socks s' = socks s"
proof -
  from assms(2) obtain b s1 c s2 d where a: "malloc s = (Some b, s1)" "strdup cty s1 = (Some c, s2)"
    "strdup dest s2 = (Some d, s')"
    "w = \<lparr>city = c, wtype = t, wvalue = v, timestamp = ts, dest_node = d, wblk = b\<rparr>"
    by (auto simp: warning_create_def split: prod.splits option.splits)
  note ok1 = malloc_ok [OF assms(1) a(1)]
  note ok2 = strdup_ok [OF ok1 a(2)]
  note ok3 = strdup_ok [OF ok2 a(3)]
  note fresh = malloc_fresh [OF assms(1) a(1)] strdup_fresh [OF ok1 a(2)] strdup_fresh [OF ok2 a(3)]
  note eqs = malloc_Some(1,2) [OF a(1)] strdup_Some(1-3) [OF a(2)] strdup_Some(1-3) [OF a(3)]
  show ?thesis using fresh eqs ok3 by (simp add: a(4) view_def warning_blks_def) auto
qed

lemma warning_create_None:
  assumes "os_ok s" "warning_create cty t v ts dest s = (None, s')"
  shows "os_ok s' \<and> live s' = live s \<and> socks s' = socks s"
proof (cases "fst (malloc s)")
  case None
  then obtain s1 where m: "malloc s = (None, s1)" by (cases "malloc s") auto
  with assms malloc_None [OF m] malloc_ok [OF assms(1) m] show ?thesis by (simp add: warning_create_def)
next
  case (Some b)
  then obtain s1 where m: "malloc s = (Some b, s1)" by (cases "malloc s") auto
  note ok1 = malloc_ok [OF assms(1) m]
  show ?thesis
  proof (cases "fst (strdup cty s1)")
    case None
    then obtain s2 where c: "strdup cty s1 = (None, s2)" by (cases "strdup cty s1") auto
    with assms(2) m have "s' = free_blk b s2" by (simp add: warning_create_def)
    with strdup_None(1,2) [OF c] strdup_ok [OF ok1 c] malloc_Some(1,2) [OF m] malloc_fresh [OF assms(1) m]
    show ?thesis by (simp add: os_simps release_ok)
  next
    case (Some c)
    then obtain s2 where c: "strdup cty s1 = (Some c, s2)" by (cases "strdup cty s1") auto
    note ok2 = strdup_ok [OF ok1 c]
    from assms(2) m c obtain s3 where d: "strdup dest s2 = (None, s3)" "s' = free_blk b (free_str c s3)"
      by (auto simp: warning_create_def split: prod.splits option.splits)
    with strdup_None(1,2) [OF d(1)] strdup_ok [OF ok2 d(1)] strdup_Some(2,3) [OF c] malloc_Some(1,2) [OF m]
      strdup_fresh [OF ok1 c] malloc_fresh [OF assms(1) m]
    show ?thesis by (simp add: os_simps release_ok)
  qed
qed

lemma warning_destroy_owned:
  "distinct (warning_blks w) \<Longrightarrow> set (warning_blks w) \<subseteq> live s \<Longrightarrow>
   warning_destroy (Some w) s = release (set (warning_blks w)) {} s"
  by (rule wd.destroy_releases)

lemma sint_u32_range: "sint (t :: u32) < 0 \<or> 3 < sint t \<or> unat t \<le> 3"
proof (cases "0 \<le> sint t \<and> sint t \<le> 3")
  case True
  then have "uint t = sint t" by (simp add: uint_sint take_bit_eq_mod)
  with True show ?thesis by (simp add: unat_eq_nat_uint nat_le_iff)
qed auto

section \<open>Properties\<close>

text \<open>
  Creating a warning either returns one with exactly the given fields, whose two strings and
  record are three new blocks, or fails and leaves no block behind; destroying the warning
  restores the heap as it was before.
\<close>

theorem warning_lifecycle:
  assumes "os_ok s" "warning_create cty t v ts dest s = (r, s')"
  shows "case r of
      None \<Rightarrow> os_ok s' \<and> live s' = live s
    | Some w \<Rightarrow> view w = (cty, t, v, ts, dest) \<and> card (live s' - live s) = 3 \<and>
        os_ok (warning_destroy (Some w) s') \<and> live (warning_destroy (Some w) s') = live s"
proof (cases r)
  case None
  with warning_create_None [OF assms(1)] assms(2) show ?thesis by simp
next
  case (Some w)
  from warning_create_Some [OF assms(1)] assms(2) Some
  have w: "view w = (cty, t, v, ts, dest)" "os_ok s'" "distinct (warning_blks w)"
    "live s' = live s \<union> set (warning_blks w)" "live s \<inter> set (warning_blks w) = {}" by auto
  have "live s' - live s = set (warning_blks w)" using w(4,5) by auto
  then have "card (live s' - live s) = 3" using distinct_card [OF w(3)] by (simp add: warning_blks_def)
  with w Some show ?thesis by (auto simp: warning_destroy_owned os_simps intro: os_intros)
qed

text \<open>The third request fails: the copy of the city and the record are given back.\<close>

theorem warning_lifecycle_witness:
  "fst (warning_create ''Novi Sad'' WARNING_TYPE_FLOOD 5 7 ''D1'' (fresh_os\<lparr>oom := [False, False, True]\<rparr>)) = None \<and>
   live (snd (warning_create ''Novi Sad'' WARNING_TYPE_FLOOD 5 7 ''D1'' (fresh_os\<lparr>oom := [False, False, True]\<rparr>))) = {}"
proof -
  let ?s = "fresh_os\<lparr>oom := [False, False, True]\<rparr>"
  obtain r s' where r: "warning_create ''Novi Sad'' WARNING_TYPE_FLOOD 5 7 ''D1'' ?s = (r, s')" by force
  have "os_ok ?s" by (simp add: os_ok_def fresh_os_def)
  from warning_lifecycle [OF this r] have l: "r = None \<Longrightarrow> live s' = live ?s" by simp
  from r have n: "r = None" by (auto simp: warning_create_def strdup_def malloc_def fresh_os_def)
  from l [OF n] have "live s' = {}" by (simp add: fresh_os_def)
  with r n show ?thesis by simp
qed

text \<open>
  The name of a warning type never reads outside the table of names, whatever 32 bits the
  type has: the four known types give their names, every other value the text for unknown types.
\<close>

theorem warning_type_name_total:
  "warning_type_to_string t =
     (if t = WARNING_TYPE_FLOOD then ''Flood alert'' else if t = WARNING_TYPE_FIRE then ''Fire alert''
      else if t = WARNING_TYPE_STORM then ''Storm alert'' else if t = WARNING_TYPE_OTHER then ''Other alert''
      else ''Unknown warning type'')"
proof -
  have "t \<in> {0, 1, 2, 3}" if "unat t \<le> 3"
  proof -
    from that have "unat t = 0 \<or> unat t = 1 \<or> unat t = 2 \<or> unat t = 3" by auto
    then show ?thesis by (auto simp: word_unat_eq_iff)
  qed
  moreover have "unat t \<noteq> 0 \<Longrightarrow> t \<noteq> 0" by auto
  moreover note sint_u32_range [of t]
  ultimately show ?thesis
    by (auto simp: warning_type_to_string_def WarningTypeNames_def WARNING_TYPE_FLOOD_def WARNING_TYPE_FIRE_def
      WARNING_TYPE_STORM_def WARNING_TYPE_OTHER_def)
qed

text \<open>
  Destroying a queue of warnings, as the thread-safe queues of the processes do on shutdown,
  terminates and gives back every queue node, the queue and the three blocks of every warning
  in it, without freeing anything twice.
\<close>

theorem warning_queue_destroy:
  assumes "queue_ok (Some q) s" "freeFunc q = Some (\<lambda>w. warning_destroy (Some w))"
    and "distinct (wd.owns (somes (queue_items (Some q))))"
    and "set (wd.owns (somes (queue_items (Some q)))) \<subseteq> live s - queue_blocks (Some q)"
  shows "\<exists>s'. queue_destroy (Some q) s = Some s' \<and> os_ok s' \<and>
    live s' = live s - queue_blocks (Some q) - set (wd.owns (somes (queue_items (Some q))))"
proof -
  from assms(1) have "os_ok s" by (simp add: queue_ok_def)
  with wd.queue_destroy_releases [OF assms] show ?thesis by (auto simp: os_simps intro: os_intros)
qed

theorem warning_queue_destroy_witness:
  "\<exists>q s s'. queue_create (Some (\<lambda>w. warning_destroy (Some w))) fresh_os = (Some q, s) \<and>
     queue_destroy (Some q) s = Some s' \<and> live s' = {}"
proof -
  obtain q s where c: "queue_create (Some (\<lambda>w. warning_destroy (Some w))) fresh_os = (Some q, s)"
    by (simp add: queue_create_def malloc_def fresh_os_def)
  from queue_create_ok [OF fresh_os_ok(1) c]
  have k: "queue_ok (Some q) s" "queue_items (Some q) = []" "live s = queue_blocks (Some q)"
    "freeFunc q = Some (\<lambda>w. warning_destroy (Some w))" by auto
  have "distinct (wd.owns (somes (queue_items (Some q))))"
    "set (wd.owns (somes (queue_items (Some q)))) \<subseteq> live s - queue_blocks (Some q)" using k(2) by auto
  from warning_queue_destroy [OF k(1,4) this] c k(2,3) show ?thesis by auto
qed

end
