(* ===== verification/Wire.thy ===== *)
theory Wire
  imports Warning
begin

text \<open>
  The message format.  The machine is little-endian, so \<open>memcpy\<close> of an integer copies its bytes
  from the lowest one; \<open>htonl\<close> and \<open>ntohl\<close> reverse the four bytes of a 32-bit value, and
  \<open>host_to_network64\<close> (\<open>Common/propagator_client.c\<close>) and \<open>network_to_host64\<close>
  (\<open>Common/utils.c\<close>) are the program's own 64-bit versions.  \<open>encode\<close> is the buffer that
  \<open>send_warning_to\<close> fills.
\<close>

section \<open>Bytes of integers\<close>

fun le_bytes :: "nat \<Rightarrow> 'a::len word \<Rightarrow> u8 list" where
  "le_bytes 0 x = []"
| "le_bytes (Suc n) x = ucast x # le_bytes n (drop_bit 8 x)"

fun of_le :: "u8 list \<Rightarrow> 'a::len word" where
  "of_le [] = 0"
| "of_le (b # bs) = ucast b OR push_bit 8 (of_le bs)"

definition htonl :: "u32 \<Rightarrow> u32" where
  "htonl x = of_le (rev (le_bytes 4 x))"

definition ntohl :: "u32 \<Rightarrow> u32" where
  "ntohl x = of_le (rev (le_bytes 4 x))"

definition host_to_network64 :: "u64 \<Rightarrow> u64" where
  "host_to_network64 x =
     (let hi = (ucast (drop_bit 32 x) :: u32);
          lo = (ucast x :: u32);
          hi = htonl hi;
          lo = htonl lo
      in push_bit 32 (ucast lo) OR ucast hi)"

definition network_to_host64 :: "u64 \<Rightarrow> u64" where
  "network_to_host64 x =
     (let hi_net = (ucast x :: u32);
          lo_net = (ucast (drop_bit 32 x) :: u32);
          hi = ntohl hi_net;
          lo = ntohl lo_net
      in push_bit 32 (ucast hi) OR ucast lo)"

section \<open>Bytes of strings\<close>

definition byte_of_char :: "char \<Rightarrow> u8" where
  "byte_of_char c = word_of_nat (of_char c)"

definition char_of_byte :: "u8 \<Rightarrow> char" where
  "char_of_byte b = char_of (unat b)"

section \<open>The message\<close>

text \<open>
  \<open>strlen\<close> is narrowed to 32 bits, and the length of the buffer is computed with 32 bits before
  it is widened.
\<close>

definition len32 :: "string \<Rightarrow> u32" where
  "len32 str = word_of_nat (length str)"

definition encode_len :: "Warning \<Rightarrow> u32" where
  "encode_len w = 4 + len32 (chars (city w)) + 4 + len32 (chars (dest_node w)) + 4 + 8 + 8"

definition encode :: "Warning \<Rightarrow> u8 list" where
  "encode w =
     (let city_len = len32 (chars (city w)); dest_len = len32 (chars (dest_node w))
      in le_bytes 4 (htonl city_len) @ map byte_of_char (take (unat city_len) (chars (city w))) @
         le_bytes 4 (htonl dest_len) @ map byte_of_char (take (unat dest_len) (chars (dest_node w))) @
         le_bytes 4 (htonl (wtype w)) @
         le_bytes 8 (host_to_network64 (wvalue w)) @
         le_bytes 8 (host_to_network64 (timestamp w)))"

section \<open>Lemmas\<close>

lemma length_le_bytes [simp]: "length (le_bytes n x) = n"
  by (induction n arbitrary: x) auto

lemma of_le_le_bytes: "of_le (le_bytes n x) = take_bit (8 * n) (x :: 'a::len word)"
proof (induction n arbitrary: x)
  case (Suc n)
  have "of_le (le_bytes (Suc n) x) = ucast (ucast x :: u8) OR push_bit 8 (take_bit (8 * n) (drop_bit 8 x))"
    by (simp add: Suc)
  also have "\<dots> = take_bit (8 * Suc n) x"
    by (rule bit_word_eqI) (auto simp: bit_simps)
  finally show ?case .
qed simp

lemma ucast_of_le: "8 \<le> LENGTH('a::len) \<Longrightarrow> ucast (of_le (b # bs) :: 'a word) = b"
  by (rule bit_word_eqI) (auto simp: bit_simps)

lemma drop_of_le:
  assumes "8 * length (b # bs) \<le> LENGTH('a::len)"
  shows "drop_bit 8 (of_le (b # bs) :: 'a word) = of_le bs"
proof -
  have top: "bit (of_le cs :: 'a word) n \<Longrightarrow> n < 8 * length cs" for cs n
  proof (induction cs arbitrary: n)
    case (Cons c cs)
    show ?case
    proof (cases "n < 8")
      case False
      with Cons.prems have "bit (of_le cs :: 'a word) (n - 8)" by (auto simp: bit_simps dest: bit_imp_le_length)
      from Cons.IH [OF this] show ?thesis by simp
    qed simp
  qed simp
  show ?thesis
  proof (rule bit_word_eqI)
    fix n
    have "bit (drop_bit 8 (of_le (b # bs) :: 'a word)) n \<longleftrightarrow> 8 + n < LENGTH('a) \<and> bit (of_le bs :: 'a word) n"
      by (auto simp: bit_simps dest: bit_imp_le_length)
    with assms top [of bs n] show "bit (drop_bit 8 (of_le (b # bs) :: 'a word)) n = bit (of_le bs :: 'a word) n"
      by auto
  qed
qed

lemma le_bytes_of_le:
  "8 * length bs \<le> LENGTH('a::len) \<Longrightarrow> le_bytes (length bs) (of_le bs :: 'a word) = bs"
proof (induction bs)
  case (Cons b bs)
  have "le_bytes (length (b # bs)) (of_le (b # bs) :: 'a word) =
      ucast (of_le (b # bs) :: 'a word) # le_bytes (length bs) (drop_bit 8 (of_le (b # bs) :: 'a word))"
    by (simp del: of_le.simps)
  also have "\<dots> = b # bs" using Cons by (simp only: drop_of_le [OF Cons.prems], simp add: ucast_of_le del: of_le.simps)
  finally show ?case .
qed simp

lemma le_bytes_htonl: "le_bytes 4 (htonl x) = rev (le_bytes 4 x)"
  using le_bytes_of_le [of "rev (le_bytes 4 x)", where 'a = 32] by (simp add: htonl_def)

lemma ntohl_htonl [simp]: "ntohl (htonl x) = x"
  by (simp add: ntohl_def le_bytes_htonl of_le_le_bytes take_bit_word_eq_self)

lemma of_le_whole [simp]: "of_le (le_bytes 4 x) = (x :: u32)" "of_le (le_bytes 8 y) = (y :: u64)"
  by (simp_all add: of_le_le_bytes take_bit_word_eq_self)

lemma ucast_low: "ucast (push_bit 32 (ucast (a :: u32)) OR ucast (b :: u32) :: u64) = b"
  by (rule bit_word_eqI) (auto simp: bit_simps)

lemma ucast_high: "ucast (drop_bit 32 (push_bit 32 (ucast (a :: u32)) OR ucast (b :: u32) :: u64)) = a"
  by (rule bit_word_eqI) (auto simp: bit_simps dest: bit_imp_le_length)

lemma join_halves: "push_bit 32 (ucast (ucast (drop_bit 32 x) :: u32)) OR ucast (ucast x :: u32) = (x :: u64)"
  by (rule bit_word_eqI) (auto simp: bit_simps)

lemma network_to_host64_inverse: "network_to_host64 (host_to_network64 x) = x"
  unfolding network_to_host64_def host_to_network64_def Let_def
  by (simp only: ucast_low ucast_high ntohl_htonl join_halves)

text \<open>On the wire a 64-bit value is its eight bytes, the most significant one first.\<close>

lemma le_bytes_append:
  "le_bytes (m + n) x = le_bytes m x @ le_bytes n (drop_bit (8 * m) (x :: 'a::len word))"
proof (induction m arbitrary: x)
  case (Suc m)
  then show ?case by (simp add: add.commute)
qed simp

lemma le_bytes_low: "8 * n \<le> 32 \<Longrightarrow> le_bytes n (x :: u64) = le_bytes n (ucast x :: u32)"
proof (induction n arbitrary: x)
  case (Suc n)
  have "ucast x = (ucast (ucast x :: u32) :: u8)" by (rule bit_word_eqI) (auto simp: bit_simps)
  moreover have "le_bytes n (drop_bit 8 x) = le_bytes n (drop_bit 8 (ucast x :: u32))"
  proof -
    have "le_bytes n y = le_bytes n z" if "\<And>i. i < 8 * n \<Longrightarrow> bit y i = bit z i" for y :: u64 and z :: u32
      using that
    proof (induction n arbitrary: y z)
      case (Suc n)
      have "ucast y = (ucast z :: u8)" using Suc.prems by (intro bit_word_eqI) (auto simp: bit_simps)
      moreover have "le_bytes n (drop_bit 8 y) = le_bytes n (drop_bit 8 z)"
        using Suc.prems by (intro Suc.IH) (auto simp: bit_simps)
      ultimately show ?case by simp
    qed simp
    then show ?thesis using Suc.prems by (auto simp: bit_simps)
  qed
  ultimately show ?case by simp
qed simp

lemma le_bytes_host_to_network64: "le_bytes 8 (host_to_network64 x) = rev (le_bytes 8 x)"
proof -
  let ?h = "htonl (ucast (drop_bit 32 x))" and ?l = "htonl (ucast x)"
  let ?y = "push_bit 32 (ucast ?l) OR ucast ?h :: u64"
  have "le_bytes 8 ?y = le_bytes 4 (ucast ?y :: u32) @ le_bytes 4 (ucast (drop_bit 32 ?y) :: u32)"
    using le_bytes_append [of 4 4 ?y] le_bytes_low [of 4 ?y] le_bytes_low [of 4 "drop_bit 32 ?y"] by simp
  also have "\<dots> = le_bytes 4 ?h @ le_bytes 4 ?l" unfolding ucast_low ucast_high ..
  also have "\<dots> = rev (le_bytes 4 (ucast x :: u32) @ le_bytes 4 (ucast (drop_bit 32 x) :: u32))"
    by (simp add: le_bytes_htonl)
  also have "\<dots> = rev (le_bytes 8 x)"
    using le_bytes_append [of 4 4 x] le_bytes_low [of 4 x] le_bytes_low [of 4 "drop_bit 32 x"] by simp
  finally show ?thesis by (simp add: host_to_network64_def)
qed

lemma of_char_less: "(of_char c :: nat) < 256"
  by (cases c) (simp add: horner_sum_simps of_bool_def)

lemma char_of_byte_of_char [simp]: "char_of_byte (byte_of_char c) = c"
  by (simp add: char_of_byte_def byte_of_char_def unat_of_nat of_char_less)

section \<open>Properties\<close>

text \<open>
  The 64-bit conversions of the two sides of the protocol fit together: what
  \<open>host_to_network64\<close> stores has its eight bytes in network order, most significant byte first,
  and \<open>network_to_host64\<close> restores the value.
\<close>

theorem network_order64:
  "le_bytes 8 (host_to_network64 x) = rev (le_bytes 8 x) \<and> network_to_host64 (host_to_network64 x) = x"
  by (simp add: le_bytes_host_to_network64 network_to_host64_inverse)

end
