(* ===== verification/Receiver.thy ===== *)
theory Receiver
  imports Wire
begin

text \<open>
  The receiving side of the protocol, which exists twice: \<open>recv_all\<close> and
  \<open>deserialize_warning\<close> of \<open>CentralPropagator/cp_listener.c\<close> and of
  \<open>DataDestination/data_destination.c\<close>.  A connection delivers its bytes in chunks of any
  size, as TCP does, and then reports that the peer closed it or an error.  The lemmas show
  that the chunking does not matter, that a message is read back as it was sent, and that no
  input makes the reader leak or write outside its buffers.
\<close>

section \<open>A connection and the read loop\<close>

datatype recv_end = Closed | Failed

record conn =
  chunks :: "u8 list list"
  fin :: recv_end

text \<open>\<open>recv(s, buf, n, 0)\<close>: its return value, the bytes it stored, the connection it leaves.\<close>

definition recv :: "nat \<Rightarrow> conn \<Rightarrow> int \<times> u8 list \<times> conn" where
  "recv n c =
     (case chunks c of
        [] \<Rightarrow> (case fin c of Closed \<Rightarrow> 0 | Failed \<Rightarrow> - 1, [], c)
      | b # bs \<Rightarrow>
          (if length b \<le> n then (int (length b), b, c\<lparr>chunks := bs\<rparr>)
           else (int n, take n b, c\<lparr>chunks := drop n b # bs\<rparr>)))"

lemma recv_positive: "recv n c = (r, bs, c') \<Longrightarrow> 0 < r \<Longrightarrow> r = int (length bs) \<and> length bs \<le> n"
  by (auto simp: recv_def split: list.splits recv_end.splits if_splits)

function recv_loop :: "int \<Rightarrow> u8 list \<Rightarrow> conn \<Rightarrow> int \<times> u8 list \<times> conn" where
  "recv_loop n buf c =
     (if int (length buf) < n then
        (case recv (nat (n - int (length buf))) c of
           (r, bs, c') \<Rightarrow> if r \<le> 0 then (r, buf, c') else recv_loop n (buf @ bs) c')
      else (int (length buf), buf, c))"
  by pat_completeness auto
termination
  by (relation "measure (\<lambda>(n, buf, c). nat (n - int (length buf)))") (auto dest: recv_positive [OF sym])

declare recv_loop.simps [simp del]

definition recv_all :: "int \<Rightarrow> conn \<Rightarrow> int \<times> u8 list \<times> conn" where
  "recv_all n c = recv_loop n [] c"

section \<open>Reading a message\<close>

text \<open>
  A length and that many bytes, stored in a fresh block of \<open>len + 1\<close> bytes (computed with 32
  bits) and ended with a NUL; writing the NUL outside the block is undefined behaviour.
\<close>

definition recv_text :: "conn \<Rightarrow> os \<Rightarrow> hstr option \<times> conn \<times> os" where
  "recv_text c s =
     (case recv_all 4 c of
        (r, b, c) \<Rightarrow>
          if r \<noteq> 4 then (None, c, s)
          else
            (let len = ntohl (of_le b)
             in (case malloc s of
                   (None, s) \<Rightarrow> (None, c, s)
                 | (Some blk, s) \<Rightarrow>
                     (case recv_all (sint len) c of
                        (r, bs, c) \<Rightarrow>
                          if r \<noteq> sint len then (None, c, free_blk blk s)
                          else (Some \<lparr>chars = map char_of_byte bs, sblk = blk\<rparr>, c,
                                if unat len < unat (len + 1) then s else s\<lparr>ub := True\<rparr>)))))"

definition deserialize_warning :: "conn \<Rightarrow> os \<Rightarrow> Warning option \<times> conn \<times> os" where
  "deserialize_warning c s =
     (case recv_text c s of
        (None, c, s) \<Rightarrow> (None, c, s)
      | (Some cty, c, s) \<Rightarrow>
          (case recv_text c s of
             (None, c, s) \<Rightarrow> (None, c, free_str cty s)
           | (Some dest, c, s) \<Rightarrow>
               (case recv_all 4 c of
                  (r, tb, c) \<Rightarrow>
                    if r \<noteq> 4 then (None, c, free_str dest (free_str cty s))
                    else
                      (case recv_all 8 c of
                         (r, vb, c) \<Rightarrow>
                           if r \<noteq> 8 then (None, c, free_str dest (free_str cty s))
                           else
                             (case recv_all 8 c of
                                (r, sb, c) \<Rightarrow>
                                  if r \<noteq> 8 then (None, c, free_str dest (free_str cty s))
                                  else
                                    (case warning_create (c_str (chars cty)) (ntohl (of_le tb))
                                            (network_to_host64 (of_le vb)) (network_to_host64 (of_le sb))
                                            (c_str (chars dest)) s of
                                       (w, s) \<Rightarrow> (w, c, free_str dest (free_str cty s))))))))"

text \<open>The copy of the data destination.\<close>

definition dd_recv_all :: "int \<Rightarrow> conn \<Rightarrow> int \<times> u8 list \<times> conn" where
  "dd_recv_all n c = recv_loop n [] c"

definition dd_recv_text :: "conn \<Rightarrow> os \<Rightarrow> hstr option \<times> conn \<times> os" where
  "dd_recv_text c s =
     (case dd_recv_all 4 c of
        (r, b, c) \<Rightarrow>
          if r \<noteq> 4 then (None, c, s)
          else
            (let len = ntohl (of_le b)
             in (case malloc s of
                   (None, s) \<Rightarrow> (None, c, s)
                 | (Some blk, s) \<Rightarrow>
                     (case dd_recv_all (sint len) c of
                        (r, bs, c) \<Rightarrow>
                          if r \<noteq> sint len then (None, c, free_blk blk s)
                          else (Some \<lparr>chars = map char_of_byte bs, sblk = blk\<rparr>, c,
                                if unat len < unat (len + 1) then s else s\<lparr>ub := True\<rparr>)))))"

definition dd_deserialize_warning :: "conn \<Rightarrow> os \<Rightarrow> Warning option \<times> conn \<times> os" where
  "dd_deserialize_warning c s =
     (case dd_recv_text c s of
        (None, c, s) \<Rightarrow> (None, c, s)
      | (Some cty, c, s) \<Rightarrow>
          (case dd_recv_text c s of
             (None, c, s) \<Rightarrow> (None, c, free_str cty s)
           | (Some dest, c, s) \<Rightarrow>
               (case dd_recv_all 4 c of
                  (r, tb, c) \<Rightarrow>
                    if r \<noteq> 4 then (None, c, free_str dest (free_str cty s))
                    else
                      (case dd_recv_all 8 c of
                         (r, vb, c) \<Rightarrow>
                           if r \<noteq> 8 then (None, c, free_str dest (free_str cty s))
                           else
                             (case dd_recv_all 8 c of
                                (r, sb, c) \<Rightarrow>
                                  if r \<noteq> 8 then (None, c, free_str dest (free_str cty s))
                                  else
                                    (case warning_create (c_str (chars cty)) (ntohl (of_le tb))
                                            (network_to_host64 (of_le vb)) (network_to_host64 (of_le sb))
                                            (c_str (chars dest)) s of
                                       (w, s) \<Rightarrow> (w, c, free_str dest (free_str cty s))))))))"

section \<open>The bytes still to come\<close>

definition stream :: "conn \<Rightarrow> u8 list" where
  "stream c = concat (chunks c)"

definition conn_ok :: "conn \<Rightarrow> bool" where
  "conn_ok c \<longleftrightarrow> [] \<notin> set (chunks c)"

lemma recv_stream:
  assumes "conn_ok c" "0 < n" "recv n c = (r, bs, c')"
  shows "conn_ok c' \<and> fin c' = fin c \<and> stream c = bs @ stream c' \<and> (r \<le> 0 \<longleftrightarrow> stream c = []) \<and>
    (0 < r \<longrightarrow> r = int (length bs) \<and> length bs \<le> n)"
  using assms
  by (auto simp: recv_def conn_ok_def stream_def split: list.splits recv_end.splits if_splits)

lemma recv_loop_stream:
  assumes "conn_ok c" "int (length buf) \<le> n"
  shows "\<exists>r c'. recv_loop n buf c =
      (r, buf @ take (nat n - length buf) (stream c), c') \<and> conn_ok c' \<and> fin c' = fin c \<and>
      stream c' = drop (nat n - length buf) (stream c) \<and>
      (if n \<le> int (length buf + length (stream c)) then r = n else r \<le> 0)"
  using assms
proof (induction n buf c rule: recv_loop.induct)
  case (1 n buf c)
  show ?case
  proof (cases "int (length buf) < n")
    case False
    with "1.prems" show ?thesis by (auto simp: recv_loop.simps [of n buf c])
  next
    case True
    let ?k = "nat (n - int (length buf))"
    obtain r bs c' where r: "recv ?k c = (r, bs, c')" by (cases "recv ?k c")
    from True have k: "0 < ?k" "?k = nat n - length buf" by auto
    note v = recv_stream [OF "1.prems"(1) k(1) r]
    show ?thesis
    proof (cases "r \<le> 0")
      case neg: True
      with v have "stream c = []" "stream c' = []" by auto
      with neg True r v show ?thesis by (auto simp: recv_loop.simps [of n buf c])
    next
      case pos: False
      then have len: "length bs \<le> ?k" using v by auto
      with True have "int (length (buf @ bs)) \<le> n" by simp
      from "1.IH" [OF True r [symmetric] refl pos] v this pos obtain r2 c2
        where w: "recv_loop n (buf @ bs) c' = (r2, (buf @ bs) @ take (nat n - length (buf @ bs)) (stream c'), c2)"
          "conn_ok c2" "fin c2 = fin c'" "stream c2 = drop (nat n - length (buf @ bs)) (stream c')"
          "if n \<le> int (length (buf @ bs) + length (stream c')) then r2 = n else r2 \<le> 0" by auto
      have "recv_loop n buf c = recv_loop n (buf @ bs) c'" using True r pos by (simp add: recv_loop.simps [of n buf c])
      with w v len k show ?thesis by (auto simp: algebra_simps)
    qed
  qed
qed

lemma recv_all_enough:
  assumes "conn_ok c" "0 \<le> n" "nat n \<le> length (stream c)"
  shows "\<exists>c'. recv_all n c = (n, take (nat n) (stream c), c') \<and> conn_ok c' \<and> fin c' = fin c \<and>
    stream c' = drop (nat n) (stream c)"
  using recv_loop_stream [OF assms(1), of "[]" n] assms(2,3) by (auto simp: recv_all_def split: if_splits)

lemma recv_all_negative: "n < 0 \<Longrightarrow> recv_all n c = (0, [], c)"
  by (simp add: recv_all_def recv_loop.simps)

lemma recv_all_full:
  assumes "conn_ok c" "recv_all n c = (n, bs, c')"
  shows "0 \<le> n \<and> conn_ok c' \<and> int (length bs) = n \<and> stream c = bs @ stream c'"
proof -
  from assms(2) have n: "0 \<le> n" using recv_all_negative [of n c] by (cases "0 \<le> n") auto
  from recv_loop_stream [OF assms(1), of "[]" n] n assms(2)
  have "bs = take (nat n) (stream c)" "conn_ok c'" "stream c' = drop (nat n) (stream c)"
    "n \<le> int (length (stream c)) \<or> n = 0" by (auto simp: recv_all_def split: if_splits)
  with n show ?thesis by auto
qed

lemma recv_all_ok: "conn_ok c \<Longrightarrow> recv_all n c = (r, bs, c') \<Longrightarrow> conn_ok c'"
  using recv_loop_stream [of c "[]" n] recv_all_negative [of n c] by (cases "0 \<le> n") (auto simp: recv_all_def)

lemma u32_suc_bound: "0 \<le> sint (len :: u32) \<Longrightarrow> unat len < unat (len + 1)"
proof -
  assume "0 \<le> sint len"
  moreover have "sint len < 2 ^ 31" using sint_lt [of len] by simp
  ultimately have "uint len = sint len" "uint len < 2 ^ 31" by (simp_all add: uint_sint take_bit_eq_mod)
  then have "unat len < 2 ^ 31" by (simp add: unat_eq_nat_uint nat_less_iff)
  then show ?thesis by (simp add: unat_word_ariths)
qed

text \<open>Whatever the peer sends, reading a text keeps the heap in order.\<close>

lemma recv_text_safe:
  assumes "os_ok s" "recv_text c s = (r, c', s')"
  shows "os_ok s' \<and> socks s' = socks s \<and>
    (case r of None \<Rightarrow> live s' = live s
     | Some h \<Rightarrow> live s' = insert (sblk h) (live s) \<and> sblk h \<notin> live s)"
proof -
  obtain r1 b1 c1 where a: "recv_all 4 c = (r1, b1, c1)" by (cases "recv_all 4 c")
  let ?len = "ntohl (of_le b1)"
  obtain q s1 where m: "malloc s = (q, s1)" by force
  obtain r2 b2 c2 where a2: "recv_all (sint ?len) c1 = (r2, b2, c2)" by (cases "recv_all (sint ?len) c1")
  note ok = malloc_ok [OF assms(1) m]
  consider "r1 \<noteq> 4" | "r1 = 4" "q = None" | blk where "r1 = 4" "q = Some blk" by (cases q) auto
  then show ?thesis
  proof cases
    case 1
    with assms a show ?thesis by (simp add: recv_text_def)
  next
    case 2
    with assms(2) a m have "r = None" "s' = s1" by (auto simp: recv_text_def Let_def)
    with malloc_None(1,2) [OF m [unfolded 2(2)]] ok show ?thesis by simp
  next
    case (3 blk)
    note False = 3(1) and q = 3(2)
    note ms = malloc_Some(1,2) [OF m [unfolded q]] malloc_fresh [OF assms(1) m [unfolded q]]
    show ?thesis
    proof (cases "r2 = sint ?len")
      case True
      then have "0 \<le> sint ?len" using recv_all_negative [of "sint ?len" c1] a2 by (cases "0 \<le> sint ?len") auto
      note u32_suc_bound [OF this]
      with assms(2) False a m q a2 True ms ok show ?thesis by (auto simp: recv_text_def Let_def)
    next
      case neq: False
      with assms(2) False a m q a2 have "r = None" "s' = free_blk blk s1" by (auto simp: recv_text_def Let_def)
      with ms ok show ?thesis by (auto simp: os_simps release_ok)
    qed
  qed
qed

lemma two_texts_released:
  assumes "os_ok s" "live s1 = insert (sblk a) (live s)" "sblk a \<notin> live s"
    and "live s2 = insert (sblk b) (live s1)" "sblk b \<notin> live s1" "os_ok s3" "live s3 = live s2 \<union> X"
    and "live s2 \<inter> X = {}" "socks s3 = socks s"
  shows "free_str b (free_str a s3) = release {sblk a, sblk b} {} s3 \<and>
    live (free_str b (free_str a s3)) = live s \<union> X \<and> os_ok (free_str b (free_str a s3)) \<and>
    socks (free_str b (free_str a s3)) = socks s"
  using assms by (auto simp: os_simps release_ok)

lemma deserialize_safe:
  assumes "os_ok s" "deserialize_warning c s = (r, c', s')"
  shows "os_ok s' \<and> socks s' = socks s \<and>
    (case r of None \<Rightarrow> live s' = live s
     | Some w \<Rightarrow> live s' = live s \<union> set (warning_blks w) \<and> live s \<inter> set (warning_blks w) = {} \<and>
         distinct (warning_blks w) \<and> is_cstr (chars (city w)) \<and> is_cstr (chars (dest_node w)))"
proof -
  obtain ra c1 s1 where a: "recv_text c s = (ra, c1, s1)" by (cases "recv_text c s")
  note A = recv_text_safe [OF assms(1) a]
  show ?thesis
  proof (cases ra)
    case None
    with assms(2) a A show ?thesis by (simp add: deserialize_warning_def)
  next
    case (Some cty)
    with A have A': "os_ok s1" "live s1 = insert (sblk cty) (live s)" "sblk cty \<notin> live s" "socks s1 = socks s" by auto
    obtain rb c2 s2 where b: "recv_text c1 s1 = (rb, c2, s2)" by (cases "recv_text c1 s1")
    note B = recv_text_safe [OF A'(1) b]
    show ?thesis
    proof (cases rb)
      case None
      with assms(2) a b Some have "r = None" "s' = free_str cty s2" by (auto simp: deserialize_warning_def)
      with B None A' show ?thesis by (auto simp: os_simps release_ok)
    next
      case (Some dest)
      with B have B': "os_ok s2" "live s2 = insert (sblk dest) (live s1)" "sblk dest \<notin> live s1" "socks s2 = socks s"
        using A' by auto
      have fail: ?thesis if "r = None" "s' = free_str dest (free_str cty s2)"
        using two_texts_released [OF assms(1) A'(2,3) B'(2,3) B'(1), of "{}"] B'(4) that by auto
      obtain r3 tb c3 where t: "recv_all 4 c2 = (r3, tb, c3)" by (cases "recv_all 4 c2")
      obtain r4 vb c4 where v: "recv_all 8 c3 = (r4, vb, c4)" by (cases "recv_all 8 c3")
      obtain r5 sb c5 where u: "recv_all 8 c4 = (r5, sb, c5)" by (cases "recv_all 8 c4")
      show ?thesis
      proof (cases "r3 = 4 \<and> r4 = 8 \<and> r5 = 8")
        case False
        with assms(2) a b t v u \<open>ra = Some cty\<close> Some fail show ?thesis
          by (auto simp: deserialize_warning_def split: if_splits)
      next
        case True
        obtain w s3 where w: "warning_create (c_str (chars cty)) (ntohl (of_le tb)) (network_to_host64 (of_le vb))
            (network_to_host64 (of_le sb)) (c_str (chars dest)) s2 = (w, s3)" by force
        with True assms(2) a b t v u \<open>ra = Some cty\<close> Some
        have res: "r = w" "s' = free_str dest (free_str cty s3)" by (auto simp: deserialize_warning_def)
        show ?thesis
        proof (cases w)
          case None
          with warning_create_None [OF B'(1)] w have "os_ok s3" "live s3 = live s2 \<union> {}" "socks s3 = socks s"
            using B'(4) by auto
          with two_texts_released [OF assms(1) A'(2,3) B'(2,3), of s3 "{}"] res None show ?thesis by auto
        next
          case (Some x)
          from warning_create_Some [OF B'(1)] w Some
          have x: "os_ok s3" "live s3 = live s2 \<union> set (warning_blks x)" "live s2 \<inter> set (warning_blks x) = {}"
            "socks s3 = socks s" "distinct (warning_blks x)" "is_cstr (chars (city x))" "is_cstr (chars (dest_node x))"
            using B'(4) by (auto simp: view_def)
          with two_texts_released [OF assms(1) A'(2,3) B'(2,3) x(1-4)] res Some A' B' show ?thesis by auto
        qed
      qed
    qed
  qed
qed

section \<open>What was sent is read back\<close>

lemma recv_all_prefix:
  assumes "conn_ok c" "stream c = bs @ rest" "n = int (length bs)"
  shows "\<exists>c'. recv_all n c = (n, bs, c') \<and> conn_ok c' \<and> stream c' = rest"
  using recv_all_enough [OF assms(1), of n] assms(2,3) by auto

lemma len32_small:
  assumes "length str < 2 ^ 31"
  shows "unat (len32 str) = length str" "sint (len32 str) = int (length str)"
proof -
  show u: "unat (len32 str) = length str" using assms by (simp add: len32_def unat_of_nat)
  then have "uint (len32 str) = int (length str)" by (metis uint_nat)
  then show "sint (len32 str) = int (length str)"
    using assms by (simp add: sint_uint signed_take_bit_int_eq_self)
qed

lemma recv_text_encoded:
  assumes "conn_ok c" "stream c = le_bytes 4 (htonl (len32 str)) @ map byte_of_char str @ rest"
    and "length str < 2 ^ 31" "True \<notin> set (oom s)"
  shows "\<exists>h c' s'. recv_text c s = (Some h, c', s') \<and> chars h = str \<and> conn_ok c' \<and> stream c' = rest \<and>
    True \<notin> set (oom s')"
proof -
  from recv_all_prefix [OF assms(1,2), of 4] obtain c1
    where a: "recv_all 4 c = (4, le_bytes 4 (htonl (len32 str)), c1)" "conn_ok c1" "stream c1 = map byte_of_char str @ rest"
    by auto
  from recv_all_prefix [OF a(2,3), of "int (length str)"] obtain c2
    where b: "recv_all (int (length str)) c1 = (int (length str), map byte_of_char str, c2)" "conn_ok c2" "stream c2 = rest"
    by auto
  from malloc_succeeds [OF assms(4)] obtain blk s1 where m: "malloc s = (Some blk, s1)" "True \<notin> set (oom s1)" by blast
  have "unat (len32 str) < unat (len32 str + 1)" using len32_small(2) [OF assms(3)] by (intro u32_suc_bound) simp
  with a b m assms(3) show ?thesis
    by (simp add: recv_text_def len32_small comp_def)
qed

lemma warning_create_succeeds:
  assumes "True \<notin> set (oom s)"
  shows "\<exists>w s'. warning_create cty t v ts dest s = (Some w, s') \<and> True \<notin> set (oom s')"
proof -
  from malloc_succeeds [OF assms] obtain b s1 where m: "malloc s = (Some b, s1)" "True \<notin> set (oom s1)" by blast
  from strdup_succeeds [OF m(2), of cty] obtain c s2 where c: "strdup cty s1 = (Some c, s2)" "True \<notin> set (oom s2)" by blast
  from strdup_succeeds [OF c(2), of dest] obtain d s3 where d: "strdup dest s2 = (Some d, s3)" "True \<notin> set (oom s3)" by blast
  from m c d show ?thesis by (simp add: warning_create_def)
qed

lemma deserialize_encode:
  assumes "conn_ok c" "stream c = encode w @ rest" "os_ok s" "True \<notin> set (oom s)"
    and "length (chars (city w)) < 2 ^ 31" "length (chars (dest_node w)) < 2 ^ 31"
    and "is_cstr (chars (city w))" "is_cstr (chars (dest_node w))"
  shows "\<exists>w' c' s'. deserialize_warning c s = (Some w', c', s') \<and> view w' = view w \<and>
    conn_ok c' \<and> stream c' = rest"
proof -
  let ?T = "le_bytes 4 (htonl (wtype w))" and ?V = "le_bytes 8 (host_to_network64 (wvalue w))"
    and ?S = "le_bytes 8 (host_to_network64 (timestamp w))"
  let ?D = "le_bytes 4 (htonl (len32 (chars (dest_node w)))) @ map byte_of_char (chars (dest_node w))"
  have e: "stream c = le_bytes 4 (htonl (len32 (chars (city w)))) @ map byte_of_char (chars (city w)) @ ?D @ ?T @ ?V @ ?S @ rest"
    using assms(2,5,6) by (simp add: encode_def len32_small)
  from recv_text_encoded [OF assms(1) e assms(5,4)] obtain cty c1 s1
    where a: "recv_text c s = (Some cty, c1, s1)" "chars cty = chars (city w)" "conn_ok c1" "stream c1 = ?D @ ?T @ ?V @ ?S @ rest"
      "True \<notin> set (oom s1)" by blast
  from recv_text_encoded [OF a(3) _ assms(6) a(5), of "?T @ ?V @ ?S @ rest"] a(4) obtain dest c2 s2
    where b: "recv_text c1 s1 = (Some dest, c2, s2)" "chars dest = chars (dest_node w)" "conn_ok c2"
      "stream c2 = ?T @ ?V @ ?S @ rest" "True \<notin> set (oom s2)" by auto
  from recv_all_prefix [OF b(3,4), of 4] obtain c3
    where t: "recv_all 4 c2 = (4, ?T, c3)" "conn_ok c3" "stream c3 = ?V @ ?S @ rest" by auto
  from recv_all_prefix [OF t(2,3), of 8] obtain c4
    where v: "recv_all 8 c3 = (8, ?V, c4)" "conn_ok c4" "stream c4 = ?S @ rest" by auto
  from recv_all_prefix [OF v(2,3), of 8] obtain c5
    where u: "recv_all 8 c4 = (8, ?S, c5)" "conn_ok c5" "stream c5 = rest" by auto
  from warning_create_succeeds [OF b(5)] obtain w' s3
    where w: "warning_create (chars (city w)) (wtype w) (wvalue w) (timestamp w) (chars (dest_node w)) s2 = (Some w', s3)"
    by blast
  have ok2: "os_ok s2" using recv_text_safe [OF assms(3) a(1)] recv_text_safe [of s1 c1 _ c2 s2] b(1) by auto
  have "view w' = view w" using warning_create_Some [OF ok2 w] by (simp add: view_def)
  with a(1,2) b(1,2) t(1) v(1) u w assms(7,8) show ?thesis
    by (simp add: deserialize_warning_def network_to_host64_inverse)
qed

section \<open>The two readers agree\<close>

lemma dd_recv_all_eq: "dd_recv_all = recv_all"
  by (intro ext) (simp add: dd_recv_all_def recv_all_def)

lemma dd_deserialize_eq: "dd_deserialize_warning = deserialize_warning"
proof -
  have "dd_recv_text = recv_text" by (intro ext) (simp only: dd_recv_text_def recv_text_def dd_recv_all_eq)
  then show ?thesis by (intro ext) (simp only: dd_deserialize_warning_def deserialize_warning_def dd_recv_all_eq)
qed

section \<open>How the bytes were cut into chunks does not matter\<close>

definition same_data :: "conn \<Rightarrow> conn \<Rightarrow> bool" where
  "same_data c c' \<longleftrightarrow> conn_ok c \<and> conn_ok c' \<and> stream c = stream c'"

lemma recv_all_same:
  assumes "same_data c c'"
  shows "\<exists>r r' bs d d'. recv_all n c = (r, bs, d) \<and> recv_all n c' = (r', bs, d') \<and> same_data d d' \<and>
    (r = n \<longleftrightarrow> r' = n)"
proof (cases "0 \<le> n")
  case False
  with assms show ?thesis by (simp add: recv_all_negative)
next
  case True
  from assms have c: "conn_ok c" "conn_ok c'" "stream c' = stream c" by (auto simp: same_data_def)
  from recv_loop_stream [OF c(1), of "[]" n] recv_loop_stream [OF c(2), of "[]" n] True c(3)
  show ?thesis by (auto simp: recv_all_def same_data_def split: if_splits)
qed

lemma recv_text_same:
  assumes "same_data c c'"
  shows "\<exists>h d d' s'. recv_text c s = (h, d, s') \<and> recv_text c' s = (h, d', s') \<and> same_data d d'"
proof -
  from recv_all_same [OF assms, of 4] obtain r r' bs d d'
    where a: "recv_all 4 c = (r, bs, d)" "recv_all 4 c' = (r', bs, d')" "same_data d d'" "r = 4 \<longleftrightarrow> r' = 4" by blast
  from recv_all_same [OF a(3), of "sint (ntohl (of_le bs))"] obtain q q' ts e e'
    where b: "recv_all (sint (ntohl (of_le bs))) d = (q, ts, e)" "recv_all (sint (ntohl (of_le bs))) d' = (q', ts, e')"
      "same_data e e'" "q = sint (ntohl (of_le bs)) \<longleftrightarrow> q' = sint (ntohl (of_le bs))" by blast
  show ?thesis using a b by (auto simp: recv_text_def Let_def split: prod.splits option.splits)
qed

lemma deserialize_same:
  assumes "same_data c c'"
  shows "\<exists>w d d' s'. deserialize_warning c s = (w, d, s') \<and> deserialize_warning c' s = (w, d', s') \<and> same_data d d'"
proof -
  from recv_text_same [OF assms, of s] obtain h c1 c1' s1
    where a: "recv_text c s = (h, c1, s1)" "recv_text c' s = (h, c1', s1)" "same_data c1 c1'" by blast
  from recv_text_same [OF a(3), of s1] obtain g c2 c2' s2
    where b: "recv_text c1 s1 = (g, c2, s2)" "recv_text c1' s1 = (g, c2', s2)" "same_data c2 c2'" by blast
  from recv_all_same [OF b(3), of 4] obtain r r' tb c3 c3'
    where t: "recv_all 4 c2 = (r, tb, c3)" "recv_all 4 c2' = (r', tb, c3')" "same_data c3 c3'" "r = 4 \<longleftrightarrow> r' = 4" by blast
  from recv_all_same [OF t(3), of 8] obtain q q' vb c4 c4'
    where v: "recv_all 8 c3 = (q, vb, c4)" "recv_all 8 c3' = (q', vb, c4')" "same_data c4 c4'" "q = 8 \<longleftrightarrow> q' = 8" by blast
  from recv_all_same [OF v(3), of 8] obtain p p' sb c5 c5'
    where u: "recv_all 8 c4 = (p, sb, c5)" "recv_all 8 c4' = (p', sb, c5')" "same_data c5 c5'" "p = 8 \<longleftrightarrow> p' = 8" by blast
  show ?thesis
  proof (cases "h = None \<or> g = None \<or> r \<noteq> 4 \<or> q \<noteq> 8 \<or> p \<noteq> 8")
    case True
    then show ?thesis using a b t v u by (cases h; cases g) (auto simp: deserialize_warning_def)
  next
    case False
    then show ?thesis using a b t v u by (auto simp: deserialize_warning_def split: prod.splits)
  qed
qed

section \<open>Progress, and messages that break off\<close>

text \<open>What is read is what disappears from the stream, so a message that is read makes it shorter.\<close>

lemma recv_split: "recv n c = (r, bs, c') \<Longrightarrow> stream c = bs @ stream c'"
  by (auto simp: recv_def stream_def split: list.splits recv_end.splits if_splits)

lemma recv_loop_split:
  "recv_loop n buf c = (r, buf', c') \<Longrightarrow> \<exists>x. buf' = buf @ x \<and> stream c = x @ stream c' \<and> (0 < r \<longrightarrow> r = int (length buf'))"
proof (induction n buf c rule: recv_loop.induct)
  case (1 n buf c)
  show ?case
  proof (cases "int (length buf) < n")
    case True
    obtain q bs d where q: "recv (nat (n - int (length buf))) c = (q, bs, d)" by (cases "recv (nat (n - int (length buf))) c")
    show ?thesis
    proof (cases "q \<le> 0")
      case False
      with 1(2) True q have "recv_loop n (buf @ bs) d = (r, buf', c')" by (subst (asm) recv_loop.simps) simp
      from 1(1) [OF True q [symmetric] refl False this] recv_split [OF q] show ?thesis by auto
    next
      case neg: True
      then have "bs = []" using q by (auto simp: recv_def split: list.splits recv_end.splits if_splits)
      with 1(2) True q neg recv_split [OF q] show ?thesis by (subst (asm) recv_loop.simps) auto
    qed
  next
    case False
    with 1(2) show ?thesis by (subst (asm) recv_loop.simps) auto
  qed
qed

lemma recv_all_split:
  assumes "recv_all n c = (n, bs, c')" "0 < n"
  shows "stream c = bs @ stream c' \<and> length bs = nat n"
  using recv_loop_split [of n "[]" c n bs c'] assms by (auto simp: recv_all_def)

lemma recv_all_shorter: "recv_all n c = (r, bs, c') \<Longrightarrow> length (stream c') \<le> length (stream c)"
  using recv_loop_split [of n "[]" c r bs c'] by (auto simp: recv_all_def)

lemma recv_text_shorter:
  assumes "recv_text c s = (Some h, c', s')"
  shows "length (stream c') < length (stream c)"
proof -
  from assms obtain b c1 n bs where a: "recv_all 4 c = (4, b, c1)" "recv_all n c1 = (n, bs, c')"
    by (auto simp: recv_text_def Let_def split: prod.splits if_splits option.splits)
  from recv_all_split [OF a(1)] recv_all_shorter [OF a(2)] show ?thesis by simp
qed

lemma deserialize_shorter:
  assumes "deserialize_warning c s = (Some w, c', s')"
  shows "length (stream c') < length (stream c)"
  using assms by (auto simp: deserialize_warning_def split: prod.splits if_splits option.splits
      dest!: recv_text_shorter recv_all_shorter)

text \<open>Bytes that arrive later do not change what is read before.\<close>

definition extends :: "conn \<Rightarrow> u8 list \<Rightarrow> conn \<Rightarrow> bool" where
  "extends c z e \<longleftrightarrow> conn_ok c \<and> conn_ok e \<and> stream e = stream c @ z"

lemma recv_all_more:
  assumes "extends c z e" "recv_all n c = (n, bs, c')"
  shows "\<exists>e'. recv_all n e = (n, bs, e') \<and> extends c' z e'"
proof -
  from recv_all_full [of c n bs c'] assms have f: "conn_ok c'" "int (length bs) = n" "stream c = bs @ stream c'"
    by (auto simp: extends_def)
  then have "stream e = bs @ stream c' @ z" using assms(1) by (simp add: extends_def)
  from recv_all_prefix [OF _ this, of n] f assms(1) show ?thesis by (auto simp: extends_def)
qed

lemma recv_text_more:
  assumes "extends c z e" "recv_text c s = (Some h, c', s')"
  shows "\<exists>e'. recv_text e s = (Some h, e', s') \<and> extends c' z e'"
proof -
  from assms(2) obtain b c1 blk s1 bs where a: "recv_all 4 c = (4, b, c1)" "malloc s = (Some blk, s1)"
    "recv_all (sint (ntohl (of_le b))) c1 = (sint (ntohl (of_le b)), bs, c')"
    by (auto simp: recv_text_def Let_def split: prod.splits if_splits option.splits)
  from recv_all_more [OF assms(1) a(1)] obtain e1 where e1: "recv_all 4 e = (4, b, e1)" "extends c1 z e1" by blast
  from recv_all_more [OF e1(2) a(3)] obtain e2 where "recv_all (sint (ntohl (of_le b))) e1 = (sint (ntohl (of_le b)), bs, e2)"
    "extends c' z e2" by blast
  with assms(2) a e1 show ?thesis by (auto simp: recv_text_def Let_def)
qed

lemma deserialize_more:
  assumes "extends c z e" "deserialize_warning c s = (Some w, c', s')"
  shows "\<exists>e'. deserialize_warning e s = (Some w, e', s') \<and> extends c' z e'"
proof -
  from assms(2) obtain h1 c1 s1 h2 c2 s2 b3 c3 b4 c4 b5 where a: "recv_text c s = (Some h1, c1, s1)" "recv_text c1 s1 = (Some h2, c2, s2)"
    "recv_all 4 c2 = (4, b3, c3)" "recv_all 8 c3 = (8, b4, c4)" "recv_all 8 c4 = (8, b5, c')"
    by (auto simp: deserialize_warning_def split: prod.splits if_splits option.splits)
  from recv_text_more [OF assms(1) a(1)] obtain e1 where e1: "recv_text e s = (Some h1, e1, s1)" "extends c1 z e1" by blast
  from recv_text_more [OF e1(2) a(2)] obtain e2 where e2: "recv_text e1 s1 = (Some h2, e2, s2)" "extends c2 z e2" by blast
  from recv_all_more [OF e2(2) a(3)] obtain e3 where e3: "recv_all 4 e2 = (4, b3, e3)" "extends c3 z e3" by blast
  from recv_all_more [OF e3(2) a(4)] obtain e4 where e4: "recv_all 8 e3 = (8, b4, e4)" "extends c4 z e4" by blast
  from recv_all_more [OF e4(2) a(5)] obtain e5 where e5: "recv_all 8 e4 = (8, b5, e5)" "extends c' z e5" by blast
  from assms(2) a e1(1) e2(1) e3(1) e4(1) e5 show ?thesis by (auto simp: deserialize_warning_def split: prod.splits)
qed

text \<open>A message that broke off is not taken for a message.\<close>

lemma deserialize_broken:
  assumes "conn_ok c" "encode w = stream c @ z" "z \<noteq> []" "os_ok s" "True \<notin> set (oom s)"
    and "length (chars (city w)) < 2 ^ 31" "length (chars (dest_node w)) < 2 ^ 31"
    and "is_cstr (chars (city w))" "is_cstr (chars (dest_node w))"
  shows "\<exists>c' s'. deserialize_warning c s = (None, c', s')"
proof (cases "deserialize_warning c s")
  case (fields r c' s')
  show ?thesis
  proof (cases r)
    case (Some w')
    let ?e = "\<lparr>chunks = [encode w], fin = Closed\<rparr>"
    have n: "encode w \<noteq> []" using assms(2,3) by simp
    then have x: "extends c z ?e" "conn_ok ?e" "stream ?e = encode w @ []" using assms(1,2) by (auto simp: extends_def conn_ok_def stream_def)
    from deserialize_more [OF x(1)] fields Some obtain e' where "deserialize_warning ?e s = (Some w', e', s')" "extends c' z e'" by blast
    moreover from deserialize_encode [OF x(2,3) assms(4-9)] obtain w2 c2 s2 where "deserialize_warning ?e s = (Some w2, c2, s2)" "stream c2 = []" by blast
    ultimately show ?thesis using assms(3) by (auto simp: extends_def)
  qed (use fields in simp)
qed

lemma warning_create_oom: "warning_create cty t v ts dest s = (r, s') \<Longrightarrow> set (oom s') \<subseteq> set (oom s)"
  by (auto simp: warning_create_def strdup_def free_str_def free_blk_oom split: prod.splits option.splits dest!: malloc_oom) blast

lemma recv_text_oom: "recv_text c s = (r, c', s') \<Longrightarrow> set (oom s') \<subseteq> set (oom s)"
  by (auto simp: recv_text_def Let_def free_blk_oom split: prod.splits option.splits if_splits dest!: malloc_oom)

lemma deserialize_oom: "deserialize_warning c s = (r, c', s') \<Longrightarrow> set (oom s') \<subseteq> set (oom s)"
  by (auto simp: deserialize_warning_def free_str_def free_blk_oom split: prod.splits option.splits if_splits
      dest!: recv_text_oom warning_create_oom) blast

section \<open>Properties\<close>

text \<open>
  C1. Round trip of the protocol: from a connection whose bytes begin with an encoded warning,
  cut into chunks in any way, the reader returns a warning with the same city, type, value, time
  stamp and destination, consumes exactly the bytes of that message, and leaves only the three
  blocks of the new warning on the heap.
\<close>

theorem received_warning_is_sent:
  assumes "conn_ok c" "stream c = encode w @ rest" "os_ok s" "True \<notin> set (oom s)"
    and "length (chars (city w)) < 2 ^ 31" "length (chars (dest_node w)) < 2 ^ 31"
    and "is_cstr (chars (city w))" "is_cstr (chars (dest_node w))"
  shows "\<exists>w' c' s'. deserialize_warning c s = (Some w', c', s') \<and> view w' = view w \<and> stream c' = rest \<and>
    os_ok s' \<and> live s' = live s \<union> set (warning_blks w') \<and> live s \<inter> set (warning_blks w') = {}"
proof -
  from deserialize_encode [OF assms] obtain w' c' s'
    where d: "deserialize_warning c s = (Some w', c', s')" "view w' = view w" "stream c' = rest" by blast
  from deserialize_safe [OF assms(3) d(1)] d show ?thesis by auto
qed

definition demo_warning :: Warning where
  "demo_warning = \<lparr>city = \<lparr>chars = ''Nis'', sblk = 1\<rparr>, wtype = WARNING_TYPE_FIRE, wvalue = 0x4045000000000000, timestamp = 1700000000,
     dest_node = \<lparr>chars = ''D1'', sblk = 2\<rparr>, wblk = 0\<rparr>"

theorem received_warning_is_sent_witness:
  "\<exists>w' c' s'. deserialize_warning \<lparr>chunks = map (\<lambda>b. [b]) (encode demo_warning), fin = Closed\<rparr> fresh_os = (Some w', c', s') \<and>
     view w' = (''Nis'', 1, 0x4045000000000000, 1700000000, ''D1'') \<and> stream c' = []"
proof -
  let ?c = "\<lparr>chunks = map (\<lambda>b. [b]) (encode demo_warning), fin = Closed\<rparr>"
  have "conn_ok ?c" "stream ?c = encode demo_warning @ []" by (auto simp: conn_ok_def stream_def)
  from received_warning_is_sent [OF this, of fresh_os] show ?thesis
    by (auto simp: demo_warning_def view_def is_cstr_def WARNING_TYPE_FIRE_def)
qed

text \<open>
  C10. Memory safety of the reader against any peer: for every sequence of chunks, every end of
  the connection, every claimed length and every pattern of allocation failures, reading a
  warning causes no undefined behaviour, and leaks nothing when it fails; when it succeeds, the
  strings of the warning contain no NUL and its three blocks are new.
\<close>

theorem reader_memory_safe:
  assumes "os_ok s" "deserialize_warning c s = (r, c', s')"
  shows "os_ok s' \<and> socks s' = socks s \<and>
    (case r of None \<Rightarrow> live s' = live s
     | Some w \<Rightarrow> live s' = live s \<union> set (warning_blks w) \<and> live s \<inter> set (warning_blks w) = {} \<and>
         distinct (warning_blks w) \<and> is_cstr (chars (city w)) \<and> is_cstr (chars (dest_node w)))"
  by (rule deserialize_safe [OF assms])

text \<open>A peer that announces a city of $2^{32} - 1$ bytes.\<close>

theorem reader_memory_safe_witness:
  "\<exists>c' s'. deserialize_warning \<lparr>chunks = [[255, 255, 255, 255, 65]], fin = Failed\<rparr> fresh_os = (None, c', s') \<and> live s' = {}"
proof -
  let ?c = "\<lparr>chunks = [[255, 255, 255, 255, 65]], fin = Failed\<rparr>"
  obtain r c' s' where d: "deserialize_warning ?c fresh_os = (r, c', s')" by (cases "deserialize_warning ?c fresh_os")
  have "ntohl (of_le [255, 255, 255, 255]) = - 1" by code_simp
  moreover have "recv_all 4 ?c = (4, [255, 255, 255, 255], \<lparr>chunks = [[65]], fin = Failed\<rparr>)"
    by (simp add: recv_all_def recv_loop.simps recv_def)
  ultimately have "r = None"
    using d by (auto simp: deserialize_warning_def recv_text_def recv_all_negative malloc_def fresh_os_def)
  with reader_memory_safe [OF fresh_os_ok(1) d] d show ?thesis by simp
qed

text \<open>
  C29. The reader of the central propagator and the one of the data destination agree, and depend
  only on the bytes of a connection: on two connections that deliver the same bytes in different
  chunks they return the same warning, leave the same heap and the same unread bytes.
\<close>

theorem readers_agree_on_any_chunking:
  assumes "conn_ok c" "conn_ok c'" "stream c = stream c'"
  shows "\<exists>w d d' s'. deserialize_warning c s = (w, d, s') \<and> dd_deserialize_warning c' s = (w, d', s') \<and>
    stream d = stream d'"
  using deserialize_same [of c c' s] assms by (auto simp: same_data_def dd_deserialize_eq)

theorem readers_agree_on_any_chunking_witness:
  "fst (deserialize_warning \<lparr>chunks = [encode demo_warning], fin = Closed\<rparr> fresh_os) =
   fst (dd_deserialize_warning \<lparr>chunks = map (\<lambda>b. [b]) (encode demo_warning), fin = Failed\<rparr> fresh_os)"
proof -
  let ?c = "\<lparr>chunks = [encode demo_warning], fin = Closed\<rparr>"
    and ?d = "\<lparr>chunks = map (\<lambda>b. [b]) (encode demo_warning), fin = Failed\<rparr>"
  have "4 \<le> length (encode demo_warning)" by (simp add: encode_def Let_def)
  then have "conn_ok ?c" "conn_ok ?d" "stream ?c = stream ?d" by (auto simp: conn_ok_def stream_def)
  from readers_agree_on_any_chunking [OF this, of fresh_os] show ?thesis by auto
qed

end
