(* ===== verification/Client.thy ===== *)
theory Client
  imports Connections Receiver
begin

text \<open>
  \<open>Common/propagator_client.c\<close>: sending a warning over a connection of the table.  What \<open>send\<close>
  answers comes from outside (\<open>sends\<close>; the whole buffer is accepted where that list is used up);
  \<open>wire\<close> records the bytes that each socket accepted, in order.
\<close>

section \<open>Operations\<close>

record net =
  tab :: conns
  sends :: "int list"
  wire :: "(SOCKET \<times> u8 list) list"

text \<open>
  \<open>send\<close> accepts a prefix of the buffer and returns its length, or fails with \<open>SOCKET_ERROR\<close>,
  also for a length that is negative as an \<open>int\<close>.
\<close>

definition sys_send :: "SOCKET \<Rightarrow> u8 list \<Rightarrow> int \<Rightarrow> net \<Rightarrow> int \<times> net" where
  "sys_send k buf len n =
     (if len < 0 then (- 1, n)
      else
        (case sends n of
           [] \<Rightarrow> (len, n\<lparr>wire := wire n @ [(k, take (nat len) buf)]\<rparr>)
         | r # rs \<Rightarrow>
             (let a = min r len
              in (a, n\<lparr>sends := rs, wire := wire n @ [(k, take (nat a) buf)]\<rparr>))))"

text \<open>
  The buffer has \<open>buf_len\<close> bytes, a sum that is computed with 32 bits; the copies write the whole
  message, outside of the buffer if the sum wrapped around.
\<close>

definition send_warning_to :: "string \<Rightarrow> u16 \<Rightarrow> Warning \<Rightarrow> net \<Rightarrow> os \<Rightarrow> bool \<times> net \<times> os" where
  "send_warning_to address port w n s =
     (case get_or_create_connection address port (tab n) s of
        (k, t, s) \<Rightarrow>
          (let n = n\<lparr>tab := t\<rparr>
           in if k = INVALID_SOCKET then (False, n, s)
              else
                (let buf_len = encode_len w
                 in (case malloc s of
                       (None, s) \<Rightarrow> (False, n, s)
                     | (Some buf, s) \<Rightarrow>
                         (let s = (if unat buf_len < length (encode w) then s\<lparr>ub := True\<rparr> else s)
                          in (case sys_send k (encode w) (sint buf_len) n of
                                (sent, n) \<Rightarrow>
                                  (let s = free_blk buf s
                                   in if sent \<noteq> sint buf_len
                                      then (case close_connection address port (tab n) s of (t, s) \<Rightarrow> (False, n\<lparr>tab := t\<rparr>, s))
                                      else (True, n, s))))))))"

section \<open>The contract\<close>

text \<open>The bytes that a socket has accepted.\<close>

definition sent_on :: "SOCKET \<Rightarrow> net \<Rightarrow> u8 list" where
  "sent_on k n = concat (map snd (filter (\<lambda>e. fst e = k) (wire n)))"

text \<open>A message whose length can be represented: the sum does not exceed what an \<open>int\<close> holds.\<close>

definition sendable :: "Warning \<Rightarrow> bool" where
  "sendable w \<longleftrightarrow> length (chars (city w)) + length (chars (dest_node w)) + 28 < 2 ^ 31"

text \<open>
  A socket stands for one connection: the operating system hands out sockets that differ from each
  other, from those in use and from those that were used before.
\<close>

definition names_apart :: "net \<Rightarrow> os \<Rightarrow> bool" where
  "names_apart n s \<longleftrightarrow> distinct (filter (\<lambda>k. k \<noteq> INVALID_SOCKET) (new_socks (tab n))) \<and>
     set (filter (\<lambda>k. k \<noteq> INVALID_SOCKET) (new_socks (tab n))) \<inter> (socks s \<union> fst ` set (wire n)) = {}"

section \<open>Lemmas\<close>

lemma length_encode:
  assumes "sendable w"
  shows "length (encode w) = length (chars (city w)) + length (chars (dest_node w)) + 28"
    and "unat (encode_len w) = length (encode w)" and "sint (encode_len w) = int (length (encode w))"
proof -
  let ?c = "chars (city w)" and ?d = "chars (dest_node w)"
  have l: "length ?c < 2 ^ 31" "length ?d < 2 ^ 31" "length ?c + length ?d + 28 < 2 ^ 31"
    using assms by (auto simp: sendable_def)
  show e: "length (encode w) = length ?c + length ?d + 28"
    using len32_small(1) [OF l(1)] len32_small(1) [OF l(2)] by (simp add: encode_def Let_def)
  have len: "encode_len w = word_of_nat (length (encode w))" by (simp add: encode_len_def len32_def e)
  show u: "unat (encode_len w) = length (encode w)"
    unfolding len using l(3) by (simp only: unat_of_nat e) simp
  then have "uint (encode_len w) = int (length (encode w))" by (metis uint_nat)
  then show "sint (encode_len w) = int (length (encode w))"
    using l(3) by (simp add: e sint_uint signed_take_bit_int_eq_self)
qed

text \<open>The sockets of the table are those that it answers with, and no two addresses share one.\<close>

lemma answers_node:
  assumes "conn_inv L K m s" "answers m a p = Some k"
  shows "\<exists>x \<in> set (hm_nodes m). eq_conn_key (key x) (conn_key a p) \<and> sval (the (val x)) = k"
proof -
  from assms(1) have f: "conn.hm_for m" by (simp add: conn_inv_def conn.hm_owned_def)
  show ?thesis
  proof (rule ccontr)
    assume n: "\<not> ?thesis"
    from assms(2) obtain v where v: "hashmap_get (Some m) (Some (conn_key a p)) = Some v" "sval v = k" by auto
    have "\<exists>v'. conn.entry m (conn_key a p) v'"
      using conn.get_no_entry [OF f, of "conn_key a p"] v(1) by force
    then obtain v' where e: "conn.entry m (conn_key a p) v'" ..
    with conn.get_entry [OF f e] v n show False by (auto simp: conn.entry_def)
  qed
qed

lemma node_answers:
  assumes "conn_inv L K m s" "x \<in> set (hm_nodes m)"
  shows "answers m (chars (kaddress (key x))) (kport (key x)) = Some (sval (the (val x)))"
proof -
  from assms(1) have f: "conn.hm_for m" by (simp add: conn_inv_def conn.hm_owned_def)
  have "conn.entry m (conn_key (chars (kaddress (key x))) (kport (key x))) (val x)"
    using assms(2) by (auto simp: conn.entry_def eq_conn_key_def)
  from conn.get_entry [OF f this] assms show ?thesis by (auto simp: conn_inv_def)
qed

lemma table_socks:
  assumes "conn_inv L K m s"
  shows "socks s = K \<union> {k. \<exists>a p. answers m a p = Some k}"
proof -
  have "set (map (\<lambda>n. sval (the (val n))) (hm_nodes m)) = {k. \<exists>a p. answers m a p = Some k}" (is "?A = ?B")
  proof (intro set_eqI iffI)
    fix k assume "k \<in> ?A"
    then obtain x where "x \<in> set (hm_nodes m)" "k = sval (the (val x))" by auto
    with node_answers [OF assms] show "k \<in> ?B" by blast
  next
    fix k assume "k \<in> ?B"
    then obtain a p where "answers m a p = Some k" by blast
    from answers_node [OF assms this] show "k \<in> ?A" by auto
  qed
  moreover from assms have "socks s = K \<union> ?A" unfolding conn_inv_def by blast
  ultimately show ?thesis by simp
qed

lemma answers_inj:
  assumes "conn_inv L K m s" "answers m a p = Some k" "answers m a' p' = Some k"
  shows "a' = a \<and> p' = p"
proof -
  from answers_node [OF assms(1,2)] obtain x where x: "x \<in> set (hm_nodes m)" "eq_conn_key (key x) (conn_key a p)" "sval (the (val x)) = k" by blast
  from answers_node [OF assms(1,3)] obtain y where y: "y \<in> set (hm_nodes m)" "eq_conn_key (key y) (conn_key a' p')" "sval (the (val y)) = k" by blast
  have "inj_on (\<lambda>n. sval (the (val n))) (set (hm_nodes m))" using assms(1) unfolding conn_inv_def distinct_map by blast
  then have "x = y" by (rule inj_onD) (use x y in simp_all)
  with x y show ?thesis by (auto simp: eq_conn_key_def)
qed

lemma names_apart_fresh: "names_apart n s \<Longrightarrow> fresh_socks (tab n) s"
  by (auto simp: names_apart_def fresh_socks_def)

lemma disjoint_frame:
  "V \<inter> (S \<union> W) = {} \<Longrightarrow> V' \<subseteq> N \<Longrightarrow> V' \<subseteq> V \<Longrightarrow> S' \<subseteq> S \<union> X \<Longrightarrow> W' \<subseteq> W \<union> X \<Longrightarrow> X \<inter> N = {} \<Longrightarrow>
   V' \<inter> (S' \<union> W') = {}"
  by blast

lemma names_apart_frame:
  assumes "names_apart n s" "new_socks (tab n') \<in> {new_socks (tab n), tl (new_socks (tab n))}"
    and "socks s' \<subseteq> socks s \<union> X" "fst ` set (wire n') \<subseteq> fst ` set (wire n) \<union> X" "X \<inter> set (new_socks (tab n')) = {}"
  shows "names_apart n' s'"
proof -
  let ?v = "filter (\<lambda>k. k \<noteq> INVALID_SOCKET)"
  let ?V = "set (?v (new_socks (tab n)))" and ?V' = "set (?v (new_socks (tab n')))"
  have d: "?V' \<subseteq> ?V" "distinct (?v (new_socks (tab n')))"
    using assms(1,2) by (cases "new_socks (tab n)"; auto simp: names_apart_def split: if_splits)+
  have "?V \<inter> (socks s \<union> fst ` set (wire n)) = {}" using assms(1) unfolding names_apart_def by blast
  moreover have "?V' \<subseteq> set (new_socks (tab n'))" by auto
  ultimately have "?V' \<inter> (socks s' \<union> fst ` set (wire n')) = {}" by (rule disjoint_frame) (use d(1) assms(3-5) in simp_all)
  with d(2) show ?thesis unfolding names_apart_def by blast
qed

lemma get_step:
  assumes "connections_map (tab n) = Some m" "conn_inv L K m s" "names_apart n s"
    and "get_or_create_connection a p (tab n) s = (r, t, s')"
  shows "\<exists>m'. connections_map t = Some m' \<and> conn_inv L K m' s' \<and> names_apart (n\<lparr>tab := t\<rparr>) s' \<and>
    (\<forall>a' p'. answers m' a' p' = (if r \<noteq> INVALID_SOCKET \<and> a' = a \<and> p' = p then Some r else answers m a' p')) \<and>
    (r \<noteq> INVALID_SOCKET \<longrightarrow> r \<notin> set (new_socks t) \<and> (answers m a p = Some r \<or> answers m a p = None \<and> r \<notin> socks s \<union> fst ` set (wire n)))"
proof -
  from get_or_create_spec [OF assms(1,2) names_apart_fresh [OF assms(3)] assms(4)] obtain m' where
    m': "connections_map t = Some m'" "conn_inv L K m' s'"
      "\<And>a' p'. answers m' a' p' = (if r \<noteq> INVALID_SOCKET \<and> a' = a \<and> p' = p then Some r else answers m a' p')"
      "\<And>k. answers m a p = Some k \<Longrightarrow> r \<in> {k, INVALID_SOCKET} \<and> t = tab n \<and> socks s' = socks s" by blast
  have sk: "socks s' \<subseteq> socks s \<union> (if r = INVALID_SOCKET then {} else {r})"
    unfolding table_socks [OF assms(2)] table_socks [OF m'(2)] m'(3) by (auto split: if_splits)
  have r: "r \<notin> set (new_socks t) \<and> (answers m a p = Some r \<or> answers m a p = None \<and> r \<notin> socks s \<union> fst ` set (wire n))"
    if "r \<noteq> INVALID_SOCKET"
  proof (cases "answers m a p")
    case None
    from get_or_create_result [OF assms(4) that assms(1,2) None] assms(3) that None show ?thesis
      by (auto simp: names_apart_def)
  next
    case (Some k)
    with m'(4) that have k: "r = k" "t = tab n" by auto
    have "k \<in> socks s" unfolding table_socks [OF assms(2)] using Some by blast
    then have "k \<notin> set (new_socks (tab n))" using assms(3) that k by (auto simp: names_apart_def)
    with Some k show ?thesis by simp
  qed
  have "names_apart (n\<lparr>tab := t\<rparr>) s'"
    using names_apart_frame [OF assms(3), of "n\<lparr>tab := t\<rparr>" s' "if r = INVALID_SOCKET then {} else {r}"]
      get_or_create_new_socks [OF assms(4)] sk r by auto
  with m' r show ?thesis by blast
qed

lemma sys_send_spec:
  assumes "sys_send k buf (int (length buf)) n = (r, n')"
  shows "tab n' = tab n \<and> (\<exists>bs. wire n' = wire n @ [(k, bs)] \<and> (r = int (length buf) \<longrightarrow> bs = buf))"
  using assms by (auto simp: sys_send_def Let_def split: list.splits)

text \<open>One send: what it does to the table, to the streams and to the heap.\<close>

lemma send_step:
  assumes "connections_map (tab n) = Some m" "conn_inv L K m s" "names_apart n s" "sendable w"
    and "send_warning_to a p w n s = (r, n', s')"
  shows "\<exists>m'. connections_map (tab n') = Some m' \<and> conn_inv L K m' s' \<and> names_apart n' s' \<and>
    (\<forall>a' p'. \<not> (a' = a \<and> p' = p) \<longrightarrow> answers m' a' p' = answers m a' p') \<and>
    (wire n' = wire n \<and> \<not> r \<and> answers m' a p = answers m a p \<or>
     (\<exists>k bs. (answers m a p = Some k \<or> answers m a p = None \<and> k \<notin> socks s \<union> fst ` set (wire n)) \<and>
        (wire n' = wire n \<and> \<not> r \<and> answers m' a p = Some k \<or>
         wire n' = wire n @ [(k, bs)] \<and> \<not> r \<and> answers m' a p = None \<or>
         wire n' = wire n @ [(k, encode w)] \<and> r \<and> answers m' a p = Some k)))"
proof -
  note len = length_encode [OF assms(4)]
  obtain k t s1 where g: "get_or_create_connection a p (tab n) s = (k, t, s1)" by (cases "get_or_create_connection a p (tab n) s")
  from get_step [OF assms(1-3) g] obtain m1 where
    m1: "connections_map t = Some m1" "conn_inv L K m1 s1" "names_apart (n\<lparr>tab := t\<rparr>) s1"
      "\<And>a' p'. answers m1 a' p' = (if k \<noteq> INVALID_SOCKET \<and> a' = a \<and> p' = p then Some k else answers m a' p')"
      "k \<noteq> INVALID_SOCKET \<Longrightarrow> k \<notin> set (new_socks t) \<and> (answers m a p = Some k \<or> answers m a p = None \<and> k \<notin> socks s \<union> fst ` set (wire n))"
    by blast
  show ?thesis
  proof (cases "k = INVALID_SOCKET")
    case True
    with assms(5) g have "r = False" "n' = n\<lparr>tab := t\<rparr>" "s' = s1" by (simp_all add: send_warning_to_def)
    with m1 True show ?thesis by simp
  next
    case k: False
    obtain bp s2 where b: "malloc s1 = (bp, s2)" by force
    show ?thesis
    proof (cases bp)
      case None
      with assms(5) g k b have e: "r = False" "n' = n\<lparr>tab := t\<rparr>" "s' = s2" by (simp_all add: send_warning_to_def Let_def)
      have i: "conn_inv L K m1 s2" using conn_inv_malloc_None [OF m1(2)] b None by blast
      have "names_apart n' s2" using m1(3) malloc_None b None e by (auto simp: names_apart_def)
      with m1 i e k show ?thesis by (intro exI [of _ m1]) simp
    next
      case (Some bf)
      with b have b: "malloc s1 = (Some bf, s2)" by simp
      note M = conn_inv_malloc [OF m1(2) b]
      let ?n1 = "n\<lparr>tab := t\<rparr>"
      obtain sent n2 where sd: "sys_send k (encode w) (int (length (encode w))) ?n1 = (sent, n2)" by force
      from sys_send_spec [OF sd] obtain bs where n2: "tab n2 = t" "wire n2 = wire n @ [(k, bs)]"
        "sent = int (length (encode w)) \<longrightarrow> bs = encode w" by auto
      let ?s3 = "free_blk bf s2"
      have i3: "conn_inv L K m1 ?s3" using conn_inv_free M by blast
      have sk: "socks ?s3 = socks s1" unfolding table_socks [OF m1(2)] table_socks [OF i3] ..
      have na: "names_apart n2 ?s3"
        by (rule names_apart_frame [OF m1(3), of n2 ?s3 "{k}"]) (use n2 sk m1(5) [OF k] in auto)
      show ?thesis
      proof (cases "sent = int (length (encode w))")
        case True
        with assms(5) g k b sd len have e: "r = True" "n' = n2" "s' = ?s3" by (simp_all add: send_warning_to_def Let_def)
        show ?thesis using m1(1,4) m1(5) [OF k] i3 na n2 True e k by (intro exI [of _ m1]) auto
      next
        case False
        obtain t2 s4 where c: "close_connection a p t ?s3 = (t2, s4)" by force
        with False assms(5) g k b sd len n2(1) have e: "r = False" "n' = n2\<lparr>tab := t2\<rparr>" "s' = s4"
          by (simp_all add: send_warning_to_def Let_def)
        from close_connection_spec [OF m1(1) i3 c] obtain m2 where
          m2: "connections_map t2 = Some m2" "conn_inv L K m2 s4"
            "\<And>a' p'. answers m2 a' p' = (if a' = a \<and> p' = p then None else answers m1 a' p')" by blast
        have "socks s4 \<subseteq> socks ?s3" unfolding table_socks [OF i3] table_socks [OF m2(2)] m2(3) by (auto split: if_splits)
        moreover have "new_socks t2 = new_socks t" using c by (auto simp: close_connection_def split: prod.splits)
        ultimately have "names_apart n' s'"
          using names_apart_frame [OF na, of n' s' "{}"] n2(1) e by simp
        then show ?thesis using m2 m1(4) m1(5) [OF k] n2(2) e by (intro exI [of _ m2]) auto
      qed
    qed
  qed
qed

lemma conn_inv_free_warning:
  assumes "conn_inv (L \<union> set (warning_blks w)) K m s" "distinct (warning_blks w)" "set (warning_blks w) \<inter> L = {}"
  shows "conn_inv L K m (warning_destroy (Some w) s)"
proof -
  from assms have "conn_inv (insert (sblk (city w)) (insert (sblk (dest_node w)) (insert (wblk w) L))) K m s"
    by (simp add: warning_blks_def insert_commute)
  then have "conn_inv L K m (free_blk (wblk w) (free_blk (sblk (dest_node w)) (free_blk (sblk (city w)) s)))"
    by (intro conn_inv_free) (use assms(2,3) in \<open>auto simp: warning_blks_def\<close>)
  then show ?thesis by (simp add: warning_destroy_def free_str_def)
qed

section \<open>Streams\<close>

text \<open>A sequence of sends; those that were reported as sent.\<close>

fun send_run :: "(string \<times> u16 \<times> Warning) list \<Rightarrow> net \<Rightarrow> os \<Rightarrow> (string \<times> u16 \<times> Warning) list \<times> net \<times> os" where
  "send_run [] n s = ([], n, s)"
| "send_run ((a, p, w) # xs) n s =
     (case send_warning_to a p w n s of
        (r, n, s) \<Rightarrow> (case send_run xs n s of (ys, n, s) \<Rightarrow> (if r then (a, p, w) # ys else ys, n, s)))"

definition sent_to :: "string \<Rightarrow> u16 \<Rightarrow> (string \<times> u16 \<times> Warning) list \<Rightarrow> Warning list" where
  "sent_to a p xs = map (snd \<circ> snd) (filter (\<lambda>x. fst x = a \<and> fst (snd x) = p) xs)"

text \<open>The sends of a log that were reported as sent.\<close>

abbreviation reported :: "(string \<times> u16 \<times> Warning \<times> bool) list \<Rightarrow> (string \<times> u16 \<times> Warning) list" where
  "reported lg \<equiv> map (\<lambda>(a, p, w, ok). (a, p, w)) (filter (\<lambda>(a, p, w, ok). ok) lg)"

text \<open>Every open connection carries whole messages, the last ones that were reported as sent.\<close>

definition framed :: "(ConnectionKey, sock_ptr) HashMap \<Rightarrow> net \<Rightarrow> (string \<times> u16 \<times> Warning) list \<Rightarrow> bool" where
  "framed m n xs \<longleftrightarrow> (\<forall>a p k. answers m a p = Some k \<longrightarrow>
     (\<exists>old ws. sent_to a p xs = old @ ws \<and> sent_on k n = concat (map encode ws)))"

lemma sent_to_append [simp]: "sent_to a p (xs @ ys) = sent_to a p xs @ sent_to a p ys"
  by (simp add: sent_to_def)

lemma sent_to_one: "sent_to a p [(a', p', w)] = (if a' = a \<and> p' = p then [w] else [])"
  by (simp add: sent_to_def)

lemma sent_on_append: "wire n' = wire n @ [(k, bs)] \<Longrightarrow> sent_on k' n' = sent_on k' n @ (if k' = k then bs else [])"
  by (simp add: sent_on_def)

lemma sent_on_new: "k \<notin> fst ` set (wire n) \<Longrightarrow> sent_on k n = []"
  by (simp add: sent_on_def) force

lemma sent_on_same: "wire n' = wire n \<Longrightarrow> sent_on k n' = sent_on k n"
  by (simp add: sent_on_def)

lemma framedD: "framed m n xs \<Longrightarrow> answers m a p = Some k \<Longrightarrow>
    \<exists>old ws. sent_to a p xs = old @ ws \<and> sent_on k n = concat (map encode ws)"
  unfolding framed_def by blast

lemma framed_new: "sent_on k n = [] \<Longrightarrow> \<exists>old ws. sent_to a p xs = old @ ws \<and> sent_on k n = concat (map encode ws)"
  by (intro exI [of _ "sent_to a p xs"] exI [of _ "[]"]) simp

lemma send_framed:
  assumes "connections_map (tab n) = Some m" "conn_inv L K m s" "names_apart n s" "sendable w" "framed m n xs"
    and "send_warning_to a p w n s = (r, n', s')"
  shows "\<exists>m'. connections_map (tab n') = Some m' \<and> conn_inv L K m' s' \<and> names_apart n' s' \<and>
    framed m' n' (if r then xs @ [(a, p, w)] else xs)"
proof -
  from send_step [OF assms(1-4,6)] obtain m' where
    m': "connections_map (tab n') = Some m'" "conn_inv L K m' s'" "names_apart n' s'"
      "\<And>a' p'. \<not> (a' = a \<and> p' = p) \<Longrightarrow> answers m' a' p' = answers m a' p'"
    and c: "wire n' = wire n \<and> \<not> r \<and> answers m' a p = answers m a p \<or>
     (\<exists>k bs. (answers m a p = Some k \<or> answers m a p = None \<and> k \<notin> socks s \<union> fst ` set (wire n)) \<and>
        (wire n' = wire n \<and> \<not> r \<and> answers m' a p = Some k \<or>
         wire n' = wire n @ [(k, bs)] \<and> \<not> r \<and> answers m' a p = None \<or>
         wire n' = wire n @ [(k, encode w)] \<and> r \<and> answers m' a p = Some k))" by blast
  define new where "new k \<longleftrightarrow> answers m a p = Some k \<or> answers m a p = None \<and> k \<notin> socks s \<union> fst ` set (wire n)" for k
  from c [folded new_def] consider (unsent) "wire n' = wire n" "\<not> r" "answers m' a p = answers m a p"
    | (unsent_new) k where "wire n' = wire n" "\<not> r" "answers m' a p = Some k" "new k"
    | (broken) k bs where "wire n' = wire n @ [(k, bs)]" "\<not> r" "answers m' a p = None" "new k"
    | (sent) k where "wire n' = wire n @ [(k, encode w)]" "r" "answers m' a p = Some k" "new k"
    by (elim disjE exE conjE) simp_all
  note c = this
  let ?xs = "if r then xs @ [(a, p, w)] else xs"
  have "\<exists>old ws. sent_to a' p' ?xs = old @ ws \<and> sent_on k' n' = concat (map encode ws)"
    if k': "answers m' a' p' = Some k'" for a' p' k'
  proof (cases "a' = a \<and> p' = p")
    case False
    from m'(4) [OF False] k' have o: "answers m a' p' = Some k'" by (simp only:)
    then have sk: "k' \<in> socks s" unfolding table_socks [OF assms(2)] by blast
    have s1: "sent_to a' p' ?xs = sent_to a' p' xs" using False by (auto simp: sent_to_one)
    have "k' \<noteq> k" if "new k" for k using that answers_inj [OF assms(2) o] False sk unfolding new_def by blast
    then have "sent_on k' n' = sent_on k' n" by (cases rule: c) (auto simp: sent_on_append intro: sent_on_same)
    with framedD [OF assms(5) o] s1 show ?thesis by simp
  next
    case True
    have old: "\<exists>old ws. sent_to a p xs = old @ ws \<and> sent_on k' n = concat (map encode ws)"
      if "new k'"
      using that unfolding new_def
    proof
      assume "answers m a p = Some k'"
      then show ?thesis by (rule framedD [OF assms(5)])
    next
      assume "answers m a p = None \<and> k' \<notin> socks s \<union> fst ` set (wire n)"
      then have "k' \<notin> fst ` set (wire n)" by blast
      then show ?thesis by (rule framed_new [OF sent_on_new])
    qed
    from k' True have k': "answers m' a p = Some k'" by blast
    show ?thesis
    proof (cases rule: c)
      case unsent
      with k' have "new k'" unfolding new_def by argo
      with old unsent(2) True sent_on_same [OF unsent(1)] show ?thesis by simp
    next
      case (unsent_new k)
      with k' have "new k'" by simp
      with old unsent_new(2) True sent_on_same [OF unsent_new(1)] show ?thesis by simp
    next
      case (broken k bs)
      with k' show ?thesis by simp
    next
      case (sent k)
      with k' have e: "new k'" "sent_on k' n' = sent_on k' n @ encode w" by (auto simp: sent_on_append)
      from old [OF e(1)] obtain old ws where "sent_to a p xs = old @ ws" "sent_on k' n = concat (map encode ws)" by blast
      with e(2) True sent(2) show ?thesis by (intro exI [of _ old] exI [of _ "ws @ [w]"]) (simp add: sent_to_one)
    qed
  qed
  then have "framed m' n' ?xs" unfolding framed_def by blast
  with m'(1-3) show ?thesis by blast
qed

lemma send_run_framed:
  assumes "connections_map (tab n) = Some m" "conn_inv L K m s" "names_apart n s" "framed m n xs"
    and "\<forall>x \<in> set ys. sendable (snd (snd x))" "send_run ys n s = (zs, n', s')"
  shows "\<exists>m'. connections_map (tab n') = Some m' \<and> conn_inv L K m' s' \<and> names_apart n' s' \<and> framed m' n' (xs @ zs)"
  using assms
proof (induction ys arbitrary: n m s xs zs)
  case (Cons y ys)
  obtain a p w where y: "y = (a, p, w)" by (cases y)
  obtain r n1 s1 where r: "send_warning_to a p w n s = (r, n1, s1)" by (cases "send_warning_to a p w n s")
  obtain zs1 n2 s2 where q: "send_run ys n1 s1 = (zs1, n2, s2)" by (cases "send_run ys n1 s1")
  from Cons.prems(6) y r q have e: "zs = (if r then (a, p, w) # zs1 else zs1)" "n' = n2" "s' = s2" by auto
  have "sendable w" using Cons.prems(5) y by simp
  from send_framed [OF Cons.prems(1-3) this Cons.prems(4) r] obtain m1 where
    m1: "connections_map (tab n1) = Some m1" "conn_inv L K m1 s1" "names_apart n1 s1"
      "framed m1 n1 (if r then xs @ [(a, p, w)] else xs)" by blast
  from Cons.IH [OF m1 _ q [folded e(2,3)]] Cons.prems(5) e show ?case by (auto split: if_splits)
qed auto

section \<open>Properties\<close>

text \<open>
  C18. Connections carry whole messages: from the creation of the table on, after any sequence of sends to
  any addresses, with any pattern of failing allocations, connection attempts and short or failing
  \<open>send\<close> calls, the bytes that the socket of every open connection has accepted are exactly the
  encodings of a number of warnings, and these are the latest ones that \<open>send_warning_to\<close> reported
  as sent to that address, in order (a connection on which a message broke off is closed and never
  used again).  Nothing but the table is left on the heap, and \<open>connections_cleanup\<close> removes it.
\<close>

theorem connection_streams_framed:
  assumes "os_ok s" "connections_init t s = (t1, s1)" "connections_map t1 \<noteq> None"
    and "n = \<lparr>tab = t1, sends = rs, wire = []\<rparr>" "names_apart n s1" "\<forall>x \<in> set ys. sendable (snd (snd x))"
    and "send_run ys n s1 = (zs, n', s2)" "connections_cleanup (tab n') s2 = (t3, s3)"
  shows "\<exists>m. connections_map (tab n') = Some m \<and>
    (\<forall>a p k. answers m a p = Some k \<longrightarrow>
       k \<in> socks s2 \<and> (\<exists>old ws. sent_to a p zs = old @ ws \<and> sent_on k n' = concat (map encode ws))) \<and>
    os_ok s2 \<and> os_ok s3 \<and> live s3 = live s \<and> socks s3 = socks s"
proof -
  obtain m where m: "connections_map t1 = Some m" using assms(3) by blast
  from connections_init_spec [OF assms(1,2) m] have i: "conn_inv (live s) (socks s) m s1" "\<And>a p. answers m a p = None" by auto
  have f: "framed m n []" unfolding framed_def using i(2) by simp
  have "connections_map (tab n) = Some m" using m assms(4) by simp
  from send_run_framed [OF this i(1) assms(5) f assms(6,7)] obtain m' where
    m': "connections_map (tab n') = Some m'" "conn_inv (live s) (socks s) m' s2" "framed m' n' zs" by auto
  have "k \<in> socks s2" if "answers m' a p = Some k" for a p k using that unfolding table_socks [OF m'(2)] by blast
  with framedD [OF m'(3)] connections_cleanup_spec [OF m'(1,2) assms(8)] conn_inv_ok [OF m'(2)] m'(1)
  show ?thesis by blast
qed

definition demo_net :: "conns \<Rightarrow> net" where
  "demo_net t = \<lparr>tab = t, sends = [], wire = []\<rparr>"

lemma demo_send:
  obtains t1 s1 n' s2 m where "connections_init demo_reuse fresh_os = (t1, s1)" "connections_map t1 \<noteq> None" "names_apart (demo_net t1) s1"
    "send_run [(''10.0.0.1'', 80, demo_warning)] (demo_net t1) s1 = ([(''10.0.0.1'', 80, demo_warning)], n', s2)"
    "sends n' = []" "wire n' = [(5, encode demo_warning)]" "True \<notin> set (oom s2)"
    "connections_map (tab n') = Some m" "answers m ''10.0.0.1'' 80 = Some 5"
proof -
  let ?a = "''10.0.0.1''" and ?x = "(''10.0.0.1'', 80, demo_warning)"
  obtain t1 s1 where i: "connections_init demo_reuse fresh_os = (t1, s1)" by force
  then obtain m where m: "connections_map t1 = Some m" "capacity m = 16" "socks s1 = {}" "new_socks t1 = [5]" "refused t1 = []" "oom s1 = []"
    by (auto simp: connections_init_def hashmap_create_def calloc_def malloc_def fresh_os_def demo_reuse_def)
  from connections_init_spec [OF fresh_os_ok(1) i m(1)] have inv: "conn_inv {} {} m s1" "answers m ?a 80 = None" by auto
  have ho: "conn.hm_owned m s1" using inv(1) by (simp add: conn_inv_def)
  obtain k t2 s2 where g: "get_or_create_connection ?a 80 t1 s1 = (k, t2, s2)" by (cases "get_or_create_connection ?a 80 t1 s1")
  have five: "(5 :: SOCKET) \<noteq> INVALID_SOCKET" by (simp add: INVALID_SOCKET_def)
  with get_or_create_succeeds [OF m(1) inv(1) _ _ inv(2) m(4) _ m(5) g] m have k: "k = 5" by auto
  have o: "True \<notin> set (oom s2)" using get_or_create_oom [OF m(1) ho g] m(6) by auto
  from malloc_succeeds [OF this] obtain b s3 where b: "malloc s2 = (Some b, s3)" by blast
  have sd: "sendable demo_warning" by (simp add: sendable_def demo_warning_def)
  let ?n' = "\<lparr>tab = t2, sends = [], wire = [(5, encode demo_warning)]\<rparr>"
  have "send_warning_to ?a 80 demo_warning (demo_net t1) s1 = (True, ?n', free_blk b s3)"
    using g k five b length_encode [OF sd] by (simp add: send_warning_to_def sys_send_def demo_net_def Let_def)
  then have r: "send_run [?x] (demo_net t1) s1 = ([?x], ?n', free_blk b s3)" by simp
  have na: "names_apart (demo_net t1) s1" using m by (simp add: names_apart_def demo_net_def)
  have "fresh_socks t1 s1" using m by (simp add: fresh_socks_def)
  from get_or_create_spec [OF m(1) inv(1) this g] obtain m2 where
    m2: "connections_map t2 = Some m2" "answers m2 ?a 80 = (if k \<noteq> INVALID_SOCKET \<and> ?a = ?a \<and> (80 :: u16) = 80 then Some k else answers m ?a 80)"
    by blast
  have "answers m2 ?a 80 = Some 5" unfolding m2(2) using k five by simp
  with m2(1) have "connections_map t2 = Some m2 \<and> answers m2 ?a 80 = Some 5" ..
  moreover have "True \<notin> set (oom (free_blk b s3))" using o malloc_oom [OF b] by (auto simp: free_blk_oom)
  ultimately show ?thesis using that [OF i _ na r] m(1) by simp
qed

theorem connection_streams_framed_witness:
  "\<exists>t1 s1 n' s2 m. connections_init demo_reuse fresh_os = (t1, s1) \<and>
     send_run [(''10.0.0.1'', 80, demo_warning)] (demo_net t1) s1 = ([(''10.0.0.1'', 80, demo_warning)], n', s2) \<and>
     connections_map (tab n') = Some m \<and> answers m ''10.0.0.1'' 80 = Some 5 \<and> 5 \<in> socks s2 \<and> sent_on 5 n' = encode demo_warning"
proof -
  let ?a = "''10.0.0.1''" and ?x = "(''10.0.0.1'', 80, demo_warning)"
  obtain t1 s1 n' s2 m where d: "connections_init demo_reuse fresh_os = (t1, s1)" "connections_map t1 \<noteq> None" "names_apart (demo_net t1) s1"
    "send_run [?x] (demo_net t1) s1 = ([?x], n', s2)" "wire n' = [(5, encode demo_warning)]"
    "connections_map (tab n') = Some m" "answers m ?a 80 = Some 5" by (rule demo_send)
  obtain t3 s3 where c: "connections_cleanup (tab n') s2 = (t3, s3)" by force
  have "\<forall>x \<in> set [?x]. sendable (snd (snd x))" by (simp add: sendable_def demo_warning_def)
  from connection_streams_framed [OF fresh_os_ok(1) d(1,2) demo_net_def d(3) this d(4) c] d(6,7) have "5 \<in> socks s2" by auto
  with d show ?thesis by (intro exI conjI) (auto simp: sent_on_def)
qed

text \<open>Sending adds no allocation failures.\<close>

lemma close_oom:
  assumes "connections_map t = Some m" "conn.hm_owned m s0" "close_connection a p t s = (t', s')"
  shows "oom s' = oom s"
  using assms by (auto simp: close_connection_def hashmap_remove_def conn.hm_owned_def call_free_def free_blk_oom Let_def
      split: prod.splits option.splits)

lemma send_oom:
  assumes "connections_map (tab n) = Some m" "conn_inv L K m s" "names_apart n s" "send_warning_to a p w n s = (ok, n', s')"
  shows "set (oom s') \<subseteq> set (oom s)"
proof -
  obtain k t s1 where g: "get_or_create_connection a p (tab n) s = (k, t, s1)" by (metis prod.exhaust)
  from get_step [OF assms(1-3) g] obtain m1 where m1: "connections_map t = Some m1" "conn.hm_owned m1 s1"
    unfolding conn_inv_def by blast
  have "conn.hm_owned m s" using assms(2) by (simp add: conn_inv_def)
  from get_or_create_oom [OF assms(1) this g] have o1: "set (oom s1) \<subseteq> set (oom s)" .
  obtain b s2 where b: "malloc s1 = (b, s2)" by force
  have "set (oom s') \<subseteq> set (oom s2) \<or> s' = s1" using assms(4) g b m1(1)
    by (auto simp: send_warning_to_def sys_send_def Let_def free_blk_oom split: prod.splits option.splits if_splits list.splits
        dest!: close_oom [OF _ m1(2), rotated])
  with malloc_oom [OF b] o1 show ?thesis by auto
qed

end
