(* ===== verification/TSQueue.thy ===== *)
theory TSQueue
  imports Queue
begin

text \<open>
  \<open>Common/tsqueue.c\<close>: the queue protected by a critical section and two condition variables.
  A thread holds the critical section from its entry, or its return from
  \<open>SleepConditionVariableCS\<close>, until it sleeps or leaves, so such a section is one step.  The
  functions below are those sections; they return \<open>None\<close> where the thread goes to sleep.  The
  step relation \<open>tstep\<close> interleaves any number of threads, lets a wake-up choose any sleeper and
  allows the spurious wake-ups the Windows documentation warns about.
\<close>

section \<open>Data and operations\<close>

record 'a TSQueue =
  inner :: "'a Queue option"
  tcapacity :: nat
  tself :: nat

definition tsqueue_create :: "nat \<Rightarrow> ('a \<Rightarrow> os \<Rightarrow> os) option \<Rightarrow> os \<Rightarrow> 'a TSQueue option \<times> os" where
  "tsqueue_create bufferSize ff s =
     (case malloc s of
        (None, s) \<Rightarrow> (None, s)
      | (Some b, s) \<Rightarrow>
          (case queue_create ff s of
             (None, s) \<Rightarrow> (None, free_blk b s)
           | (Some q, s) \<Rightarrow> (Some \<lparr>inner = Some q, tcapacity = bufferSize, tself = b\<rparr>, s)))"

text \<open>\<open>None\<close>: the thread sleeps on \<open>cvNotFull\<close>.\<close>

definition tsqueue_enqueue :: "'a TSQueue \<Rightarrow> 'a option \<Rightarrow> os \<Rightarrow> (int \<times> 'a TSQueue \<times> os) option" where
  "tsqueue_enqueue q d s =
     (if 0 < tcapacity q \<and> tcapacity q \<le> queue_size (inner q) then None
      else (case queue_enqueue (inner q) d s of (r, i, s) \<Rightarrow> Some (r, q\<lparr>inner := i\<rparr>, s)))"

text \<open>\<open>None\<close>: the thread sleeps on \<open>cvNotEmpty\<close>.\<close>

definition tsqueue_dequeue :: "'a TSQueue \<Rightarrow> os \<Rightarrow> ('a option \<times> 'a TSQueue \<times> os) option" where
  "tsqueue_dequeue q s =
     (if queue_is_empty (inner q) then None
      else (case queue_dequeue (inner q) s of (d, i, s) \<Rightarrow> Some (d, q\<lparr>inner := i\<rparr>, s)))"

definition tsqueue_try_dequeue :: "'a TSQueue \<Rightarrow> os \<Rightarrow> 'a option \<times> 'a TSQueue \<times> os" where
  "tsqueue_try_dequeue q s =
     (if queue_is_empty (inner q) then (None, q, s)
      else (case queue_dequeue (inner q) s of (d, i, s) \<Rightarrow> (d, q\<lparr>inner := i\<rparr>, s)))"

definition tsqueue_destroy :: "'a TSQueue option \<Rightarrow> os \<Rightarrow> os option" where
  "tsqueue_destroy qp s =
     (case qp of
        None \<Rightarrow> Some s
      | Some q \<Rightarrow> map_option (free_blk (tself q)) (queue_destroy (inner q) s))"

section \<open>Threads\<close>

text \<open>
  Where a thread is: outside, at the test of the loop of \<open>tsqueue_enqueue\<close> (waiting for the
  critical section), asleep in it, and the same for \<open>tsqueue_dequeue\<close>.
\<close>

datatype 'a pc = Idle | EnqTest "'a option" | EnqSleep "'a option" | DeqTest | DeqSleep

fun is_enq_test :: "'a pc \<Rightarrow> bool" where
  "is_enq_test (EnqTest d) = True" | "is_enq_test _ = False"

fun is_enq_sleep :: "'a pc \<Rightarrow> bool" where
  "is_enq_sleep (EnqSleep d) = True" | "is_enq_sleep _ = False"

fun wake_up :: "'a pc \<Rightarrow> 'a pc" where
  "wake_up (EnqSleep d) = EnqTest d" | "wake_up DeqSleep = DeqTest" | "wake_up p = p"

text \<open>\<open>WakeConditionVariable\<close>: one of the sleepers of the condition variable, if there is any.\<close>

definition wakes :: "('a pc \<Rightarrow> bool) \<Rightarrow> 'a pc list \<Rightarrow> 'a pc list \<Rightarrow> bool" where
  "wakes sleeper ps ps' \<longleftrightarrow>
     (if \<exists>u < length ps. sleeper (ps ! u)
      then \<exists>u < length ps. sleeper (ps ! u) \<and> ps' = ps[u := wake_up (ps ! u)] else ps' = ps)"

text \<open>
  A system of threads around one queue; \<open>accepted\<close> and \<open>delivered\<close> record the items that
  enqueue calls put in and that dequeue calls handed out.
\<close>

record 'a tsys =
  tq :: "'a TSQueue"
  heap :: os
  pcs :: "'a pc list"
  accepted :: "'a option list"
  delivered :: "'a option list"

text \<open>\<open>tries\<close> says whether the threads use \<open>tsqueue_try_dequeue\<close>.\<close>

inductive tstep :: "bool \<Rightarrow> 'a tsys \<Rightarrow> 'a tsys \<Rightarrow> bool" for tries where
  call_enqueue: "t < length (pcs c) \<Longrightarrow> pcs c ! t = Idle \<Longrightarrow>
    tstep tries c (c\<lparr>pcs := (pcs c)[t := EnqTest d]\<rparr>)"
| call_dequeue: "t < length (pcs c) \<Longrightarrow> pcs c ! t = Idle \<Longrightarrow>
    tstep tries c (c\<lparr>pcs := (pcs c)[t := DeqTest]\<rparr>)"
| enqueue_sleeps: "t < length (pcs c) \<Longrightarrow> pcs c ! t = EnqTest d \<Longrightarrow> tsqueue_enqueue (tq c) d (heap c) = None \<Longrightarrow>
    tstep tries c (c\<lparr>pcs := (pcs c)[t := EnqSleep d]\<rparr>)"
| enqueue_done: "t < length (pcs c) \<Longrightarrow> pcs c ! t = EnqTest d \<Longrightarrow>
    tsqueue_enqueue (tq c) d (heap c) = Some (r, q', s') \<Longrightarrow> wakes (\<lambda>p. p = DeqSleep) ((pcs c)[t := Idle]) ps \<Longrightarrow>
    tstep tries c (c\<lparr>tq := q', heap := s', pcs := ps,
      accepted := (if r = 0 then accepted c @ [d] else accepted c)\<rparr>)"
| dequeue_sleeps: "t < length (pcs c) \<Longrightarrow> pcs c ! t = DeqTest \<Longrightarrow> tsqueue_dequeue (tq c) (heap c) = None \<Longrightarrow>
    tstep tries c (c\<lparr>pcs := (pcs c)[t := DeqSleep]\<rparr>)"
| dequeue_done: "t < length (pcs c) \<Longrightarrow> pcs c ! t = DeqTest \<Longrightarrow>
    tsqueue_dequeue (tq c) (heap c) = Some (d, q', s') \<Longrightarrow> wakes is_enq_sleep ((pcs c)[t := Idle]) ps \<Longrightarrow>
    tstep tries c (c\<lparr>tq := q', heap := s', pcs := ps, delivered := delivered c @ [d]\<rparr>)"
| try_empty: "tries \<Longrightarrow> t < length (pcs c) \<Longrightarrow> pcs c ! t = Idle \<Longrightarrow> queue_is_empty (inner (tq c)) \<Longrightarrow>
    tsqueue_try_dequeue (tq c) (heap c) = (d, q', s') \<Longrightarrow> tstep tries c (c\<lparr>tq := q', heap := s'\<rparr>)"
| try_dequeue: "tries \<Longrightarrow> t < length (pcs c) \<Longrightarrow> pcs c ! t = Idle \<Longrightarrow> \<not> queue_is_empty (inner (tq c)) \<Longrightarrow>
    tsqueue_try_dequeue (tq c) (heap c) = (d, q', s') \<Longrightarrow>
    (if d \<noteq> None then wakes is_enq_sleep (pcs c) ps else ps = pcs c) \<Longrightarrow>
    tstep tries c (c\<lparr>tq := q', heap := s', pcs := ps, delivered := delivered c @ [d]\<rparr>)"
| spurious: "t < length (pcs c) \<Longrightarrow> tstep tries c (c\<lparr>pcs := (pcs c)[t := wake_up (pcs c ! t)]\<rparr>)"

text \<open>A new queue of the given capacity with \<open>n\<close> threads around it.\<close>

definition tstart :: "nat \<Rightarrow> 'a TSQueue \<Rightarrow> os \<Rightarrow> 'a tsys" where
  "tstart n q s = \<lparr>tq = q, heap = s, pcs = replicate n Idle, accepted = [], delivered = []\<rparr>"

abbreviation treach :: "bool \<Rightarrow> 'a tsys \<Rightarrow> 'a tsys \<Rightarrow> bool" where
  "treach tries \<equiv> (tstep tries)\<^sup>*\<^sup>*"

inductive_cases tstepE: "tstep tries c c'"

section \<open>Sequential behaviour\<close>

abbreviation titems :: "'a TSQueue \<Rightarrow> 'a option list" where
  "titems q \<equiv> queue_items (inner q)"

definition tsq_ok :: "'a TSQueue \<Rightarrow> os \<Rightarrow> bool" where
  "tsq_ok q s \<longleftrightarrow> queue_ok (inner q) s \<and> (0 < tcapacity q \<longrightarrow> length (titems q) \<le> tcapacity q)"

lemma tsq_ok_frame: "tsq_ok q s \<Longrightarrow> os_ok s' \<Longrightarrow> queue_blocks (inner q) \<subseteq> live s' \<Longrightarrow> tsq_ok q s'"
  using queue_ok_frame by (auto simp: tsq_ok_def)

lemma tsqueue_create_ok:
  assumes "os_ok s" "tsqueue_create cap ff s = (Some q, s')"
  shows "tsq_ok q s' \<and> titems q = [] \<and> tcapacity q = cap \<and> socks s' = socks s \<and>
    live s' = live s \<union> insert (tself q) (queue_blocks (inner q)) \<and>
    insert (tself q) (queue_blocks (inner q)) \<inter> live s = {} \<and> tself q \<notin> queue_blocks (inner q) \<and>
    map_option freeFunc (inner q) = Some ff"
proof -
  from assms(2) obtain b s1 i where a: "malloc s = (Some b, s1)" "queue_create ff s1 = (Some i, s')"
    "q = \<lparr>inner = Some i, tcapacity = cap, tself = b\<rparr>"
    by (auto simp: tsqueue_create_def split: prod.splits option.splits)
  from queue_create_ok [OF malloc_ok [OF assms(1) a(1)] a(2)] malloc_Some(1,2) [OF a(1)] malloc_fresh [OF assms(1) a(1)]
  show ?thesis by (auto simp: a(3) tsq_ok_def)
qed

lemma tsqueue_create_oom:
  assumes "tsqueue_create cap ff s = (Some q, s')"
  shows "set (oom s') \<subseteq> set (oom s)"
proof -
  from assms obtain b s1 b' where "malloc s = (Some b, s1)" "malloc s1 = (Some b', s')"
    by (auto simp: tsqueue_create_def queue_create_def split: prod.splits option.splits)
  then show ?thesis using malloc_oom by blast
qed

lemma tsqueue_create_None:
  assumes "os_ok s" "tsqueue_create cap ff s = (None, s')"
  shows "os_ok s' \<and> live s' = live s \<and> socks s' = socks s"
proof (cases "malloc s")
  case (Pair r s1)
  show ?thesis
  proof (cases r)
    case None
    with Pair assms malloc_None [of s s1] malloc_ok [OF assms(1) Pair] show ?thesis by (simp add: tsqueue_create_def)
  next
    case (Some b)
    with Pair have m: "malloc s = (Some b, s1)" by simp
    note ok1 = malloc_ok [OF assms(1) m]
    from assms(2) m obtain s2 where q: "malloc s1 = (None, s2)" "s' = free_blk b s2"
      by (auto simp: tsqueue_create_def queue_create_def split: prod.splits option.splits)
    from malloc_None(1,2) [OF q(1)] malloc_ok [OF ok1 q(1)] malloc_Some(1,2) [OF m] malloc_fresh [OF assms(1) m] q(2)
    show ?thesis by (auto simp: os_simps intro: os_intros)
  qed
qed

lemma enqueue_blocks:
  assumes "tsq_ok q s"
  shows "tsqueue_enqueue q d s = None \<longleftrightarrow> 0 < tcapacity q \<and> length (titems q) = tcapacity q"
  using assms queue_size_items [of "inner q" s]
  by (auto simp: tsq_ok_def tsqueue_enqueue_def split: prod.splits)

lemma dequeue_blocks: "tsq_ok q s \<Longrightarrow> tsqueue_dequeue q s = None \<longleftrightarrow> titems q = []"
  using queue_is_empty_items [of "inner q" s] by (auto simp: tsq_ok_def tsqueue_dequeue_def split: prod.splits)

lemma enqueue_unbounded: "tcapacity q = 0 \<Longrightarrow> \<exists>r q' s'. tsqueue_enqueue q d s = Some (r, q', s')"
  by (cases "queue_enqueue (inner q) d s") (simp add: tsqueue_enqueue_def)

lemma tsqueue_enqueue_ok:
  assumes "tsq_ok q s" "tsqueue_enqueue q d s = Some (r, q', s')"
  shows "tsq_ok q' s' \<and> tcapacity q' = tcapacity q \<and> tself q' = tself q \<and>
    (r = 0 \<and> titems q' = titems q @ [d] \<or> r = - 1 \<and> titems q' = titems q) \<and>
    live s' - queue_blocks (inner q') = live s - queue_blocks (inner q) \<and> socks s' = socks s \<and>
    map_option freeFunc (inner q') = map_option freeFunc (inner q)"
proof -
  from assms have ok: "queue_ok (inner q) s" by (simp add: tsq_ok_def)
  from assms(2) obtain i where e: "queue_enqueue (inner q) d s = (r, i, s')" "q' = q\<lparr>inner := i\<rparr>"
    "\<not> (0 < tcapacity q \<and> tcapacity q \<le> queue_size (inner q))"
    by (auto simp: tsqueue_enqueue_def split: if_splits prod.splits)
  from queue_enqueue_spec [OF ok e(1)] e(2,3) queue_size_items [OF ok] assms(1) show ?thesis
    by (auto simp: tsq_ok_def)
qed

lemma tsqueue_dequeue_ok:
  assumes "tsq_ok q s" "tsqueue_dequeue q s = Some (d, q', s')"
  shows "tsq_ok q' s' \<and> tcapacity q' = tcapacity q \<and> tself q' = tself q \<and> titems q = d # titems q' \<and>
    live s' - queue_blocks (inner q') = live s - queue_blocks (inner q) \<and> socks s' = socks s \<and>
    map_option freeFunc (inner q') = map_option freeFunc (inner q)"
proof -
  from assms have ok: "queue_ok (inner q) s" by (simp add: tsq_ok_def)
  from assms(2) obtain i where e: "queue_dequeue (inner q) s = (d, i, s')" "q' = q\<lparr>inner := i\<rparr>"
    "\<not> queue_is_empty (inner q)" by (auto simp: tsqueue_dequeue_def split: if_splits prod.splits)
  from e(3) queue_is_empty_items [OF ok] obtain x xs where x: "titems q = x # xs" by (cases "titems q") auto
  from queue_dequeue_spec [OF ok x e(1)] e(2) x assms(1) show ?thesis by (auto simp: tsq_ok_def)
qed

lemma dequeue_first:
  assumes "tsq_ok q s" "titems q = d # r"
  shows "\<exists>q' s'. tsqueue_dequeue q s = Some (d, q', s')"
proof (cases "tsqueue_dequeue q s")
  case None
  with dequeue_blocks [OF assms(1)] assms(2) show ?thesis by simp
next
  case (Some a)
  obtain e q' s' where a: "a = (e, q', s')" by (cases a)
  with tsqueue_dequeue_ok [OF assms(1), of e q' s'] Some assms(2) show ?thesis by simp
qed

lemma try_dequeue_eq:
  "tsqueue_try_dequeue q s = (case tsqueue_dequeue q s of None \<Rightarrow> (None, q, s) | Some p \<Rightarrow> p)"
  by (auto simp: tsqueue_try_dequeue_def tsqueue_dequeue_def split: prod.splits)

section \<open>Counting threads\<close>

definition num :: "('b \<Rightarrow> bool) \<Rightarrow> 'b list \<Rightarrow> nat" where
  "num P ps = length (filter P ps)"

lemma num_upd:
  "t < length ps \<Longrightarrow> num P (ps[t := x]) + of_bool (P (ps ! t)) = num P ps + of_bool (P x)"
proof (induction ps arbitrary: t)
  case (Cons p ps)
  then show ?case by (cases t) (auto simp: num_def)
qed simp

lemma num_keep: "t < length ps \<Longrightarrow> P (ps ! t) = P x \<Longrightarrow> num P (ps[t := x]) = num P ps"
  using num_upd [of t ps P x] by simp

lemma ex_upd:
  "t < length ps \<Longrightarrow> \<not> P x \<Longrightarrow> \<exists>p \<in> set (ps[t := x]). P p \<Longrightarrow> \<exists>p \<in> set ps. P p"
  using set_update_subset_insert [of ps t x] by blast

lemma wakes_cases:
  assumes "wakes sl ps ps'"
  obtains "ps' = ps" "\<forall>p \<in> set ps. \<not> sl p"
  | u where "u < length ps" "sl (ps ! u)" "ps' = ps[u := wake_up (ps ! u)]"
proof (cases "\<exists>u < length ps. sl (ps ! u)")
  case True
  with assms that(2) show ?thesis by (auto simp: wakes_def)
next
  case False
  then have "\<forall>p \<in> set ps. \<not> sl p" by (metis in_set_conv_nth)
  moreover from False assms have "ps' = ps" by (simp only: wakes_def if_False)
  ultimately show ?thesis using that(1) by blast
qed

lemma wakes_none: "\<forall>p \<in> set ps. \<not> sl p \<Longrightarrow> wakes sl ps ps"
  by (auto simp: wakes_def)

text \<open>What a wake-up on \<open>cvNotEmpty\<close> does to the counters.\<close>

lemma wakes_deq:
  assumes "wakes (\<lambda>p. p = DeqSleep) ps ps'"
  shows "length ps' = length ps \<and> num is_enq_test ps' = num is_enq_test ps \<and>
    ((\<exists>p \<in> set ps'. is_enq_sleep p) \<longrightarrow> (\<exists>p \<in> set ps. is_enq_sleep p)) \<and>
    (DeqSleep \<in> set ps' \<longrightarrow> num (\<lambda>p. p = DeqTest) ps' = num (\<lambda>p. p = DeqTest) ps + 1 \<and> DeqSleep \<in> set ps)"
  using assms
proof (cases rule: wakes_cases)
  case (2 u)
  then have ps': "ps' = ps[u := DeqTest]" by simp
  have "DeqSleep \<in> set ps" using 2(1,2) nth_mem by fastforce
  moreover have "num is_enq_test ps' = num is_enq_test ps" unfolding ps' using 2 by (intro num_keep) auto
  moreover have "num (\<lambda>p. p = DeqTest) ps' = num (\<lambda>p. p = DeqTest) ps + 1"
    unfolding ps' using num_upd [OF 2(1), of "\<lambda>p. p = DeqTest" DeqTest] 2(2) by simp
  moreover have "(\<exists>p \<in> set ps'. is_enq_sleep p) \<longrightarrow> (\<exists>p \<in> set ps. is_enq_sleep p)"
    unfolding ps' using ex_upd [OF 2(1), of is_enq_sleep DeqTest] by simp
  ultimately show ?thesis by (simp add: ps')
qed auto

text \<open>The same for \<open>cvNotFull\<close>.\<close>

lemma wakes_enq:
  assumes "wakes is_enq_sleep ps ps'"
  shows "length ps' = length ps \<and> num (\<lambda>p. p = DeqTest) ps' = num (\<lambda>p. p = DeqTest) ps \<and>
    (DeqSleep \<in> set ps' \<longrightarrow> DeqSleep \<in> set ps) \<and>
    ((\<exists>p \<in> set ps'. is_enq_sleep p) \<longrightarrow> num is_enq_test ps' = num is_enq_test ps + 1 \<and> (\<exists>p \<in> set ps. is_enq_sleep p))"
  using assms
proof (cases rule: wakes_cases)
  case (2 u)
  then obtain d where d: "ps ! u = EnqSleep d" by (cases "ps ! u") auto
  with 2 have ps': "ps' = ps[u := EnqTest d]" by simp
  have "\<exists>p \<in> set ps. is_enq_sleep p" using 2(1,2) nth_mem by blast
  moreover have "num (\<lambda>p. p = DeqTest) ps' = num (\<lambda>p. p = DeqTest) ps" unfolding ps' using 2 d by (intro num_keep) auto
  moreover have "num is_enq_test ps' = num is_enq_test ps + 1"
    unfolding ps' using num_upd [OF 2(1), of is_enq_test "EnqTest d"] d by simp
  moreover have "DeqSleep \<in> set ps' \<longrightarrow> DeqSleep \<in> set ps"
    unfolding ps' using ex_upd [OF 2(1), of "\<lambda>p. p = DeqSleep" "EnqTest d"] by blast
  ultimately show ?thesis by (simp add: ps')
qed auto

section \<open>Invariants\<close>

text \<open>
  The items inside and the history; and: while a consumer sleeps, there are at least as many
  consumers on their way to the test as there are items.
\<close>

definition tinv :: "'a tsys \<Rightarrow> bool" where
  "tinv c \<longleftrightarrow> tsq_ok (tq c) (heap c) \<and> accepted c = delivered c @ titems (tq c) \<and>
     (DeqSleep \<in> set (pcs c) \<longrightarrow> length (titems (tq c)) \<le> num (\<lambda>p. p = DeqTest) (pcs c))"

lemma deq_sleep_upd: "t < length ps \<Longrightarrow> x \<noteq> DeqSleep \<Longrightarrow> DeqSleep \<in> set (ps[t := x]) \<Longrightarrow> DeqSleep \<in> set ps"
  using ex_upd [of t ps "\<lambda>p. p = DeqSleep" x] by blast

lemma tstep_tinv:
  assumes "tstep tries c c'" "tinv c"
  shows "tinv c' \<and> length (pcs c') = length (pcs c) \<and> tcapacity (tq c') = tcapacity (tq c)"
  using assms
proof (cases rule: tstep.cases)
  case (call_enqueue t d)
  with assms(2) num_keep [of t "pcs c" "\<lambda>p. p = DeqTest" "EnqTest d"] show ?thesis
    by (auto simp: tinv_def dest: deq_sleep_upd [rotated 2])
next
  case (call_dequeue t)
  with assms(2) num_upd [of t "pcs c" "\<lambda>p. p = DeqTest" DeqTest] show ?thesis
    by (auto simp: tinv_def dest: deq_sleep_upd [rotated 2])
next
  case (enqueue_sleeps t d)
  with assms(2) num_keep [of t "pcs c" "\<lambda>p. p = DeqTest" "EnqSleep d"] show ?thesis
    by (auto simp: tinv_def dest: deq_sleep_upd [rotated 2])
next
  case (enqueue_done t d r q' s' ps)
  from assms(2) have ok: "tsq_ok (tq c) (heap c)" by (simp add: tinv_def)
  from tsqueue_enqueue_ok [OF ok enqueue_done(4)] wakes_deq [OF enqueue_done(5)] assms(2) enqueue_done(1-3)
    num_keep [of t "pcs c" "\<lambda>p. p = DeqTest" Idle]
  show ?thesis by (auto simp: tinv_def dest: deq_sleep_upd [rotated 2])
next
  case (dequeue_sleeps t)
  from assms(2) have ok: "tsq_ok (tq c) (heap c)" by (simp add: tinv_def)
  with dequeue_sleeps assms(2) dequeue_blocks [OF ok] show ?thesis by (simp add: tinv_def)
next
  case (dequeue_done t d q' s' ps)
  from assms(2) have ok: "tsq_ok (tq c) (heap c)" by (simp add: tinv_def)
  from tsqueue_dequeue_ok [OF ok dequeue_done(4)] wakes_enq [OF dequeue_done(5)] assms(2) dequeue_done(1-3)
    num_upd [of t "pcs c" "\<lambda>p. p = DeqTest" Idle]
  show ?thesis by (auto simp: tinv_def dest: deq_sleep_upd [rotated 2])
next
  case (try_empty t d q' s')
  with assms(2) show ?thesis by (simp add: tinv_def tsqueue_try_dequeue_def)
next
  case (try_dequeue t d q' s' ps)
  from assms(2) have ok: "tsq_ok (tq c) (heap c)" by (simp add: tinv_def)
  from try_dequeue(5,6) have "tsqueue_dequeue (tq c) (heap c) = Some (d, q', s')"
    by (auto simp: tsqueue_dequeue_def tsqueue_try_dequeue_def split: prod.splits)
  from tsqueue_dequeue_ok [OF ok this] wakes_enq [of "pcs c" ps] assms(2) try_dequeue(1,7)
  show ?thesis by (auto simp: tinv_def split: if_splits)
next
  case (spurious t)
  with assms(2) num_upd [of t "pcs c" "\<lambda>p. p = DeqTest" "wake_up (pcs c ! t)"] show ?thesis
    by (cases "pcs c ! t") (auto simp: tinv_def dest: deq_sleep_upd [rotated 2])
qed

lemma treach_tinv:
  assumes "treach tries c c'" "tinv c"
  shows "tinv c' \<and> length (pcs c') = length (pcs c) \<and> tcapacity (tq c') = tcapacity (tq c)"
  using assms by (induction rule: rtranclp_induct) (auto dest: tstep_tinv)

lemma tstart_tinv: "tsq_ok q s \<Longrightarrow> titems q = [] \<Longrightarrow> tinv (tstart n q s)"
  by (simp add: tinv_def tstart_def)

text \<open>
  The producers: while one sleeps, the free places are covered by producers on their way to the
  test.  This needs that no allocation fails and that \<open>tsqueue_try_dequeue\<close> is not used.
\<close>

definition pinv :: "'a tsys \<Rightarrow> bool" where
  "pinv c \<longleftrightarrow> True \<notin> set (oom (heap c)) \<and>
     ((\<exists>p \<in> set (pcs c). is_enq_sleep p) \<longrightarrow>
       tcapacity (tq c) \<le> length (titems (tq c)) + num is_enq_test (pcs c))"

lemma enqueue_succeeds:
  assumes "tsq_ok q s" "tsqueue_enqueue q d s = Some (r, q', s')" "True \<notin> set (oom s)"
  shows "r = 0 \<and> True \<notin> set (oom s')"
proof -
  from malloc_succeeds [OF assms(3)] obtain b t where "malloc s = (Some b, t)" "True \<notin> set (oom t)" by blast
  with assms(1,2) show ?thesis
    by (auto simp: tsqueue_enqueue_def queue_enqueue_def queue_link_def tsq_ok_def queue_ok_def Let_def
      split: if_splits option.splits prod.splits)
qed

lemma enqueue_oom: "tsqueue_enqueue q d s = Some (r, q', s') \<Longrightarrow> set (oom s') \<subseteq> set (oom s)"
  by (auto simp: tsqueue_enqueue_def queue_enqueue_def queue_link_def Let_def split: if_splits prod.splits option.splits dest!: malloc_oom)

lemma dequeue_oom: "tsqueue_dequeue q s = Some (d, q', s') \<Longrightarrow> oom s' = oom s"
  by (auto simp: tsqueue_dequeue_def queue_dequeue_def Let_def os_simps split: if_splits option.splits prod.splits)

lemma tstep_pinv:
  assumes "tstep False c c'" "tinv c" "pinv c"
  shows "pinv c'"
  using assms(1)
proof (cases rule: tstep.cases)
  case (call_enqueue t d)
  with assms(3) num_upd [of t "pcs c" is_enq_test "EnqTest d"] ex_upd [of t "pcs c" is_enq_sleep "EnqTest d"]
  show ?thesis by (auto simp: pinv_def)
next
  case (call_dequeue t)
  with assms(3) num_keep [of t "pcs c" is_enq_test DeqTest] ex_upd [of t "pcs c" is_enq_sleep DeqTest]
  show ?thesis by (auto simp: pinv_def)
next
  case (enqueue_sleeps t d)
  from assms(2) have ok: "tsq_ok (tq c) (heap c)" by (simp add: tinv_def)
  with enqueue_sleeps assms(3) enqueue_blocks [OF ok] show ?thesis by (simp add: pinv_def)
next
  case (enqueue_done t d r q' s' ps)
  from assms(2) have ok: "tsq_ok (tq c) (heap c)" by (simp add: tinv_def)
  from assms(3) have "True \<notin> set (oom (heap c))" by (simp add: pinv_def)
  from enqueue_succeeds [OF ok enqueue_done(4) this] tsqueue_enqueue_ok [OF ok enqueue_done(4)]
    wakes_deq [OF enqueue_done(5)] assms(3) enqueue_done(1-3)
    num_upd [of t "pcs c" is_enq_test Idle] ex_upd [of t "pcs c" is_enq_sleep Idle]
  show ?thesis by (auto simp: pinv_def)
next
  case (dequeue_sleeps t)
  with assms(3) num_keep [of t "pcs c" is_enq_test DeqSleep] ex_upd [of t "pcs c" is_enq_sleep DeqSleep]
  show ?thesis by (auto simp: pinv_def)
next
  case (dequeue_done t d q' s' ps)
  from assms(2) have ok: "tsq_ok (tq c) (heap c)" by (simp add: tinv_def)
  from dequeue_oom [OF dequeue_done(4)] tsqueue_dequeue_ok [OF ok dequeue_done(4)] wakes_enq [OF dequeue_done(5)]
    assms(3) dequeue_done(1-3) num_keep [of t "pcs c" is_enq_test Idle] ex_upd [of t "pcs c" is_enq_sleep Idle]
  show ?thesis by (auto simp: pinv_def)
next
  case (spurious t)
  with assms(3) num_upd [of t "pcs c" is_enq_test "wake_up (pcs c ! t)"] ex_upd [of t "pcs c" is_enq_sleep "wake_up (pcs c ! t)"]
  show ?thesis by (cases "pcs c ! t") (auto simp: pinv_def)
qed auto

lemma treach_pinv:
  assumes "treach False c c'" "tinv c" "pinv c"
  shows "tinv c' \<and> pinv c'"
  using assms by (induction rule: rtranclp_induct) (auto dest: tstep_tinv tstep_pinv)

section \<open>Tearing a queue down\<close>

context destructor
begin

lemma tsqueue_destroy_releases:
  assumes "tsq_ok q s" "map_option freeFunc (inner q) = Some (Some destroy)"
    and "distinct (owns (somes (titems q)))"
    and "set (owns (somes (titems q))) \<subseteq> live s - insert (tself q) (queue_blocks (inner q))"
    and "tself q \<in> live s" "tself q \<notin> queue_blocks (inner q)"
  shows "tsqueue_destroy (Some q) s =
    Some (release (insert (tself q) (queue_blocks (inner q) \<union> set (owns (somes (titems q)))))
      (owns_socks (somes (titems q))) s)"
proof -
  from assms(2) obtain i where i: "inner q = Some i" "freeFunc i = Some destroy" by auto
  have "queue_destroy (Some i) s =
      Some (release (queue_blocks (Some i) \<union> set (owns (somes (queue_items (Some i)))))
        (owns_socks (somes (queue_items (Some i)))) s)"
    using assms(1,3,4) i by (intro queue_destroy_releases) (auto simp: tsq_ok_def)
  moreover have "tself q \<in> live (release (queue_blocks (Some i) \<union> set (owns (somes (queue_items (Some i)))))
        (owns_socks (somes (queue_items (Some i)))) s)"
    using assms(4-6) i by (auto simp: release_sel)
  ultimately show ?thesis using i by (simp add: tsqueue_destroy_def free_blk_live release_release)
qed

end

section \<open>Properties\<close>

text \<open>
  C20. Under every interleaving of any number of producers and consumers, with spurious wake-ups
  and allocation failures, the thread-safe queue stays a bounded FIFO queue: what was handed out
  followed by what is inside is what was accepted, in order, so nothing is lost, duplicated or
  reordered; a bounded queue never holds more than its capacity; no undefined behaviour occurs.
\<close>

theorem tsqueue_bounded_fifo:
  assumes "os_ok s" "tsqueue_create cap ff s = (Some q, s1)" "treach tries (tstart n q s1) c"
  shows "accepted c = delivered c @ titems (tq c) \<and> (0 < cap \<longrightarrow> length (titems (tq c)) \<le> cap) \<and> os_ok (heap c)"
proof -
  from tsqueue_create_ok [OF assms(1,2)] have q: "tsq_ok q s1" "titems q = []" "tcapacity q = cap" by auto
  from treach_tinv [OF assms(3) tstart_tinv [OF q(1,2)]] q(3) show ?thesis
    by (auto simp: tinv_def tsq_ok_def queue_ok_def tstart_def)
qed

text \<open>A thread enqueues an item for which two others are waiting.\<close>

lemma demo_handover:
  fixes ff :: "(nat \<Rightarrow> os \<Rightarrow> os) option"
  assumes "tsqueue_create cap ff fresh_os = (Some q, s1)"
  shows "\<exists>q' s'. treach False (tstart 3 q s1)
    \<lparr>tq = q', heap = s', pcs = [DeqTest, DeqSleep, Idle], accepted = [Some 5], delivered = []\<rparr> \<and> titems q' = [Some 5]"
proof -
  from tsqueue_create_ok [OF fresh_os_ok(1) assms] have q: "tsq_ok q s1" "titems q = []" "tcapacity q = cap" by auto
  have nooom: "True \<notin> set (oom s1)" using assms
    by (auto simp: tsqueue_create_def queue_create_def malloc_def fresh_os_def)
  let ?c = "\<lambda>ps. \<lparr>tq = q, heap = s1, pcs = ps, accepted = [], delivered = []\<rparr>"
  obtain r q' s' where e: "tsqueue_enqueue q (Some 5) s1 = Some (r, q', s')"
    using enqueue_blocks [OF q(1), of "Some 5"] q(2,3) by (cases "tsqueue_enqueue q (Some 5) s1") auto
  have r: "r = 0" using enqueue_succeeds [OF q(1) e nooom] by simp
  have empty: "tsqueue_dequeue q s1 = None" using dequeue_blocks [OF q(1)] q(2) by simp
  have w: "wakes (\<lambda>p. p = DeqSleep) [DeqSleep, DeqSleep, Idle] [DeqTest, DeqSleep, Idle :: nat pc]"
    unfolding wakes_def by (rule if_P [THEN iffD2]) (auto intro!: exI [of _ 0])
  have "treach False (?c [Idle, Idle, Idle]) (?c [DeqTest, Idle, Idle])"
    using tstep.call_dequeue [of 0 "?c [Idle, Idle, Idle]"] by (intro r_into_rtranclp) simp
  also have "treach False \<dots> (?c [DeqSleep, Idle, Idle])"
    using tstep.dequeue_sleeps [of 0 "?c [DeqTest, Idle, Idle]"] empty by (intro r_into_rtranclp) simp
  also have "treach False \<dots> (?c [DeqSleep, DeqTest, Idle])"
    using tstep.call_dequeue [of 1 "?c [DeqSleep, Idle, Idle]"] by (intro r_into_rtranclp) simp
  also have "treach False \<dots> (?c [DeqSleep, DeqSleep, Idle])"
    using tstep.dequeue_sleeps [of 1 "?c [DeqSleep, DeqTest, Idle]"] empty by (intro r_into_rtranclp) simp
  also have "treach False \<dots> (?c [DeqSleep, DeqSleep, EnqTest (Some 5)])"
    using tstep.call_enqueue [of 2 "?c [DeqSleep, DeqSleep, Idle]"] by (intro r_into_rtranclp) simp
  also have "treach False \<dots> \<lparr>tq = q', heap = s', pcs = [DeqTest, DeqSleep, Idle], accepted = [Some 5], delivered = []\<rparr>"
    using tstep.enqueue_done [of 2 "?c [DeqSleep, DeqSleep, EnqTest (Some 5)]" "Some 5" r q' s' "[DeqTest, DeqSleep, Idle]"] e w r
    by (intro r_into_rtranclp) simp
  finally show ?thesis using tsqueue_enqueue_ok [OF q(1) e] r q(2) by (auto simp: tstart_def numeral_eq_Suc)
qed

theorem tsqueue_bounded_fifo_witness:
  "\<exists>q s1 c. tsqueue_create 0 None fresh_os = (Some q, s1) \<and> treach False (tstart 3 q s1) c \<and>
     accepted c = [Some (5 :: nat)] \<and> accepted c = delivered c @ titems (tq c) \<and> os_ok (heap c)"
proof -
  obtain q :: "nat TSQueue" and s1 where q: "tsqueue_create 0 None fresh_os = (Some q, s1)"
    by (simp add: tsqueue_create_def queue_create_def malloc_def fresh_os_def)
  from demo_handover [OF q] obtain q' s'
    where r: "treach False (tstart 3 q s1) \<lparr>tq = q', heap = s', pcs = [DeqTest, DeqSleep, Idle], accepted = [Some 5], delivered = []\<rparr>"
    by blast
  from tsqueue_bounded_fifo [OF fresh_os_ok(1) q r] q r show ?thesis by (intro exI conjI) auto
qed

text \<open>
  C22. No lost wake-ups: as long as no allocation fails and only the blocking calls are used, in
  every reachable state a consumer that sleeps although there are items is accompanied by a
  consumer that is awake, and a producer that sleeps although there is room by a producer that is
  awake; so when all threads are idle or asleep, sleeping consumers face an empty queue and
  sleeping producers a full one.
\<close>

theorem tsqueue_no_lost_wakeup:
  assumes "os_ok s" "True \<notin> set (oom s)" "tsqueue_create cap ff s = (Some q, s1)" "treach False (tstart n q s1) c"
  shows "(DeqSleep \<in> set (pcs c) \<and> titems (tq c) \<noteq> [] \<longrightarrow> DeqTest \<in> set (pcs c)) \<and>
    ((\<exists>p \<in> set (pcs c). is_enq_sleep p) \<and> length (titems (tq c)) < cap \<longrightarrow> (\<exists>p \<in> set (pcs c). is_enq_test p))"
proof -
  from tsqueue_create_ok [OF assms(1,3)] have q: "tsq_ok q s1" "titems q = []" "tcapacity q = cap" by auto
  have "True \<notin> set (oom s1)" using tsqueue_create_oom [OF assms(3)] assms(2) by blast
  then have "pinv (tstart n q s1)" by (simp add: pinv_def tstart_def)
  from treach_pinv [OF assms(4) tstart_tinv [OF q(1,2)] this] have i: "tinv c" "pinv c" by auto
  from treach_tinv [OF assms(4) tstart_tinv [OF q(1,2)]] q(3) have cap: "tcapacity (tq c) = cap" by (simp add: tstart_def)
  have pos: "0 < num P ps \<Longrightarrow> \<exists>p \<in> set ps. P p" for P and ps :: "'a pc list"
    by (auto simp: num_def filter_empty_conv)
  have "DeqTest \<in> set (pcs c)" if "DeqSleep \<in> set (pcs c)" "titems (tq c) \<noteq> []"
  proof -
    have "0 < length (titems (tq c))" using that(2) by simp
    also have "\<dots> \<le> num (\<lambda>p. p = DeqTest) (pcs c)" using i(1) that(1) by (simp add: tinv_def)
    finally show ?thesis using pos [of "\<lambda>p. p = DeqTest" "pcs c"] by simp
  qed
  moreover have "\<exists>p \<in> set (pcs c). is_enq_test p"
    if "\<exists>p \<in> set (pcs c). is_enq_sleep p" "length (titems (tq c)) < cap"
    using i(2) that cap by (intro pos) (auto simp: pinv_def)
  ultimately show ?thesis by blast
qed

theorem tsqueue_no_lost_wakeup_witness:
  "\<exists>q s1 c. tsqueue_create 1 None fresh_os = (Some q, s1) \<and> treach False (tstart 3 q s1) c \<and>
     DeqSleep \<in> set (pcs c) \<and> titems (tq c) = [Some (5 :: nat)] \<and> DeqTest \<in> set (pcs c)"
proof -
  obtain q :: "nat TSQueue" and s1 where q: "tsqueue_create 1 None fresh_os = (Some q, s1)"
    by (simp add: tsqueue_create_def queue_create_def malloc_def fresh_os_def)
  from demo_handover [OF q] obtain q' s'
    where r: "treach False (tstart 3 q s1) \<lparr>tq = q', heap = s', pcs = [DeqTest, DeqSleep, Idle], accepted = [Some 5], delivered = []\<rparr>"
      "titems q' = [Some 5]"
    by blast
  from tsqueue_no_lost_wakeup [OF fresh_os_ok(1) _ q r(1)] q r show ?thesis by (intro exI conjI) auto
qed

lemma enqueue_False:
  assumes "tsq_ok q s" "tsqueue_enqueue q d s = Some (r, q', s')" "oom s = False # os"
  shows "r = 0 \<and> oom s' = os"
  using assms by (auto simp: tsqueue_enqueue_def queue_enqueue_def queue_link_def malloc_def tsq_ok_def queue_ok_def Let_def
      split: if_splits option.splits prod.splits)

lemma enqueue_True:
  assumes "tsq_ok q s" "tsqueue_enqueue q d s = Some (r, q', s')" "oom s = True # os"
  shows "r = - 1"
  using assms by (auto simp: tsqueue_enqueue_def queue_enqueue_def malloc_def tsq_ok_def queue_ok_def split: if_splits)

text \<open>
  C24. The condition on allocation failures is needed: \<open>tsqueue_enqueue\<close> signals \<open>cvNotEmpty\<close> but
  not \<open>cvNotFull\<close> when its allocation fails, so there is an execution of a queue with one place in
  which a producer sleeps for ever next to an empty queue while every other thread is idle.
\<close>

theorem tsqueue_oom_loses_wakeup:
  "\<exists>(q :: nat TSQueue) s1 c. tsqueue_create 1 None (fresh_os\<lparr>oom := [False, False, False, True]\<rparr>) = (Some q, s1) \<and>
     treach False (tstart 3 q s1) c \<and> pcs c = [Idle, Idle, EnqSleep (Some 3)] \<and> titems (tq c) = []"
proof -
  let ?s = "fresh_os\<lparr>oom := [False, False, False, True]\<rparr>"
  obtain q :: "nat TSQueue" and s1 where q: "tsqueue_create 1 None ?s = (Some q, s1)" and o1: "oom s1 = [False, True]"
    by (simp add: tsqueue_create_def queue_create_def malloc_def fresh_os_def)
  have "os_ok ?s" by (simp add: os_ok_def fresh_os_def)
  from tsqueue_create_ok [OF this q] have ok: "tsq_ok q s1" "titems q = []" "tcapacity q = 1" by auto
  obtain r q1 s2 where e: "tsqueue_enqueue q (Some 1) s1 = Some (r, q1, s2)"
    using enqueue_blocks [OF ok(1), of "Some 1"] ok(2,3) by (cases "tsqueue_enqueue q (Some 1) s1") auto
  from enqueue_False [OF ok(1) e o1] have r: "r = 0" and o2: "oom s2 = [True]" by auto
  from tsqueue_enqueue_ok [OF ok(1) e] r ok(2,3) have ok1: "tsq_ok q1 s2" "titems q1 = [Some 1]" "tcapacity q1 = 1" by auto
  obtain d q2 s3 where d: "tsqueue_dequeue q1 s2 = Some (d, q2, s3)"
    using dequeue_blocks [OF ok1(1)] ok1(2) by (cases "tsqueue_dequeue q1 s2") auto
  from tsqueue_dequeue_ok [OF ok1(1) d] ok1(2,3) have ok2: "tsq_ok q2 s3" "titems q2 = []" "tcapacity q2 = 1" "d = Some 1" by auto
  obtain r' q3 s4 where f: "tsqueue_enqueue q2 (Some 2) s3 = Some (r', q3, s4)"
    using enqueue_blocks [OF ok2(1), of "Some 2"] ok2(2,3) by (cases "tsqueue_enqueue q2 (Some 2) s3") auto
  have "r' = - 1" using enqueue_True [OF ok2(1) f] dequeue_oom [OF d] o2 by simp
  with tsqueue_enqueue_ok [OF ok2(1) f] ok2(2) have ok3: "titems q3 = []" "r' \<noteq> 0" by auto
  let ?a = "\<lambda>ps. \<lparr>tq = q, heap = s1, pcs = ps, accepted = [], delivered = []\<rparr>"
  let ?b = "\<lambda>ps. \<lparr>tq = q1, heap = s2, pcs = ps, accepted = [Some 1], delivered = []\<rparr>"
  let ?c = "\<lambda>ps. \<lparr>tq = q2, heap = s3, pcs = ps, accepted = [Some 1], delivered = [Some 1]\<rparr>"
  have full: "tsqueue_enqueue q1 x s2 = None" for x using enqueue_blocks [OF ok1(1)] ok1 by simp
  have w0: "wakes (\<lambda>p. p = DeqSleep) [Idle, Idle, Idle] [Idle, Idle, Idle :: nat pc]"
    and w1: "wakes (\<lambda>p. p = DeqSleep) [Idle, Idle, EnqSleep (Some 3)] [Idle, Idle, EnqSleep (Some (3 :: nat))]"
    by (rule wakes_none, simp)+
  have w2: "wakes is_enq_sleep [Idle, EnqSleep (Some 2), EnqSleep (Some 3)] [Idle, EnqTest (Some 2), EnqSleep (Some (3 :: nat))]"
    unfolding wakes_def by (rule if_P [THEN iffD2]) (auto intro!: exI [of _ 1])
  have "treach False (?a [Idle, Idle, Idle]) (?a [EnqTest (Some 1), Idle, Idle])"
    using tstep.call_enqueue [of 0 "?a [Idle, Idle, Idle]"] by (intro r_into_rtranclp) simp
  also have "treach False \<dots> (?b [Idle, Idle, Idle])"
    using tstep.enqueue_done [of 0 "?a [EnqTest (Some 1), Idle, Idle]" "Some 1" r q1 s2 "[Idle, Idle, Idle]"] e r w0
    by (intro r_into_rtranclp) simp
  also have "treach False \<dots> (?b [Idle, EnqTest (Some 2), Idle])"
    using tstep.call_enqueue [of 1 "?b [Idle, Idle, Idle]"] by (intro r_into_rtranclp) simp
  also have "treach False \<dots> (?b [Idle, EnqSleep (Some 2), Idle])"
    using tstep.enqueue_sleeps [of 1 "?b [Idle, EnqTest (Some 2), Idle]"] full by (intro r_into_rtranclp) simp
  also have "treach False \<dots> (?b [Idle, EnqSleep (Some 2), EnqTest (Some 3)])"
    using tstep.call_enqueue [of 2 "?b [Idle, EnqSleep (Some 2), Idle]"] by (intro r_into_rtranclp) simp
  also have "treach False \<dots> (?b [Idle, EnqSleep (Some 2), EnqSleep (Some 3)])"
    using tstep.enqueue_sleeps [of 2 "?b [Idle, EnqSleep (Some 2), EnqTest (Some 3)]"] full by (intro r_into_rtranclp) simp
  also have "treach False \<dots> (?b [DeqTest, EnqSleep (Some 2), EnqSleep (Some 3)])"
    using tstep.call_dequeue [of 0 "?b [Idle, EnqSleep (Some 2), EnqSleep (Some 3)]"] by (intro r_into_rtranclp) simp
  also have "treach False \<dots> (?c [Idle, EnqTest (Some 2), EnqSleep (Some 3)])"
    using tstep.dequeue_done [of 0 "?b [DeqTest, EnqSleep (Some 2), EnqSleep (Some 3)]" "Some 1" q2 s3] d ok2(4) w2
    by (intro r_into_rtranclp) simp
  also have "treach False \<dots> (?c [Idle, Idle, EnqSleep (Some 3)]\<lparr>tq := q3, heap := s4\<rparr>)"
    using tstep.enqueue_done [of 1 "?c [Idle, EnqTest (Some 2), EnqSleep (Some 3)]" "Some 2" r' q3 s4] f ok3(2) w1
    by (intro r_into_rtranclp) simp
  finally show ?thesis using q ok3(1) by (intro exI conjI) (auto simp: tstart_def numeral_eq_Suc)
qed

end
