(* ===== verification/QueueOwner.thy ===== *)
theory QueueOwner
  imports TSQueue Warning
begin

text \<open>
  Who owns what, for the programs that pass objects through a thread-safe queue (the dispatcher,
  the destination, the source): \<open>qholds L K own X q s\<close> says that besides the blocks \<open>L\<close> of the
  surrounding program and the nodes of the queue, exactly the blocks \<open>X\<close> and those of the queued
  objects are live, each once, and that \<open>K\<close> are the open sockets.  The lemmas say how every
  operation moves blocks between \<open>L\<close>, \<open>X\<close> and the queue.
\<close>

definition qholds :: "nat set \<Rightarrow> SOCKET set \<Rightarrow> ('a \<Rightarrow> nat list) \<Rightarrow> nat list \<Rightarrow> 'a TSQueue \<Rightarrow> os \<Rightarrow> bool" where
  "qholds L K own X q s \<longleftrightarrow> tsq_ok q s \<and>
     live s - queue_blocks (inner q) = L \<union> set (X @ concat (map own (somes (titems q)))) \<and>
     distinct (X @ concat (map own (somes (titems q)))) \<and>
     set (X @ concat (map own (somes (titems q)))) \<inter> L = {} \<and> socks s = K"

lemma qholds_ok: "qholds L K own X q s \<Longrightarrow> os_ok s \<and> queue_blocks (inner q) \<subseteq> live s"
  using queue_blocks_live [of "inner q" s] by (auto simp: qholds_def tsq_ok_def queue_ok_def)

lemma qholds_perm:
  assumes "mset X = mset Y"
  shows "qholds L K own X q s \<longleftrightarrow> qholds L K own Y q s"
proof -
  from assms have "set X = set Y" "distinct X = distinct Y" by (auto dest: mset_eq_setD mset_eq_imp_distinct_iff)
  then show ?thesis by (simp add: qholds_def)
qed

text \<open>Blocks change hands between the surrounding program and the holder.\<close>

lemma qholds_claim:
  assumes "qholds (L \<union> set Y) K own X q s" "distinct Y" "set Y \<inter> L = {}"
  shows "qholds L K own (Y @ X) q s"
  using assms by (auto simp: qholds_def)

lemma qholds_yield:
  assumes "qholds L K own (Y @ X) q s"
  shows "qholds (L \<union> set Y) K own X q s" "distinct Y" "set Y \<inter> L = {}"
  using assms by (auto simp: qholds_def)

lemma qholds_frame:
  assumes "qholds L K own X q s" "os_ok s'" "live s' = live s \<union> set B" "socks s' = socks s" "distinct B" "set B \<inter> live s = {}"
  shows "qholds L K own (B @ X) q s'"
proof -
  from qholds_ok [OF assms(1)] have qb: "queue_blocks (inner q) \<subseteq> live s" ..
  then have "tsq_ok q s'" using assms by (intro tsq_ok_frame [of q s s']) (auto simp: qholds_def)
  moreover have "live s' - queue_blocks (inner q) = (live s - queue_blocks (inner q)) \<union> set B" using qb assms(3,6) by blast
  moreover have "set B \<inter> (live s - queue_blocks (inner q)) = {}" using assms(6) by blast
  ultimately show ?thesis using assms(1,4,5) unfolding qholds_def by auto
qed

lemma qholds_malloc: "qholds L K own X q s \<Longrightarrow> malloc s = (Some b, s') \<Longrightarrow> qholds L K own (b # X) q s'"
  using qholds_frame [of L K own X q s s' "[b]"] qholds_ok [of L K own X q s]
    malloc_fresh [of s b s'] malloc_ok [of s "Some b" s'] malloc_Some(1,2) [of s b s'] by auto

lemma qholds_malloc_None: "qholds L K own X q s \<Longrightarrow> malloc s = (None, s') \<Longrightarrow> qholds L K own X q s'"
  using qholds_frame [of L K own X q s s' "[]"] qholds_ok [of L K own X q s]
    malloc_ok [of s None s'] malloc_None [of s s'] by auto

lemma qholds_release:
  assumes "qholds L K own (B @ X) q s"
  shows "qholds L K own X q (release (set B) {} s)"
proof -
  from assms have d: "live s - queue_blocks (inner q) = L \<union> set ((B @ X) @ concat (map own (somes (titems q))))"
    "distinct ((B @ X) @ concat (map own (somes (titems q))))" "set ((B @ X) @ concat (map own (somes (titems q)))) \<inter> L = {}"
    "tsq_ok q s" "socks s = K" by (auto simp: qholds_def)
  from qholds_ok [OF assms] have ok: "os_ok s" "queue_blocks (inner q) \<subseteq> live s" by auto
  have "set B \<inter> queue_blocks (inner q) = {}" using d(1) by auto
  then have "tsq_ok q (release (set B) {} s)"
    using ok by (intro tsq_ok_frame [OF d(4)]) (auto simp: release_sel intro: os_intros)
  moreover have "live s - set B - queue_blocks (inner q) = L \<union> set (X @ concat (map own (somes (titems q))))"
  proof -
    have "live s - set B - queue_blocks (inner q) = (live s - queue_blocks (inner q)) - set B" by blast
    also have "\<dots> = L \<union> set (X @ concat (map own (somes (titems q))))" unfolding d(1) using d(2,3) by auto
    finally show ?thesis .
  qed
  ultimately show ?thesis using d by (auto simp: qholds_def release_sel)
qed

lemma qholds_sub: "qholds L K own (B @ X) q s \<Longrightarrow> set B \<subseteq> live s \<and> distinct B"
  by (auto simp: qholds_def)

lemma qholds_free: "qholds L K own (b # X) q s \<Longrightarrow> qholds L K own X q (free_blk b s)"
  using qholds_release [of L K own "[b]" X q s] qholds_sub [of L K own "[b]" X q s] by (simp add: free_blk_live)

lemma qholds_create:
  assumes "os_ok s" "tsqueue_create cap ff s = (Some q, s')"
  shows "qholds (live s) (socks s) own [tself q] q s'"
  using tsqueue_create_ok [OF assms] by (auto simp: qholds_def)

lemma qholds_upd:
  assumes "qholds L K own X q s" "tsq_ok q' s'" "live s' - queue_blocks (inner q') = live s - queue_blocks (inner q)"
    and "socks s' = socks s" "mset (X' @ concat (map own (somes (titems q')))) = mset (X @ concat (map own (somes (titems q))))"
  shows "qholds L K own X' q' s'"
  using assms(1) unfolding qholds_def mset_eq_setD [OF assms(5)] mset_eq_imp_distinct_iff [OF assms(5)] assms(3,4)
  using assms(2) by blast

lemma qholds_enqueue:
  assumes "qholds L K own (own x @ X) q s" "tsqueue_enqueue q (Some x) s = Some (r, q', s')"
  shows "(r = 0 \<and> titems q' = titems q @ [Some x] \<and> qholds L K own X q' s' \<or>
      r = - 1 \<and> titems q' = titems q \<and> qholds L K own (own x @ X) q' s') \<and>
    tcapacity q' = tcapacity q \<and> tself q' = tself q \<and> map_option freeFunc (inner q') = map_option freeFunc (inner q)"
proof -
  from assms(1) have "tsq_ok q s" by (simp add: qholds_def)
  note E = tsqueue_enqueue_ok [OF this assms(2)]
  have "qholds L K own X q' s'" if "titems q' = titems q @ [Some x]"
    by (rule qholds_upd [OF assms(1)]) (use E that in simp_all)
  moreover have "qholds L K own (own x @ X) q' s'" if "titems q' = titems q"
    by (rule qholds_upd [OF assms(1)]) (use E that in simp_all)
  ultimately show ?thesis using E by blast
qed

lemma qholds_enqueue_None:
  assumes "qholds L K own X q s" "tsqueue_enqueue q None s = Some (r, q', s')"
  shows "(r = 0 \<and> titems q' = titems q @ [None] \<or> r = - 1 \<and> titems q' = titems q) \<and> qholds L K own X q' s' \<and>
    tcapacity q' = tcapacity q \<and> tself q' = tself q \<and> map_option freeFunc (inner q') = map_option freeFunc (inner q)"
proof -
  from assms(1) have "tsq_ok q s" by (simp add: qholds_def)
  note E = tsqueue_enqueue_ok [OF this assms(2)]
  have "qholds L K own X q' s'" by (rule qholds_upd [OF assms(1)]) (use E in auto)
  with E show ?thesis by blast
qed

lemma qholds_dequeue:
  assumes "qholds L K own X q s" "tsqueue_dequeue q s = Some (d, q', s')"
  shows "titems q = d # titems q' \<and> qholds L K own ((case d of None \<Rightarrow> [] | Some x \<Rightarrow> own x) @ X) q' s' \<and>
    tcapacity q' = tcapacity q \<and> tself q' = tself q \<and> map_option freeFunc (inner q') = map_option freeFunc (inner q)"
proof -
  from assms(1) have "tsq_ok q s" by (simp add: qholds_def)
  note E = tsqueue_dequeue_ok [OF this assms(2)]
  have "qholds L K own ((case d of None \<Rightarrow> [] | Some x \<Rightarrow> own x) @ X) q' s'"
    by (rule qholds_upd [OF assms(1)]) (use E in \<open>auto split: option.split\<close>)
  with E show ?thesis by blast
qed

lemma qholds_warning_destroy:
  "qholds L K own (warning_blks w @ X) q s \<Longrightarrow> qholds L K own X q (warning_destroy (Some w) s)"
  using qholds_release [of L K own "warning_blks w" X q s] qholds_sub [of L K own "warning_blks w" X q s]
  by (simp add: warning_destroy_owned)

lemma warning_destroy_oom: "oom (warning_destroy w s) = oom s"
  by (simp add: warning_destroy_def free_str_def free_blk_oom split: option.split)

text \<open>The text of a warning is allocated and freed.\<close>

lemma print_warning:
  assumes "os_ok s" "warning_to_string f l (Some w) s = (desc, s1)"
  shows "os_ok (case desc of None \<Rightarrow> s1 | Some h \<Rightarrow> free_str h s1) \<and>
    live (case desc of None \<Rightarrow> s1 | Some h \<Rightarrow> free_str h s1) = live s \<and>
    socks (case desc of None \<Rightarrow> s1 | Some h \<Rightarrow> free_str h s1) = socks s \<and>
    set (oom (case desc of None \<Rightarrow> s1 | Some h \<Rightarrow> free_str h s1)) \<subseteq> set (oom s)"
proof (cases "malloc s")
  case (Pair b t)
  note M = malloc_ok [OF assms(1) Pair] malloc_oom [OF Pair]
  show ?thesis
  proof (cases b)
    case None
    with Pair M assms malloc_None [of s t] show ?thesis
      by (auto simp: warning_to_string_def Let_def split: if_splits)
  next
    case (Some x)
    with Pair have m: "malloc s = (Some x, t)" by simp
    note N = malloc_Some(1,2) [OF m] malloc_fresh [OF assms(1) m]
    have "free_blk x t = release {x} {} t" using N by (simp add: free_blk_live)
    with assms m M N show ?thesis
      by (auto simp: warning_to_string_def Let_def free_str_def release_sel split: if_splits intro: os_intros)
  qed
qed

context destructor
begin

text \<open>Destroying the queue gives back its own block, its nodes and the queued objects.\<close>

lemma qholds_destroy:
  assumes "qholds L K own (tself q # X) q s" "map_option freeFunc (inner q) = Some (Some destroy)"
    and "owns_socks (somes (titems q)) = {}"
  shows "\<exists>s'. tsqueue_destroy (Some q) s = Some s' \<and> holds L K X s' \<and> oom s' = oom s"
proof -
  let ?o = "owns (somes (titems q))"
  from assms(1) have h: "live s - queue_blocks (inner q) = L \<union> set ((tself q # X) @ ?o)" "distinct ((tself q # X) @ ?o)"
    "set ((tself q # X) @ ?o) \<inter> L = {}" "tsq_ok q s" "socks s = K" by (auto simp: qholds_def owns_def)
  from qholds_ok [OF assms(1)] have ok: "os_ok s" "queue_blocks (inner q) \<subseteq> live s" by auto
  have sub: "set ((tself q # X) @ ?o) \<subseteq> live s - queue_blocks (inner q)" unfolding h(1) by blast
  have d: "tsqueue_destroy (Some q) s = Some (release (insert (tself q) (queue_blocks (inner q) \<union> set ?o)) {} s)"
    using tsqueue_destroy_releases [OF h(4) assms(2)] sub h(2) assms(3) by auto
  have "live s - insert (tself q) (queue_blocks (inner q) \<union> set ?o) = (live s - queue_blocks (inner q)) - insert (tself q) (set ?o)"
    by blast
  also have "\<dots> = L \<union> set X" unfolding h(1) using h(2,3) by auto
  finally show ?thesis using d h(2,3,5) ok(1) by (auto simp: holds_def release_sel intro: os_intros)
qed

end

end
