(* ===== verification/SharedHeap.thy ===== *)
theory SharedHeap
  imports Client QueueOwner
begin

text \<open>
  A thread-safe queue and the table of connections on one heap, as the data source and the central
  propagator have them: \<open>shares own L K m q X s\<close> says that besides the blocks \<open>L\<close> of the surrounding
  program, the table \<open>m\<close> and the queue \<open>q\<close> with the objects in it, exactly the blocks \<open>X\<close> are live.
\<close>

text \<open>The table of connections and the queue, with disjoint blocks.\<close>

definition shares :: "('a \<Rightarrow> nat list) \<Rightarrow> nat set \<Rightarrow> SOCKET set \<Rightarrow> (ConnectionKey, sock_ptr) HashMap \<Rightarrow> 'a TSQueue \<Rightarrow> nat list \<Rightarrow> os \<Rightarrow> bool" where
  "shares own L K m q X s \<longleftrightarrow> conn_inv (live s - set (conn.hm_blks m)) K m s \<and>
     qholds (L \<union> set (conn.hm_blks m)) (socks s) own X q s \<and> set (conn.hm_blks m) \<inter> L = {}"

lemma conn_inv_live:
  assumes "conn_inv L K m s"
  shows "os_ok s" "live s = L \<union> set (conn.hm_blks m)" "set (conn.hm_blks m) \<inter> L = {}"
  using assms by (auto simp: conn_inv_def conn.hm_owned_def conn.foreign_def)

lemma shares_table:
  assumes "shares own L K m q X s" "conn_inv (live s - set (conn.hm_blks m)) K m' s'"
  shows "shares own L K m' q X s'"
proof -
  let ?H = "set (conn.hm_blks m)" and ?H' = "set (conn.hm_blks m')" and ?Q = "queue_blocks (inner q)"
  let ?Y = "X @ concat (map own (somes (titems q)))"
  from assms(1) have b: "qholds (L \<union> ?H) (socks s) own X q s" "?H \<inter> L = {}" by (auto simp: shares_def)
  note c = conn_inv_live [OF assms(2)]
  from b(1) have q: "tsq_ok q s" "live s - ?Q = L \<union> ?H \<union> set ?Y" "distinct ?Y" "set ?Y \<inter> (L \<union> ?H) = {}" unfolding qholds_def by blast+
  have qb: "?Q \<subseteq> live s" "?Q \<inter> ?H = {}" using qholds_ok [OF b(1)] q(2) by blast+
  then have "tsq_ok q s'" using c(1,2) by (intro tsq_ok_frame [OF q(1)]) blast+
  moreover have "live s' - ?Q = L \<union> ?H' \<union> set ?Y"
  proof -
    have "live s - ?H - ?Q = L \<union> set ?Y" using q(2,4) b(2) by blast
    moreover have "?H' \<inter> ?Q = {}" using c(3) qb by blast
    ultimately show ?thesis unfolding c(2) by blast
  qed
  moreover have "L \<union> set ?Y \<subseteq> live s - ?H" using q(2,4) b(2) by blast
  then have "set ?Y \<inter> (L \<union> ?H') = {}" "?H' \<inter> L = {}" using c(3) q(4) by blast+
  moreover have "live s' - ?H' = live s - ?H" unfolding c(2) using c(3) by blast
  ultimately show ?thesis using assms(2) q(3) by (simp add: shares_def qholds_def)
qed

lemma shares_queue:
  assumes "shares own L K m q X s" "qholds (L \<union> set (conn.hm_blks m)) (socks s) own X' q' s'"
  shows "shares own L K m q' X' s'"
proof -
  from assms(1) have b: "conn_inv (live s - set (conn.hm_blks m)) K m s" "set (conn.hm_blks m) \<inter> L = {}" by (auto simp: shares_def)
  from assms(2) have s: "socks s' = socks s" "set (conn.hm_blks m) \<subseteq> live s'" "os_ok s'"
    using qholds_ok [OF assms(2)] by (auto simp: qholds_def)
  have "conn_inv (live s' - set (conn.hm_blks m)) K m s'"
    using b(1) s by (auto simp: conn_inv_def conn.hm_owned_def conn.foreign_def)
  with b(2) s(1) assms(2) show ?thesis by (simp add: shares_def)
qed

lemma shares_send:
  assumes "shares own L K m q X s" "connections_map (tab n) = Some m" "names_apart n s" "sendable w" "framed m n xs"
    and "send_warning_to a p w n s = (ok, n', s')"
  shows "\<exists>m'. shares own L K m' q X s' \<and> connections_map (tab n') = Some m' \<and> names_apart n' s' \<and>
    framed m' n' (if ok then xs @ [(a, p, w)] else xs)"
proof -
  from assms(1) have c: "conn_inv (live s - set (conn.hm_blks m)) K m s" by (simp add: shares_def)
  from send_framed [OF assms(2) c assms(3-6)] shares_table [OF assms(1)] show ?thesis by blast
qed

lemma shares_names: "shares own L K m q X s \<Longrightarrow> shares own L K m q' X' s' \<Longrightarrow> names_apart n s \<Longrightarrow> names_apart n s'"
  by (auto simp: shares_def names_apart_def dest!: table_socks)

lemma conn_inv_move:
  assumes "conn_inv L K m s" "os_ok s'" "socks s' = socks s" "set (conn.hm_blks m) \<subseteq> live s'"
  shows "conn_inv (live s' - set (conn.hm_blks m)) K m s'"
  using assms by (auto simp: conn_inv_def conn.hm_owned_def conn.foreign_def)

text \<open>Blocks of the surrounding program are given back while the table and the queue exist.\<close>

lemma shares_shrink:
  assumes "shares own L K m q X s" "A \<subseteq> L" "os_ok s'" "live s' = live s - A" "socks s' = socks s"
  shows "shares own (L - A) K m q X s'"
proof -
  let ?H = "set (conn.hm_blks m)" and ?Q = "queue_blocks (inner q)" and ?Y = "set (X @ concat (map own (somes (titems q))))"
  from assms(1) have b: "conn_inv (live s - ?H) K m s" "qholds (L \<union> ?H) (socks s) own X q s" "?H \<inter> L = {}" by (auto simp: shares_def)
  from b(2) have q: "tsq_ok q s" "live s - ?Q = L \<union> ?H \<union> ?Y" "?Y \<inter> (L \<union> ?H) = {}" unfolding qholds_def by blast+
  have Q: "?Q \<subseteq> live s" "?Q \<inter> L = {}" using qholds_ok [OF b(2)] q(2) by blast+
  have "tsq_ok q s'" using Q assms(2,4) by (intro tsq_ok_frame [OF q(1) assms(3)]) blast
  moreover have "live s' - ?Q = (L - A) \<union> ?H \<union> ?Y" using q(2,3) b(3) assms(2,4) by blast
  moreover have "?Y \<inter> ((L - A) \<union> ?H) = {}" using q(3) by blast
  ultimately have "qholds ((L - A) \<union> ?H) (socks s') own X q s'" using b(2) assms(5) unfolding qholds_def by simp
  moreover have "?H \<subseteq> live s'" using q(2) b(3) assms(2,4) by blast
  ultimately show ?thesis using conn_inv_move [OF b(1) assms(3,5)] b(3) by (auto simp: shares_def)
qed

section \<open>Steps on the shared heap\<close>

lemma shares_qholds: "shares own L K m q X s \<Longrightarrow> qholds (L \<union> set (conn.hm_blks m)) (socks s) own X q s"
  by (simp add: shares_def)

lemma shares_os: "shares own L K m q X s \<Longrightarrow> os_ok s \<and> tsq_ok q s"
  using qholds_ok [OF shares_qholds, of own L K m q X s] by (simp add: shares_def qholds_def)

lemma shares_perm:
  assumes "mset X = mset Y"
  shows "shares own L K m q X s \<longleftrightarrow> shares own L K m q Y s"
  unfolding shares_def by (simp only: qholds_perm [OF assms])

lemma shares_malloc:
  assumes "shares own L K m q X s" "malloc s = (Some b, s')"
  shows "shares own L K m q (b # X) s'"
  by (rule shares_queue [OF assms(1) qholds_malloc [OF shares_qholds [OF assms(1)] assms(2)]])

lemma shares_malloc_None:
  assumes "shares own L K m q X s" "malloc s = (None, s')"
  shows "shares own L K m q X s'"
  by (rule shares_queue [OF assms(1) qholds_malloc_None [OF shares_qholds [OF assms(1)] assms(2)]])

lemma shares_free:
  assumes "shares own L K m q (b # X) s"
  shows "shares own L K m q X (free_blk b s)"
  by (rule shares_queue [OF assms qholds_free [OF shares_qholds [OF assms]]])

lemma shares_destroy:
  assumes "shares own L K m q (warning_blks w @ X) s"
  shows "shares own L K m q X (warning_destroy (Some w) s)"
  by (rule shares_queue [OF assms qholds_warning_destroy [OF shares_qholds [OF assms]]])

lemma shares_dequeue:
  assumes "shares own L K m q X s" "tsqueue_dequeue q s = Some (d, q', s')"
  shows "shares own L K m q' ((case d of None \<Rightarrow> [] | Some x \<Rightarrow> own x) @ X) s' \<and> titems q = d # titems q' \<and> tcapacity q' = tcapacity q \<and>
    tself q' = tself q \<and> map_option freeFunc (inner q') = map_option freeFunc (inner q) \<and> oom s' = oom s"
  using qholds_dequeue [OF shares_qholds [OF assms(1)] assms(2)] shares_queue [OF assms(1)] dequeue_oom [OF assms(2)] by blast

lemma shares_enqueue_None:
  assumes "shares own L K m q X s" "tsqueue_enqueue q None s = Some (r, q', s')" "True \<notin> set (oom s)"
  shows "shares own L K m q' X s' \<and> titems q' = titems q @ [None] \<and> tcapacity q' = tcapacity q \<and>
    tself q' = tself q \<and> map_option freeFunc (inner q') = map_option freeFunc (inner q) \<and> True \<notin> set (oom s')"
  using qholds_enqueue_None [OF shares_qholds [OF assms(1)] assms(2)] shares_queue [OF assms(1)] enqueue_succeeds [OF _ assms(2,3)]
    shares_os [OF assms(1)] by auto

text \<open>The surrounding program opens and closes sockets of its own.\<close>

lemma shares_open_sock:
  assumes "shares own L K m q X s" "k \<notin> socks s"
  shows "shares own L (insert k K) m q X (s\<lparr>socks := insert k (socks s)\<rparr>)"
proof -
  let ?s = "s\<lparr>socks := insert k (socks s)\<rparr>"
  from assms(1) have c: "conn_inv (live s - set (conn.hm_blks m)) K m s" by (simp add: shares_def)
  then have "conn_inv (live s - set (conn.hm_blks m)) (insert k K) m ?s" using assms(2)
    by (auto simp: conn_inv_def conn.hm_owned_def conn.foreign_def os_ok_def)
  moreover have "qholds (L \<union> set (conn.hm_blks m)) (socks ?s) own X q ?s"
    using shares_qholds [OF assms(1)] shares_os [OF assms(1)] qholds_ok [OF shares_qholds [OF assms(1)]] tsq_ok_frame [of q s ?s]
    by (auto simp: qholds_def os_ok_def)
  ultimately show ?thesis using assms(1) by (simp add: shares_def)
qed

lemma shares_close_sock:
  assumes "shares own L (insert k K) m q X s" "k \<notin> K"
  shows "shares own L K m q X (closesocket k s)"
proof -
  let ?s = "closesocket k s"
  from assms(1) have "conn_inv (live s - set (conn.hm_blks m)) (insert k K) m s" by (simp add: shares_def)
  from conn_inv_close [OF this assms(2)] have "conn_inv (live ?s - set (conn.hm_blks m)) K m ?s" by (simp add: closesocket_def)
  moreover have "os_ok ?s" "live ?s = live s" using conn_inv_ok [OF calculation] by (simp_all add: closesocket_def)
  then have "qholds (L \<union> set (conn.hm_blks m)) (socks ?s) own X q ?s"
    using shares_qholds [OF assms(1)] qholds_ok [OF shares_qholds [OF assms(1)]] tsq_ok_frame [of q s ?s] by (auto simp: qholds_def)
  ultimately show ?thesis using assms(1) by (simp add: shares_def)
qed

text \<open>The sockets of the table.\<close>

lemma shares_socks: "shares own L K m q X s \<Longrightarrow> socks s = K \<union> {k. \<exists>a p. answers m a p = Some k}"
  unfolding shares_def using table_socks by blast

lemma shares_closed:
  assumes "shares own L K m q X s" "connections_map t = Some m" "close_connection a p t s = (t', s')"
  shows "\<exists>m'. connections_map t' = Some m' \<and> shares own L K m' q X s' \<and> new_socks t' = new_socks t \<and> socks s' \<subseteq> socks s \<and> oom s' = oom s \<and>
    (\<forall>a' p'. answers m' a' p' = (if a' = a \<and> p' = p then None else answers m a' p'))"
proof -
  from assms(1) have c: "conn_inv (live s - set (conn.hm_blks m)) K m s" by (simp add: shares_def)
  from close_connection_spec [OF assms(2) c assms(3)] obtain m' where m': "connections_map t' = Some m'"
    "conn_inv (live s - set (conn.hm_blks m)) K m' s'" "\<And>a' p'. answers m' a' p' = (if a' = a \<and> p' = p then None else answers m a' p')" by blast
  note S = shares_table [OF assms(1) m'(2)]
  have "socks s' \<subseteq> socks s" unfolding shares_socks [OF S] shares_socks [OF assms(1)] m'(3) by (auto split: if_splits)
  moreover have "new_socks t' = new_socks t" using assms(3) by (auto simp: close_connection_def split: prod.splits)
  moreover have "oom s' = oom s" using close_oom [OF assms(2) _ assms(3)] c by (auto simp: conn_inv_def)
  ultimately show ?thesis using S m'(1,3) by blast
qed

end
