(* ===== verification/Source.thy ===== *)
theory Source
  imports Routing SharedHeap
begin

text \<open>
  The two threads of the data source: \<open>DataSource/data_generator.c\<close> makes random warnings for the
  destinations and queues them, then a NULL item; \<open>DataSource/network_sender.c\<close> takes them out and
  sends each to the root of its destination's tree.  What the threads observe of the stop event, of
  \<open>rand\<close> and of \<open>time\<close> comes from outside, one entry for each round of a loop.
\<close>

section \<open>The generator\<close>

record tick =
  stop :: bool
  rand1 :: nat
  rand2 :: nat
  rand3 :: nat
  now :: u64

definition NUMBER_OF_WARNINGS :: nat where
  "NUMBER_OF_WARNINGS = 10000"

text \<open>The bits of a small natural number that is converted to \<open>double\<close>.\<close>

fun log2_below :: "nat \<Rightarrow> nat \<Rightarrow> nat" where
  "log2_below 0 n = 0"
| "log2_below (Suc k) n = (if 2 ^ Suc k \<le> n then Suc k else log2_below k n)"

definition double_of_nat :: "nat \<Rightarrow> u64" where
  "double_of_nat n =
     (if n = 0 then 0
      else (let e = log2_below 52 n in word_of_nat ((1023 + e) * 2 ^ 52 + (n - 2 ^ e) * 2 ^ (52 - e))))"

definition destinations :: "NodeInfo list \<Rightarrow> nat list" where
  "destinations ns = filter (\<lambda>i. ntype (ns ! i) = NODE_DESTINATION) [0..<length ns]"

text \<open>One warning: destination, type and value are drawn at random.\<close>

definition generate :: "NodeInfo list \<Rightarrow> nat list \<Rightarrow> tick \<Rightarrow> os \<Rightarrow> Warning option \<times> os" where
  "generate ns dests t s =
     (let n = ns ! (dests ! (rand1 t mod length dests))
      in (case nid n of
            None \<Rightarrow> (None, s\<lparr>ub := True\<rparr>)
          | Some h \<Rightarrow>
              warning_create (chars h) (word_of_nat (rand2 t mod 4)) (double_of_nat (rand3 t mod 100)) (now t) (chars h) s))"

text \<open>
  The loop.  A warning counts only if its text could be made.  A warning that could not be
  allocated is the same NULL as the item that ends the sender.  The first component of the result
  says whether the loop was left.
\<close>

fun gen_loop :: "(u64 \<Rightarrow> string) \<Rightarrow> (u64 \<Rightarrow> tm) \<Rightarrow> NodeInfo list \<Rightarrow> nat list \<Rightarrow> tick list \<Rightarrow> nat \<Rightarrow> Warning TSQueue \<Rightarrow> os \<Rightarrow>
    (bool \<times> nat \<times> Warning TSQueue \<times> os) option" where
  "gen_loop fmt2f localtime ns dests [] counter q s = Some (False, counter, q, s)"
| "gen_loop fmt2f localtime ns dests (t # ts) counter q s =
     (if stop t \<or> NUMBER_OF_WARNINGS \<le> counter then Some (True, counter, q, s)
      else
        (case generate ns dests t s of
           (w, s) \<Rightarrow>
             (case warning_to_string fmt2f localtime w s of
                (desc, s) \<Rightarrow>
                  (case tsqueue_enqueue q w (case desc of None \<Rightarrow> s | Some h \<Rightarrow> free_str h s) of
                     None \<Rightarrow> None
                   | Some (_, q, s) \<Rightarrow>
                       gen_loop fmt2f localtime ns dests ts (case desc of None \<Rightarrow> counter | Some _ \<Rightarrow> counter + 1) q s))))"

text \<open>
  The thread: without destinations it returns at once, and sends no NULL item; the array of
  destinations is written without a test of its allocation.
\<close>

definition data_generator_thread :: "(u64 \<Rightarrow> string) \<Rightarrow> (u64 \<Rightarrow> tm) \<Rightarrow> NodeInfo list \<Rightarrow> tick list \<Rightarrow> Warning TSQueue \<Rightarrow> os \<Rightarrow>
    (bool \<times> Warning TSQueue \<times> os) option" where
  "data_generator_thread fmt2f localtime ns ts q s =
     (let dests = destinations ns
      in if dests = [] then Some (True, q, s)
         else
           (case malloc s of
              (None, s) \<Rightarrow> Some (True, q, s\<lparr>ub := True\<rparr>)
            | (Some b, s) \<Rightarrow>
                (case gen_loop fmt2f localtime ns dests ts 0 q s of
                   None \<Rightarrow> None
                 | Some (False, _, q, s) \<Rightarrow> Some (False, q, s)
                 | Some (True, _, q, s) \<Rightarrow>
                     (case tsqueue_enqueue q None s of
                        None \<Rightarrow> None
                      | Some (_, q, s) \<Rightarrow> Some (True, q, free_blk b s)))))"

section \<open>The sender\<close>

text \<open>How the sender's loop stands: it waits for an item, it has been left, or more rounds follow.\<close>

datatype sender = Waits | Left | Goes_on

text \<open>
  The loop, with a record of its sends.  The list says what each test of the stop event finds.
  \<open>None\<close>: \<open>find_root\<close> does not return.
\<close>

fun network_sender_thread :: "NodeInfo list \<Rightarrow> bool list \<Rightarrow> Warning TSQueue \<Rightarrow> net \<Rightarrow> os \<Rightarrow>
    (sender \<times> (string \<times> u16 \<times> Warning \<times> bool) list \<times> Warning TSQueue \<times> net \<times> os) option" where
  "network_sender_thread ns [] q n s = Some (Goes_on, [], q, n, s)"
| "network_sender_thread ns (True # bs) q n s = Some (Left, [], q, n, s)"
| "network_sender_thread ns (False # bs) q n s =
     (case tsqueue_dequeue q s of
        None \<Rightarrow> Some (Waits, [], q, n, s)
      | Some (None, q, s) \<Rightarrow> Some (Left, [], q, n, s)
      | Some (Some w, q, s) \<Rightarrow>
          (case node_find_by_id ns (chars (dest_node w)) s of
             (None, s) \<Rightarrow> network_sender_thread ns bs q n (warning_destroy (Some w) s)
           | (Some dest, s) \<Rightarrow>
               (case find_root ns dest of
                  None \<Rightarrow> None
                | Some rt \<Rightarrow>
                    (case naddress (ns ! rt) of
                       None \<Rightarrow> Some (Left, [], q, n, s\<lparr>ub := True\<rparr>)
                     | Some address \<Rightarrow>
                         (case send_warning_to (chars address) (nport (ns ! rt)) w n s of
                            (ok, n, s) \<Rightarrow>
                              map_option (\<lambda>(st, lg, r). (st, (chars address, nport (ns ! rt), w, ok) # lg, r))
                                (network_sender_thread ns bs q n (warning_destroy (Some w) s)))))))"

section \<open>The generator's warnings\<close>

text \<open>A warning for a destination of the table, with a type that has a name and a value below 100.\<close>

definition proper :: "NodeInfo list \<Rightarrow> Warning \<Rightarrow> bool" where
  "proper ns w \<longleftrightarrow> (\<exists>i < length ns. ntype (ns ! i) = NODE_DESTINATION \<and>
     map_option chars (nid (ns ! i)) = Some (chars (dest_node w)) \<and> chars (city w) = chars (dest_node w)) \<and>
     unat (wtype w) < 4 \<and> (\<exists>v < 100. wvalue w = double_of_nat v)"

definition src_ok :: "nat set \<Rightarrow> SOCKET set \<Rightarrow> nat list \<Rightarrow> Warning TSQueue \<Rightarrow> os \<Rightarrow> bool" where
  "src_ok L K X q s \<longleftrightarrow> qholds L K warning_blks X q s \<and> tcapacity q = 0 \<and> True \<notin> set (oom s)"

lemma destinations_mem: "i \<in> set (destinations ns) \<longleftrightarrow> i < length ns \<and> ntype (ns ! i) = NODE_DESTINATION"
  by (auto simp: destinations_def)

lemma generate_spec:
  assumes "os_ok s" "True \<notin> set (oom s)" "dests \<noteq> []" "set dests \<subseteq> set (destinations ns)" "\<forall>n \<in> set ns. nid n \<noteq> None"
  shows "\<exists>w s'. generate ns dests t s = (Some w, s') \<and> proper ns w \<and> timestamp w = now t \<and> os_ok s' \<and> True \<notin> set (oom s') \<and>
    live s' = live s \<union> set (warning_blks w) \<and> live s \<inter> set (warning_blks w) = {} \<and> distinct (warning_blks w) \<and> socks s' = socks s"
proof -
  let ?i = "dests ! (rand1 t mod length dests)"
  have "?i \<in> set dests" using assms(3) by simp
  with assms(4) have i: "?i < length ns" "ntype (ns ! ?i) = NODE_DESTINATION" by (auto simp: destinations_mem)
  with assms(5) obtain h where h: "nid (ns ! ?i) = Some h" by fastforce
  from warning_create_succeeds [OF assms(2), of "chars h" "word_of_nat (rand2 t mod 4)" "double_of_nat (rand3 t mod 100)" "now t" "chars h"]
  obtain w s' where w: "warning_create (chars h) (word_of_nat (rand2 t mod 4)) (double_of_nat (rand3 t mod 100)) (now t) (chars h) s = (Some w, s')"
    "True \<notin> set (oom s')" by blast
  note W = warning_create_Some [OF assms(1) w(1)]
  have "unat (word_of_nat (rand2 t mod 4) :: u32) < 4" by (simp add: unat_of_nat)
  moreover have "\<exists>v < 100. double_of_nat (rand3 t mod 100) = double_of_nat v" by (intro exI [of _ "rand3 t mod 100"]) simp
  ultimately have "proper ns w" using W i h by (auto simp: proper_def view_def intro!: exI [of _ ?i])
  with w W h show ?thesis by (simp add: generate_def Let_def view_def)
qed

text \<open>The text of such a warning fits (\<open>fmt2f\<close> and the ids are not gigantic).\<close>

definition printable :: "(u64 \<Rightarrow> string) \<Rightarrow> (u64 \<Rightarrow> tm) \<Rightarrow> NodeInfo list \<Rightarrow> bool" where
  "printable fmt2f localtime ns \<longleftrightarrow> (\<forall>w. proper ns w \<longrightarrow> length (warning_text fmt2f localtime w) < 2 ^ 31)"

lemma gen_step:
  assumes "src_ok L K X q s" "dests \<noteq> []" "set dests \<subseteq> set (destinations ns)" "\<forall>n \<in> set ns. nid n \<noteq> None" "printable f l ns"
  shows "\<exists>w s1 h s2 q' s3. generate ns dests t s = (Some w, s1) \<and> proper ns w \<and> timestamp w = now t \<and>
    warning_to_string f l (Some w) s1 = (Some h, s2) \<and> tsqueue_enqueue q (Some w) (free_str h s2) = Some (0, q', s3) \<and>
    titems q' = titems q @ [Some w] \<and> src_ok L K X q' s3 \<and> tself q' = tself q \<and>
    map_option freeFunc (inner q') = map_option freeFunc (inner q)"
proof -
  from assms(1) have q: "qholds L K warning_blks X q s" "tcapacity q = 0" "True \<notin> set (oom s)" by (auto simp: src_ok_def)
  have ok: "os_ok s" using qholds_ok [OF q(1)] by simp
  from generate_spec [OF ok q(3) assms(2-4), of t] obtain w s1
    where w: "generate ns dests t s = (Some w, s1)" "proper ns w" "timestamp w = now t" "os_ok s1" "True \<notin> set (oom s1)"
      "live s1 = live s \<union> set (warning_blks w)" "live s \<inter> set (warning_blks w) = {}" "distinct (warning_blks w)" "socks s1 = socks s" by blast
  have q1: "qholds L K warning_blks (warning_blks w @ X) q s1" by (rule qholds_frame [OF q(1) w(4,6,9,8)]) (use w(7) in blast)
  from malloc_succeeds [OF w(5)] obtain b s2 where b: "malloc s1 = (Some b, s2)" by blast
  let ?h = "\<lparr>chars = warning_text f l w, sblk = b\<rparr>"
  have st: "warning_to_string f l (Some w) s1 = (Some ?h, s2)"
    using assms(5) w(2) b by (auto simp: warning_to_string_def printable_def Let_def)
  have q2: "qholds L K warning_blks (warning_blks w @ X) q (free_str ?h s2)"
    using qholds_free [OF qholds_malloc [OF q1 b]] by (simp add: free_str_def)
  from enqueue_unbounded [OF q(2)] obtain r q' s3 where e: "tsqueue_enqueue q (Some w) (free_str ?h s2) = Some (r, q', s3)" by blast
  have om: "True \<notin> set (oom (free_str ?h s2))" using malloc_oom [OF b] w(5) by (auto simp: free_str_def free_blk_oom)
  have "tsq_ok q (free_str ?h s2)" using q2 by (simp add: qholds_def)
  from enqueue_succeeds [OF this e om] have r: "r = 0" "True \<notin> set (oom s3)" by auto
  from qholds_enqueue [OF q2 e] r(1) have E: "titems q' = titems q @ [Some w]" "qholds L K warning_blks X q' s3" "tcapacity q' = tcapacity q"
    "tself q' = tself q" "map_option freeFunc (inner q') = map_option freeFunc (inner q)" by auto
  have "src_ok L K X q' s3" using E(2,3) r(2) q(2) by (simp add: src_ok_def)
  with w(1-3) st e E(1,4,5) r(1) show ?thesis by (intro exI [of _ w] exI [of _ s1] exI [of _ ?h] exI [of _ s2] exI [of _ q'] exI [of _ s3]) simp
qed

lemma gen_loop_spec:
  assumes "src_ok L K X q s" "dests \<noteq> []" "set dests \<subseteq> set (destinations ns)" "\<forall>n \<in> set ns. nid n \<noteq> None" "printable f l ns"
    and "m = min (length (takeWhile (\<lambda>t. \<not> stop t) ts)) (NUMBER_OF_WARNINGS - c)"
  shows "\<exists>ws q' s'. gen_loop f l ns dests ts c q s = Some (m < length ts, c + m, q', s') \<and> length ws = m \<and>
    (\<forall>w \<in> set ws. proper ns w) \<and> titems q' = titems q @ map Some ws \<and> src_ok L K X q' s' \<and> tself q' = tself q \<and>
    map_option freeFunc (inner q') = map_option freeFunc (inner q)"
  using assms(1,6)
proof (induction ts arbitrary: c q s m)
  case Nil
  then show ?case by simp
next
  case (Cons t ts)
  show ?case
  proof (cases "stop t \<or> NUMBER_OF_WARNINGS \<le> c")
    case True
    with Cons.prems have "m = 0" by auto
    with True Cons.prems show ?thesis by simp
  next
    case False
    from gen_step [OF Cons.prems(1) assms(2-5), of t] obtain w s1 h s2 q1 s3
      where g: "generate ns dests t s = (Some w, s1)" "proper ns w" "warning_to_string f l (Some w) s1 = (Some h, s2)"
        "tsqueue_enqueue q (Some w) (free_str h s2) = Some (0, q1, s3)" "titems q1 = titems q @ [Some w]" "src_ok L K X q1 s3"
        "tself q1 = tself q" "map_option freeFunc (inner q1) = map_option freeFunc (inner q)" by blast
    let ?m = "min (length (takeWhile (\<lambda>t. \<not> stop t) ts)) (NUMBER_OF_WARNINGS - (c + 1))"
    have "NUMBER_OF_WARNINGS - c = Suc (NUMBER_OF_WARNINGS - (c + 1))" using False by linarith
    then have m: "m = Suc ?m" using Cons.prems(2) False by simp
    from Cons.IH [OF g(6) refl, of "c + 1"] obtain ws q' s'
      where i: "gen_loop f l ns dests ts (c + 1) q1 s3 = Some (?m < length ts, c + 1 + ?m, q', s')" "length ws = ?m"
        "\<forall>w \<in> set ws. proper ns w" "titems q' = titems q1 @ map Some ws" "src_ok L K X q' s'" "tself q' = tself q1"
        "map_option freeFunc (inner q') = map_option freeFunc (inner q1)" by blast
    have "gen_loop f l ns dests (t # ts) c q s = Some (m < length (t # ts), c + m, q', s')"
      using False g(1,3,4) i(1) m by simp
    with i g m show ?thesis by (intro exI [of _ "w # ws"] exI [of _ q'] exI [of _ s']) simp
  qed
qed

section \<open>Sender and queue on one heap\<close>

abbreviation both :: "nat set \<Rightarrow> SOCKET set \<Rightarrow> (ConnectionKey, sock_ptr) HashMap \<Rightarrow> Warning TSQueue \<Rightarrow> nat list \<Rightarrow> os \<Rightarrow> bool" where
  "both \<equiv> shares warning_blks"

section \<open>The sender's route\<close>

definition first_id :: "NodeInfo list \<Rightarrow> string \<Rightarrow> nat option" where
  "first_id ns str = find (\<lambda>i. map_option chars (nid (ns ! i)) = Some str) [0..<length ns]"

lemma find_upt:
  assumes "k < n" "P k" "\<forall>j < k. \<not> P j"
  shows "find P [0..<n] = Some k"
  using assms by (auto simp: find_Some_iff)

lemma node_find_by_id_first:
  assumes "\<forall>n \<in> set ns. nid n \<noteq> None"
  shows "node_find_by_id ns str s = (first_id ns str, s)"
proof -
  from node_find_from_spec [OF assms, of 0 str s] obtain r where r: "node_find_by_id ns str s = (r, s)"
    "case r of None \<Rightarrow> \<forall>j < length ns. map_option chars (nid (ns ! j)) \<noteq> Some str
     | Some k \<Rightarrow> k < length ns \<and> map_option chars (nid (ns ! k)) = Some str \<and> (\<forall>j < k. map_option chars (nid (ns ! j)) \<noteq> Some str)"
    by (auto simp: node_find_by_id_def split: option.splits)
  have "first_id ns str = r"
  proof (cases r)
    case None
    with r(2) show ?thesis by (simp add: first_id_def find_None_iff)
  next
    case (Some k)
    with r(2) show ?thesis by (simp add: first_id_def find_upt)
  qed
  with r(1) show ?thesis by simp
qed

text \<open>Address and port of the root above the destination of a warning.\<close>

definition route :: "NodeInfo list \<Rightarrow> Warning \<Rightarrow> (string \<times> u16 \<times> Warning) list" where
  "route ns w =
     (case first_id ns (chars (dest_node w)) of
        None \<Rightarrow> []
      | Some d \<Rightarrow>
          (let r = ns ! the (find_root ns d) in [(chars (the (naddress r)), nport r, w)]))"

lemma sender_step:
  assumes "forest ns" "\<forall>n \<in> set ns. nid n \<noteq> None \<and> naddress n \<noteq> None"
    and "both L K m q X s" "connections_map (tab n) = Some m" "names_apart n s" "framed m n xs" "sendable w"
    and "titems q = Some w # r"
  shows "\<exists>q1 n1 m1 s1 lg. titems q1 = r \<and> tself q1 = tself q \<and> map_option freeFunc (inner q1) = map_option freeFunc (inner q) \<and>
    both L K m1 q1 X s1 \<and> connections_map (tab n1) = Some m1 \<and>
    names_apart n1 s1 \<and> framed m1 n1 (xs @ reported lg) \<and> map (\<lambda>(a, p, w, ok). (a, p, w)) lg = route ns w \<and>
    tcapacity q1 = tcapacity q \<and> set (oom s1) \<subseteq> set (oom s) \<and>
    (\<forall>bs. network_sender_thread ns (False # bs) q n s =
       map_option (\<lambda>(st, lg', rest). (st, lg @ lg', rest)) (network_sender_thread ns bs q1 n1 s1))"
proof -
  let ?H = "L \<union> set (conn.hm_blks m)"
  from assms(3) have h: "qholds ?H (socks s) warning_blks X q s" by (simp add: shares_def)
  then have "tsq_ok q s" by (simp add: qholds_def)
  from dequeue_first [OF this assms(8)] obtain q1 s1 where d: "tsqueue_dequeue q s = Some (Some w, q1, s1)" by blast
  from qholds_dequeue [OF h d] have D: "titems q1 = r" "qholds ?H (socks s) warning_blks (warning_blks w @ X) q1 s1"
    "tself q1 = tself q" "map_option freeFunc (inner q1) = map_option freeFunc (inner q)" "tcapacity q1 = tcapacity q" using assms(8) by auto
  have b1: "both L K m q1 (warning_blks w @ X) s1" by (rule shares_queue [OF assms(3) D(2)])
  have n1: "names_apart n s1" by (rule shares_names [OF assms(3) b1 assms(5)])
  have find: "node_find_by_id ns (chars (dest_node w)) s1 = (first_id ns (chars (dest_node w)), s1)"
    using assms(2) by (intro node_find_by_id_first) blast
  have free: "both L K m' q1 X (warning_destroy (Some w) s') \<and> (names_apart n' s' \<longrightarrow> names_apart n' (warning_destroy (Some w) s'))"
    if b: "both L K m' q1 (warning_blks w @ X) s'" for m' s' n'
  proof -
    from b have "qholds (L \<union> set (conn.hm_blks m')) (socks s') warning_blks (warning_blks w @ X) q1 s'" by (simp add: shares_def)
    from shares_queue [OF b qholds_warning_destroy [OF this]] have c: "both L K m' q1 X (warning_destroy (Some w) s')" .
    with shares_names [OF b c] show ?thesis by blast
  qed
  show ?thesis
  proof (cases "first_id ns (chars (dest_node w))")
    case None
    from free [OF b1, of n] n1 have "both L K m q1 X (warning_destroy (Some w) s1)" "names_apart n (warning_destroy (Some w) s1)" by auto
    moreover have "network_sender_thread ns (False # bs) q n s =
       map_option (\<lambda>(st, lg', rest). (st, [] @ lg', rest)) (network_sender_thread ns bs q1 n (warning_destroy (Some w) s1))" for bs
      using d find None by (simp add: option.map_id)
    moreover have "route ns w = []" using None by (simp add: route_def)
    moreover have "set (oom (warning_destroy (Some w) s1)) \<subseteq> set (oom s)" using dequeue_oom [OF d] by (simp add: warning_destroy_oom)
    ultimately show ?thesis using D assms(4,6)
      by (intro exI [of _ q1] exI [of _ n] exI [of _ m] exI [of _ "warning_destroy (Some w) s1"] exI [of _ "[]"]) simp
  next
    case (Some i)
    then have i: "i < length ns" by (auto simp: first_id_def find_Some_iff)
    from find_root_forest [OF assms(1) i] obtain rt where rt: "find_root ns i = Some rt" "rt < length ns" by blast
    with assms(2) obtain ad where ad: "naddress (ns ! rt) = Some ad" by fastforce
    let ?a = "chars ad" and ?p = "nport (ns ! rt)"
    obtain ok n2 s2 where sd: "send_warning_to ?a ?p w n s1 = (ok, n2, s2)" by (cases "send_warning_to ?a ?p w n s1")
    from shares_send [OF b1 assms(4) n1 assms(7,6) sd] obtain m2 where m2: "both L K m2 q1 (warning_blks w @ X) s2"
      "connections_map (tab n2) = Some m2" "names_apart n2 s2" "framed m2 n2 (if ok then xs @ [(?a, ?p, w)] else xs)" by blast
    from free [OF m2(1), of n2] m2(3) have "both L K m2 q1 X (warning_destroy (Some w) s2)" "names_apart n2 (warning_destroy (Some w) s2)" by auto
    moreover have "network_sender_thread ns (False # bs) q n s =
       map_option (\<lambda>(st, lg', rest). (st, [(?a, ?p, w, ok)] @ lg', rest)) (network_sender_thread ns bs q1 n2 (warning_destroy (Some w) s2))" for bs
      using d find Some rt(1) ad sd by simp
    moreover have "route ns w = [(?a, ?p, w)]" using Some rt ad by (simp add: route_def Let_def)
    moreover have "conn_inv (live s1 - set (conn.hm_blks m)) K m s1" using b1 by (simp add: shares_def)
    from send_oom [OF assms(4) this n1 sd] have "set (oom (warning_destroy (Some w) s2)) \<subseteq> set (oom s)"
      using dequeue_oom [OF d] by (simp add: warning_destroy_oom)
    moreover have "framed m2 n2 (xs @ reported [(?a, ?p, w, ok)])" using m2(4) by (cases ok) simp_all
    ultimately show ?thesis using D m2(2)
      by (intro exI [of _ q1] exI [of _ n2] exI [of _ m2] exI [of _ "warning_destroy (Some w) s2"] exI [of _ "[(?a, ?p, w, ok)]"]) simp
  qed
qed

section \<open>The start\<close>

lemma both_start:
  assumes "conn_inv L0 K m s0" "holds L0' (socks s) N s" "L0' = L0 \<union> set (conn.hm_blks m)" "socks s = socks s0"
    and "tsqueue_create cap ff s = (Some q, s')"
  shows "both (L0 \<union> set N) K m q [tself q] s'"
proof -
  have ok: "os_ok s" "live s = L0' \<union> set N" "set N \<inter> L0' = {}" using assms(2) by (auto simp: holds_def)
  note c = conn_inv_live [OF assms(1)]
  from qholds_create [OF ok(1) assms(5)] have q: "qholds (live s) (socks s) warning_blks [tself q] q s'" .
  then have sk: "socks s' = socks s" "os_ok s'" using qholds_ok [OF q] by (simp_all add: qholds_def)
  have sub: "live s \<subseteq> live s'" using q by (auto simp: qholds_def)
  have "set (conn.hm_blks m) \<subseteq> live s'" using sub ok(2) assms(3) by blast
  then have "conn_inv (live s' - set (conn.hm_blks m)) K m s'" using assms(1,4) sk
    by (simp add: conn_inv_def conn.hm_owned_def conn.foreign_def)
  moreover have "live s = (L0 \<union> set N) \<union> set (conn.hm_blks m)" using ok(2) assms(3) by blast
  moreover have "set (conn.hm_blks m) \<inter> (L0 \<union> set N) = {}" using c(3) ok(3) assms(3) by blast
  ultimately show ?thesis using q sk(1) unfolding shares_def by simp
qed

end
