(* ===== verification/SourceSystem.thy ===== *)
theory SourceSystem
  imports Source
begin

text \<open>
  The generator and the sender of the data source together (\<open>DataSource/main.c\<close> starts them): the step
  relation \<open>sstep\<close> interleaves the rounds of their loops on the shared queue and heap, and the
  user may press Enter, which sets the stop event, at any time.
\<close>

section \<open>The system\<close>

text \<open>
  \<open>gen\<close>: the generator's counter while it is in its loop, \<open>None\<close> when it has returned;
  \<open>made\<close>: the warnings it has queued; \<open>slog\<close>: the sends of the sender.
\<close>

record srcsys =
  squeue :: "Warning TSQueue"
  snet :: net
  sheap :: os
  gen :: "nat option"
  sending :: bool
  stopped :: bool
  made :: "Warning list"
  slog :: "(string \<times> u16 \<times> Warning \<times> bool) list"

inductive sstep :: "(u64 \<Rightarrow> string) \<Rightarrow> (u64 \<Rightarrow> tm) \<Rightarrow> NodeInfo list \<Rightarrow> nat \<Rightarrow> srcsys \<Rightarrow> srcsys \<Rightarrow> bool"
  for fmt2f localtime ns b where
  gen_round: "gen c = Some k \<Longrightarrow> stop t = stopped c \<Longrightarrow>
    gen_loop fmt2f localtime ns (destinations ns) [t] k (squeue c) (sheap c) = Some (False, k', q, s) \<Longrightarrow>
    sstep fmt2f localtime ns b c (c\<lparr>squeue := q, sheap := s, gen := Some k',
      made := made c @ somes (drop (length (titems (squeue c))) (titems q))\<rparr>)"
| gen_ends: "gen c = Some k \<Longrightarrow> stop t = stopped c \<Longrightarrow>
    gen_loop fmt2f localtime ns (destinations ns) [t] k (squeue c) (sheap c) = Some (True, k', q, s) \<Longrightarrow>
    tsqueue_enqueue q None s = Some (r, q', s') \<Longrightarrow>
    sstep fmt2f localtime ns b c (c\<lparr>squeue := q', sheap := free_blk b s', gen := None\<rparr>)"
| send_round: "sending c \<Longrightarrow>
    network_sender_thread ns [stopped c] (squeue c) (snet c) (sheap c) = Some (st, lg, q, n, s) \<Longrightarrow> st \<noteq> Waits \<Longrightarrow>
    sstep fmt2f localtime ns b c (c\<lparr>squeue := q, snet := n, sheap := s, sending := (st = Goes_on), slog := slog c @ lg\<rparr>)"
| press_enter: "\<not> stopped c \<Longrightarrow> sstep fmt2f localtime ns b c (c\<lparr>stopped := True\<rparr>)"

text \<open>The start: the generator has allocated its array \<open>b\<close> of destinations.\<close>

definition sstart :: "Warning TSQueue \<Rightarrow> net \<Rightarrow> os \<Rightarrow> srcsys" where
  "sstart q n s = \<lparr>squeue = q, snet = n, sheap = s, gen = Some 0, sending = True, stopped = False, made = [], slog = []\<rparr>"

section \<open>The invariant\<close>

text \<open>What is asked of the table of nodes: ids and addresses, no cycles, ids that fit into a message.\<close>

definition source_table :: "NodeInfo list \<Rightarrow> bool" where
  "source_table ns \<longleftrightarrow> forest ns \<and> (\<forall>n \<in> set ns. nid n \<noteq> None \<and> naddress n \<noteq> None \<and>
     2 * length (chars (the (nid n))) + 28 < 2 ^ 31)"

lemma proper_sendable:
  assumes "source_table ns" "proper ns w"
  shows "sendable w"
proof -
  from assms(2) obtain i where i: "i < length ns" "map_option chars (nid (ns ! i)) = Some (chars (dest_node w))"
    "chars (city w) = chars (dest_node w)" by (auto simp: proper_def)
  then have "ns ! i \<in> set ns" by simp
  with assms(1) have "2 * length (chars (the (nid (ns ! i)))) + 28 < 2 ^ 31" by (auto simp: source_table_def)
  with i(2,3) show ?thesis by (auto simp: sendable_def)
qed

text \<open>The warnings \<open>taken\<close> have been sent, \<open>rest\<close> waits in the queue, before the NULL item.\<close>

definition sitems :: "srcsys \<Rightarrow> Warning list \<Rightarrow> bool" where
  "sitems c rest \<longleftrightarrow> (case gen c of
     Some k \<Rightarrow> k = length (made c) \<and> titems (squeue c) = map Some rest \<and> (sending c \<or> stopped c)
   | None \<Rightarrow> (length (made c) = NUMBER_OF_WARNINGS \<or> stopped c) \<and>
       (titems (squeue c) = map Some rest @ [None] \<and> (sending c \<or> stopped c) \<or>
        \<not> sending c \<and> titems (squeue c) = [] \<and> rest = []))"

definition sinv :: "nat set \<Rightarrow> SOCKET set \<Rightarrow> NodeInfo list \<Rightarrow> nat \<Rightarrow> srcsys \<Rightarrow> bool" where
  "sinv L K ns b c \<longleftrightarrow> tcapacity (squeue c) = 0 \<and> True \<notin> set (oom (sheap c)) \<and>
     map_option freeFunc (inner (squeue c)) = Some (Some (\<lambda>w. warning_destroy (Some w))) \<and>
     (\<forall>w \<in> set (made c). proper ns w) \<and> length (made c) \<le> NUMBER_OF_WARNINGS \<and>
     (\<exists>m. connections_map (tab (snet c)) = Some m \<and>
        both L K m (squeue c) ((if gen c = None then [] else [b]) @ [tself (squeue c)]) (sheap c) \<and>
        names_apart (snet c) (sheap c) \<and> framed m (snet c) (reported (slog c))) \<and>
     (\<exists>taken rest. made c = taken @ rest \<and> map (\<lambda>(a, p, w, ok). (a, p, w)) (slog c) = concat (map (route ns) taken) \<and> sitems c rest)"

text \<open>Every step makes progress.\<close>

definition swork :: "srcsys \<Rightarrow> nat" where
  "swork c = (case gen c of None \<Rightarrow> 0 | Some k \<Rightarrow> 2 * (NUMBER_OF_WARNINGS - k) + 2) + length (titems (squeue c)) +
     (if sending c then 1 else 0) + (if stopped c then 0 else 1)"

lemma both_src_ok:
  "both L K m q X s \<Longrightarrow> tcapacity q = 0 \<Longrightarrow> True \<notin> set (oom s) \<Longrightarrow> src_ok (L \<union> set (conn.hm_blks m)) (socks s) X q s"
  by (simp add: shares_def src_ok_def)

lemma src_ok_both:
  assumes "both L K m q X s" "src_ok (L \<union> set (conn.hm_blks m)) (socks s) X' q' s'"
  shows "both L K m q' X' s'" "tcapacity q' = 0" "True \<notin> set (oom s')"
  using shares_queue [OF assms(1), of X' q' s'] assms(2) by (auto simp: src_ok_def)

text \<open>The parts of the invariant, and putting them together again.\<close>

abbreviation held :: "nat \<Rightarrow> srcsys \<Rightarrow> nat list" where
  "held b c \<equiv> (if gen c = None then [] else [b]) @ [tself (squeue c)]"

lemma sinvE:
  assumes "sinv L K ns b c"
  obtains m taken rest where "connections_map (tab (snet c)) = Some m" "both L K m (squeue c) (held b c) (sheap c)"
    "names_apart (snet c) (sheap c)" "framed m (snet c) (reported (slog c))"
    "made c = taken @ rest" "map (\<lambda>(a, p, w, ok). (a, p, w)) (slog c) = concat (map (route ns) taken)" "sitems c rest"
    "qholds (L \<union> set (conn.hm_blks m)) (socks (sheap c)) warning_blks (held b c) (squeue c) (sheap c)" "tsq_ok (squeue c) (sheap c)"
    "tcapacity (squeue c) = 0" "True \<notin> set (oom (sheap c))"
    "map_option freeFunc (inner (squeue c)) = Some (Some (\<lambda>w. warning_destroy (Some w)))"
    "\<forall>w \<in> set (made c). proper ns w" "length (made c) \<le> NUMBER_OF_WARNINGS"
proof -
  from assms obtain m where m: "connections_map (tab (snet c)) = Some m" "both L K m (squeue c) (held b c) (sheap c)"
    "names_apart (snet c) (sheap c)" "framed m (snet c) (reported (slog c))" by (auto simp: sinv_def)
  then have "qholds (L \<union> set (conn.hm_blks m)) (socks (sheap c)) warning_blks (held b c) (squeue c) (sheap c)" "tsq_ok (squeue c) (sheap c)"
    by (simp_all add: shares_def qholds_def)
  with that m assms show ?thesis unfolding sinv_def by blast
qed

lemma sinvI:
  assumes "connections_map (tab (snet c)) = Some m" "both L K m (squeue c) (held b c) (sheap c)"
    "names_apart (snet c) (sheap c)" "framed m (snet c) (reported (slog c))"
    "made c = taken @ rest" "map (\<lambda>(a, p, w, ok). (a, p, w)) (slog c) = concat (map (route ns) taken)" "sitems c rest"
    "tcapacity (squeue c) = 0" "True \<notin> set (oom (sheap c))"
    "map_option freeFunc (inner (squeue c)) = Some (Some (\<lambda>w. warning_destroy (Some w)))"
    "\<forall>w \<in> set (made c). proper ns w" "length (made c) \<le> NUMBER_OF_WARNINGS"
  shows "sinv L K ns b c"
  using assms unfolding sinv_def by blast

section \<open>Every step keeps it\<close>

lemma sinv_step_gen:
  assumes "sinv L K ns b c" "source_table ns" "destinations ns \<noteq> []" "printable f l ns"
    and "gen c = Some k" "stop t = stopped c"
    and "gen_loop f l ns (destinations ns) [t] k (squeue c) (sheap c) = Some (False, k', q, s)"
    and c': "c' = c\<lparr>squeue := q, sheap := s, gen := Some k', made := made c @ somes (drop (length (titems (squeue c))) (titems q))\<rparr>"
  shows "sinv L K ns b c' \<and> swork c' < swork c"
proof -
  obtain m taken rest where i: "connections_map (tab (snet c)) = Some m" "both L K m (squeue c) (held b c) (sheap c)"
    "names_apart (snet c) (sheap c)" "framed m (snet c) (reported (slog c))"
    "made c = taken @ rest" "map (\<lambda>(a, p, w, ok). (a, p, w)) (slog c) = concat (map (route ns) taken)" "sitems c rest"
    "tcapacity (squeue c) = 0" "True \<notin> set (oom (sheap c))"
    "map_option freeFunc (inner (squeue c)) = Some (Some (\<lambda>w. warning_destroy (Some w)))"
    "\<forall>w \<in> set (made c). proper ns w" "length (made c) \<le> NUMBER_OF_WARNINGS" by (rule sinvE [OF assms(1)])
  have r: "k = length (made c)" "titems (squeue c) = map Some rest" "sending c \<or> stopped c" using i(7) assms(5) by (auto simp: sitems_def)
  have nid: "\<forall>n \<in> set ns. nid n \<noteq> None" using assms(2) by (auto simp: source_table_def)
  from assms(6,7) have go: "\<not> stop t" "k < NUMBER_OF_WARNINGS" by (auto split: if_splits)
  from gen_step [OF both_src_ok [OF i(2,8,9)] assms(3) order_refl nid assms(4), of t] obtain w s1 h s2 q' s3
    where g: "generate ns (destinations ns) t (sheap c) = (Some w, s1)" "proper ns w" "warning_to_string f l (Some w) s1 = (Some h, s2)"
      "tsqueue_enqueue (squeue c) (Some w) (free_str h s2) = Some (0, q', s3)" "titems q' = titems (squeue c) @ [Some w]"
      "src_ok (L \<union> set (conn.hm_blks m)) (socks (sheap c)) (held b c) q' s3" "tself q' = tself (squeue c)"
      "map_option freeFunc (inner q') = map_option freeFunc (inner (squeue c))" by blast
  have e: "k' = k + 1" "q = q'" "s = s3" using assms(7) go g(1,3,4) by auto
  note B = src_ok_both [OF i(2) g(6)]
  have n: "names_apart (snet c) s3" by (rule shares_names [OF i(2) B(1) i(3)])
  have mk: "made c' = taken @ (rest @ [w])" using c' e g(5) i(5) by simp
  have "sitems c' (rest @ [w])" using c' e g(5) r by (simp add: sitems_def)
  moreover have "\<forall>w \<in> set (made c'). proper ns w" "length (made c') \<le> NUMBER_OF_WARNINGS" using mk i(5,11) g(2) r(1) go(2) by auto
  ultimately have "sinv L K ns b c'" using c' e B n i g(7,8) assms(5) mk by (intro sinvI [of c' m L K b taken "rest @ [w]"]) simp_all
  moreover have "swork c' < swork c" using c' e g(5) r(1) go(2) assms(5) by (simp add: swork_def)
  ultimately show ?thesis ..
qed

lemma sinv_step_gen_ends:
  assumes "sinv L K ns b c" "gen c = Some k" "stop t = stopped c"
    and "gen_loop f l ns (destinations ns) [t] k (squeue c) (sheap c) = Some (True, k', q, s)"
    and "tsqueue_enqueue q None s = Some (r, q', s')"
    and c': "c' = c\<lparr>squeue := q', sheap := free_blk b s', gen := None\<rparr>"
  shows "sinv L K ns b c' \<and> swork c' < swork c"
proof -
  obtain m taken rest where i: "connections_map (tab (snet c)) = Some m" "both L K m (squeue c) (held b c) (sheap c)"
    "names_apart (snet c) (sheap c)" "framed m (snet c) (reported (slog c))"
    "made c = taken @ rest" "map (\<lambda>(a, p, w, ok). (a, p, w)) (slog c) = concat (map (route ns) taken)" "sitems c rest"
    "qholds (L \<union> set (conn.hm_blks m)) (socks (sheap c)) warning_blks (held b c) (squeue c) (sheap c)" "tsq_ok (squeue c) (sheap c)"
    "tcapacity (squeue c) = 0" "True \<notin> set (oom (sheap c))"
    "map_option freeFunc (inner (squeue c)) = Some (Some (\<lambda>w. warning_destroy (Some w)))"
    "\<forall>w \<in> set (made c). proper ns w" "length (made c) \<le> NUMBER_OF_WARNINGS" by (rule sinvE [OF assms(1)])
  have r: "k = length (made c)" "titems (squeue c) = map Some rest" "sending c \<or> stopped c" using i(7) assms(2) by (auto simp: sitems_def)
  have e: "q = squeue c" "s = sheap c" "stopped c \<or> NUMBER_OF_WARNINGS \<le> k" using assms(3,4)
    by (auto split: if_splits option.splits prod.splits)
  from enqueue_succeeds [OF i(9) assms(5) [unfolded e(1,2)] i(11)] have o: "r = 0" "True \<notin> set (oom s')" by auto
  from qholds_enqueue_None [OF i(8) assms(5) [unfolded e(1,2)]] o(1) have q: "titems q' = map Some rest @ [None]"
    "qholds (L \<union> set (conn.hm_blks m)) (socks (sheap c)) warning_blks (b # [tself (squeue c)]) q' s'" "tcapacity q' = 0" "tself q' = tself (squeue c)"
    "map_option freeFunc (inner q') = map_option freeFunc (inner (squeue c))" using r(2) i(10) assms(2) by auto
  have B: "both L K m q' [tself (squeue c)] (free_blk b s')" by (rule shares_queue [OF i(2) qholds_free [OF q(2)]])
  have n: "names_apart (snet c) (free_blk b s')" by (rule shares_names [OF i(2) B i(3)])
  have "sitems c' rest" using c' q(1) r(1,3) e(3) i(14) by (auto simp: sitems_def)
  then have "sinv L K ns b c'" using c' B n i q(3-5) o(2) by (intro sinvI [of c' m L K b taken rest]) (simp_all add: free_blk_oom)
  moreover have "swork c' < swork c" using c' q(1) r(2) assms(2) by (simp add: swork_def)
  ultimately show ?thesis ..
qed

text \<open>A round of the sender: it sees the stop event, the NULL item, or sends a warning.\<close>

lemma sinv_step_stop:
  assumes "sinv L K ns b c" "sending c" "stopped c"
  shows "sinv L K ns b (c\<lparr>sending := False\<rparr>) \<and> swork (c\<lparr>sending := False\<rparr>) < swork c"
proof -
  have "sitems (c\<lparr>sending := False\<rparr>) rest" if "sitems c rest" for rest
    using that assms(2,3) by (auto simp: sitems_def split: option.splits)
  with assms(1) have "sinv L K ns b (c\<lparr>sending := False\<rparr>)" by (auto simp: sinv_def)
  then show ?thesis using assms(2) by (simp add: swork_def)
qed

lemma sinv_step_null:
  assumes "sinv L K ns b c" "sending c" "\<not> stopped c" "tsqueue_dequeue (squeue c) (sheap c) = Some (None, q, s)"
    and c': "c' = c\<lparr>squeue := q, sheap := s, sending := False\<rparr>"
  shows "sinv L K ns b c' \<and> swork c' < swork c"
proof -
  obtain m taken rest where i: "connections_map (tab (snet c)) = Some m" "both L K m (squeue c) (held b c) (sheap c)"
    "names_apart (snet c) (sheap c)" "framed m (snet c) (reported (slog c))"
    "made c = taken @ rest" "map (\<lambda>(a, p, w, ok). (a, p, w)) (slog c) = concat (map (route ns) taken)" "sitems c rest"
    "qholds (L \<union> set (conn.hm_blks m)) (socks (sheap c)) warning_blks (held b c) (squeue c) (sheap c)"
    "tcapacity (squeue c) = 0" "True \<notin> set (oom (sheap c))"
    "map_option freeFunc (inner (squeue c)) = Some (Some (\<lambda>w. warning_destroy (Some w)))"
    "\<forall>w \<in> set (made c). proper ns w" "length (made c) \<le> NUMBER_OF_WARNINGS" by (rule sinvE [OF assms(1)])
  from qholds_dequeue [OF i(8) assms(4)] have D: "titems (squeue c) = None # titems q"
    "qholds (L \<union> set (conn.hm_blks m)) (socks (sheap c)) warning_blks (held b c) q s" "tcapacity q = tcapacity (squeue c)"
    "tself q = tself (squeue c)" "map_option freeFunc (inner q) = map_option freeFunc (inner (squeue c))" by simp_all
  from i(7) D(1) assms(2,3) have rest: "rest = []" "gen c = None" "titems q = []" "length (made c) = NUMBER_OF_WARNINGS"
    by (auto simp: sitems_def Cons_eq_append_conv split: option.splits)
  have B: "both L K m q (held b c) s" by (rule shares_queue [OF i(2) D(2)])
  have na: "names_apart (snet c) s" by (rule shares_names [OF i(2) B i(3)])
  have "sitems c' []" using rest c' by (simp add: sitems_def)
  then have "sinv L K ns b c'" using c' B na i D(3-5) rest dequeue_oom [OF assms(4)] by (intro sinvI [of c' m L K b taken "[]"]) simp_all
  moreover have "swork c' < swork c" using rest D(1) assms(2) c' by (simp add: swork_def)
  ultimately show ?thesis ..
qed

lemma sinv_step_warning:
  assumes "sinv L K ns b c" "source_table ns" "sending c" "\<not> stopped c" "titems (squeue c) = Some w # r"
    and "network_sender_thread ns [False] (squeue c) (snet c) (sheap c) = Some (st, lg, q, n, s)"
    and c': "c' = c\<lparr>squeue := q, snet := n, sheap := s, sending := (st = Goes_on), slog := slog c @ lg\<rparr>"
  shows "sinv L K ns b c' \<and> swork c' < swork c"
proof -
  obtain m taken rest where i: "connections_map (tab (snet c)) = Some m" "both L K m (squeue c) (held b c) (sheap c)"
    "names_apart (snet c) (sheap c)" "framed m (snet c) (reported (slog c))"
    "made c = taken @ rest" "map (\<lambda>(a, p, w, ok). (a, p, w)) (slog c) = concat (map (route ns) taken)" "sitems c rest"
    "tcapacity (squeue c) = 0" "True \<notin> set (oom (sheap c))"
    "map_option freeFunc (inner (squeue c)) = Some (Some (\<lambda>w. warning_destroy (Some w)))"
    "\<forall>w \<in> set (made c). proper ns w" "length (made c) \<le> NUMBER_OF_WARNINGS" by (rule sinvE [OF assms(1)])
  from i(7) assms(5) obtain rest' where rest: "rest = w # rest'"
    by (cases rest) (auto simp: sitems_def split: option.splits)
  have "proper ns w" using i(5,11) rest by simp
  then have sd: "sendable w" by (rule proper_sendable [OF assms(2)])
  have tb: "forest ns" "\<forall>n \<in> set ns. nid n \<noteq> None \<and> naddress n \<noteq> None" using assms(2) by (auto simp: source_table_def)
  from sender_step [OF tb i(2,1,3,4) sd assms(5)] obtain q1 n1 m1 s1 l1 where
    a: "titems q1 = r" "tself q1 = tself (squeue c)" "map_option freeFunc (inner q1) = map_option freeFunc (inner (squeue c))"
      "both L K m1 q1 (held b c) s1" "connections_map (tab n1) = Some m1" "names_apart n1 s1" "framed m1 n1 (reported (slog c) @ reported l1)"
      "map (\<lambda>(a, p, w, ok). (a, p, w)) l1 = route ns w" "tcapacity q1 = tcapacity (squeue c)" "set (oom s1) \<subseteq> set (oom (sheap c))"
    and st1: "\<And>bs. network_sender_thread ns (False # bs) (squeue c) (snet c) (sheap c) =
       map_option (\<lambda>(st, lg', rest). (st, l1 @ lg', rest)) (network_sender_thread ns bs q1 n1 s1)" by blast
  have e: "st = Goes_on" "lg = l1" "q = q1" "n = n1" "s = s1" using assms(6) st1 [of "[]"] by auto
  have "sitems c' rest'" using i(7) rest assms(3,5) a(1) e c' by (auto simp: sitems_def split: option.splits)
  moreover have "True \<notin> set (oom s1)" using a(10) i(9) by blast
  ultimately have "sinv L K ns b c'" using c' e a i rest by (intro sinvI [of c' m1 L K b "taken @ [w]" rest']) simp_all
  moreover have "swork c' < swork c" using assms(3,5) a(1) e c' by (simp add: swork_def)
  ultimately show ?thesis ..
qed

lemma sinv_step_send:
  assumes "sinv L K ns b c" "source_table ns" "sending c"
    and "network_sender_thread ns [stopped c] (squeue c) (snet c) (sheap c) = Some (st, lg, q, n, s)" "st \<noteq> Waits"
    and c': "c' = c\<lparr>squeue := q, snet := n, sheap := s, sending := (st = Goes_on), slog := slog c @ lg\<rparr>"
  shows "sinv L K ns b c' \<and> swork c' < swork c"
proof (cases "stopped c")
  case True
  with assms(4) c' have "c' = c\<lparr>sending := False\<rparr>" by simp
  with sinv_step_stop [OF assms(1,3) True] show ?thesis by simp
next
  case False
  have ok: "tsq_ok (squeue c) (sheap c)" by (rule sinvE [OF assms(1)])
  have d: "\<exists>q s. tsqueue_dequeue (squeue c) (sheap c) = Some (hd (titems (squeue c)), q, s)" "titems (squeue c) \<noteq> []"
    using dequeue_first [OF ok, of "hd (titems (squeue c))" "tl (titems (squeue c))"] dequeue_blocks [OF ok] assms(4,5) False by fastforce+
  show ?thesis
  proof (cases "hd (titems (squeue c))")
    case None
    with d(1) obtain q1 s1 where q: "tsqueue_dequeue (squeue c) (sheap c) = Some (None, q1, s1)" by auto
    with assms(4) False c' have "c' = c\<lparr>squeue := q1, sheap := s1, sending := False\<rparr>" by simp
    then show ?thesis by (rule sinv_step_null [OF assms(1,3) False q])
  next
    case (Some w)
    then have "titems (squeue c) = Some w # tl (titems (squeue c))" using d(2) by (cases "titems (squeue c)") simp_all
    moreover have "network_sender_thread ns [False] (squeue c) (snet c) (sheap c) = Some (st, lg, q, n, s)" using assms(4) False by simp
    ultimately show ?thesis using c' by (rule sinv_step_warning [OF assms(1-3) False])
  qed
qed

text \<open>All together: the invariant is kept, and every step uses up some work.\<close>

lemma sstep_sinv:
  assumes "sstep f l ns b c c'" "sinv L K ns b c" "source_table ns" "destinations ns \<noteq> []" "printable f l ns"
  shows "sinv L K ns b c' \<and> swork c' < swork c"
  using assms(1)
proof (cases rule: sstep.cases)
  case (gen_round k t k' q s)
  from sinv_step_gen [OF assms(2-5) gen_round(2-4) gen_round(1)] show ?thesis .
next
  case (gen_ends k t k' q s r q' s')
  from sinv_step_gen_ends [OF assms(2) gen_ends(2-5) gen_ends(1)] show ?thesis .
next
  case (send_round st lg q n s)
  from sinv_step_send [OF assms(2,3) send_round(2-4) send_round(1)] show ?thesis .
next
  case press_enter
  then have "sitems c rest \<Longrightarrow> sitems c' rest" for rest by (auto simp: sitems_def split: option.splits)
  with press_enter assms(2) show ?thesis by (auto simp: sinv_def swork_def)
qed

lemma sreach_sinv:
  assumes "(sstep f l ns b)\<^sup>*\<^sup>* c c'" "sinv L K ns b c" "source_table ns" "destinations ns \<noteq> []" "printable f l ns"
  shows "sinv L K ns b c'"
  using assms(1,2) by (induction rule: rtranclp_induct) (use sstep_sinv [OF _ _ assms(3-5)] in blast)+

text \<open>Until both threads have returned, one of them can go on.\<close>

lemma gen_progress:
  assumes "sinv L K ns b c" "source_table ns" "destinations ns \<noteq> []" "printable f l ns" "gen c = Some k"
  shows "\<exists>c'. sstep f l ns b c c' \<and> stopped c' = stopped c"
proof -
  let ?t = "\<lparr>stop = stopped c, rand1 = 0, rand2 = 0, rand3 = 0, now = 0\<rparr>"
  obtain m taken rest where i: "both L K m (squeue c) (held b c) (sheap c)" "tcapacity (squeue c) = 0" "True \<notin> set (oom (sheap c))"
    by (rule sinvE [OF assms(1)])
  show ?thesis
  proof (cases "stopped c \<or> NUMBER_OF_WARNINGS \<le> k")
    case True
    then have g: "gen_loop f l ns (destinations ns) [?t] k (squeue c) (sheap c) = Some (True, k, squeue c, sheap c)" by simp
    from enqueue_unbounded [OF i(2)] obtain r q' s' where e: "tsqueue_enqueue (squeue c) None (sheap c) = Some (r, q', s')" by blast
    from sstep.gen_ends [OF assms(5) _ g e, of b] show ?thesis
      by (intro exI [of _ "c\<lparr>squeue := q', sheap := free_blk b s', gen := None\<rparr>"]) simp
  next
    case False
    have nid: "\<forall>n \<in> set ns. nid n \<noteq> None" using assms(2) by (auto simp: source_table_def)
    from gen_step [OF both_src_ok [OF i] assms(3) order_refl nid assms(4), of ?t] obtain w s1 h s2 q' s3
      where g: "generate ns (destinations ns) ?t (sheap c) = (Some w, s1)" "warning_to_string f l (Some w) s1 = (Some h, s2)"
      "tsqueue_enqueue (squeue c) (Some w) (free_str h s2) = Some (0, q', s3)" by blast
    then have "gen_loop f l ns (destinations ns) [?t] k (squeue c) (sheap c) = Some (False, k + 1, q', s3)" using False by simp
    from sstep.gen_round [OF assms(5) _ this, of b] show ?thesis
      by (intro exI [of _ "c\<lparr>squeue := q', sheap := s3, gen := Some (k + 1),
        made := made c @ somes (drop (length (titems (squeue c))) (titems q'))\<rparr>"]) simp
  qed
qed

lemma send_progress:
  assumes "sinv L K ns b c" "source_table ns" "sending c" "gen c = None"
  shows "\<exists>c'. sstep f l ns b c c' \<and> stopped c' = stopped c"
proof -
  obtain m taken rest where i: "connections_map (tab (snet c)) = Some m" "both L K m (squeue c) (held b c) (sheap c)"
    "names_apart (snet c) (sheap c)" "framed m (snet c) (reported (slog c))" "sitems c rest" "made c = taken @ rest"
    "\<forall>w \<in> set (made c). proper ns w" "tsq_ok (squeue c) (sheap c)" by (rule sinvE [OF assms(1)])
  have "\<exists>st lg q n s. network_sender_thread ns [stopped c] (squeue c) (snet c) (sheap c) = Some (st, lg, q, n, s) \<and> st \<noteq> Waits"
  proof (cases "stopped c")
    case False
    with i(5) assms(3,4) have t: "titems (squeue c) = map Some rest @ [None]" by (auto simp: sitems_def)
    show ?thesis
    proof (cases rest)
      case Nil
      with t dequeue_first [OF i(8)] obtain q s where "tsqueue_dequeue (squeue c) (sheap c) = Some (None, q, s)" by fastforce
      with False show ?thesis by simp
    next
      case (Cons w rest')
      have sd: "sendable w" using i(6,7) Cons by (intro proper_sendable [OF assms(2)]) simp
      have tb: "forest ns" "\<forall>n \<in> set ns. nid n \<noteq> None \<and> naddress n \<noteq> None" using assms(2) by (auto simp: source_table_def)
      have "titems (squeue c) = Some w # map Some rest' @ [None]" using t Cons by simp
      from sender_step [OF tb i(2,1,3,4) sd this] obtain q1 n1 s1 l1 where "\<And>bs. network_sender_thread ns (False # bs) (squeue c) (snet c) (sheap c) =
         map_option (\<lambda>(st, lg', rest). (st, l1 @ lg', rest)) (network_sender_thread ns bs q1 n1 s1)" by blast
      from this [of "[]"] False show ?thesis by simp
    qed
  qed simp
  then obtain st lg q n s where r: "network_sender_thread ns [stopped c] (squeue c) (snet c) (sheap c) = Some (st, lg, q, n, s)" "st \<noteq> Waits"
    by blast
  from sstep.send_round [OF assms(3) r, of f l b] show ?thesis
    by (intro exI [of _ "c\<lparr>squeue := q, snet := n, sheap := s, sending := (st = Goes_on), slog := slog c @ lg\<rparr>"]) simp
qed

lemma source_progress:
  assumes "sinv L K ns b c" "source_table ns" "destinations ns \<noteq> []" "printable f l ns" "gen c \<noteq> None \<or> sending c"
  shows "\<exists>c'. sstep f l ns b c c' \<and> stopped c' = stopped c"
  using gen_progress [OF assms(1-4)] send_progress [OF assms(1,2)] assms(5) by blast

text \<open>So the two threads end without Enter.\<close>

lemma source_finishes:
  assumes "sinv L K ns b c" "source_table ns" "destinations ns \<noteq> []" "printable f l ns"
  shows "\<exists>c'. (sstep f l ns b)\<^sup>*\<^sup>* c c' \<and> gen c' = None \<and> \<not> sending c' \<and> stopped c' = stopped c"
  using assms(1)
proof (induction "swork c" arbitrary: c rule: less_induct)
  case less
  show ?case
  proof (cases "gen c = None \<and> \<not> sending c")
    case True
    then show ?thesis by blast
  next
    case False
    then have "gen c \<noteq> None \<or> sending c" by auto
    from source_progress [OF less.prems assms(2-4) this] obtain c1 where c1: "sstep f l ns b c c1" "stopped c1 = stopped c" by blast
    from sstep_sinv [OF c1(1) less.prems assms(2-4)] have "swork c1 < swork c" "sinv L K ns b c1" by blast+
    from less.hyps [OF this] obtain c2 where "(sstep f l ns b)\<^sup>*\<^sup>* c1 c2" "gen c2 = None" "\<not> sending c2" "stopped c2 = stopped c1" by blast
    with c1 show ?thesis by (metis converse_rtranclp_into_rtranclp)
  qed
qed

section \<open>A table without destinations\<close>

text \<open>
  C35. Without a destination the data source cannot end by itself: the generator returns without
  queueing anything, not even the NULL item, so the sender that has begun a round waits for an item
  for ever, also when the stop event is set afterwards.
\<close>

theorem source_waits_without_destinations:
  assumes "tsqueue_create 0 ff s = (Some q, s')" "os_ok s" "destinations ns = []"
  shows "data_generator_thread f l ns ts q s' = Some (True, q, s') \<and>
    network_sender_thread ns (False # bs) q n s' = Some (Waits, [], q, n, s')"
proof -
  from tsqueue_create_ok [OF assms(2,1)] have "tsq_ok q s'" "titems q = []" by auto
  with dequeue_blocks have "tsqueue_dequeue q s' = None" by blast
  with assms(3) show ?thesis by (simp add: data_generator_thread_def)
qed

theorem source_waits_without_destinations_witness:
  "\<exists>q s'. tsqueue_create 0 None fresh_os = (Some q, s') \<and>
     network_sender_thread [] [False, True] q (demo_net demo_conns) s' =
       Some (Waits, [], q, (demo_net demo_conns), s')"
proof -
  obtain q s' where q: "tsqueue_create 0 (None :: (Warning \<Rightarrow> os \<Rightarrow> os) option) fresh_os = (Some q, s')"
    by (auto simp: tsqueue_create_def queue_create_def malloc_def fresh_os_def)
  have "destinations [] = []" by (simp add: destinations_def)
  from source_waits_without_destinations [OF q fresh_os_ok(1) this] q show ?thesis by auto
qed

end
