(* ===== verification/Windows.thy ===== *)
theory Windows
  imports Prelude
begin

text \<open>
  What the programs use of the operating system besides memory and sockets: kernel objects behind
  handles (jobs, processes, threads, named events), and how the C runtime splits a command line.
  Which calls fail comes from outside: \<open>fails\<close> has an entry for every call that can fail, a call
  succeeds where that list is used up.  \<open>misuse\<close> records that a handle was used that is not open.
\<close>

section \<open>Kernel objects\<close>

type_synonym HANDLE = nat

text \<open>A job: whether closing it kills its processes, and these.\<close>

datatype kobj = Job bool "nat set" | Process nat | Thread nat | Event string

record win =
  handles :: "HANDLE \<rightharpoonup> kobj"
  next_handle :: HANDLE
  next_pid :: nat
  running :: "nat set"
  started :: "(nat \<times> string) list"
  signalled :: "string set"
  fails :: "bool list"
  misuse :: bool

record PROCESS_INFORMATION =
  hProcess :: HANDLE
  hThread :: HANDLE
  dwProcessId :: nat

definition call_fails :: "win \<Rightarrow> bool \<times> win" where
  "call_fails w = (case fails w of [] \<Rightarrow> (False, w) | f # fs \<Rightarrow> (f, w\<lparr>fails := fs\<rparr>))"

definition new_handle :: "kobj \<Rightarrow> win \<Rightarrow> HANDLE \<times> win" where
  "new_handle ob w = (next_handle w, w\<lparr>handles := (handles w)(next_handle w \<mapsto> ob), next_handle := next_handle w + 1\<rparr>)"

definition CreateJobObject :: "win \<Rightarrow> HANDLE option \<times> win" where
  "CreateJobObject w =
     (case call_fails w of
        (True, w) \<Rightarrow> (None, w)
      | (False, w) \<Rightarrow> (case new_handle (Job False {}) w of (h, w) \<Rightarrow> (Some h, w)))"

text \<open>The limit \<open>JOB_OBJECT_LIMIT_KILL_ON_JOB_CLOSE\<close>.\<close>

definition SetInformationJobObject :: "HANDLE \<Rightarrow> win \<Rightarrow> bool \<times> win" where
  "SetInformationJobObject h w =
     (case call_fails w of
        (True, w) \<Rightarrow> (False, w)
      | (False, w) \<Rightarrow>
          (case handles w h of
             Some (Job _ ps) \<Rightarrow> (True, w\<lparr>handles := (handles w)(h \<mapsto> Job True ps)\<rparr>)
           | _ \<Rightarrow> (False, w\<lparr>misuse := True\<rparr>)))"

definition CreateProcessA :: "string \<Rightarrow> win \<Rightarrow> PROCESS_INFORMATION option \<times> win" where
  "CreateProcessA cmd w =
     (case call_fails w of
        (True, w) \<Rightarrow> (None, w)
      | (False, w) \<Rightarrow>
          (let pid = next_pid w
           in (case new_handle (Process pid) w of
                 (hp, w) \<Rightarrow>
                   (case new_handle (Thread pid) w of
                      (ht, w) \<Rightarrow>
                        (Some \<lparr>hProcess = hp, hThread = ht, dwProcessId = pid\<rparr>,
                         w\<lparr>next_pid := pid + 1, running := insert pid (running w), started := started w @ [(pid, cmd)]\<rparr>)))))"

definition AssignProcessToJobObject :: "HANDLE \<Rightarrow> HANDLE \<Rightarrow> win \<Rightarrow> win" where
  "AssignProcessToJobObject j h w =
     (case call_fails w of
        (True, w) \<Rightarrow> w
      | (False, w) \<Rightarrow>
          (case (handles w j, handles w h) of
             (Some (Job kills ps), Some (Process pid)) \<Rightarrow> w\<lparr>handles := (handles w)(j \<mapsto> Job kills (insert pid ps))\<rparr>
           | _ \<Rightarrow> w\<lparr>misuse := True\<rparr>))"

definition TerminateProcess :: "HANDLE \<Rightarrow> win \<Rightarrow> win" where
  "TerminateProcess h w =
     (case handles w h of
        Some (Process pid) \<Rightarrow> w\<lparr>running := running w - {pid}\<rparr>
      | _ \<Rightarrow> w\<lparr>misuse := True\<rparr>)"

text \<open>The last handle to a job that kills its processes ends them.\<close>

definition CloseHandle :: "HANDLE \<Rightarrow> win \<Rightarrow> win" where
  "CloseHandle h w =
     (case handles w h of
        None \<Rightarrow> w\<lparr>misuse := True\<rparr>
      | Some ob \<Rightarrow>
          w\<lparr>handles := (handles w)(h := None),
            running := (case ob of Job True ps \<Rightarrow> running w - ps | _ \<Rightarrow> running w)\<rparr>)"

text \<open>
  \<open>WaitForSingleObject\<close> with \<open>INFINITE\<close>: \<open>None\<close> while it blocks, that is as long as the process
  runs or the event is not signalled.
\<close>

definition WaitForSingleObject :: "HANDLE \<Rightarrow> win \<Rightarrow> win option" where
  "WaitForSingleObject h w =
     (case handles w h of
        Some (Process pid) \<Rightarrow> if pid \<in> running w then None else Some w
      | Some (Event name) \<Rightarrow> if name \<in> signalled w then Some w else None
      | _ \<Rightarrow> Some (w\<lparr>misuse := True\<rparr>))"

definition CreateEventA :: "string \<Rightarrow> win \<Rightarrow> HANDLE option \<times> win" where
  "CreateEventA name w =
     (case call_fails w of
        (True, w) \<Rightarrow> (None, w)
      | (False, w) \<Rightarrow> (case new_handle (Event name) w of (h, w) \<Rightarrow> (Some h, w)))"

text \<open>\<open>OpenEventA\<close> finds an event that some process has created (\<open>existing\<close>).\<close>

definition OpenEventA :: "(string \<Rightarrow> bool) \<Rightarrow> string \<Rightarrow> win \<Rightarrow> HANDLE option \<times> win" where
  "OpenEventA existing name w =
     (if existing name then (case new_handle (Event name) w of (h, w) \<Rightarrow> (Some h, w)) else (None, w))"

definition SetEvent :: "HANDLE \<Rightarrow> win \<Rightarrow> win" where
  "SetEvent h w =
     (case handles w h of
        Some (Event name) \<Rightarrow> w\<lparr>signalled := insert name (signalled w)\<rparr>
      | _ \<Rightarrow> w\<lparr>misuse := True\<rparr>)"

section \<open>Text\<close>

text \<open>The command line of a started program, as the C runtime splits it: the program's name, then
  the arguments, with its rules for quotes and backslashes.\<close>

abbreviation quote :: char where
  "quote \<equiv> CHR 0x22"

abbreviation backslash :: char where
  "backslash \<equiv> CHR 0x5C"

abbreviation blank :: "char \<Rightarrow> bool" where
  "blank ch \<equiv> ch = CHR '' '' \<or> ch = CHR 0x09"

text \<open>The name of an exit event; every program formats it in the same way.\<close>

definition event_name :: "string \<Rightarrow> string \<Rightarrow> string" where
  "event_name kind str = snprintf 128 (''Global'' @ [backslash] @ kind @ str)"

text \<open>
  One argument: \<open>inq\<close> says whether it is inside quotes, \<open>k\<close> counts the backslashes just seen.  Before
  a quote two of them stand for one, and an odd one makes the quote a character; elsewhere they
  stand for themselves.  A doubled quote inside quotes is a character.
\<close>

fun arg_end :: "bool \<Rightarrow> nat \<Rightarrow> string \<Rightarrow> string \<times> string" where
  "arg_end inq k [] = (replicate k backslash, [])"
| "arg_end inq k (ch # cs) =
     (if ch = backslash then arg_end inq (k + 1) cs
      else if ch = quote then
        if odd k then apfst ((@) (replicate (k div 2) backslash @ [quote])) (arg_end inq 0 cs)
        else if inq \<and> cs \<noteq> [] \<and> hd cs = quote then apfst ((@) (replicate (k div 2) backslash @ [quote])) (arg_end inq 0 (tl cs))
        else apfst ((@) (replicate (k div 2) backslash)) (arg_end (\<not> inq) 0 cs)
      else if blank ch \<and> \<not> inq then (replicate k backslash, cs)
      else apfst ((@) (replicate k backslash @ [ch])) (arg_end inq 0 cs))"

text \<open>Every branch leaves a rest that is no longer than the rest of a recursive call.\<close>

lemma arg_end_le:
  assumes "\<And>j n. length (snd (arg_end j n cs)) \<le> b" "\<And>j n. length (snd (arg_end j n (tl cs))) \<le> b" "blank ch \<Longrightarrow> length cs \<le> b"
  shows "length (snd (arg_end inq k (ch # cs))) \<le> b"
proof (cases "blank ch")
  case True
  then show ?thesis using assms by auto
next
  case False
  then show ?thesis using assms(1,2) by simp
qed

lemma arg_end_shorter: "length (snd (arg_end inq k cs)) \<le> length cs"
proof (induction cs arbitrary: inq k rule: length_induct)
  case (1 cs)
  show ?case
  proof (cases cs)
    case (Cons ch r)
    have "length (snd (arg_end j n r)) \<le> length (ch # r)" "length (snd (arg_end j n (tl r))) \<le> length (ch # r)" for j n
      using 1 [rule_format, of r j n] 1 [rule_format, of "tl r" j n] Cons by (simp, cases r) auto
    then show ?thesis unfolding Cons by (intro arg_end_le) simp_all
  qed simp
qed

lemma arg_end_less:
  assumes "\<not> blank ch"
  shows "length (snd (arg_end inq k (ch # cs))) \<le> length cs"
  using assms order_trans [OF arg_end_shorter [of _ _ "tl cs"]] by (intro arg_end_le arg_end_shorter) auto

function split_args :: "string \<Rightarrow> string list" where
  "split_args cs =
     (case dropWhile blank cs of
        [] \<Rightarrow> []
      | ch # r \<Rightarrow> (case arg_end False 0 (ch # r) of (a, rest) \<Rightarrow> a # split_args rest))"
  by pat_completeness auto
termination
proof (relation "measure length", goal_cases)
  case (2 cs ch r a rest)
  then have "dropWhile blank cs = ch # r" by simp
  then have "\<not> blank ch" "length (ch # r) \<le> length cs" by (simp add: dropWhile_eq_Cons_conv, metis length_dropWhile_le)
  moreover have "arg_end False 0 (ch # r) = (a, rest)" using 2 by simp
  ultimately show ?case using arg_end_less [of ch False 0 r] by simp
qed simp

declare split_args.simps [simp del]

text \<open>The first word is the name of the program: quotes delimit it, without further rules.\<close>

definition argv :: "string \<Rightarrow> string list" where
  "argv cmd =
     (case cmd of
        [] \<Rightarrow> [[]]
      | ch # cs \<Rightarrow>
          if ch = quote then takeWhile (\<lambda>ch. ch \<noteq> quote) cs # split_args (tl (dropWhile (\<lambda>ch. ch \<noteq> quote) cs))
          else takeWhile (\<lambda>ch. \<not> blank ch) cmd # split_args (dropWhile (\<lambda>ch. \<not> blank ch) cmd))"

lemma arg_end_plain:
  assumes "quote \<notin> set str" "backslash \<notin> set str"
  shows "arg_end True 0 (str @ quote # CHR '' '' # cs) = (str, cs)"
  using assms by (induction str) auto

lemma arg_end_word: "\<forall>ch \<in> set str. \<not> blank ch \<and> ch \<noteq> quote \<and> ch \<noteq> backslash \<Longrightarrow> arg_end False 0 str = (str, [])"
  by (induction str) auto

text \<open>A quoted program, a quoted word and a bare word.\<close>

lemma argv_quoted:
  assumes "quote \<notin> set exe" "quote \<notin> set str" "backslash \<notin> set str"
    and "w \<noteq> []" "\<forall>ch \<in> set w. \<not> blank ch \<and> ch \<noteq> quote \<and> ch \<noteq> backslash"
  shows "argv ([quote] @ exe @ [quote, CHR '' '', quote] @ str @ [quote, CHR '' ''] @ w) = [exe, str, w]"
proof -
  have exe: "takeWhile (\<lambda>ch. ch \<noteq> quote) (exe @ quote # r) = exe" "dropWhile (\<lambda>ch. ch \<noteq> quote) (exe @ quote # r) = quote # r" for r
    using assms(1) by (induction exe) auto
  obtain c0 w' where w: "w = c0 # w'" using assms(4) by (cases w) auto
  have last: "split_args w = [w]"
    using assms(5) arg_end_word [OF assms(5)] w by (subst split_args.simps) (simp add: split_args.simps [of "[]"])
  have "arg_end False 0 (quote # str @ quote # CHR '' '' # w) = (str, w)"
    using arg_end_plain [OF assms(2,3), of w] by (cases str) simp_all
  then have "split_args (CHR '' '' # quote # str @ quote # CHR '' '' # w) = [str, w]"
    by (subst split_args.simps) (simp add: last)
  then show ?thesis by (simp add: argv_def exe)
qed

section \<open>Who owns which handle\<close>

text \<open>
  Besides the handles \<open>H\<close> of the surrounding program exactly the handles of \<open>X\<close> are open, and no
  handle has been misused.
\<close>

definition wholds :: "(HANDLE \<rightharpoonup> kobj) \<Rightarrow> (HANDLE \<times> kobj) list \<Rightarrow> win \<Rightarrow> bool" where
  "wholds H X w \<longleftrightarrow> \<not> misuse w \<and> (\<forall>h \<in> dom (handles w). h < next_handle w) \<and> distinct (map fst X) \<and>
     fst ` set X \<inter> dom H = {} \<and> handles w = H ++ map_of X"

lemma wholds_perm:
  assumes "wholds H X w" "mset X = mset Y"
  shows "wholds H Y w"
proof -
  from assms(2) have e: "set X = set Y" "mset (map fst X) = mset (map fst Y)" by (auto dest: mset_eq_setD)
  from assms(1) have d: "distinct (map fst X)" by (simp add: wholds_def)
  with e(2) have d': "distinct (map fst Y)" using mset_eq_imp_distinct_iff by blast
  have "map_of X = map_of Y" using d d' e(1) by (simp add: map_of_inject_set)
  with assms(1) d' e(1) show ?thesis by (simp add: wholds_def)
qed

lemma wholds_frame: "wholds H X w \<Longrightarrow> handles w' = handles w \<Longrightarrow> next_handle w' = next_handle w \<Longrightarrow> misuse w' = misuse w \<Longrightarrow> wholds H X w'"
  by (simp add: wholds_def)

lemma wholds_get: "wholds H ((h, ob) # X) w \<Longrightarrow> handles w h = Some ob"
  by (simp add: wholds_def)

lemma wholds_mem:
  assumes "wholds H X w" "(h, ob) \<in> set X"
  shows "handles w h = Some ob"
  using assms by (simp add: wholds_def map_add_def)

lemma wholds_new:
  assumes "wholds H X w" "new_handle ob w = (h, w')"
  shows "wholds H ((h, ob) # X) w' \<and> running w' = running w \<and> next_pid w' = next_pid w \<and> started w' = started w \<and> fails w' = fails w \<and>
    signalled w' = signalled w"
proof -
  have h: "h = next_handle w" "w' = w\<lparr>handles := (handles w)(h \<mapsto> ob), next_handle := next_handle w + 1\<rparr>"
    using assms(2) by (auto simp: new_handle_def)
  have "\<forall>h \<in> dom (handles w). h < next_handle w" using assms(1) unfolding wholds_def by blast
  then have "h \<notin> dom (handles w)" using h(1) by blast
  moreover have "dom (handles w) = dom H \<union> fst ` set X" using assms(1) by (simp add: wholds_def dom_map_of_conv_image_fst Un_commute)
  ultimately have "h \<notin> dom H" "h \<notin> fst ` set X" by auto
  with assms(1) h show ?thesis by (auto simp: wholds_def less_SucI)
qed

lemma wholds_close:
  assumes "wholds H ((h, ob) # X) w"
  shows "wholds H X (CloseHandle h w)" "running (CloseHandle h w) = (case ob of Job True ps \<Rightarrow> running w - ps | _ \<Rightarrow> running w)"
    "started (CloseHandle h w) = started w" "signalled (CloseHandle h w) = signalled w" "fails (CloseHandle h w) = fails w"
    "next_pid (CloseHandle h w) = next_pid w"
proof -
  from assms have f: "h \<notin> fst ` set X" "h \<notin> dom H" by (auto simp: wholds_def)
  have "(handles w)(h := None) = H ++ map_of X"
  proof
    fix x
    have "map_of X h = None" using f(1) by (simp add: map_of_eq_None_iff)
    with f(2) assms show "((handles w)(h := None)) x = (H ++ map_of X) x" by (auto simp: wholds_def map_add_def domIff)
  qed
  with assms wholds_get [OF assms] show "wholds H X (CloseHandle h w)" by (auto simp: wholds_def CloseHandle_def)
qed (use wholds_get [OF assms] in \<open>simp_all add: CloseHandle_def\<close>)

text \<open>An object changes behind its handle.\<close>

lemma wholds_set:
  assumes "wholds H ((h, ob) # X) w" "w' = w\<lparr>handles := (handles w)(h \<mapsto> ob')\<rparr>"
  shows "wholds H ((h, ob') # X) w'"
  using assms by (auto simp: wholds_def)

text \<open>The two handles of a process.\<close>

fun proc_handles :: "PROCESS_INFORMATION list \<Rightarrow> (HANDLE \<times> kobj) list" where
  "proc_handles [] = []"
| "proc_handles (p # ps) = (hThread p, Thread (dwProcessId p)) # (hProcess p, Process (dwProcessId p)) # proc_handles ps"

lemma proc_handles_append [simp]: "proc_handles (ps @ qs) = proc_handles ps @ proc_handles qs"
  by (induction ps rule: proc_handles.induct) simp_all

lemma create_process_spec:
  assumes "wholds H X w" "CreateProcessA cmd w = (Some p, w')"
  shows "wholds H (proc_handles [p] @ X) w' \<and> dwProcessId p = next_pid w \<and> next_pid w' = Suc (next_pid w) \<and>
    running w' = insert (next_pid w) (running w) \<and> started w' = started w @ [(next_pid w, cmd)] \<and> set (fails w') \<subseteq> set (fails w) \<and>
    signalled w' = signalled w"
proof -
  obtain w1 where w1: "call_fails w = (False, w1)" using assms(2) by (cases "call_fails w") (auto simp: CreateProcessA_def split: bool.splits)
  then have c: "handles w1 = handles w" "next_handle w1 = next_handle w" "misuse w1 = misuse w" "running w1 = running w" "started w1 = started w"
    "next_pid w1 = next_pid w" "set (fails w1) \<subseteq> set (fails w)" "signalled w1 = signalled w"
    by (auto simp: call_fails_def split: list.splits)
  obtain hp w2 where w2: "new_handle (Process (next_pid w1)) w1 = (hp, w2)" by force
  obtain ht w3 where w3: "new_handle (Thread (next_pid w1)) w2 = (ht, w3)" by force
  note a = wholds_new [OF wholds_frame [OF assms(1) c(1-3)] w2]
  note b = wholds_new [OF a [THEN conjunct1] w3]
  have e: "p = \<lparr>hProcess = hp, hThread = ht, dwProcessId = next_pid w1\<rparr>"
    "w' = w3\<lparr>next_pid := next_pid w1 + 1, running := insert (next_pid w1) (running w3), started := started w3 @ [(next_pid w1, cmd)]\<rparr>"
    using assms(2) w1 w2 w3 by (auto simp: CreateProcessA_def Let_def)
  have "wholds H (proc_handles [p] @ X) w'" using wholds_frame [OF b [THEN conjunct1], of w'] e by simp
  with a b c e show ?thesis by auto
qed

lemma create_process_None:
  assumes "CreateProcessA cmd w = (None, w')"
  shows "True \<in> set (fails w)" "handles w' = handles w" "next_handle w' = next_handle w" "misuse w' = misuse w" "running w' = running w"
    "next_pid w' = next_pid w" "started w' = started w" "signalled w' = signalled w" "set (fails w') \<subseteq> set (fails w)"
  using assms by (auto simp: CreateProcessA_def call_fails_def Let_def split: list.splits bool.splits prod.splits)

lemma assign_spec:
  assumes "wholds H ((j, Job k ps) # X) w" "(h, Process pid) \<in> set X" "AssignProcessToJobObject j h w = w'"
  shows "\<exists>qs. (qs = ps \<or> qs = insert pid ps) \<and> (True \<notin> set (fails w) \<longrightarrow> qs = insert pid ps) \<and> wholds H ((j, Job k qs) # X) w' \<and>
    running w' = running w \<and> next_pid w' = next_pid w \<and> started w' = started w \<and> signalled w' = signalled w \<and> set (fails w') \<subseteq> set (fails w)"
proof -
  obtain f w1 where w1: "call_fails w = (f, w1)" by force
  then have c: "handles w1 = handles w" "next_handle w1 = next_handle w" "misuse w1 = misuse w" "running w1 = running w" "started w1 = started w"
    "next_pid w1 = next_pid w" "set (fails w1) \<subseteq> set (fails w)" "signalled w1 = signalled w" "f \<Longrightarrow> True \<in> set (fails w)"
    by (auto simp: call_fails_def split: list.splits)
  have a: "wholds H ((j, Job k ps) # X) w1" by (rule wholds_frame [OF assms(1) c(1-3)])
  show ?thesis
  proof (cases f)
    case True
    with assms(3) w1 have "w' = w1" by (simp add: AssignProcessToJobObject_def)
    with a c True show ?thesis by auto
  next
    case False
    have "handles w1 j = Some (Job k ps)" "handles w1 h = Some (Process pid)" using wholds_get [OF a] wholds_mem [OF a, of h] assms(2) by auto
    with assms(3) w1 False have e: "w' = w1\<lparr>handles := (handles w1)(j \<mapsto> Job k (insert pid ps))\<rparr>" by (simp add: AssignProcessToJobObject_def)
    from wholds_set [OF a this] e c show ?thesis by (intro exI [of _ "insert pid ps"]) simp
  qed
qed

text \<open>Handles change hands between the surrounding program and the holder.\<close>

lemma wholds_claim: "wholds H (Y @ X) w \<longleftrightarrow> wholds (H ++ map_of Y) X w \<and> distinct (map fst Y) \<and> fst ` set Y \<inter> dom H = {}"
proof -
  have "H ++ map_of (Y @ X) = H ++ map_of Y ++ map_of X" if "fst ` set Y \<inter> fst ` set X = {}"
    using that map_add_comm [of "map_of X" "map_of Y"] by (simp add: map_add_assoc dom_map_of_conv_image_fst Int_commute)
  moreover have "fst ` set Y \<inter> fst ` set X = {}" if "wholds H (Y @ X) w" using that by (auto simp: wholds_def)
  moreover have "fst ` set Y \<inter> fst ` set X = {}" if "wholds (H ++ map_of Y) X w" using that by (auto simp: wholds_def dom_map_of_conv_image_fst)
  ultimately show ?thesis unfolding wholds_def by (auto simp: dom_map_of_conv_image_fst)
qed

text \<open>A system without objects, on which every call succeeds.\<close>

definition fresh_win :: win where
  "fresh_win = \<lparr>handles = Map.empty, next_handle = 1, next_pid = 1, running = {}, started = [], signalled = {}, fails = [], misuse = False\<rparr>"

lemma fresh_win_ok: "wholds (handles fresh_win) [] fresh_win" "\<forall>p \<in> running fresh_win. p < next_pid fresh_win" "fails fresh_win = []"
  "running fresh_win = {}" "started fresh_win = []" "handles fresh_win = Map.empty"
  by (simp_all add: fresh_win_def wholds_def)

end
