(* ===== verification/Launcher.thy ===== *)
theory Launcher
  imports Windows Node
begin

text \<open>
  \<open>DataSource/cp_launcher.c\<close>: the data source starts a process for every node of the table, puts
  them into a job that kills its members when it is closed, and in the end closes the job and waits
  for all of them.
\<close>

section \<open>Operations\<close>

text \<open>The globals; an array is its entries and its block.\<close>

record launcher =
  g_cpProcs :: "(PROCESS_INFORMATION list \<times> nat) option"
  g_cpCount :: nat
  g_ddProcs :: "(PROCESS_INFORMATION list \<times> nat) option"
  g_ddCount :: nat
  g_job :: "HANDLE option"

definition MAX_PATH :: nat where
  "MAX_PATH = 260"

definition create_job_object :: "launcher \<Rightarrow> win \<Rightarrow> bool \<times> launcher \<times> win" where
  "create_job_object l w =
     (case CreateJobObject w of
        (None, w) \<Rightarrow> (False, l\<lparr>g_job := None\<rparr>, w)
      | (Some j, w) \<Rightarrow> (case SetInformationJobObject j w of (ok, w) \<Rightarrow> (ok, l\<lparr>g_job := Some j\<rparr>, w)))"

text \<open>The directory of the running program, with its last backslash, and a program in it.\<close>

definition module_dir :: "string \<Rightarrow> string" where
  "module_dir path =
     (if backslash \<in> set path then rev (dropWhile (\<lambda>ch. ch \<noteq> backslash) (rev path)) else path)"

definition exe_path :: "string \<Rightarrow> string \<Rightarrow> string" where
  "exe_path path name = snprintf MAX_PATH (module_dir path @ name)"

definition command :: "string \<Rightarrow> string \<Rightarrow> u16 \<Rightarrow> string" where
  "command exe str port =
     snprintf 1024 ([quote] @ exe @ [quote, CHR '' '', quote] @ str @ [quote, CHR '' ''] @ string_of_nat (unat port))"

text \<open>The loop over the nodes; the result says whether all processes could be created.\<close>

fun launch_loop :: "(NodeInfo \<Rightarrow> bool) \<Rightarrow> string \<Rightarrow> HANDLE \<Rightarrow> NodeInfo list \<Rightarrow> PROCESS_INFORMATION list \<Rightarrow> win \<Rightarrow>
    bool \<times> PROCESS_INFORMATION list \<times> win" where
  "launch_loop eligible exe j [] procs w = (True, procs, w)"
| "launch_loop eligible exe j (n # ns) procs w =
     (if \<not> eligible n then launch_loop eligible exe j ns procs w
      else
        (case nid n of
           None \<Rightarrow> (False, procs, w\<lparr>misuse := True\<rparr>)
         | Some h \<Rightarrow>
             (case CreateProcessA (command exe (chars h) (nport n)) w of
                (None, w) \<Rightarrow> (False, procs, w)
              | (Some p, w) \<Rightarrow>
                  launch_loop eligible exe j ns (procs @ [p]) (AssignProcessToJobObject j (hProcess p) w))))"

text \<open>The clean-up after a failure.\<close>

fun undo_launch :: "PROCESS_INFORMATION list \<Rightarrow> win \<Rightarrow> win" where
  "undo_launch [] w = w"
| "undo_launch (p # ps) w = undo_launch ps (CloseHandle (hProcess p) (CloseHandle (hThread p) (TerminateProcess (hProcess p) w)))"

text \<open>
  The array, the loop and what follows.  The second component of the result is what
  \<open>*outLaunchCount\<close> is set to (\<open>None\<close>: it is not set), the third the job.
\<close>

definition launch_nodes :: "(NodeInfo \<Rightarrow> bool) \<Rightarrow> string \<Rightarrow> HANDLE \<Rightarrow> NodeInfo list \<Rightarrow> win \<Rightarrow> os \<Rightarrow>
    (PROCESS_INFORMATION list \<times> nat) option \<times> nat option \<times> HANDLE option \<times> win \<times> os" where
  "launch_nodes eligible exe j ns w s =
     (let cnt = length (filter eligible ns)
      in if cnt = 0 then (None, Some 0, Some j, w, s)
         else
           (case malloc s of
              (None, s) \<Rightarrow> (None, None, Some j, w, s)
            | (Some b, s) \<Rightarrow>
                (case launch_loop eligible exe j ns [] w of
                   (False, procs, w) \<Rightarrow> (None, Some 0, None, CloseHandle j (undo_launch procs w), free_blk b s)
                 | (True, procs, w) \<Rightarrow> (Some (procs, b), Some cnt, Some j, w, s))))"

abbreviation propagator :: "NodeInfo \<Rightarrow> bool" where
  "propagator n \<equiv> ntype n \<noteq> NODE_DESTINATION"

abbreviation destination :: "NodeInfo \<Rightarrow> bool" where
  "destination n \<equiv> ntype n = NODE_DESTINATION"

definition cp_launch_all :: "string \<Rightarrow> NodeInfo list \<Rightarrow> launcher \<Rightarrow> win \<Rightarrow> os \<Rightarrow>
    (PROCESS_INFORMATION list \<times> nat) option \<times> nat option \<times> launcher \<times> win \<times> os" where
  "cp_launch_all path ns l w s =
     (case create_job_object l w of
        (ok, l, w) \<Rightarrow>
          (case g_job l of
             Some j \<Rightarrow>
               if ok then
                 (case launch_nodes propagator (exe_path path ''CentralPropagator.exe'') j ns w s of
                    (None, cnt, job, w, s) \<Rightarrow> (None, cnt, l\<lparr>g_job := job\<rparr>, w, s)
                  | (Some procs, cnt, job, w, s) \<Rightarrow>
                      (Some procs, cnt, l\<lparr>g_job := job, g_cpProcs := Some procs, g_cpCount := length (fst procs)\<rparr>, w, s))
               else (None, None, l, w, s)
           | None \<Rightarrow> (None, None, l, w, s)))"

definition dd_launch_all :: "string \<Rightarrow> NodeInfo list \<Rightarrow> launcher \<Rightarrow> win \<Rightarrow> os \<Rightarrow>
    (PROCESS_INFORMATION list \<times> nat) option \<times> nat option \<times> launcher \<times> win \<times> os" where
  "dd_launch_all path ns l w s =
     (case (case g_job l of None \<Rightarrow> create_job_object l w | Some j \<Rightarrow> (True, l, w)) of
        (ok, l, w) \<Rightarrow>
          (case g_job l of
             Some j \<Rightarrow>
               if ok then
                 (case launch_nodes destination (exe_path path ''DataDestination.exe'') j ns w s of
                    (None, cnt, job, w, s) \<Rightarrow> (None, cnt, l\<lparr>g_job := job\<rparr>, w, s)
                  | (Some procs, cnt, job, w, s) \<Rightarrow>
                      (Some procs, cnt, l\<lparr>g_job := job, g_ddProcs := Some procs, g_ddCount := length (fst procs)\<rparr>, w, s))
               else (None, None, l, w, s)
           | None \<Rightarrow> (None, None, l, w, s)))"

fun await_procs :: "PROCESS_INFORMATION list \<Rightarrow> win \<Rightarrow> win option" where
  "await_procs [] w = Some w"
| "await_procs (p # ps) w =
     (case WaitForSingleObject (hProcess p) w of
        None \<Rightarrow> None
      | Some w \<Rightarrow> await_procs ps (CloseHandle (hProcess p) (CloseHandle (hThread p) w)))"

definition end_procs :: "(PROCESS_INFORMATION list \<times> nat) option \<Rightarrow> nat \<Rightarrow> win \<Rightarrow> os \<Rightarrow> (win \<times> os) option" where
  "end_procs procs cnt w s =
     (case procs of
        None \<Rightarrow> Some (w, s)
      | Some (ps, b) \<Rightarrow> map_option (\<lambda>w. (w, free_blk b s)) (await_procs (take cnt ps) w))"

text \<open>\<open>None\<close>: a wait does not return.\<close>

definition cp_terminate_all :: "launcher \<Rightarrow> win \<Rightarrow> os \<Rightarrow> (launcher \<times> win \<times> os) option" where
  "cp_terminate_all l w s =
     (let w = (case g_job l of None \<Rightarrow> w | Some j \<Rightarrow> CloseHandle j w)
      in (case end_procs (g_cpProcs l) (g_cpCount l) w s of
            None \<Rightarrow> None
          | Some (w, s) \<Rightarrow>
              (case end_procs (g_ddProcs l) (g_ddCount l) w s of
                 None \<Rightarrow> None
               | Some (w, s) \<Rightarrow>
                   Some (\<lparr>g_cpProcs = None, g_cpCount = (if g_cpProcs l = None then g_cpCount l else 0),
                      g_ddProcs = None, g_ddCount = (if g_ddProcs l = None then g_ddCount l else 0), g_job = None\<rparr>, w, s))))"

section \<open>The processes that are started\<close>

text \<open>The command lines of the nodes.\<close>

definition commands :: "(NodeInfo \<Rightarrow> bool) \<Rightarrow> string \<Rightarrow> NodeInfo list \<Rightarrow> string list" where
  "commands eligible exe ns = map (\<lambda>n. command exe (chars (the (nid n))) (nport n)) (filter eligible ns)"

abbreviation pids :: "PROCESS_INFORMATION list \<Rightarrow> nat set" where
  "pids ps \<equiv> dwProcessId ` set ps"

lemma proc_handles_mem: "p \<in> set ps \<Longrightarrow> (hProcess p, Process (dwProcessId p)) \<in> set (proc_handles ps)"
  by (induction ps rule: proc_handles.induct) auto

lemma atLeastLessThan_head: "(m :: nat) < n \<Longrightarrow> insert m {Suc m..<n} = {m..<n}"
  by auto

text \<open>
  The loop keeps track of every handle; all new processes run, those whose assignment succeeded are
  members of the job.
\<close>

lemma launch_loop_spec:
  assumes "wholds H ((j, Job k ms) # proc_handles procs @ X) w" "\<forall>n \<in> set ns. nid n \<noteq> None"
    and "launch_loop eligible exe j ns procs w = (ok, procs', w')"
  shows "\<exists>new ms'. procs' = procs @ new \<and> wholds H ((j, Job k ms') # proc_handles procs' @ X) w' \<and>
    ms \<subseteq> ms' \<and> ms' \<subseteq> ms \<union> pids new \<and> running w' = running w \<union> pids new \<and> pids new = {next_pid w..<next_pid w'} \<and>
    next_pid w \<le> next_pid w' \<and> signalled w' = signalled w \<and> set (fails w') \<subseteq> set (fails w) \<and>
    (ok \<longrightarrow> length new = length (filter eligible ns) \<and> started w' = started w @ zip (map dwProcessId new) (commands eligible exe ns)) \<and>
    (True \<notin> set (fails w) \<longrightarrow> ok \<and> ms' = ms \<union> pids new)"
  using assms
proof (induction ns arbitrary: procs w ms)
  case Nil
  then show ?case by (intro exI [of _ "[]"] exI [of _ ms]) (auto simp: commands_def)
next
  case (Cons n ns)
  show ?case
  proof (cases "eligible n")
    case False
    with Cons.prems have "launch_loop eligible exe j ns procs w = (ok, procs', w')" by simp
    from Cons.IH [OF Cons.prems(1) _ this] Cons.prems(2) False show ?thesis by (simp add: commands_def)
  next
    case True
    from Cons.prems(2) obtain h where h: "nid n = Some h" by auto
    let ?cmd = "command exe (chars h) (nport n)"
    obtain r w1 where r: "CreateProcessA ?cmd w = (r, w1)" by force
    show ?thesis
    proof (cases r)
      case None
      note N = create_process_None [OF r [unfolded None]]
      from True h r None Cons.prems(3) have "ok = False" "procs' = procs" "w' = w1" by auto
      then show ?thesis using N wholds_frame [OF Cons.prems(1) N(2-4)]
        by (intro exI [of _ "[]"] exI [of _ ms]) auto
    next
      case (Some p)
      from create_process_spec [OF Cons.prems(1) r [unfolded Some]]
      have C0: "wholds H (proc_handles [p] @ (j, Job k ms) # proc_handles procs @ X) w1"
        and C: "dwProcessId p = next_pid w" "next_pid w1 = Suc (next_pid w)" "running w1 = insert (next_pid w) (running w)"
          "started w1 = started w @ [(next_pid w, ?cmd)]" "set (fails w1) \<subseteq> set (fails w)" "signalled w1 = signalled w" by blast+
      let ?w = "AssignProcessToJobObject j (hProcess p) w1"
      have w1: "wholds H ((j, Job k ms) # proc_handles (procs @ [p]) @ X) w1" by (rule wholds_perm [OF C0]) simp
      have "(hProcess p, Process (next_pid w)) \<in> set (proc_handles (procs @ [p]) @ X)" using C by simp
      from assign_spec [OF w1 this refl] obtain ms1 where a: "ms1 = ms \<or> ms1 = insert (next_pid w) ms"
        "True \<notin> set (fails w1) \<longrightarrow> ms1 = insert (next_pid w) ms" "wholds H ((j, Job k ms1) # proc_handles (procs @ [p]) @ X) ?w"
        "running ?w = running w1" "next_pid ?w = next_pid w1" "started ?w = started w1" "signalled ?w = signalled w1" "set (fails ?w) \<subseteq> set (fails w1)"
        by blast
      have ns: "\<forall>n \<in> set ns. nid n \<noteq> None" using Cons.prems(2) by simp
      from True h r Some Cons.prems(3) have "launch_loop eligible exe j ns (procs @ [p]) ?w = (ok, procs', w')" by simp
      from Cons.IH [OF a(3) ns this] obtain new ms' where i: "procs' = (procs @ [p]) @ new"
        "wholds H ((j, Job k ms') # proc_handles procs' @ X) w'" "ms1 \<subseteq> ms'" "ms' \<subseteq> ms1 \<union> pids new" "running w' = running ?w \<union> pids new"
        "pids new = {next_pid ?w..<next_pid w'}" "next_pid ?w \<le> next_pid w'" "signalled w' = signalled ?w" "set (fails w') \<subseteq> set (fails ?w)"
        "ok \<longrightarrow> length new = length (filter eligible ns) \<and> started w' = started ?w @ zip (map dwProcessId new) (commands eligible exe ns)"
        "True \<notin> set (fails ?w) \<longrightarrow> ok \<and> ms' = ms1 \<union> pids new" by (elim exE conjE)
      have "pids (p # new) = insert (next_pid w) {Suc (next_pid w)..<next_pid w'}" using C(1,2) i(6) a(5) by simp
      also have "\<dots> = {next_pid w..<next_pid w'}" using i(7) a(5) C(2) by (intro atLeastLessThan_head) simp
      finally have p: "pids (p # new) = {next_pid w..<next_pid w'}" .
      have st: "ok \<longrightarrow> length (p # new) = length (filter eligible (n # ns)) \<and>
        started w' = started w @ zip (map dwProcessId (p # new)) (commands eligible exe (n # ns))"
        using i(10) a(6) C True h by (simp add: commands_def)
      have nf: "True \<notin> set (fails w) \<longrightarrow> ok \<and> ms' = ms \<union> pids (p # new)" using i(11) a(2,8) C by auto
      have "ms \<subseteq> ms'" "ms' \<subseteq> ms \<union> pids (p # new)" using i(3,4) a(1) C by auto
      moreover have "running w' = running w \<union> pids (p # new)" using i(5) a(4) C by auto
      moreover have "next_pid w \<le> next_pid w'" "set (fails w') \<subseteq> set (fails w)" "signalled w' = signalled w" using i(7-9) a(5,7,8) C by auto
      moreover have "procs' = procs @ p # new" using i(1) by simp
      ultimately show ?thesis using i(2) p st nf by (intro exI [of _ "p # new"] exI [of _ ms'] conjI)
    qed
  qed
qed

text \<open>The clean-up ends the processes and closes their handles.\<close>

lemma undo_launch_spec:
  assumes "wholds H (proc_handles procs @ X) w"
  shows "wholds H X (undo_launch procs w) \<and> running (undo_launch procs w) = running w - pids procs \<and>
    next_pid (undo_launch procs w) = next_pid w \<and> set (fails (undo_launch procs w)) = set (fails w)"
  using assms
proof (induction procs arbitrary: w)
  case (Cons p procs)
  let ?T = "(hThread p, Thread (dwProcessId p))" and ?P = "(hProcess p, Process (dwProcessId p))"
  let ?w1 = "TerminateProcess (hProcess p) w"
  let ?w2 = "CloseHandle (hThread p) ?w1"
  have e: "?w1 = w\<lparr>running := running w - {dwProcessId p}\<rparr>"
    using wholds_mem [OF Cons.prems, of "hProcess p" "Process (dwProcessId p)"] by (simp add: TerminateProcess_def)
  have "wholds H (?T # ?P # proc_handles procs @ X) ?w1" using Cons.prems e by (intro wholds_frame [OF Cons.prems [simplified]]) simp_all
  note t = wholds_close [OF this]
  note u = wholds_close [OF t(1)]
  from Cons.IH [OF u(1)] u t e show ?case by auto
qed simp

text \<open>Waiting for processes that have ended returns, and closes their handles.\<close>

lemma await_procs_spec:
  assumes "wholds H (proc_handles procs @ X) w" "pids procs \<inter> running w = {}"
  shows "\<exists>w'. await_procs procs w = Some w' \<and> wholds H X w' \<and> running w' = running w \<and> started w' = started w \<and> signalled w' = signalled w"
  using assms
proof (induction procs arbitrary: w)
  case (Cons p procs)
  have "WaitForSingleObject (hProcess p) w = Some w"
    using wholds_mem [OF Cons.prems(1), of "hProcess p" "Process (dwProcessId p)"] Cons.prems(2) by (simp add: WaitForSingleObject_def)
  moreover note t = wholds_close [OF Cons.prems(1) [simplified]]
  moreover note u = wholds_close [OF t(1)]
  moreover have "pids procs \<inter> running (CloseHandle (hProcess p) (CloseHandle (hThread p) w)) = {}" using t u Cons.prems(2) by auto
  note Cons.IH [OF u(1) this]
  ultimately show ?case by auto
qed simp

section \<open>The launches\<close>

definition no_launch :: launcher where
  "no_launch = \<lparr>g_cpProcs = None, g_cpCount = 0, g_ddProcs = None, g_ddCount = 0, g_job = None\<rparr>"

lemma create_job_spec:
  assumes "wholds H X w" "create_job_object l w = (ok, l', w')"
  shows "\<exists>g. l' = l\<lparr>g_job := g\<rparr> \<and> running w' = running w \<and> next_pid w' = next_pid w \<and> started w' = started w \<and> signalled w' = signalled w \<and>
    set (fails w') \<subseteq> set (fails w) \<and> (True \<notin> set (fails w) \<longrightarrow> ok) \<and> (ok \<longrightarrow> g \<noteq> None) \<and>
    wholds H ((case g of None \<Rightarrow> [] | Some j \<Rightarrow> [(j, Job ok {})]) @ X) w'"
proof -
  obtain f w1 where f: "call_fails w = (f, w1)" by force
  then have c: "handles w1 = handles w" "next_handle w1 = next_handle w" "misuse w1 = misuse w" "running w1 = running w" "started w1 = started w"
    "next_pid w1 = next_pid w" "set (fails w1) \<subseteq> set (fails w)" "signalled w1 = signalled w" "f \<Longrightarrow> True \<in> set (fails w)"
    by (auto simp: call_fails_def split: list.splits)
  have a: "wholds H X w1" by (rule wholds_frame [OF assms(1) c(1-3)])
  show ?thesis
  proof (cases f)
    case True
    with assms(2) f a c show ?thesis by (auto simp: create_job_object_def CreateJobObject_def)
  next
    case False
    obtain j w2 where j: "new_handle (Job False {}) w1 = (j, w2)" by force
    note n = wholds_new [OF a j]
    obtain f2 w3 where f2: "call_fails w2 = (f2, w3)" by force
    then have d: "handles w3 = handles w2" "next_handle w3 = next_handle w2" "misuse w3 = misuse w2" "running w3 = running w2" "started w3 = started w2"
      "next_pid w3 = next_pid w2" "set (fails w3) \<subseteq> set (fails w2)" "signalled w3 = signalled w2" "f2 \<Longrightarrow> True \<in> set (fails w2)"
      by (auto simp: call_fails_def split: list.splits)
    have b: "wholds H ((j, Job False {}) # X) w3" by (rule wholds_frame [OF n [THEN conjunct1] d(1-3)])
    have e: "l' = l\<lparr>g_job := Some j\<rparr>" "ok \<longleftrightarrow> \<not> f2" "w' = (if f2 then w3 else w3\<lparr>handles := (handles w3)(j \<mapsto> Job True {})\<rparr>)"
      using assms(2) f False j f2 wholds_get [OF b] by (auto simp: create_job_object_def CreateJobObject_def SetInformationJobObject_def split: bool.splits)
    have "wholds H ((j, Job ok {}) # X) w'" using b wholds_set [OF b, of w' "Job True {}"] e by (cases f2) simp_all
    with e n d c show ?thesis by (intro exI [of _ "Some j"]) auto
  qed
qed

text \<open>
  One of the two launches, in a state where the job \<open>j\<close> exists: all or nothing, and nothing is
  reported as the count 0 or not at all.
\<close>

lemma launch_nodes_spec:
  assumes "wholds H ((j, Job k ms) # X) w" "\<forall>n \<in> set ns. nid n \<noteq> None" "os_ok s" "launch_nodes eligible exe j ns w s = (r, cnt, g, w', s')"
    and "\<forall>p \<in> running w. p < next_pid w"
  shows "case r of
      None \<Rightarrow> (cnt = None \<or> cnt = Some 0) \<and> live s' = live s \<and> os_ok s' \<and> socks s' = socks s \<and>
        (g = Some j \<and> handles w' = handles w \<and> running w' = running w \<or> g = None \<and> wholds H X w' \<and> running w' = running w - (if k then ms else {})) \<and>
        (True \<notin> set (fails w) \<and> True \<notin> set (oom s) \<longrightarrow> filter eligible ns = [] \<and> g = Some j \<and> w' = w \<and> s' = s)
    | Some (procs, b) \<Rightarrow> g = Some j \<and> cnt = Some (length (filter eligible ns)) \<and> length procs = length (filter eligible ns) \<and> procs \<noteq> [] \<and>
        b \<notin> live s \<and> live s' = insert b (live s) \<and> os_ok s' \<and> socks s' = socks s \<and> set (oom s') \<subseteq> set (oom s) \<and>
        (\<exists>ms'. wholds H ((j, Job k ms') # proc_handles procs @ X) w' \<and> ms \<subseteq> ms' \<and> ms' \<subseteq> ms \<union> pids procs \<and> running w' = running w \<union> pids procs \<and>
           pids procs = {next_pid w..<next_pid w'} \<and> next_pid w \<le> next_pid w' \<and>
           started w' = started w @ zip (map dwProcessId procs) (commands eligible exe ns) \<and>
           set (fails w') \<subseteq> set (fails w) \<and> signalled w' = signalled w \<and> (True \<notin> set (fails w) \<longrightarrow> ms' = ms \<union> pids procs))"
proof (cases "filter eligible ns = []")
  case True
  with assms show ?thesis by (auto simp: launch_nodes_def)
next
  case False
  obtain m s1 where m: "malloc s = (m, s1)" by force
  show ?thesis
  proof (cases m)
    case None
    with False m assms(4) malloc_None [of s s1] malloc_ok [OF assms(3) m] malloc_succeeds [of s] show ?thesis
      by (auto simp: launch_nodes_def Let_def)
  next
    case (Some b)
    note M = malloc_Some(1,2) [OF m [unfolded Some]] malloc_fresh [OF assms(3) m [unfolded Some]] malloc_ok [OF assms(3) m] malloc_oom [OF m]
    obtain ok procs w1 where l: "launch_loop eligible exe j ns [] w = (ok, procs, w1)" by (metis prod.exhaust)
    from launch_loop_spec [of H j k ms "[]" X w, OF _ assms(2) l] assms(1) obtain ms' where
      L: "wholds H ((j, Job k ms') # proc_handles procs @ X) w1" "ms \<subseteq> ms'" "ms' \<subseteq> ms \<union> pids procs" "running w1 = running w \<union> pids procs"
        "pids procs = {next_pid w..<next_pid w1}" "next_pid w \<le> next_pid w1" "signalled w1 = signalled w" "set (fails w1) \<subseteq> set (fails w)"
        "ok \<longrightarrow> length procs = length (filter eligible ns) \<and> started w1 = started w @ zip (map dwProcessId procs) (commands eligible exe ns)"
        "True \<notin> set (fails w) \<longrightarrow> ok \<and> ms' = ms \<union> pids procs" by auto
    show ?thesis
    proof (cases ok)
      case True
      with False m Some l assms(4) have e: "r = Some (procs, b)" "cnt = Some (length (filter eligible ns))" "g = Some j" "w' = w1" "s' = s1"
        by (auto simp: launch_nodes_def Let_def)
      have "procs \<noteq> []" using L(9) True False by auto
      with e L True M show ?thesis by auto
    next
      case no: False
      let ?w = "undo_launch procs w1"
      have "wholds H (proc_handles procs @ (j, Job k ms') # X) w1" by (rule wholds_perm [OF L(1)]) simp
      note U = undo_launch_spec [OF this]
      note C = wholds_close [OF U [THEN conjunct1]]
      from False no m Some l assms(4) have e: "r = None" "cnt = Some 0" "g = None" "w' = CloseHandle j ?w" "s' = free_blk b s1"
        by (auto simp: launch_nodes_def Let_def)
      have "running w \<inter> pids procs = {}" using assms(5) L(5) by auto
      then have "running w' = running w - (if k then ms else {})" using e C(2) U L(2-4) by (cases k) auto
      moreover have "live s' = live s" "os_ok s'" "socks s' = socks s" using e M by (auto simp: free_blk_live release_sel intro: os_intros)
      ultimately show ?thesis using e C(1) L(10) no by simp
    qed
  qed
qed

abbreviation procs_of :: "(PROCESS_INFORMATION list \<times> nat) option \<Rightarrow> PROCESS_INFORMATION list" where
  "procs_of a \<equiv> (case a of None \<Rightarrow> [] | Some (ps, b) \<Rightarrow> ps)"

abbreviation arr_blks :: "(PROCESS_INFORMATION list \<times> nat) option \<Rightarrow> nat list" where
  "arr_blks a \<equiv> (case a of None \<Rightarrow> [] | Some (ps, b) \<Rightarrow> [b])"

text \<open>What the launcher owns: the job with all processes as members, their handles, the arrays.\<close>

definition launched :: "(HANDLE \<rightharpoonup> kobj) \<Rightarrow> nat set \<Rightarrow> SOCKET set \<Rightarrow> launcher \<Rightarrow> win \<Rightarrow> os \<Rightarrow> bool" where
  "launched H L K l w s \<longleftrightarrow> (\<exists>j. g_job l = Some j \<and>
     wholds H ((j, Job True (pids (procs_of (g_cpProcs l)) \<union> pids (procs_of (g_ddProcs l)))) #
       proc_handles (procs_of (g_cpProcs l)) @ proc_handles (procs_of (g_ddProcs l))) w) \<and>
     g_cpCount l = length (procs_of (g_cpProcs l)) \<and> g_ddCount l = length (procs_of (g_ddProcs l)) \<and>
     holds L K (arr_blks (g_cpProcs l) @ arr_blks (g_ddProcs l)) s"

lemma end_procs_spec:
  assumes "wholds H (proc_handles (procs_of a) @ X) w" "pids (procs_of a) \<inter> running w = {}" "holds L K (arr_blks a @ B) s"
  shows "\<exists>w' s'. end_procs a (length (procs_of a)) w s = Some (w', s') \<and> wholds H X w' \<and> running w' = running w \<and> holds L K B s'"
proof (cases a)
  case (Some pb)
  obtain ps b where a: "a = Some (ps, b)" using Some by (cases pb) auto
  from await_procs_spec [of H ps X w] assms(1,2) a obtain w' where "await_procs ps w = Some w'" "wholds H X w'" "running w' = running w" by auto
  moreover have "holds L K B (free_blk b s)" using holds_free assms(3) a by simp
  ultimately show ?thesis using a by (simp add: end_procs_def)
qed (use assms in \<open>simp add: end_procs_def\<close>)

lemma terminate_spec:
  assumes "launched H L K l w s"
  shows "\<exists>l' w' s'. cp_terminate_all l w s = Some (l', w', s') \<and> wholds H [] w' \<and>
    running w' = running w - (pids (procs_of (g_cpProcs l)) \<union> pids (procs_of (g_ddProcs l))) \<and> holds L K [] s'"
proof -
  let ?c = "g_cpProcs l" and ?d = "g_ddProcs l"
  from assms obtain j where j: "g_job l = Some j"
    "wholds H ((j, Job True (pids (procs_of ?c) \<union> pids (procs_of ?d))) # proc_handles (procs_of ?c) @ proc_handles (procs_of ?d)) w"
    and n: "g_cpCount l = length (procs_of ?c)" "g_ddCount l = length (procs_of ?d)" and h: "holds L K (arr_blks ?c @ arr_blks ?d @ []) s"
    by (auto simp: launched_def)
  note C = wholds_close [OF j(2)]
  have R: "running (CloseHandle j w) = running w - (pids (procs_of ?c) \<union> pids (procs_of ?d))" using C(2) by simp
  then have "pids (procs_of ?c) \<inter> running (CloseHandle j w) = {}" by blast
  from end_procs_spec [OF C(1) this h] obtain w1 s1
    where e: "end_procs ?c (g_cpCount l) (CloseHandle j w) s = Some (w1, s1)" "wholds H (proc_handles (procs_of ?d) @ []) w1"
      "running w1 = running (CloseHandle j w)" "holds L K (arr_blks ?d @ []) s1" using n(1) by auto
  from e(3) R have "pids (procs_of ?d) \<inter> running w1 = {}" by blast
  from end_procs_spec [OF e(2) this e(4)] obtain w2 s2
    where f: "end_procs ?d (g_ddCount l) w1 s1 = Some (w2, s2)" "wholds H [] w2" "running w2 = running w1" "holds L K [] s2" using n(2) by auto
  with e R j(1) show ?thesis by (simp add: cp_terminate_all_def Let_def)
qed

lemma cp_launch_ok:
  assumes "wholds (handles w) [] w" "\<forall>p \<in> running w. p < next_pid w" "True \<notin> set (fails w)" "\<forall>n \<in> set ns. nid n \<noteq> None"
    and "os_ok s" "True \<notin> set (oom s)" "cp_launch_all path ns no_launch w s = (r, cnt, l', w', s')"
  shows "launched (handles w) (live s) (socks s) l' w' s' \<and> g_ddProcs l' = None \<and> cnt = Some (length (filter propagator ns)) \<and>
    (\<forall>p \<in> running w'. p < next_pid w') \<and> running w' = running w \<union> pids (procs_of (g_cpProcs l')) \<and> True \<notin> set (fails w') \<and>
    map snd (started w') = map snd (started w) @ commands propagator (exe_path path ''CentralPropagator.exe'') ns \<and>
    True \<notin> set (oom s') \<and> r = g_cpProcs l' \<and> length (procs_of r) = length (filter propagator ns)"
proof -
  let ?exe = "exe_path path ''CentralPropagator.exe''"
  obtain ok l1 w1 where c: "create_job_object no_launch w = (ok, l1, w1)" by (metis prod.exhaust)
  from create_job_spec [OF assms(1) c] assms(3) obtain j where j: "l1 = no_launch\<lparr>g_job := Some j\<rparr>" "ok" "running w1 = running w"
    "next_pid w1 = next_pid w" "started w1 = started w" "set (fails w1) \<subseteq> set (fails w)" "wholds (handles w) [(j, Job True {})] w1" by auto
  obtain g w2 s2 where n: "launch_nodes propagator ?exe j ns w1 s = (r, cnt, g, w2, s2)"
    using assms(7) c j by (cases "launch_nodes propagator ?exe j ns w1 s") (auto simp: cp_launch_all_def split: option.splits)
  have b: "\<forall>p \<in> running w1. p < next_pid w1" and f: "True \<notin> set (fails w1)" using assms(2,3) j(3,4,6) by auto
  note N = launch_nodes_spec [OF j(7) assms(4,5) n b]
  show ?thesis
  proof (cases r)
    case None
    with N f assms(6) have e: "filter propagator ns = []" "g = Some j" "w2 = w1" "s2 = s" "cnt = Some 0" using n by (auto simp: launch_nodes_def)
    with assms(7) c j n None have "l' = no_launch\<lparr>g_job := Some j\<rparr>" "w' = w1" "s' = s" by (auto simp: cp_launch_all_def)
    with e j b f assms(5,6) None show ?thesis by (simp add: launched_def no_launch_def holds_start commands_def)
  next
    case (Some pb)
    obtain ps bk where r: "r = Some (ps, bk)" using Some by (cases pb) simp
    from N r f obtain ms where e: "g = Some j" "cnt = Some (length (filter propagator ns))" "length ps = length (filter propagator ns)"
      "bk \<notin> live s" "live s2 = insert bk (live s)" "os_ok s2" "socks s2 = socks s" "set (oom s2) \<subseteq> set (oom s)"
      "wholds (handles w) ((j, Job True (pids ps)) # proc_handles ps @ []) w2" "running w2 = running w1 \<union> pids ps"
      "pids ps = {next_pid w1..<next_pid w2}" "next_pid w1 \<le> next_pid w2"
      "started w2 = started w1 @ zip (map dwProcessId ps) (commands propagator ?exe ns)" "set (fails w2) \<subseteq> set (fails w1)" by auto
    from assms(7) c j n r e(1) have l: "l' = no_launch\<lparr>g_job := Some j, g_cpProcs := Some (ps, bk), g_cpCount := length ps\<rparr>" "w' = w2" "s' = s2"
      by (auto simp: cp_launch_all_def)
    have "length (commands propagator ?exe ns) = length ps" using e(3) by (simp add: commands_def)
    with e l j b f assms(6) r show ?thesis by (auto simp: launched_def no_launch_def holds_def)
  qed
qed

lemma dd_launch_ok:
  assumes "launched H L K l w s" "g_ddProcs l = None" "\<forall>p \<in> running w. p < next_pid w" "True \<notin> set (fails w)" "\<forall>n \<in> set ns. nid n \<noteq> None"
    and "True \<notin> set (oom s)" "dd_launch_all path ns l w s = (r, cnt, l', w', s')"
  shows "launched H L K l' w' s' \<and> g_cpProcs l' = g_cpProcs l \<and> cnt = Some (length (filter destination ns)) \<and>
    running w' = running w \<union> pids (procs_of (g_ddProcs l')) \<and> True \<notin> set (fails w') \<and> True \<notin> set (oom s') \<and> r = g_ddProcs l' \<and>
    length (procs_of r) = length (filter destination ns) \<and> map snd (started w') = map snd (started w) @ commands destination (exe_path path ''DataDestination.exe'') ns"
proof -
  let ?exe = "exe_path path ''DataDestination.exe''" and ?c = "g_cpProcs l"
  from assms(1,2) obtain j where j: "g_job l = Some j" "wholds H ((j, Job True (pids (procs_of ?c))) # proc_handles (procs_of ?c)) w"
    "g_cpCount l = length (procs_of ?c)" "g_ddCount l = 0" "holds L K (arr_blks ?c) s" by (auto simp: launched_def)
  obtain g w2 s2 where n: "launch_nodes destination ?exe j ns w s = (r, cnt, g, w2, s2)"
    using assms(7) j(1) by (cases "launch_nodes destination ?exe j ns w s") (auto simp: dd_launch_all_def split: option.splits)
  have ok: "os_ok s" using j(5) by (simp add: holds_def)
  note N = launch_nodes_spec [OF j(2) assms(5) ok n assms(3)]
  show ?thesis
  proof (cases r)
    case None
    with N assms(4,6) have e: "filter destination ns = []" "g = Some j" "w2 = w" "s2 = s" "cnt = Some 0" using n by (auto simp: launch_nodes_def)
    with assms(7) j n None have "l' = l" "w' = w" "s' = s" by (auto simp: dd_launch_all_def)
    with e assms(1,2,4,6) None show ?thesis by (simp add: commands_def)
  next
    case (Some pb)
    obtain ps bk where r: "r = Some (ps, bk)" using Some by (cases pb) simp
    from N r assms(4) have e: "g = Some j" "cnt = Some (length (filter destination ns))" "length ps = length (filter destination ns)"
      "bk \<notin> live s" "live s2 = insert bk (live s)" "os_ok s2" "socks s2 = socks s"
      "wholds H ((j, Job True (pids (procs_of ?c) \<union> pids ps)) # proc_handles ps @ proc_handles (procs_of ?c)) w2"
      "running w2 = running w \<union> pids ps" "started w2 = started w @ zip (map dwProcessId ps) (commands destination ?exe ns)"
      "set (fails w2) \<subseteq> set (fails w)" "set (oom s2) \<subseteq> set (oom s)" by auto
    from assms(7) j n r e(1) have l: "l' = l\<lparr>g_job := Some j, g_ddProcs := Some (ps, bk), g_ddCount := length ps\<rparr>" "w' = w2" "s' = s2"
      by (auto simp: dd_launch_all_def)
    have "wholds H ((j, Job True (pids (procs_of ?c) \<union> pids ps)) # proc_handles (procs_of ?c) @ proc_handles ps) w2"
      by (rule wholds_perm [OF e(8)]) simp
    moreover have "holds L K (arr_blks ?c @ [bk]) s2" using j(5) e(4-7) by (auto simp: holds_def)
    moreover have "length (commands destination ?exe ns) = length ps" using e(3) by (simp add: commands_def)
    moreover have "True \<notin> set (fails w2)" "True \<notin> set (oom s2)" using e(11,12) assms(4,6) by blast+
    ultimately show ?thesis using l e j r by (simp add: launched_def)
  qed
qed

lemma launched_running: "launched H L K l w s \<Longrightarrow> launched H L K l (w\<lparr>running := R\<rparr>) s"
  using wholds_frame [of H _ w "w\<lparr>running := R\<rparr>"] unfolding launched_def by auto

section \<open>Properties\<close>

text \<open>
  C33. Launching and terminating: when no call fails, \<open>cp_launch_all\<close> starts one process for every
  propagator and \<open>dd_launch_all\<close> one for every destination of the table, in its order and with the
  node's id and port on the command line, and reports their numbers; after any of these
  processes have ended (\<open>R\<close> are those that still run) \<open>cp_terminate_all\<close> returns, none of them
  runs any more, every handle has been closed once, and the memory has been given back.
\<close>

theorem launch_terminate:
  assumes "wholds (handles w) [] w" "\<forall>p \<in> running w. p < next_pid w" "True \<notin> set (fails w)" "\<forall>n \<in> set ns. nid n \<noteq> None"
    and "os_ok s" "True \<notin> set (oom s)"
    and "cp_launch_all path ns no_launch w s = (r1, c1, l1, w1, s1)" "dd_launch_all path ns l1 w1 s1 = (r2, c2, l2, w2, s2)"
    and "R \<subseteq> running w2"
  shows "c1 = Some (length (filter propagator ns)) \<and> c2 = Some (length (filter destination ns)) \<and>
    map snd (started w2) = map snd (started w) @ commands propagator (exe_path path ''CentralPropagator.exe'') ns @
      commands destination (exe_path path ''DataDestination.exe'') ns \<and>
    (\<exists>l3 w3 s3. cp_terminate_all l2 (w2\<lparr>running := R\<rparr>) s2 = Some (l3, w3, s3) \<and> handles w3 = handles w \<and> \<not> misuse w3 \<and>
       running w3 \<subseteq> running w \<and> os_ok s3 \<and> live s3 = live s)"
proof -
  note C = cp_launch_ok [OF assms(1-7)]
  from C have C': "launched (handles w) (live s) (socks s) l1 w1 s1" "g_ddProcs l1 = None" "\<forall>p \<in> running w1. p < next_pid w1" "True \<notin> set (fails w1)"
    "True \<notin> set (oom s1)" by blast+
  note D = dd_launch_ok [OF C'(1-4) assms(4) C'(5) assms(8)]
  have run: "running w2 = running w \<union> pids (procs_of (g_cpProcs l2)) \<union> pids (procs_of (g_ddProcs l2))" using C D by simp
  have "launched (handles w) (live s) (socks s) l2 (w2\<lparr>running := R\<rparr>) s2" using D by (intro launched_running) blast
  from terminate_spec [OF this] obtain l3 w3 s3 where t: "cp_terminate_all l2 (w2\<lparr>running := R\<rparr>) s2 = Some (l3, w3, s3)" "wholds (handles w) [] w3"
    "running w3 = R - (pids (procs_of (g_cpProcs l2)) \<union> pids (procs_of (g_ddProcs l2)))" "holds (live s) (socks s) [] s3" by auto
  have "running w3 \<subseteq> running w" unfolding t(3) using assms(9) unfolding run by blast
  with t C D show ?thesis by (simp add: wholds_def holds_end)
qed

text \<open>
  C34. A launch is all or nothing, and its failure goes unnoticed: whichever calls fail, when
  \<open>cp_launch_all\<close> returns NULL no process it started runs any more and its array is freed, but the
  count is 0 or has not been set, so that the caller's test for NULL with a positive count never
  finds a failure.
\<close>

theorem launch_failure_unnoticed:
  assumes "wholds (handles w) [] w" "\<forall>p \<in> running w. p < next_pid w" "\<forall>n \<in> set ns. nid n \<noteq> None" "os_ok s"
    and "cp_launch_all path ns no_launch w s = (r, cnt, l', w', s')"
  shows "case r of None \<Rightarrow> (cnt = None \<or> cnt = Some 0) \<and> running w' = running w \<and> os_ok s' \<and> live s' = live s
    | Some (procs, b) \<Rightarrow> cnt = Some (length procs) \<and> length procs = length (filter propagator ns) \<and> running w' = running w \<union> pids procs"
proof -
  let ?exe = "exe_path path ''CentralPropagator.exe''"
  obtain ok l1 w1 where c: "create_job_object no_launch w = (ok, l1, w1)" by (metis prod.exhaust)
  from create_job_spec [OF assms(1) c] obtain g where g: "l1 = no_launch\<lparr>g_job := g\<rparr>" "running w1 = running w" "next_pid w1 = next_pid w"
    "ok \<longrightarrow> g \<noteq> None" "wholds (handles w) ((case g of None \<Rightarrow> [] | Some j \<Rightarrow> [(j, Job ok {})]) @ []) w1" by auto
  show ?thesis
  proof (cases ok)
    case False
    with assms(4,5) c g show ?thesis by (auto simp: cp_launch_all_def split: option.splits)
  next
    case True
    with g obtain j where j: "g = Some j" by auto
    obtain g' w2 s2 where n: "launch_nodes propagator ?exe j ns w1 s = (r, cnt, g', w2, s2)" "w' = w2" "s' = s2"
      using assms(5) c g(1) j True by (cases "launch_nodes propagator ?exe j ns w1 s") (auto simp: cp_launch_all_def split: option.splits)
    have "wholds (handles w) ((j, Job True {}) # []) w1" "\<forall>p \<in> running w1. p < next_pid w1" using g j True assms(2) by auto
    from launch_nodes_spec [OF this(1) assms(3,4) n(1) this(2)] n(2,3) g(2) show ?thesis by (cases r) auto
  qed
qed

text \<open>
  The started program reads back what the launcher wrote: the C runtime splits the command line
  into the program, the node's id and its port, and \<open>atoi\<close> with the conversion to 16 bits
  restores the port, for every id without quotes and backslashes whose command fits the buffer.
\<close>

theorem command_roundtrip:
  assumes "quote \<notin> set exe" "quote \<notin> set str" "backslash \<notin> set str" "length exe + length str < 1000"
  shows "argv (command exe str port) = [exe, str, string_of_nat (unat port)] \<and>
    word_of_int (atoi (string_of_nat (unat port))) = port"
proof -
  let ?p = "string_of_nat (unat port)"
  have lt: "unat port < 2 ^ 16" using unsigned_less [of port, where ?'a = nat] by simp
  have d: "\<forall>ch \<in> set ?p. \<not> blank ch \<and> ch \<noteq> quote \<and> ch \<noteq> backslash" using string_of_nat_digits [of "unat port"] by (auto simp: isdigit_def)
  have ne: "?p \<noteq> []" using string_of_nat_hd [of "unat port"] by auto
  have "length ?p \<le> 5" using string_of_nat_length [of 5 "unat port"] lt by simp
  with assms(4) have "command exe str port = [quote] @ exe @ [quote, CHR '' '', quote] @ str @ [quote, CHR '' ''] @ ?p"
    by (simp add: command_def snprintf_def)
  with argv_quoted [OF assms(1-3) ne d] atoi_string_of_nat [of "unat port"] lt show ?thesis by simp
qed

text \<open>A table with a root and a destination.\<close>

definition demo_nodes :: "NodeInfo list" where
  "demo_nodes =
     [\<lparr>nid = Some \<lparr>chars = ''CP1'', sblk = 1\<rparr>, naddress = Some \<lparr>chars = ''127.0.0.1'', sblk = 2\<rparr>, nport = 5000,
        nparent = None, children = [Some 1], children_blk = None, child_count = 1, ntype = NODE_ROOT\<rparr>,
      \<lparr>nid = Some \<lparr>chars = ''D1'', sblk = 3\<rparr>, naddress = Some \<lparr>chars = ''127.0.0.1'', sblk = 4\<rparr>, nport = 5001,
        nparent = Some 0, children = [], children_blk = None, child_count = 0, ntype = NODE_DESTINATION\<rparr>]"

theorem launch_terminate_witness:
  "\<exists>r1 l1 w1 s1 r2 l2 w2 s2 l3 w3 s3. cp_launch_all ''C:'' demo_nodes no_launch fresh_win fresh_os = (r1, Some 1, l1, w1, s1) \<and>
     dd_launch_all ''C:'' demo_nodes l1 w1 s1 = (r2, Some 1, l2, w2, s2) \<and> length (started w2) = 2 \<and>
     cp_terminate_all l2 w2 s2 = Some (l3, w3, s3) \<and> handles w3 = Map.empty \<and> running w3 = {} \<and> live s3 = {}"
proof -
  obtain r1 c1 l1 w1 s1 where a: "cp_launch_all ''C:'' demo_nodes no_launch fresh_win fresh_os = (r1, c1, l1, w1, s1)" by (metis prod.exhaust)
  obtain r2 c2 l2 w2 s2 where b: "dd_launch_all ''C:'' demo_nodes l1 w1 s1 = (r2, c2, l2, w2, s2)" by (metis prod.exhaust)
  have n: "\<forall>n \<in> set demo_nodes. nid n \<noteq> None" "length (filter propagator demo_nodes) = 1" "length (filter destination demo_nodes) = 1"
    by (simp_all add: demo_nodes_def)
  have o: "True \<notin> set (fails fresh_win)" "True \<notin> set (oom fresh_os)" "live fresh_os = {}" using fresh_win_ok(3) by (simp_all add: fresh_os_def)
  note T = launch_terminate [OF fresh_win_ok(1,2) o(1) n(1) fresh_os_ok(1) o(2) a b order_refl]
  then have "map snd (started w2) = commands propagator (exe_path ''C:'' ''CentralPropagator.exe'') demo_nodes @
    commands destination (exe_path ''C:'' ''DataDestination.exe'') demo_nodes" using fresh_win_ok(5) by simp
  from arg_cong [OF this, of length] have "length (started w2) = 2" using n(2,3) by (simp add: commands_def)
  with T a b n(2,3) o(3) fresh_win_ok(4,6) show ?thesis by auto
qed

theorem launch_failure_unnoticed_witness:
  "\<exists>r cnt l' w' s'. cp_launch_all ''C:'' demo_nodes no_launch (fresh_win\<lparr>fails := [False, False, True]\<rparr>) fresh_os = (r, cnt, l', w', s') \<and>
     r = None \<and> cnt = Some 0 \<and> running w' = {} \<and> live s' = {}"
proof -
  let ?w = "fresh_win\<lparr>fails := [False, False, True]\<rparr>"
  obtain r cnt l' w' s' where a: "cp_launch_all ''C:'' demo_nodes no_launch ?w fresh_os = (r, cnt, l', w', s')" by (metis prod.exhaust)
  then have r: "r = None" "cnt = Some 0"
    by (auto simp: cp_launch_all_def create_job_object_def CreateJobObject_def SetInformationJobObject_def CreateProcessA_def call_fails_def
        new_handle_def launch_nodes_def demo_nodes_def fresh_win_def fresh_os_def malloc_def Let_def no_launch_def)
  have w: "wholds (handles ?w) [] ?w" "\<forall>p \<in> running ?w. p < next_pid ?w" using fresh_win_ok by (auto simp: wholds_def)
  have n: "\<forall>n \<in> set demo_nodes. nid n \<noteq> None" by (simp add: demo_nodes_def)
  from launch_failure_unnoticed [OF w n fresh_os_ok(1) a] r a show ?thesis by (auto simp: fresh_win_def fresh_os_def)
qed

theorem command_roundtrip_witness:
  "argv (command ''C:DataDestination.exe'' ''D 1'' 5001) = [''C:DataDestination.exe'', ''D 1'', string_of_nat (unat (5001 :: u16))]"
  using command_roundtrip [of "''C:DataDestination.exe''" "''D 1''" 5001] by simp

end
