(* ===== verification/SourceMain.thy ===== *)
theory SourceMain
  imports SourceSystem Launcher
begin

text \<open>
  \<open>DataSource/main.c\<close> and \<open>DataSource/config_loader.c\<close>: the data source loads the table, launches the
  other programs, starts the generator and the sender, and after Enter signals the exit events,
  waits for its threads and cleans up.  The debug log is in another theory.
\<close>

section \<open>Operations\<close>

definition load_root :: "string option \<Rightarrow> os \<Rightarrow> NodeArray option \<times> os" where
  "load_root file s = node_load_all file s"

text \<open>
  \<open>await_cp_and_dd_propagation_objects\<close>: for each group of processes an array of handles is filled
  and waited for, at most two seconds; the allocation is not tested.
\<close>

definition await_group :: "nat \<Rightarrow> (PROCESS_INFORMATION list \<times> nat) option \<Rightarrow> os \<Rightarrow> os" where
  "await_group cnt procs s =
     (if 0 < cnt then
        (case malloc s of
           (None, s) \<Rightarrow> s\<lparr>ub := True\<rparr>
         | (Some b, s) \<Rightarrow> free_blk b (if length (procs_of procs) < cnt then s\<lparr>ub := True\<rparr> else s))
      else s)"

definition await_cp_and_dd_propagation_objects :: "nat \<Rightarrow> nat \<Rightarrow> (PROCESS_INFORMATION list \<times> nat) option \<Rightarrow>
    (PROCESS_INFORMATION list \<times> nat) option \<Rightarrow> os \<Rightarrow> os" where
  "await_cp_and_dd_propagation_objects cpCount ddCount cpProcs ddProcs s =
     await_group ddCount ddProcs (await_group cpCount cpProcs s)"

text \<open>
  \<open>SendWmCloseToWindow\<close> for the windows of the desktop, given by the process that owns each.
  \<open>EnumWindows\<close> returns \<open>FALSE\<close> when the callback does, that is when the window was found.
\<close>

fun EnumWindows :: "nat \<Rightarrow> nat list \<Rightarrow> bool" where
  "EnumWindows pid [] = True"
| "EnumWindows pid (winPID # wins) = (if winPID = pid then False else EnumWindows pid wins)"

fun gracefully_close_all :: "nat list \<Rightarrow> PROCESS_INFORMATION list \<Rightarrow> win \<Rightarrow> win" where
  "gracefully_close_all wins [] w = w"
| "gracefully_close_all wins (p # ps) w =
     (let found = EnumWindows (dwProcessId p) wins
      in gracefully_close_all wins ps (if \<not> found then TerminateProcess (hProcess p) w else w))"

text \<open>The exit events of the other programs.\<close>

fun signal_exit :: "(string \<Rightarrow> bool) \<Rightarrow> string \<Rightarrow> (NodeInfo \<Rightarrow> bool) \<Rightarrow> NodeInfo list \<Rightarrow> win \<Rightarrow> win" where
  "signal_exit existing kind eligible [] w = w"
| "signal_exit existing kind eligible (n # ns) w =
     signal_exit existing kind eligible ns
       (if eligible n then
          (case nid n of
             None \<Rightarrow> w\<lparr>misuse := True\<rparr>
           | Some h \<Rightarrow>
               (case OpenEventA existing (event_name kind (chars h)) w of
                  (None, w) \<Rightarrow> w
                | (Some e, w) \<Rightarrow> CloseHandle e (SetEvent e w)))
        else w)"

text \<open>What \<open>main\<close> holds while its threads run.\<close>

record ds =
  ds_nodes :: NodeArray
  ds_launch :: launcher
  ds_queue :: "Warning TSQueue"
  ds_net :: net
  ds_stop :: HANDLE
  ds_gen :: HANDLE
  ds_send :: HANDLE

text \<open>\<open>main\<close> up to the start of the threads; \<open>None\<close>: it returned \<open>EXIT_FAILURE\<close>.  A count that was
  not set is read before it has a value.\<close>

definition launch_failed :: "(PROCESS_INFORMATION list \<times> nat) option \<Rightarrow> nat option \<Rightarrow> bool" where
  "launch_failed procs cnt \<longleftrightarrow> procs = None \<and> (case cnt of None \<Rightarrow> False | Some c \<Rightarrow> 0 < c)"

definition read_count :: "nat option \<Rightarrow> os \<Rightarrow> nat \<times> os" where
  "read_count cnt s = (case cnt of None \<Rightarrow> (0, s\<lparr>ub := True\<rparr>) | Some c \<Rightarrow> (c, s))"

definition ds_start :: "NodeArray \<Rightarrow> launcher \<Rightarrow> conns \<Rightarrow> int list \<Rightarrow> win \<Rightarrow> os \<Rightarrow> ds option \<times> win \<times> os" where
  "ds_start nodes l t rs w s =
     (case tsqueue_create 0 (Some (\<lambda>w. warning_destroy (Some w))) s of
        (None, s) \<Rightarrow> (None, w, s\<lparr>ub := True\<rparr>)
      | (Some globalQ, s) \<Rightarrow>
          (case CreateEventA [] w of
             (None, w) \<Rightarrow> (None, w, s)
           | (Some hStop, w) \<Rightarrow>
               (case new_handle (Thread 0) w of
                  (hGen, w) \<Rightarrow>
                    (case new_handle (Thread 0) w of
                       (hSend, w) \<Rightarrow>
                         (Some \<lparr>ds_nodes = nodes, ds_launch = l, ds_queue = globalQ, ds_net = \<lparr>tab = t, sends = rs, wire = []\<rparr>,
                            ds_stop = hStop, ds_gen = hGen, ds_send = hSend\<rparr>, w, s)))))"

definition ds_launch_programs :: "string \<Rightarrow> NodeArray \<Rightarrow> win \<Rightarrow> os \<Rightarrow> launcher option \<times> win \<times> os" where
  "ds_launch_programs path nodes w s =
     (case cp_launch_all path (arr nodes) no_launch w s of
        (cpProcs, cpCount, l, w, s) \<Rightarrow>
          if launch_failed cpProcs cpCount then (None, w, s)
          else
            (case dd_launch_all path (arr nodes) l w s of
               (ddProcs, ddCount, l, w, s) \<Rightarrow>
                 if launch_failed ddProcs ddCount then (None, w, s)
                 else
                   (case read_count cpCount s of
                      (cpC, s) \<Rightarrow>
                        (case read_count ddCount s of
                           (ddC, s) \<Rightarrow> (Some l, w, await_cp_and_dd_propagation_objects cpC ddC cpProcs ddProcs s)))))"

definition ds_setup :: "bool \<Rightarrow> string option \<Rightarrow> string \<Rightarrow> conns \<Rightarrow> int list \<Rightarrow> win \<Rightarrow> os \<Rightarrow> ds option \<times> win \<times> os" where
  "ds_setup wsa_ok file path t rs w s =
     (if \<not> wsa_ok then (None, w, s)
      else
        (case connections_init t s of
           (t, s) \<Rightarrow>
             (case load_root file s of
                (None, s) \<Rightarrow> (None, w, s)
              | (Some nodes, s) \<Rightarrow>
                  (case ds_launch_programs path nodes w s of
                     (None, w, s) \<Rightarrow> (None, w, s)
                   | (Some l, w, s) \<Rightarrow> ds_start nodes l t rs w s))))"

text \<open>After Enter: the stop event, then the exit events of destinations and propagators.\<close>

definition ds_enter :: "(string \<Rightarrow> bool) \<Rightarrow> ds \<Rightarrow> win \<Rightarrow> win" where
  "ds_enter existing x w =
     signal_exit existing ''CP_Exit_'' propagator (arr (ds_nodes x))
       (signal_exit existing ''DD_Exit_'' destination (arr (ds_nodes x)) (SetEvent (ds_stop x) w))"

text \<open>What follows when the threads have ended; \<open>None\<close>: a wait or a loop does not return.\<close>

definition ds_cleanup :: "nat list \<Rightarrow> ds \<Rightarrow> win \<Rightarrow> os \<Rightarrow> (win \<times> os) option" where
  "ds_cleanup wins x w s =
     (let w = gracefully_close_all wins (procs_of (g_cpProcs (ds_launch x))) w;
          w = gracefully_close_all wins (procs_of (g_ddProcs (ds_launch x))) w
      in (case cp_terminate_all (ds_launch x) w s of
            None \<Rightarrow> None
          | Some (_, w, s) \<Rightarrow>
              (let w = CloseHandle (ds_stop x) (CloseHandle (ds_send x) (CloseHandle (ds_gen x) w))
               in (case tsqueue_destroy (Some (ds_queue x)) s of
                     None \<Rightarrow> None
                   | Some s \<Rightarrow>
                       (case connections_cleanup (tab (ds_net x)) (node_info_destroy_all (Some (ds_nodes x)) s) of
                          (_, s) \<Rightarrow> Some (w, s))))))"

section \<open>The table from a file\<close>

lemma strtok_short:
  assumes "strtok d str = Some (a, r)"
  shows "length a \<le> length str"
proof (cases "dropWhile (\<lambda>c. c = d) str")
  case (Cons c t)
  have "length (takeWhile (\<lambda>x. x \<noteq> d) (c # t)) \<le> length (c # t)" by (rule length_takeWhile_le)
  also have "\<dots> \<le> length str" using length_dropWhile_le [of "\<lambda>c. c = d" str] Cons by simp
  finally show ?thesis using assms Cons by (simp add: strtok_def)
qed (use assms in \<open>simp add: strtok_def del: dropWhile_eq_Nil_conv\<close>)

lemma trim_short: "length (trim str) \<le> length str"
proof (cases "dropWhile isspace str")
  case Nil
  then show ?thesis by (simp add: trim_def del: dropWhile_eq_Nil_conv)
next
  case (Cons ch r)
  have "length (dropWhile isspace (rev r)) \<le> length r" using length_dropWhile_le [of isspace "rev r"] by simp
  moreover have "length (ch # r) \<le> length str" using length_dropWhile_le [of isspace str] Cons by simp
  ultimately show ?thesis using Cons by (simp add: trim_def)
qed

lemma file_rows_short: "r \<in> set (file_rows cs) \<Longrightarrow> length (row_id r) \<le> 511"
proof (induction cs rule: file_rows.induct)
  case (1 cs)
  show ?case
  proof (cases "fgets 512 cs")
    case None
    with 1(3) show ?thesis by (simp add: file_rows.simps [of cs])
  next
    case (Some p)
    then obtain line rest where f: "fgets 512 cs = Some (line, rest)" by (cases p) auto
    show ?thesis
    proof (cases "parse_line line")
      case None
      with 1 f show ?thesis by (simp add: file_rows.simps [of cs])
    next
      case (Some row)
      have "length line \<le> 511" using f fgets_take_length [of 511 cs line rest] by (auto simp: fgets_def split: if_splits prod.splits)
      moreover have "length (strip_eol (c_str line)) \<le> length line"
        using length_takeWhile_le [of "\<lambda>c. c \<noteq> NUL" line] by (auto simp: strip_eol_def c_str_def)
      moreover have "length (fst row) \<le> length (strip_eol (c_str line))"
        using Some by (auto simp: parse_line_def split: option.splits prod.splits dest!: strtok_short)
      ultimately have "length (row_id row) \<le> 511" using trim_short [of "fst row"] by (simp add: row_id_def)
      moreover have "length (row_id r) \<le> 511" if "r \<in> set (file_rows rest)" using 1(2) f Some that by (cases row) auto
      ultimately show ?thesis using 1(3) f Some by (auto simp: file_rows.simps [of cs])
    qed
  qed
qed

lemma described_table:
  assumes "describes (file_rows cs) ns" "acyclic_rows (file_rows cs)"
  shows "source_table ns" "\<forall>n \<in> set ns. nid n \<noteq> None"
proof -
  have "nid n \<noteq> None \<and> naddress n \<noteq> None \<and> length (chars (the (nid n))) \<le> 511" if "n \<in> set ns" for n
  proof -
    from that obtain i where i: "i < length ns" "ns ! i = n" by (auto simp: in_set_conv_nth)
    with assms(1) have "i < length (file_rows cs)" "map_option chars (nid n) = Some (row_id (file_rows cs ! i))" "naddress n \<noteq> None"
      by (auto simp: describes_def)
    with file_rows_short [of "file_rows cs ! i" cs] show ?thesis by auto
  qed
  then show "source_table ns" "\<forall>n \<in> set ns. nid n \<noteq> None"
    using describes_forest [OF assms] by (fastforce simp: source_table_def)+
qed

section \<open>The set-up\<close>

lemma await_group_same:
  assumes "holds L K X s" "True \<notin> set (oom s)" "cnt \<le> length (procs_of procs)"
  shows "holds L K X (await_group cnt procs s) \<and> True \<notin> set (oom (await_group cnt procs s))"
proof (cases "0 < cnt")
  case True
  from malloc_succeeds [OF assms(2)] obtain b s1 where b: "malloc s = (Some b, s1)" "True \<notin> set (oom s1)" by blast
  from holds_free [OF holds_malloc [OF assms(1) b(1)]] b True assms(3) show ?thesis by (simp add: await_group_def free_blk_oom)
qed (use assms in \<open>simp add: await_group_def\<close>)

lemma launch_programs_ok:
  assumes "wholds (handles w) [] w" "\<forall>p \<in> running w. p < next_pid w" "True \<notin> set (fails w)" "\<forall>n \<in> set (arr nodes). nid n \<noteq> None"
    and "os_ok s" "True \<notin> set (oom s)"
  shows "\<exists>l w' s'. ds_launch_programs path nodes w s = (Some l, w', s') \<and> launched (handles w) (live s) (socks s) l w' s' \<and>
    True \<notin> set (oom s') \<and> True \<notin> set (fails w') \<and>
    running w' = running w \<union> pids (procs_of (g_cpProcs l)) \<union> pids (procs_of (g_ddProcs l)) \<and>
    map snd (started w') = map snd (started w) @ commands propagator (exe_path path ''CentralPropagator.exe'') (arr nodes) @
      commands destination (exe_path path ''DataDestination.exe'') (arr nodes)"
proof -
  obtain r1 c1 l1 w1 s1 where a: "cp_launch_all path (arr nodes) no_launch w s = (r1, c1, l1, w1, s1)" by (metis prod.exhaust)
  obtain r2 c2 l2 w2 s2 where b: "dd_launch_all path (arr nodes) l1 w1 s1 = (r2, c2, l2, w2, s2)" by (metis prod.exhaust)
  note C = cp_launch_ok [OF assms a]
  then have C': "launched (handles w) (live s) (socks s) l1 w1 s1" "g_ddProcs l1 = None" "\<forall>p \<in> running w1. p < next_pid w1"
    "True \<notin> set (fails w1)" "True \<notin> set (oom s1)" "c1 = Some (length (filter propagator (arr nodes)))" "r1 = g_cpProcs l1"
    "length (procs_of r1) = length (filter propagator (arr nodes))" "running w1 = running w \<union> pids (procs_of (g_cpProcs l1))"
    "map snd (started w1) = map snd (started w) @ commands propagator (exe_path path ''CentralPropagator.exe'') (arr nodes)" by blast+
  note D = dd_launch_ok [OF C'(1-4) assms(4) C'(5) b]
  then have D': "launched (handles w) (live s) (socks s) l2 w2 s2" "c2 = Some (length (filter destination (arr nodes)))" "r2 = g_ddProcs l2"
    "length (procs_of r2) = length (filter destination (arr nodes))"
    "g_cpProcs l2 = g_cpProcs l1" "True \<notin> set (fails w2)" "True \<notin> set (oom s2)"
    "running w2 = running w1 \<union> pids (procs_of (g_ddProcs l2))"
    "map snd (started w2) = map snd (started w1) @ commands destination (exe_path path ''DataDestination.exe'') (arr nodes)" by blast+
  have f: "\<not> launch_failed r1 c1" "\<not> launch_failed r2 c2" using C'(6,8) D'(2,4) by (cases r1; cases r2; simp add: launch_failed_def)+
  let ?A = "arr_blks (g_cpProcs l2) @ arr_blks (g_ddProcs l2)"
  let ?s1 = "await_group (the c1) r1 s2" and ?s = "await_cp_and_dd_propagation_objects (the c1) (the c2) r1 r2 s2"
  have "holds (live s) (socks s) ?A s2" using D'(1) by (simp add: launched_def)
  from await_group_same [OF this D'(7), of "the c1" r1] C'(6,8) have h: "holds (live s) (socks s) ?A ?s1" "True \<notin> set (oom ?s1)" by auto
  from await_group_same [OF h, of "the c2" r2] D'(2,4) have t: "holds (live s) (socks s) ?A ?s" "True \<notin> set (oom ?s)"
    by (auto simp: await_cp_and_dd_propagation_objects_def)
  have "launched (handles w) (live s) (socks s) l2 w2 ?s" using D'(1) t(1) by (simp add: launched_def)
  moreover have "ds_launch_programs path nodes w s = (Some l2, w2, ?s)"
    using a b f C'(6) D'(2) by (simp add: ds_launch_programs_def read_count_def)
  ultimately show ?thesis using t(2) D'(5,6,8,9) C'(9,10) by (intro exI [of _ l2] exI [of _ w2] exI [of _ ?s]) simp
qed

text \<open>
  Closing the programs: \<open>TerminateProcess\<close> is called for exactly those processes that have a
  window, to which the message has just been posted.
\<close>

lemma enum_windows: "EnumWindows pid wins \<longleftrightarrow> pid \<notin> set wins"
  by (induction wins) auto

lemma close_all_spec:
  assumes "wholds H X w" "set (proc_handles ps) \<subseteq> set X"
  shows "gracefully_close_all wins ps w = w\<lparr>running := running w - (pids ps \<inter> set wins)\<rparr>"
  using assms
proof (induction ps arbitrary: w)
  case (Cons p ps)
  let ?w = "if dwProcessId p \<in> set wins then TerminateProcess (hProcess p) w else w"
  have "handles w (hProcess p) = Some (Process (dwProcessId p))" using wholds_mem [OF Cons.prems(1), of "hProcess p"] Cons.prems(2) by auto
  then have t: "?w = w\<lparr>running := running w - ({dwProcessId p} \<inter> set wins)\<rparr>" by (auto simp: TerminateProcess_def)
  then have "wholds H X ?w" by (intro wholds_frame [OF Cons.prems(1)]) simp_all
  note i = Cons.IH [OF this]
  have "running w - {dwProcessId p} \<inter> set wins - pids ps \<inter> set wins = running w - pids (p # ps) \<inter> set wins" by auto
  with i Cons.prems(2) show ?case by (simp add: enum_windows Let_def t)
qed simp

abbreviation exit_name :: "string \<Rightarrow> NodeInfo \<Rightarrow> string" where
  "exit_name kind n \<equiv> event_name kind (chars (the (nid n)))"

text \<open>The exit events are opened, signalled and closed again.\<close>

lemma signal_exit_spec:
  assumes "wholds H X w" "\<forall>n \<in> set ns. nid n \<noteq> None"
  shows "wholds H X (signal_exit existing kind eligible ns w) \<and> running (signal_exit existing kind eligible ns w) = running w \<and>
    signalled (signal_exit existing kind eligible ns w) =
      signalled w \<union> exit_name kind ` {n \<in> set ns. eligible n \<and> existing (exit_name kind n)}"
  using assms
proof (induction ns arbitrary: w)
  case (Cons n ns)
  from Cons.prems(2) obtain h where h: "nid n = Some h" by auto
  let ?e = "event_name kind (chars h)"
  show ?case
  proof (cases "eligible n \<and> existing ?e")
    case False
    then have "signal_exit existing kind eligible (n # ns) w = signal_exit existing kind eligible ns w" using h by (auto simp: OpenEventA_def)
    moreover have "{m \<in> set (n # ns). eligible m \<and> existing (exit_name kind m)} = {m \<in> set ns. eligible m \<and> existing (exit_name kind m)}"
      using False h by auto
    ultimately show ?thesis using Cons.IH [OF Cons.prems(1)] Cons.prems(2) by simp
  next
    case True
    obtain e w1 where e: "new_handle (Event ?e) w = (e, w1)" by force
    note N = wholds_new [OF Cons.prems(1) e]
    let ?w2 = "SetEvent e w1"
    have s: "?w2 = w1\<lparr>signalled := insert ?e (signalled w1)\<rparr>" using wholds_get [OF N [THEN conjunct1]] by (simp add: SetEvent_def)
    have "wholds H ((e, Event ?e) # X) ?w2" using s by (intro wholds_frame [OF N [THEN conjunct1]]) simp_all
    note C = wholds_close [OF this]
    have "signal_exit existing kind eligible (n # ns) w = signal_exit existing kind eligible ns (CloseHandle e ?w2)"
      using True h e by (simp add: OpenEventA_def)
    moreover have "{m \<in> set (n # ns). eligible m \<and> existing (exit_name kind m)} = insert n {m \<in> set ns. eligible m \<and> existing (exit_name kind m)}"
      using True h by auto
    ultimately show ?thesis using Cons.IH [OF C(1)] C(2,4) s N Cons.prems(2) h by simp
  qed
qed simp

text \<open>The handles of \<open>main\<close> itself.\<close>

definition ds_handles :: "ds \<Rightarrow> (HANDLE \<times> kobj) list" where
  "ds_handles x = [(ds_send x, Thread 0), (ds_gen x, Thread 0), (ds_stop x, Event [])]"

lemma ds_enter_spec:
  assumes "wholds H (ds_handles x @ X) w" "\<forall>n \<in> set (arr (ds_nodes x)). nid n \<noteq> None"
  shows "wholds H (ds_handles x @ X) (ds_enter existing x w) \<and> running (ds_enter existing x w) = running w"
proof -
  have "handles w (ds_stop x) = Some (Event [])" by (rule wholds_mem [OF assms(1)]) (simp add: ds_handles_def)
  then have e: "SetEvent (ds_stop x) w = w\<lparr>signalled := insert [] (signalled w)\<rparr>" by (simp add: SetEvent_def)
  then have "wholds H (ds_handles x @ X) (SetEvent (ds_stop x) w)" by (intro wholds_frame [OF assms(1)]) simp_all
  moreover have "running (SetEvent (ds_stop x) w) = running w" using e by simp
  moreover note a = signal_exit_spec [OF calculation(1) assms(2), of existing "''DD_Exit_''" destination]
  note b = signal_exit_spec [OF a [THEN conjunct1] assms(2), of existing "''CP_Exit_''" propagator]
  ultimately show ?thesis using a b unfolding ds_enter_def by simp
qed

section \<open>From the start to the end\<close>

lemma tsqueue_create_succeeds:
  assumes "True \<notin> set (oom s)"
  shows "\<exists>q s'. tsqueue_create c f s = (Some q, s') \<and> True \<notin> set (oom s')"
proof -
  from malloc_succeeds [OF assms] obtain b s1 where b: "malloc s = (Some b, s1)" "True \<notin> set (oom s1)" by blast
  from malloc_succeeds [OF b(2)] obtain d s2 where d: "malloc s1 = (Some d, s2)" "True \<notin> set (oom s2)" by blast
  from b d show ?thesis by (simp add: tsqueue_create_def queue_create_def)
qed

lemma holds_trans: "holds L K X s \<Longrightarrow> holds (live s) K Y s' \<Longrightarrow> holds L K (X @ Y) s'"
  by (auto simp: holds_def)

lemma create_event_ok:
  assumes "wholds H X w" "True \<notin> set (fails w)"
  shows "\<exists>h w'. CreateEventA name w = (Some h, w') \<and> wholds H ((h, Event name) # X) w' \<and> running w' = running w \<and> started w' = started w"
proof -
  have "fails w = [] \<or> (\<exists>fs. fails w = False # fs)" using assms(2) by (cases "fails w") auto
  then obtain w1 where w1: "call_fails w = (False, w1)" "handles w1 = handles w" "next_handle w1 = next_handle w" "misuse w1 = misuse w"
    "running w1 = running w" "started w1 = started w" by (auto simp: call_fails_def)
  obtain h w2 where h: "new_handle (Event name) w1 = (h, w2)" by force
  from wholds_new [OF wholds_frame [OF assms(1) w1(2-4)] h] w1 h show ?thesis by (simp add: CreateEventA_def)
qed

text \<open>The blocks of \<open>main\<close>: the table of nodes and the arrays of the launcher.\<close>

abbreviation node_blks :: "NodeArray \<Rightarrow> nat list" where
  "node_blks na \<equiv> nodes_blks (arr na) @ [arr_blk na]"

definition ds_blks :: "ds \<Rightarrow> nat list" where
  "ds_blks x = node_blks (ds_nodes x) @ arr_blks (g_cpProcs (ds_launch x)) @ arr_blks (g_ddProcs (ds_launch x))"

definition all_procs :: "launcher \<Rightarrow> PROCESS_INFORMATION list" where
  "all_procs l = procs_of (g_cpProcs l) @ procs_of (g_ddProcs l)"

definition launch_handles :: "launcher \<Rightarrow> (HANDLE \<times> kobj) list" where
  "launch_handles l = (the (g_job l), Job True (pids (all_procs l))) # proc_handles (all_procs l)"

lemma launched_alt: "launched H L K l w s \<longleftrightarrow> g_job l \<noteq> None \<and> wholds H (launch_handles l) w \<and> g_cpCount l = length (procs_of (g_cpProcs l)) \<and>
    g_ddCount l = length (procs_of (g_ddProcs l)) \<and> holds L K (arr_blks (g_cpProcs l) @ arr_blks (g_ddProcs l)) s"
  by (auto simp: launched_def launch_handles_def all_procs_def image_Un)

definition ds_ready :: "win \<Rightarrow> os \<Rightarrow> ds \<Rightarrow> win \<Rightarrow> os \<Rightarrow> bool" where
  "ds_ready w s x w1 s1 \<longleftrightarrow> g_job (ds_launch x) \<noteq> None \<and> g_cpCount (ds_launch x) = length (procs_of (g_cpProcs (ds_launch x))) \<and>
     g_ddCount (ds_launch x) = length (procs_of (g_ddProcs (ds_launch x))) \<and>
     wholds (handles w) (ds_handles x @ launch_handles (ds_launch x)) w1 \<and> running w1 = running w \<union> pids (all_procs (ds_launch x)) \<and>
     titems (ds_queue x) = [] \<and> tcapacity (ds_queue x) = 0 \<and>
     map_option freeFunc (inner (ds_queue x)) = Some (Some (\<lambda>w. warning_destroy (Some w))) \<and> True \<notin> set (oom s1) \<and>
     distinct (ds_blks x) \<and> set (ds_blks x) \<inter> live s = {} \<and> wire (ds_net x) = [] \<and> names_apart (ds_net x) s1 \<and>
     (\<exists>m. connections_map (tab (ds_net x)) = Some m \<and> (\<forall>a p. answers m a p = None) \<and>
        both (live s \<union> set (ds_blks x)) (socks s) m (ds_queue x) [tself (ds_queue x)] s1)"

lemma ds_setup_ok:
  assumes "os_ok s" "True \<notin> set (oom s)" "wholds (handles w) [] w" "\<forall>p \<in> running w. p < next_pid w" "True \<notin> set (fails w)"
    and "length (file_rows cs) < 2 ^ 19" "acyclic_rows (file_rows cs)" "names_apart \<lparr>tab = t, sends = rs, wire = []\<rparr> s"
  shows "\<exists>x w1 s1. ds_setup True (Some cs) path t rs w s = (Some x, w1, s1) \<and> ds_ready w s x w1 s1 \<and>
    describes (file_rows cs) (arr (ds_nodes x)) \<and>
    map snd (started w1) = map snd (started w) @ commands propagator (exe_path path ''CentralPropagator.exe'') (arr (ds_nodes x)) @
      commands destination (exe_path path ''DataDestination.exe'') (arr (ds_nodes x))"
proof -
  from init_succeeds [OF assms(2)] obtain t1 m s1 where t1: "connections_init t s = (t1, s1)" "connections_map t1 = Some m"
    "new_socks t1 = new_socks t" "True \<notin> set (oom s1)" by blast
  from connections_init_spec [OF assms(1) t1(1,2)] have ci: "conn_inv (live s) (socks s) m s1" "\<And>a p. answers m a p = None" by auto
  note c = conn_inv_live [OF ci(1)]
  have sk: "socks s1 = socks s" using table_socks [OF ci(1)] ci(2) by simp
  from node_load_all_spec [OF c(1) t1(4) assms(6)] obtain na s2 where na: "node_load_all (Some cs) s1 = (Some na, s2)"
    "describes (file_rows cs) (arr na)" "holds (live s1) (socks s1) (node_blks na) s2" "True \<notin> set (oom s2)" by blast
  note tb = described_table [OF na(2) assms(7)]
  have ok2: "os_ok s2" "socks s2 = socks s1" using na(3) by (auto simp: holds_def)
  from launch_programs_ok [OF assms(3-5) tb(2) ok2(1) na(4)] obtain l w1 s3 where l: "ds_launch_programs path na w s2 = (Some l, w1, s3)"
    "launched (handles w) (live s2) (socks s2) l w1 s3" "True \<notin> set (oom s3)" "True \<notin> set (fails w1)"
    "running w1 = running w \<union> pids (procs_of (g_cpProcs l)) \<union> pids (procs_of (g_ddProcs l))"
    "map snd (started w1) = map snd (started w) @ commands propagator (exe_path path ''CentralPropagator.exe'') (arr na) @
      commands destination (exe_path path ''DataDestination.exe'') (arr na)" by blast
  let ?A = "arr_blks (g_cpProcs l) @ arr_blks (g_ddProcs l)"
  from l(2) have lh: "g_job l \<noteq> None" "wholds (handles w) (launch_handles l) w1" "g_cpCount l = length (procs_of (g_cpProcs l))"
    "g_ddCount l = length (procs_of (g_ddProcs l))" "holds (live s2) (socks s1) ?A s3" by (auto simp: launched_alt ok2(2))
  from holds_trans [OF na(3) lh(5)] have h: "holds (live s1) (socks s1) (node_blks na @ ?A) s3" .
  from tsqueue_create_succeeds [OF l(3)] obtain q s4 where q: "tsqueue_create 0 (Some (\<lambda>w. warning_destroy (Some w))) s3 = (Some q, s4)"
    "True \<notin> set (oom s4)" by blast
  have s3: "os_ok s3" "socks s3 = socks s1" using h by (auto simp: holds_def)
  note Q = tsqueue_create_ok [OF s3(1) q(1)]
  from create_event_ok [OF lh(2) l(4)] obtain hs w2 where w2: "CreateEventA [] w1 = (Some hs, w2)" "wholds (handles w) ((hs, Event []) # launch_handles l) w2"
    "running w2 = running w1" "started w2 = started w1" by blast
  obtain hg w3 where w3: "new_handle (Thread 0) w2 = (hg, w3)" by force
  note W3 = wholds_new [OF w2(2) w3]
  obtain hn w4 where w4: "new_handle (Thread 0) w3 = (hn, w4)" by force
  note W4 = wholds_new [OF W3 [THEN conjunct1] w4]
  let ?x = "\<lparr>ds_nodes = na, ds_launch = l, ds_queue = q, ds_net = \<lparr>tab = t1, sends = rs, wire = []\<rparr>, ds_stop = hs, ds_gen = hg, ds_send = hn\<rparr>"
  have set: "ds_setup True (Some cs) path t rs w s = (Some ?x, w4, s4)"
    using t1(1) na(1) l(1) q(1) w2(1) w3 w4 by (simp add: ds_setup_def load_root_def ds_start_def)
  have "both (live s \<union> set (node_blks na @ ?A)) (socks s) m q [tself q] s4"
    by (rule both_start [OF ci(1) _ c(2) s3(2) q(1)]) (use h s3(2) in simp)
  moreover have "distinct (node_blks na @ ?A)" "set (node_blks na @ ?A) \<inter> live s = {}" using h c(2) by (auto simp: holds_def)
  moreover have "names_apart \<lparr>tab = t1, sends = rs, wire = []\<rparr> s4" using assms(8) t1(3) Q s3(2) sk by (simp add: names_apart_def)
  moreover have "running w4 = running w \<union> pids (all_procs l)" using l(5) w2(3) W3 W4 by (simp add: all_procs_def image_Un Un_assoc)
  moreover have "wholds (handles w) (ds_handles ?x @ launch_handles l) w4" using W4 by (simp add: ds_handles_def)
  ultimately have "ds_ready w s ?x w4 s4" using lh Q q(2) t1(2) ci(2) by (simp add: ds_ready_def ds_blks_def)
  with set na(2) l(6) w2(4) W3 W4 show ?thesis by (intro exI [of _ ?x] exI [of _ w4] exI [of _ s4]) simp
qed

text \<open>The threads start in the invariant of the system.\<close>

lemma sstart_sinv:
  assumes "ds_ready w s x w1 s1" "malloc s1 = (Some b, s2)"
  shows "sinv (live s \<union> set (ds_blks x)) (socks s) ns b (sstart (ds_queue x) (ds_net x) s2)"
proof -
  from assms(1) obtain m where m: "connections_map (tab (ds_net x)) = Some m" "\<And>a p. answers m a p = None"
    "both (live s \<union> set (ds_blks x)) (socks s) m (ds_queue x) [tself (ds_queue x)] s1" and n: "names_apart (ds_net x) s1"
    and r: "titems (ds_queue x) = []" "tcapacity (ds_queue x) = 0"
      "map_option freeFunc (inner (ds_queue x)) = Some (Some (\<lambda>w. warning_destroy (Some w)))" "True \<notin> set (oom s1)"
    by (auto simp: ds_ready_def)
  from m(3) have "qholds (live s \<union> set (ds_blks x) \<union> set (conn.hm_blks m)) (socks s1) warning_blks [tself (ds_queue x)] (ds_queue x) s1"
    by (simp add: shares_def)
  from shares_queue [OF m(3) qholds_malloc [OF this assms(2)]]
  have b: "both (live s \<union> set (ds_blks x)) (socks s) m (ds_queue x) [b, tself (ds_queue x)] s2" .
  have na: "names_apart (ds_net x) s2" by (rule shares_names [OF m(3) b n])
  have "framed m (ds_net x) []" using m(2) by (simp add: framed_def)
  moreover have "True \<notin> set (oom s2)" using malloc_oom [OF assms(2)] r(4) by blast
  ultimately show ?thesis using m(1) b na r(1-3)
    by (intro sinvI [of _ m _ _ _ "[]" "[]"]) (simp_all add: sstart_def sitems_def)
qed

lemma proper_route:
  assumes "source_table ns" "proper ns w"
  shows "\<exists>d rt a. first_id ns (chars (dest_node w)) = Some d \<and> find_root ns d = Some rt \<and> rt < length ns \<and> nparent (ns ! rt) = None \<and>
    naddress (ns ! rt) = Some a \<and> route ns w = [(chars a, nport (ns ! rt), w)]"
proof -
  from assms(2) obtain i where "i < length ns" "map_option chars (nid (ns ! i)) = Some (chars (dest_node w))" by (auto simp: proper_def)
  then obtain d where d: "first_id ns (chars (dest_node w)) = Some d"
    by (cases "first_id ns (chars (dest_node w))") (auto simp: first_id_def find_None_iff)
  then have "d < length ns" by (auto simp: first_id_def find_Some_iff)
  moreover have "forest ns" using assms(1) by (simp add: source_table_def)
  ultimately obtain rt where rt: "find_root ns d = Some rt" "rt < length ns" "nparent (ns ! rt) = None"
    using find_root_forest find_root_Some by blast
  with assms(1) obtain a where "naddress (ns ! rt) = Some a" by (fastforce simp: source_table_def)
  with d rt show ?thesis by (simp add: route_def Let_def)
qed

section \<open>The clean-up\<close>

text \<open>The queue, the nodes and the connections are freed.\<close>

lemma ds_free_memory:
  assumes "both (L \<union> set (node_blks na)) K m q [tself q] s" "map_option freeFunc (inner q) = Some (Some (\<lambda>w. warning_destroy (Some w)))"
    and "distinct (node_blks na)" "set (node_blks na) \<inter> L = {}" "connections_map t = Some m"
  shows "\<exists>s1 t' s2. tsqueue_destroy (Some q) s = Some s1 \<and> connections_cleanup t (node_info_destroy_all (Some na) s1) = (t', s2) \<and>
    os_ok s2 \<and> live s2 = L \<and> socks s2 = K"
proof -
  let ?H = "set (conn.hm_blks m)" and ?N = "node_blks na"
  from assms(1) have b: "conn_inv (live s - ?H) K m s" "qholds (L \<union> set ?N \<union> ?H) (socks s) warning_blks [tself q] q s" "?H \<inter> (L \<union> set ?N) = {}"
    by (auto simp: shares_def)
  have "wd.owns_socks (somes (titems q)) = {}" by (simp add: wd.owns_socks_def)
  from wd.qholds_destroy [OF b(2) assms(2) this] obtain s1 where s1: "tsqueue_destroy (Some q) s = Some s1" "holds (L \<union> set ?N \<union> ?H) (socks s) [] s1" by auto
  from s1(2) assms(3,4) b(3) have "holds (L \<union> ?H) (socks s) (nodes_blks (arr na) @ arr_blk na # []) s1" by (auto simp: holds_def)
  from destroy_all_holds [OF this] have d: "os_ok (node_info_destroy_all (Some na) s1)" "live (node_info_destroy_all (Some na) s1) = L \<union> ?H"
    "socks (node_info_destroy_all (Some na) s1) = socks s" by (auto simp: holds_end)
  obtain t' s2 where c: "connections_cleanup t (node_info_destroy_all (Some na) s1) = (t', s2)" by force
  from conn_inv_move [OF b(1) d(1,3)] d(2) have "conn_inv (L \<union> ?H - ?H) K m (node_info_destroy_all (Some na) s1)" by simp
  moreover have "L \<union> ?H - ?H = L" using b(3) by blast
  ultimately show ?thesis using connections_cleanup_spec [OF assms(5) _ c] s1(1) c by auto
qed

lemma ds_end_programs:
  assumes "wholds H (ds_handles x @ launch_handles (ds_launch x)) w" "g_job (ds_launch x) \<noteq> None"
    and "g_cpCount (ds_launch x) = length (procs_of (g_cpProcs (ds_launch x)))" "g_ddCount (ds_launch x) = length (procs_of (g_ddProcs (ds_launch x)))"
    and "holds L K (arr_blks (g_cpProcs (ds_launch x)) @ arr_blks (g_ddProcs (ds_launch x))) s"
  shows "\<exists>l w1 s1. cp_terminate_all (ds_launch x)
      (gracefully_close_all wins (procs_of (g_ddProcs (ds_launch x))) (gracefully_close_all wins (procs_of (g_cpProcs (ds_launch x))) w)) s = Some (l, w1, s1) \<and>
    holds L K [] s1 \<and> running w1 \<subseteq> running w - pids (all_procs (ds_launch x)) \<and>
    wholds H [] (CloseHandle (ds_stop x) (CloseHandle (ds_send x) (CloseHandle (ds_gen x) w1))) \<and>
    running (CloseHandle (ds_stop x) (CloseHandle (ds_send x) (CloseHandle (ds_gen x) w1))) = running w1"
proof -
  let ?l = "ds_launch x"
  let ?w1 = "gracefully_close_all wins (procs_of (g_cpProcs ?l)) w"
  let ?w = "gracefully_close_all wins (procs_of (g_ddProcs ?l)) ?w1"
  have e1: "?w1 = w\<lparr>running := running w - (pids (procs_of (g_cpProcs ?l)) \<inter> set wins)\<rparr>"
    by (rule close_all_spec [OF assms(1)]) (auto simp: launch_handles_def all_procs_def)
  then have h1: "wholds H (ds_handles x @ launch_handles ?l) ?w1" by (intro wholds_frame [OF assms(1)]) simp_all
  have e2: "?w = ?w1\<lparr>running := running ?w1 - (pids (procs_of (g_ddProcs ?l)) \<inter> set wins)\<rparr>"
    by (rule close_all_spec [OF h1]) (auto simp: launch_handles_def all_procs_def)
  have h2: "wholds H (ds_handles x @ launch_handles ?l) ?w" by (rule wholds_frame [OF h1]) (simp_all add: e2)
  then have c: "wholds (H ++ map_of (ds_handles x)) (launch_handles ?l) ?w" "distinct (map fst (ds_handles x))" "fst ` set (ds_handles x) \<inter> dom H = {}"
    by (simp_all add: wholds_claim)
  have "launched (H ++ map_of (ds_handles x)) L K ?l ?w s" using c(1) assms(2-5) by (simp add: launched_alt)
  from terminate_spec [OF this] obtain l w1 s1 where t: "cp_terminate_all ?l ?w s = Some (l, w1, s1)" "wholds (H ++ map_of (ds_handles x)) [] w1"
    "running w1 = running ?w - (pids (procs_of (g_cpProcs ?l)) \<union> pids (procs_of (g_ddProcs ?l)))" "holds L K [] s1" by auto
  have "wholds H (ds_handles x @ []) w1" using t(2) c(2,3) wholds_claim [of H "ds_handles x" "[]" w1] by blast
  then have "wholds H ((ds_gen x, Thread 0) # (ds_send x, Thread 0) # (ds_stop x, Event []) # []) w1"
    by (rule wholds_perm) (simp add: ds_handles_def)
  note k1 = wholds_close [OF this]
  note k2 = wholds_close [OF k1(1)]
  note k3 = wholds_close [OF k2(1)]
  have "running ?w \<subseteq> running w" using arg_cong [OF e2, of running] arg_cong [OF e1, of running] by auto
  then have "running w1 \<subseteq> running w - pids (all_procs ?l)" unfolding t(3) all_procs_def set_append image_Un by blast
  with t k1 k2 k3 show ?thesis by simp
qed

text \<open>What holds in every state that the threads can reach.\<close>

lemma ds_reach:
  assumes "os_ok s" "True \<notin> set (oom s)" "wholds (handles w) [] w" "\<forall>p \<in> running w. p < next_pid w" "True \<notin> set (fails w)"
    and "length (file_rows cs) < 2 ^ 19" "acyclic_rows (file_rows cs)" "names_apart \<lparr>tab = t, sends = rs, wire = []\<rparr> s"
    and "ds_setup True (Some cs) path t rs w s = (Some x, w1, s1)" "destinations (arr (ds_nodes x)) \<noteq> []" "printable f l (arr (ds_nodes x))"
    and "malloc s1 = (Some b, s2)" "(sstep f l (arr (ds_nodes x)) b)\<^sup>*\<^sup>* (sstart (ds_queue x) (ds_net x) s2) c"
  shows "ds_ready w s x w1 s1" "describes (file_rows cs) (arr (ds_nodes x))"
    "sinv (live s \<union> set (ds_blks x)) (socks s) (arr (ds_nodes x)) b c"
proof -
  from ds_setup_ok [OF assms(1-8), of path] assms(9) show r: "ds_ready w s x w1 s1" "describes (file_rows cs) (arr (ds_nodes x))" by auto
  show "sinv (live s \<union> set (ds_blks x)) (socks s) (arr (ds_nodes x)) b c"
    by (rule sreach_sinv [OF assms(13) sstart_sinv [OF r(1) assms(12)] described_table(1) [OF r(2) assms(7)] assms(10,11)])
qed

section \<open>Properties\<close>

text \<open>
  The data source starts: when nothing fails, \<open>main\<close> loads the table that the file describes,
  starts one process for every node of it, the propagators first, and gets to the point where
  its two threads run, with an empty queue and no connections.
\<close>

theorem data_source_starts:
  assumes "os_ok s" "True \<notin> set (oom s)" "wholds (handles w) [] w" "\<forall>p \<in> running w. p < next_pid w" "True \<notin> set (fails w)"
    and "length (file_rows cs) < 2 ^ 19" "acyclic_rows (file_rows cs)" "names_apart \<lparr>tab = t, sends = rs, wire = []\<rparr> s"
  shows "\<exists>x w1 s1. ds_setup True (Some cs) path t rs w s = (Some x, w1, s1) \<and> os_ok s1 \<and> \<not> misuse w1 \<and>
    describes (file_rows cs) (arr (ds_nodes x)) \<and> titems (ds_queue x) = [] \<and>
    map snd (started w1) = map snd (started w) @ commands propagator (exe_path path ''CentralPropagator.exe'') (arr (ds_nodes x)) @
      commands destination (exe_path path ''DataDestination.exe'') (arr (ds_nodes x))"
proof -
  from ds_setup_ok [OF assms] obtain x w1 s1 where x: "ds_setup True (Some cs) path t rs w s = (Some x, w1, s1)" "ds_ready w s x w1 s1"
    "describes (file_rows cs) (arr (ds_nodes x))" "map snd (started w1) = map snd (started w) @
      commands propagator (exe_path path ''CentralPropagator.exe'') (arr (ds_nodes x)) @
      commands destination (exe_path path ''DataDestination.exe'') (arr (ds_nodes x))" by blast
  from x(2) have "os_ok s1" using conn_inv_ok by (auto simp: ds_ready_def shares_def)
  moreover from x(2) have "\<not> misuse w1" "titems (ds_queue x) = []" by (auto simp: ds_ready_def wholds_def)
  ultimately show ?thesis using x(1,3,4) by (intro exI [of _ x] exI [of _ w1] exI [of _ s1] conjI)
qed

text \<open>
  C16. The data source sends everything: however the generator, the sender and the user's Enter
  interleave, both threads come to an end (every step uses up some of a finite amount of work, and
  until both have returned one of them can go on, also if Enter is never pressed), nothing goes wrong on
  the heap, and at every time the sends are exactly one for each of a prefix of the generated
  warnings, in order, to the address and port of the root above the warning's destination.  If
  both ended before Enter, 10000 warnings were generated and every one was sent.
\<close>

theorem data_source_sends_all:
  assumes "os_ok s" "True \<notin> set (oom s)" "wholds (handles w) [] w" "\<forall>p \<in> running w. p < next_pid w" "True \<notin> set (fails w)"
    and "length (file_rows cs) < 2 ^ 19" "acyclic_rows (file_rows cs)" "names_apart \<lparr>tab = t, sends = rs, wire = []\<rparr> s"
    and "ds_setup True (Some cs) path t rs w s = (Some x, w1, s1)" "destinations (arr (ds_nodes x)) \<noteq> []" "printable f l (arr (ds_nodes x))"
    and "malloc s1 = (Some b, s2)" "(sstep f l (arr (ds_nodes x)) b)\<^sup>*\<^sup>* (sstart (ds_queue x) (ds_net x) s2) c"
  shows "os_ok (sheap c) \<and> length (made c) \<le> NUMBER_OF_WARNINGS \<and>
    (\<forall>w \<in> set (made c). proper (arr (ds_nodes x)) w \<and>
       (\<exists>rt a. nparent (arr (ds_nodes x) ! rt) = None \<and> route (arr (ds_nodes x)) w = [(a, nport (arr (ds_nodes x) ! rt), w)])) \<and>
    (\<exists>k \<le> length (made c). map (\<lambda>(a, p, w, ok). (a, p, w)) (slog c) = concat (map (route (arr (ds_nodes x))) (take k (made c))) \<and>
       (gen c = None \<and> \<not> sending c \<and> \<not> stopped c \<longrightarrow> k = length (made c) \<and> length (made c) = NUMBER_OF_WARNINGS)) \<and>
    (\<forall>c'. sstep f l (arr (ds_nodes x)) b c c' \<longrightarrow> swork c' < swork c) \<and>
    (gen c \<noteq> None \<or> sending c \<longrightarrow> (\<exists>c'. sstep f l (arr (ds_nodes x)) b c c' \<and> stopped c' = stopped c))"
proof -
  let ?ns = "arr (ds_nodes x)"
  note r = ds_reach [OF assms(1-13)]
  note tb = described_table(1) [OF r(2) assms(7)] and i = r(3)
  obtain m taken rest where I: "both (live s \<union> set (ds_blks x)) (socks s) m (squeue c) (held b c) (sheap c)" "made c = taken @ rest"
    "map (\<lambda>(a, p, w, ok). (a, p, w)) (slog c) = concat (map (route ?ns) taken)" "sitems c rest" "\<forall>w \<in> set (made c). proper ?ns w"
    "length (made c) \<le> NUMBER_OF_WARNINGS" by (rule sinvE [OF i])
  have "os_ok (sheap c)" using I(1) conn_inv_ok by (auto simp: shares_def)
  moreover have "proper ?ns w \<and> (\<exists>rt a. nparent (?ns ! rt) = None \<and> route ?ns w = [(a, nport (?ns ! rt), w)])" if "w \<in> set (made c)" for w
    using I(5) that proper_route [OF tb, of w] by blast
  moreover have "gen c = None \<and> \<not> sending c \<and> \<not> stopped c \<longrightarrow> length taken = length (made c) \<and> length (made c) = NUMBER_OF_WARNINGS"
    using I(2,4) by (auto simp: sitems_def)
  then have "\<exists>k \<le> length (made c). map (\<lambda>(a, p, w, ok). (a, p, w)) (slog c) = concat (map (route ?ns) (take k (made c))) \<and>
       (gen c = None \<and> \<not> sending c \<and> \<not> stopped c \<longrightarrow> k = length (made c) \<and> length (made c) = NUMBER_OF_WARNINGS)"
    using I(2,3) by (intro exI [of _ "length taken"]) auto
  ultimately show ?thesis using I(6) sstep_sinv [OF _ i tb assms(10,11)] source_progress [OF i tb assms(10,11)] by blast
qed

text \<open>
  C32. The data source cleans up: in every state that its threads can reach in which both have
  ended, whichever of the started programs still run then (\<open>R\<close>), whichever exit events and windows
  exist, the rest of \<open>main\<close> returns; every handle is closed once, none of the started processes runs any
  more, and all memory and all sockets have been given back, with no undefined behaviour.
\<close>

theorem data_source_cleans_up:
  assumes "os_ok s" "True \<notin> set (oom s)" "wholds (handles w) [] w" "\<forall>p \<in> running w. p < next_pid w" "True \<notin> set (fails w)"
    and "length (file_rows cs) < 2 ^ 19" "acyclic_rows (file_rows cs)" "names_apart \<lparr>tab = t, sends = rs, wire = []\<rparr> s"
    and "ds_setup True (Some cs) path t rs w s = (Some x, w1, s1)" "destinations (arr (ds_nodes x)) \<noteq> []" "printable f l (arr (ds_nodes x))"
    and "malloc s1 = (Some b, s2)" "(sstep f l (arr (ds_nodes x)) b)\<^sup>*\<^sup>* (sstart (ds_queue x) (ds_net x) s2) c"
    and "gen c = None" "\<not> sending c" "R \<subseteq> running w1" "w2 = (ds_enter existing x w1)\<lparr>running := R\<rparr>"
  shows "\<exists>w3 s3. ds_cleanup wins (x\<lparr>ds_queue := squeue c, ds_net := snet c\<rparr>) w2 (sheap c) = Some (w3, s3) \<and>
    handles w3 = handles w \<and> \<not> misuse w3 \<and> running w3 \<subseteq> running w \<and> os_ok s3 \<and> live s3 = live s \<and> socks s3 = socks s"
proof -
  let ?ns = "arr (ds_nodes x)" and ?l = "ds_launch x"
  let ?x = "x\<lparr>ds_queue := squeue c, ds_net := snet c\<rparr>" and ?A = "arr_blks (g_cpProcs ?l) @ arr_blks (g_ddProcs ?l)"
  note r = ds_reach [OF assms(1-13)]
  note tb = described_table [OF r(2) assms(7)] and i = r(3)
  obtain m where I: "connections_map (tab (snet c)) = Some m" "both (live s \<union> set (ds_blks x)) (socks s) m (squeue c) (held b c) (sheap c)"
    "map_option freeFunc (inner (squeue c)) = Some (Some (\<lambda>w. warning_destroy (Some w)))" by (rule sinvE [OF i])
  from I(2) assms(14) have bo: "both (live s \<union> set (ds_blks x)) (socks s) m (squeue c) [tself (squeue c)] (sheap c)" by simp
  from r(1) have R: "g_job ?l \<noteq> None" "g_cpCount ?l = length (procs_of (g_cpProcs ?l))" "g_ddCount ?l = length (procs_of (g_ddProcs ?l))"
    "wholds (handles w) (ds_handles x @ launch_handles ?l) w1" "running w1 = running w \<union> pids (all_procs ?l)"
    "distinct (ds_blks x)" "set (ds_blks x) \<inter> live s = {}" by (simp_all add: ds_ready_def)
  have w2: "wholds (handles w) (ds_handles x @ launch_handles ?l) w2" "running w2 = R"
    using wholds_frame [OF ds_enter_spec [OF R(4) tb(2), of existing, THEN conjunct1], of w2] assms(17) by simp_all
  have bl: "set (ds_blks x) = set (node_blks (ds_nodes x)) \<union> set ?A" "set (node_blks (ds_nodes x)) \<inter> set ?A = {}" "distinct ?A"
    "distinct (node_blks (ds_nodes x))" using R(6) by (auto simp: ds_blks_def)
  have ok: "os_ok (sheap c)" "set ?A \<subseteq> live (sheap c)" using bo conn_inv_ok bl(1) by (auto simp: shares_def qholds_def)
  have "holds (live (sheap c) - set ?A) (socks (sheap c)) ?A (sheap c)" using ok bl(3) by (auto simp: holds_def)
  from ds_end_programs [OF w2(1) R(1-3) this, of wins] obtain l' w3 s3 where e: "cp_terminate_all ?l (gracefully_close_all wins (procs_of (g_ddProcs ?l))
      (gracefully_close_all wins (procs_of (g_cpProcs ?l)) w2)) (sheap c) = Some (l', w3, s3)"
    "holds (live (sheap c) - set ?A) (socks (sheap c)) [] s3" "running w3 \<subseteq> running w2 - pids (all_procs ?l)"
    "wholds (handles w) [] (CloseHandle (ds_stop x) (CloseHandle (ds_send x) (CloseHandle (ds_gen x) w3)))"
    "running (CloseHandle (ds_stop x) (CloseHandle (ds_send x) (CloseHandle (ds_gen x) w3))) = running w3" by blast
  from e(2) have s3: "os_ok s3" "live s3 = live (sheap c) - set ?A" "socks s3 = socks (sheap c)" by (auto simp: holds_end)
  have "live s \<union> set (ds_blks x) - set ?A = live s \<union> set (node_blks (ds_nodes x))" using bl(1,2) R(7) by blast
  with shares_shrink [OF bo _ s3] bl(1) have "both (live s \<union> set (node_blks (ds_nodes x))) (socks s) m (squeue c) [tself (squeue c)] s3" by auto
  note bo3 = this
  have "set (node_blks (ds_nodes x)) \<inter> live s = {}" using R(7) bl(1) by blast
  from ds_free_memory [OF bo3 I(3) bl(4) this I(1)] obtain s4 t' s5 where f: "tsqueue_destroy (Some (squeue c)) s3 = Some s4"
    "connections_cleanup (tab (snet c)) (node_info_destroy_all (Some (ds_nodes x)) s4) = (t', s5)" "os_ok s5" "live s5 = live s" "socks s5 = socks s" by auto
  let ?w = "CloseHandle (ds_stop x) (CloseHandle (ds_send x) (CloseHandle (ds_gen x) w3))"
  have "ds_cleanup wins ?x w2 (sheap c) = Some (?w, s5)" using e(1) f(1,2) by (simp add: ds_cleanup_def Let_def)
  moreover have "running ?w \<subseteq> running w" using e(3,5) w2(2) assms(16) R(5) by auto
  moreover have "handles ?w = handles w" "\<not> misuse ?w" using e(4) by (simp_all add: wholds_def)
  ultimately show ?thesis using f(3-5) by blast
qed

text \<open>
  C36. Closing the started programs gracefully does the opposite of what it is for:
  \<open>EnumWindows\<close> returns \<open>FALSE\<close> when the callback has found the window, so that exactly the processes
  with a window, which have just been asked to close, are terminated at once.
\<close>

theorem gracefully_closed_are_killed:
  assumes "wholds H (proc_handles ps) w"
  shows "running (gracefully_close_all wins ps w) = running w - {p \<in> pids ps. p \<in> set wins} \<and>
    wholds H (proc_handles ps) (gracefully_close_all wins ps w)"
proof -
  have e: "gracefully_close_all wins ps w = w\<lparr>running := running w - (pids ps \<inter> set wins)\<rparr>" by (rule close_all_spec [OF assms]) simp
  have "wholds H (proc_handles ps) (gracefully_close_all wins ps w)" by (rule wholds_frame [OF assms]) (simp_all add: e)
  with e show ?thesis by auto
qed

section \<open>Witnesses\<close>

lemma warning_type_short: "unat ty < 4 \<Longrightarrow> length (warning_type_to_string ty) \<le> 16"
proof -
  assume "unat ty < 4"
  then have "unat ty \<in> {0, 1, 2, 3}" by auto
  then have "ty \<in> {0, 1, 2, 3}" by (auto simp: word_unat_eq_iff)
  then show ?thesis by (elim insertE) (simp_all add: warning_type_to_string_def WarningTypeNames_def WARNING_TYPE_OTHER_def)
qed

definition plain_time :: "u64 \<Rightarrow> tm" where
  "plain_time ts = \<lparr>tm_mday = 1, tm_mon = 0, tm_year = 100, tm_hour = 0, tm_min = 0, tm_sec = 0\<rparr>"

lemma plain_printable:
  assumes "describes (file_rows cs) ns"
  shows "printable (\<lambda>v. ''1'') plain_time ns"
  unfolding printable_def
proof (intro allI impI)
  fix w assume p: "proper ns w"
  then obtain i where i: "i < length ns" "map_option chars (nid (ns ! i)) = Some (chars (dest_node w))" "chars (city w) = chars (dest_node w)"
    "unat (wtype w) < 4" by (auto simp: proper_def)
  with assms have "i < length (file_rows cs)" "chars (dest_node w) = row_id (file_rows cs ! i)" by (auto simp: describes_def)
  then have "length (chars (dest_node w)) \<le> 511" using file_rows_short [of "file_rows cs ! i" cs] by simp
  moreover have "length (format_local_time plain_time (timestamp w)) \<le> 64"
    by (simp add: format_local_time_def plain_time_def two_digits_def string_of_nat.simps Let_def)
  ultimately show "length (warning_text (\<lambda>v. ''1'') plain_time w) < 2 ^ 31"
    using i(3) warning_type_short [OF i(4)] by (simp add: warning_text_def)
qed

lemma demo_source:
  "\<exists>x w1 s1. ds_setup True (Some demo_csv) ''C:'' demo_reuse [] fresh_win fresh_os = (Some x, w1, s1) \<and>
     describes (file_rows demo_csv) (arr (ds_nodes x)) \<and> destinations (arr (ds_nodes x)) \<noteq> [] \<and> length (started w1) = 3 \<and>
     ds_ready fresh_win fresh_os x w1 s1"
proof -
  let ?cs = "file_rows demo_csv"
  have w: "True \<notin> set (oom fresh_os)" "True \<notin> set (fails fresh_win)" using fresh_win_ok(3) by (simp_all add: fresh_os_def)
  have r: "length ?cs < 2 ^ 19" "acyclic_rows ?cs" unfolding demo_rows by (simp, code_simp)
  have n: "names_apart \<lparr>tab = demo_reuse, sends = [], wire = []\<rparr> fresh_os" by (simp add: names_apart_def demo_reuse_def fresh_os_def)
  from ds_setup_ok [OF fresh_os_ok(1) w(1) fresh_win_ok(1,2) w(2) r n, of "''C:''"] obtain x w1 s1 where
    x: "ds_setup True (Some demo_csv) ''C:'' demo_reuse [] fresh_win fresh_os = (Some x, w1, s1)" "describes ?cs (arr (ds_nodes x))"
      "ds_ready fresh_win fresh_os x w1 s1"
      "map snd (started w1) = map snd (started fresh_win) @ commands propagator (exe_path ''C:'' ''CentralPropagator.exe'') (arr (ds_nodes x)) @
        commands destination (exe_path ''C:'' ''DataDestination.exe'') (arr (ds_nodes x))" by (elim exE conjE)
  have len: "length (arr (ds_nodes x)) = 3" using x(2) by (simp add: describes_def demo_rows)
  have "row_parent ?cs 1 = Some 0" "row_children ?cs 1 = []" unfolding demo_rows by code_simp+
  moreover have "1 < length ?cs" by (simp add: demo_rows)
  ultimately have "ntype (arr (ds_nodes x) ! 1) = NODE_DESTINATION" using x(2) unfolding describes_def by fastforce
  then have d: "destinations (arr (ds_nodes x)) \<noteq> []" using len destinations_mem [of 1 "arr (ds_nodes x)"] by fastforce
  from arg_cong [OF x(4), of length] have "length (started w1) = 3"
    using sum_length_filter_compl [of destination "arr (ds_nodes x)"] len fresh_win_ok(5) by (simp add: commands_def)
  with x(1-3) d show ?thesis by blast
qed

theorem data_source_starts_witness:
  "\<exists>x w1 s1. ds_setup True (Some demo_csv) ''C:'' demo_reuse [] fresh_win fresh_os = (Some x, w1, s1) \<and> length (started w1) = 3"
proof -
  have w: "True \<notin> set (oom fresh_os)" "True \<notin> set (fails fresh_win)" using fresh_win_ok(3) by (simp_all add: fresh_os_def)
  have r: "length (file_rows demo_csv) < 2 ^ 19" "acyclic_rows (file_rows demo_csv)" unfolding demo_rows by (simp, code_simp)
  have n: "names_apart \<lparr>tab = demo_reuse, sends = [], wire = []\<rparr> fresh_os" by (simp add: names_apart_def demo_reuse_def fresh_os_def)
  from data_source_starts [OF fresh_os_ok(1) w(1) fresh_win_ok(1,2) w(2) r n, of "''C:''"] demo_source show ?thesis by auto
qed

text \<open>A run in which nobody presses Enter.\<close>

lemma demo_source_run:
  "\<exists>x w1 s1 b s2 c. ds_setup True (Some demo_csv) ''C:'' demo_reuse [] fresh_win fresh_os = (Some x, w1, s1) \<and>
     destinations (arr (ds_nodes x)) \<noteq> [] \<and> printable (\<lambda>v. ''1'') plain_time (arr (ds_nodes x)) \<and> malloc s1 = (Some b, s2) \<and>
     (sstep (\<lambda>v. ''1'') plain_time (arr (ds_nodes x)) b)\<^sup>*\<^sup>* (sstart (ds_queue x) (ds_net x) s2) c \<and>
     gen c = None \<and> \<not> sending c \<and> \<not> stopped c"
proof -
  have w: "True \<notin> set (oom fresh_os)" "True \<notin> set (fails fresh_win)" using fresh_win_ok(3) by (simp_all add: fresh_os_def)
  have r: "length (file_rows demo_csv) < 2 ^ 19" "acyclic_rows (file_rows demo_csv)" unfolding demo_rows by (simp, code_simp)
  have n: "names_apart \<lparr>tab = demo_reuse, sends = [], wire = []\<rparr> fresh_os" by (simp add: names_apart_def demo_reuse_def fresh_os_def)
  from demo_source obtain x w1 s1 where x: "ds_setup True (Some demo_csv) ''C:'' demo_reuse [] fresh_win fresh_os = (Some x, w1, s1)"
    "describes (file_rows demo_csv) (arr (ds_nodes x))" "destinations (arr (ds_nodes x)) \<noteq> []" "ds_ready fresh_win fresh_os x w1 s1" by blast
  have "True \<notin> set (oom s1)" using x(4) by (simp add: ds_ready_def)
  from malloc_succeeds [OF this] obtain b s2 where b: "malloc s1 = (Some b, s2)" by blast
  note p = plain_printable [OF x(2)]
  note R = ds_reach [OF fresh_os_ok(1) w(1) fresh_win_ok(1,2) w(2) r n x(1,3) p b rtranclp.rtrancl_refl]
  from source_finishes [OF R(3) described_table(1) [OF R(2) r(2)] x(3) p] x(1,3) p b show ?thesis by (auto simp: sstart_def)
qed

theorem data_source_sends_all_witness:
  "\<exists>x w1 s1 b s2 c. ds_setup True (Some demo_csv) ''C:'' demo_reuse [] fresh_win fresh_os = (Some x, w1, s1) \<and>
     (sstep (\<lambda>v. ''1'') plain_time (arr (ds_nodes x)) b)\<^sup>*\<^sup>* (sstart (ds_queue x) (ds_net x) s2) c \<and> os_ok (sheap c) \<and> length (made c) = 10000"
proof -
  have w: "True \<notin> set (oom fresh_os)" "True \<notin> set (fails fresh_win)" using fresh_win_ok(3) by (simp_all add: fresh_os_def)
  have r: "length (file_rows demo_csv) < 2 ^ 19" "acyclic_rows (file_rows demo_csv)" unfolding demo_rows by (simp, code_simp)
  have n: "names_apart \<lparr>tab = demo_reuse, sends = [], wire = []\<rparr> fresh_os" by (simp add: names_apart_def demo_reuse_def fresh_os_def)
  from demo_source_run obtain x w1 s1 b s2 c where x: "ds_setup True (Some demo_csv) ''C:'' demo_reuse [] fresh_win fresh_os = (Some x, w1, s1)"
    "destinations (arr (ds_nodes x)) \<noteq> []" "printable (\<lambda>v. ''1'') plain_time (arr (ds_nodes x))" "malloc s1 = (Some b, s2)"
    "(sstep (\<lambda>v. ''1'') plain_time (arr (ds_nodes x)) b)\<^sup>*\<^sup>* (sstart (ds_queue x) (ds_net x) s2) c"
    "gen c = None" "\<not> sending c" "\<not> stopped c" by (elim exE conjE)
  note P = data_source_sends_all [OF fresh_os_ok(1) w(1) fresh_win_ok(1,2) w(2) r n x(1-5)]
  have "os_ok (sheap c)" "length (made c) = 10000" using P x(6-8) unfolding NUMBER_OF_WARNINGS_def by blast+
  with x(1,5) show ?thesis by blast
qed

theorem data_source_cleans_up_witness:
  "\<exists>x w1 s1 (c :: srcsys) w3 s3. ds_setup True (Some demo_csv) ''C:'' demo_reuse [] fresh_win fresh_os = (Some x, w1, s1) \<and>
     ds_cleanup [2] (x\<lparr>ds_queue := squeue c, ds_net := snet c\<rparr>) (ds_enter (\<lambda>n. True) x w1) (sheap c) = Some (w3, s3) \<and>
     running w3 = {} \<and> live s3 = {} \<and> socks s3 = {}"
proof -
  have w: "True \<notin> set (oom fresh_os)" "True \<notin> set (fails fresh_win)" using fresh_win_ok(3) by (simp_all add: fresh_os_def)
  have r: "length (file_rows demo_csv) < 2 ^ 19" "acyclic_rows (file_rows demo_csv)" unfolding demo_rows by (simp, code_simp)
  have n: "names_apart \<lparr>tab = demo_reuse, sends = [], wire = []\<rparr> fresh_os" by (simp add: names_apart_def demo_reuse_def fresh_os_def)
  from demo_source_run obtain x w1 s1 b s2 c where x: "ds_setup True (Some demo_csv) ''C:'' demo_reuse [] fresh_win fresh_os = (Some x, w1, s1)"
    "destinations (arr (ds_nodes x)) \<noteq> []" "printable (\<lambda>v. ''1'') plain_time (arr (ds_nodes x))" "malloc s1 = (Some b, s2)"
    "(sstep (\<lambda>v. ''1'') plain_time (arr (ds_nodes x)) b)\<^sup>*\<^sup>* (sstart (ds_queue x) (ds_net x) s2) c"
    "gen c = None" "\<not> sending c" by (elim exE conjE)
  let ?w = "ds_enter (\<lambda>n. True) x w1"
  note rd = ds_reach [OF fresh_os_ok(1) w(1) fresh_win_ok(1,2) w(2) r n x(1-5)]
  have "wholds (handles fresh_win) (ds_handles x @ launch_handles (ds_launch x)) w1" using rd(1) by (simp add: ds_ready_def)
  from ds_enter_spec [OF this described_table(2) [OF rd(2) r(2)]] have "?w = ?w\<lparr>running := running ?w\<rparr>" "running ?w \<subseteq> running w1" by simp_all
  from data_source_cleans_up [OF fresh_os_ok(1) w(1) fresh_win_ok(1,2) w(2) r n x(1-7) this(2,1), of "[2]"] obtain w3 s3 where
    "ds_cleanup [2] (x\<lparr>ds_queue := squeue c, ds_net := snet c\<rparr>) ?w (sheap c) = Some (w3, s3)" "running w3 \<subseteq> running fresh_win"
    "live s3 = live fresh_os" "socks s3 = socks fresh_os" by (elim exE conjE)
  moreover have "live fresh_os = {}" "socks fresh_os = {}" by (simp_all add: fresh_os_def)
  ultimately show ?thesis using x(1) fresh_win_ok(4)
    by (intro exI [of _ x] exI [of _ w1] exI [of _ s1] exI [of _ c] exI [of _ w3] exI [of _ s3]) simp
qed

theorem gracefully_closed_are_killed_witness:
  "running (gracefully_close_all [7] [\<lparr>hProcess = 1, hThread = 2, dwProcessId = 7\<rparr>, \<lparr>hProcess = 3, hThread = 4, dwProcessId = 8\<rparr>]
     (fresh_win\<lparr>handles := map_of [(2, Thread 7), (1, Process 7), (4, Thread 8), (3, Process 8)], next_handle := 5, running := {7, 8}\<rparr>)) = {8}"
proof -
  let ?ps = "[\<lparr>hProcess = 1, hThread = 2, dwProcessId = 7\<rparr>, \<lparr>hProcess = 3, hThread = 4, dwProcessId = 8\<rparr>]"
  let ?w = "fresh_win\<lparr>handles := map_of [(2, Thread 7), (1, Process 7), (4, Thread 8), (3, Process 8)], next_handle := 5, running := {7, 8}\<rparr>"
  have "wholds Map.empty (proc_handles ?ps) ?w" by (simp add: wholds_def fresh_win_def)
  from gracefully_closed_are_killed [OF this, of "[7]"] have "running (gracefully_close_all [7] ?ps ?w) = running ?w - {p \<in> pids ?ps. p \<in> set [7]}" ..
  also have "\<dots> = {8}" by auto
  finally show ?thesis .
qed

end
