(* ===== verification/Context.thy ===== *)
theory Context
  imports Routing
begin

text \<open>
  \<open>CentralPropagator/cp_context.c\<close>: what a central propagator knows of the network, the table of
  all nodes, its own node and a hash map of the ids of its subtree.  The file has its own copies of
  \<open>hash_string\<close> and \<open>eq_string\<close>, with which it looks up keys that those of \<open>Common/node.c\<close> have put there.
\<close>

section \<open>Data and operations\<close>

definition cp_hash_string :: "hstr \<Rightarrow> size_t" where
  "cp_hash_string k = fold (\<lambda>c h. (push_bit 5 h + h) + word_of_nat (of_char c)) (chars k) 5381"

definition cp_eq_string :: "hstr \<Rightarrow> hstr \<Rightarrow> bool" where
  "cp_eq_string a b \<longleftrightarrow> chars a = chars b"

record CPContext =
  cmap :: "(hstr, nat) HashMap option"
  me :: nat
  cchildren :: "nat option list"
  cchildren_blk :: "nat option"
  cchild_count :: nat
  all_nodes :: NodeArray
  ctx_blk :: nat

text \<open>
  The recursion of \<open>collect_subtree\<close> with its stack of pending nodes made explicit; it does not
  end on a cycle (\<open>None\<close>).  A child slot that was never written is a wild pointer.
\<close>

partial_function (option) collect_subtree :: "NodeInfo list \<Rightarrow> (hstr, nat) HashMap option \<Rightarrow> nat option list \<Rightarrow> os \<Rightarrow>
    ((hstr, nat) HashMap option \<times> os) option" where
  "collect_subtree ns m st s =
     (case st of
        [] \<Rightarrow> Some (m, s)
      | None # _ \<Rightarrow> Some (m, s\<lparr>ub := True\<rparr>)
      | Some n # st \<Rightarrow>
          (case put_id (nid (ns ! n)) n m s of
             (m, s) \<Rightarrow> collect_subtree ns m (take (child_count (ns ! n)) (children (ns ! n)) @ st) s))"

text \<open>The end of \<open>cp_context_create\<close>: the record, and the copy of the array of children.\<close>

definition ctx_build :: "NodeArray \<Rightarrow> nat \<Rightarrow> (hstr, nat) HashMap option \<Rightarrow> os \<Rightarrow> CPContext option \<times> os" where
  "ctx_build all m submap s =
     (case malloc s of
        (None, s) \<Rightarrow> (None, s\<lparr>ub := True\<rparr>)
      | (Some b, s) \<Rightarrow>
          (let cc = child_count (arr all ! m)
           in (case malloc s of
                 (cb, s) \<Rightarrow>
                   (Some \<lparr>cmap = submap, me = m, cchildren = take cc (children (arr all ! m)), cchildren_blk = cb,
                          cchild_count = cc, all_nodes = all, ctx_blk = b\<rparr>,
                    if cb = None \<and> 0 < cc then s\<lparr>ub := True\<rparr> else s))))"

definition cp_context_create :: "string option \<Rightarrow> string \<Rightarrow> os \<Rightarrow> (CPContext option \<times> os) option" where
  "cp_context_create file root_id s =
     (case node_load_all file s of
        (None, s) \<Rightarrow> Some (None, s)
      | (Some all, s) \<Rightarrow>
          (let total = length (arr all)
           in (case hashmap_create total (Some cp_hash_string) (Some cp_eq_string) (Some free_str) None s of
                 (allmap, s) \<Rightarrow>
                   (case put_ids (zip (map nid (arr all)) [0..<total]) allmap s of
                      (allmap, s) \<Rightarrow>
                        (case hashmap_get allmap (Some (tmp_str root_id)) of
                           None \<Rightarrow> Some (None, node_info_destroy_all (Some all) (hashmap_destroy allmap s))
                         | Some m \<Rightarrow>
                             (case hashmap_create total (Some cp_hash_string) (Some cp_eq_string) (Some free_str) None s of
                                (submap, s) \<Rightarrow>
                                  (case collect_subtree (arr all) submap [Some m] s of
                                     None \<Rightarrow> None
                                   | Some (submap, s) \<Rightarrow>
                                       (case ctx_build all m submap s of
                                          (ctx, s) \<Rightarrow> Some (ctx, hashmap_destroy allmap s)))))))))"

definition cp_context_destroy :: "CPContext option \<Rightarrow> os \<Rightarrow> os" where
  "cp_context_destroy ctx s =
     (case ctx of
        None \<Rightarrow> s
      | Some c \<Rightarrow>
          free_blk (ctx_blk c)
            (node_info_destroy_all (Some (all_nodes c)) (free_ptr (cchildren_blk c) (hashmap_destroy (cmap c) s))))"

text \<open>The copies of the two functions are the same functions.\<close>

lemma cp_string_functions: "cp_hash_string = hash_string" "cp_eq_string = eq_string"
proof -
  have "djb2 h cs = fold (\<lambda>c h. (push_bit 5 h + h) + word_of_nat (of_char c)) cs h" for h cs
    by (induction cs arbitrary: h) simp_all
  then show "cp_hash_string = hash_string" by (simp add: fun_eq_iff cp_hash_string_def hash_string_def)
  show "cp_eq_string = eq_string" by (simp add: fun_eq_iff cp_eq_string_def eq_string_def)
qed

section \<open>Subtrees\<close>

text \<open>What the loader guarantees about parents and children.\<close>

definition linked :: "NodeInfo list \<Rightarrow> bool" where
  "linked ns \<longleftrightarrow> (\<forall>i < length ns.
     take (child_count (ns ! i)) (children (ns ! i)) = map Some (filter (\<lambda>j. nparent (ns ! j) = Some i) [0..<length ns]))"

definition tree :: "NodeInfo list \<Rightarrow> nat \<Rightarrow> nat set" where
  "tree ns i = {j. j < length ns \<and> below ns i j}"

abbreviation kids_of :: "NodeInfo list \<Rightarrow> nat \<Rightarrow> nat list" where
  "kids_of ns i \<equiv> filter (\<lambda>j. nparent (ns ! j) = Some i) [0..<length ns]"

lemma describes_kids:
  assumes "describes rs ns"
  shows "row_children rs i = kids_of ns i"
  unfolding row_children_def using assms by (intro filter_cong) (auto simp: describes_def)

lemma describes_children:
  assumes "describes rs ns" "i < length ns"
  shows "children (ns ! i) = map Some (kids_of ns i)" "child_count (ns ! i) = length (kids_of ns i)"
  unfolding describes_kids [OF assms(1), symmetric] using assms by (simp_all add: describes_def)

lemma describes_linked: "describes rs ns \<Longrightarrow> linked ns"
  using describes_children by (simp add: linked_def)

lemma tree_finite [simp]: "finite (tree ns i)"
  by (simp add: tree_def)

lemma tree_sub: "tree ns i \<subseteq> {0..<length ns}"
  by (rule subsetI) (simp add: tree_def)

lemma tree_self: "i < length ns \<Longrightarrow> i \<in> tree ns i"
  by (simp add: tree_def)

lemma below_last: "below ns i j \<Longrightarrow> j = i \<or> (\<exists>c. up ns c i \<and> below ns c j)"
  by (erule rtranclp.cases) auto

lemma tree_unfold:
  assumes "forest ns" "i < length ns"
  shows "tree ns i = insert i (\<Union>c \<in> set (kids_of ns i). tree ns c)" (is "_ = ?R")
proof (intro set_eqI iffI)
  fix j assume j: "j \<in> tree ns i"
  then have b: "below ns i j" "j < length ns" by (auto simp: tree_def)
  from below_last [OF b(1)] show "j \<in> ?R"
  proof
    assume "\<exists>c. up ns c i \<and> below ns c j"
    then obtain c where c: "up ns c i" "below ns c j" by blast
    from below_less [OF c(2) assms(1) b(2)] c b(2) show ?thesis by (auto simp: tree_def up_def)
  qed simp
next
  fix j assume "j \<in> ?R"
  then consider "j = i" | c where "c < length ns" "up ns c i" "j < length ns" "below ns c j"
    by (auto simp: tree_def up_def)
  then show "j \<in> tree ns i"
  proof cases
    case 2
    then show ?thesis by (auto simp: tree_def intro: rtranclp.rtrancl_into_rtrancl)
  qed (use assms(2) in \<open>simp add: tree_def\<close>)
qed

lemma kid_tree_root:
  assumes "forest ns" "i < length ns" "c \<in> set (kids_of ns i)"
  shows "i \<notin> tree ns c"
  using no_cycle [OF assms(1), of c i] assms(3) by (auto simp: tree_def up_def)

lemma kids_disjoint:
  assumes "forest ns" "c \<in> set (kids_of ns i)" "d \<in> set (kids_of ns i)" "c \<noteq> d"
  shows "tree ns c \<inter> tree ns d = {}"
proof -
  have u: "up ns c i" "up ns d i" "c < length ns" "d < length ns" using assms(2,3) by (auto simp: up_def)
  have n: False if "below ns a b" "a \<noteq> b" "up ns a i" "up ns b i" "a < length ns" for a b
  proof -
    from below_cases [OF that(1)] that(2) obtain p where "up ns b p" "below ns a p" by auto
    with up_unique [OF that(4)] have "below ns a i" by auto
    with no_cycle [OF assms(1) that(5,3)] show False ..
  qed
  show ?thesis
  proof (rule ccontr)
    assume "tree ns c \<inter> tree ns d \<noteq> {}"
    then obtain j where j: "below ns c j" "below ns d j" by (auto simp: tree_def)
    from below_linear [OF j] show False using n [of c d] n [of d c] u assms(4) by blast
  qed
qed

text \<open>A stack of nodes whose subtrees do not overlap.\<close>

definition apart :: "NodeInfo list \<Rightarrow> nat list \<Rightarrow> bool" where
  "apart ns st \<longleftrightarrow> distinct st \<and> (\<forall>a \<in> set st. a < length ns) \<and>
     (\<forall>a \<in> set st. \<forall>b \<in> set st. a \<noteq> b \<longrightarrow> tree ns a \<inter> tree ns b = {})"

definition trees :: "NodeInfo list \<Rightarrow> nat list \<Rightarrow> nat set" where
  "trees ns st = (\<Union>a \<in> set st. tree ns a)"

lemma apart_step:
  assumes "forest ns" "apart ns (i # st)"
  shows "apart ns (kids_of ns i @ st)" "trees ns (i # st) = insert i (trees ns (kids_of ns i @ st))"
    "i \<notin> trees ns (kids_of ns i @ st)"
proof -
  from assms(2) have i: "i < length ns" "i \<notin> set st" "apart ns st" "\<forall>b \<in> set st. tree ns i \<inter> tree ns b = {}"
    by (auto simp: apart_def)
  note un = tree_unfold [OF assms(1) i(1)]
  show "trees ns (i # st) = insert i (trees ns (kids_of ns i @ st))" by (auto simp: trees_def un)
  show "i \<notin> trees ns (kids_of ns i @ st)"
    using kid_tree_root [OF assms(1) i(1)] i(4) tree_self [OF i(1)] unfolding trees_def by fastforce
  have kid: "c < length ns \<and> tree ns c \<subseteq> tree ns i" if "c \<in> set (kids_of ns i)" for c
    using that un by auto
  have cross: "tree ns c \<inter> tree ns b = {}" "c \<noteq> b" if "c \<in> set (kids_of ns i)" "b \<in> set st" for c b
  proof -
    show d: "tree ns c \<inter> tree ns b = {}" using kid [OF that(1)] i(4) that(2) by blast
    show "c \<noteq> b" using d tree_self [of c ns] kid [OF that(1)] by auto
  qed
  have "distinct (kids_of ns i @ st)" using i(3) cross(2) by (auto simp: apart_def)
  moreover have "tree ns a \<inter> tree ns b = {}" if ab: "a \<in> set (kids_of ns i @ st)" "b \<in> set (kids_of ns i @ st)" "a \<noteq> b" for a b
  proof -
    consider "a \<in> set (kids_of ns i)" "b \<in> set (kids_of ns i)" | "a \<in> set (kids_of ns i)" "b \<in> set st"
      | "a \<in> set st" "b \<in> set (kids_of ns i)" | "a \<in> set st" "b \<in> set st" using ab(1,2) unfolding set_append Un_iff by blast
    then show ?thesis
    proof cases
      case 1
      then show ?thesis by (rule kids_disjoint [OF assms(1) _ _ ab(3)])
    next
      case 2
      then show ?thesis by (rule cross(1))
    next
      case 3
      from cross(1) [OF 3(2,1)] show ?thesis by blast
    next
      case 4
      with i(3) ab(3) show ?thesis by (simp add: apart_def)
    qed
  qed
  moreover have "\<forall>a \<in> set (kids_of ns i @ st). a < length ns" using kid i(3) unfolding apart_def set_append by blast
  ultimately show "apart ns (kids_of ns i @ st)" unfolding apart_def by blast
qed

lemma collect_subtree_spec:
  assumes "forest ns" "linked ns" "apart ns st"
  shows "\<exists>xs. set xs = trees ns st \<and> distinct xs \<and>
    (\<forall>m s. collect_subtree ns m (map Some st) s = Some (put_ids (map (\<lambda>j. (nid (ns ! j), j)) xs) m s))"
  using assms(3)
proof (induction "card (trees ns st)" arbitrary: st rule: less_induct)
  case less
  show ?case
  proof (cases st)
    case Nil
    then show ?thesis by (intro exI [of _ "[]"]) (simp add: trees_def collect_subtree.simps)
  next
    case (Cons i st')
    let ?st = "kids_of ns i @ st'"
    note A = apart_step [OF assms(1) less.prems [unfolded Cons]]
    have fin: "finite (trees ns ?st)" by (simp add: trees_def)
    have "card (trees ns ?st) < card (trees ns st)" using A(2,3) fin by (simp add: Cons)
    from less.hyps [OF this A(1)] obtain xs where xs: "set xs = trees ns ?st" "distinct xs"
      "\<And>m s. collect_subtree ns m (map Some ?st) s = Some (put_ids (map (\<lambda>j. (nid (ns ! j), j)) xs) m s)" by blast
    have i: "i < length ns" using less.prems by (simp add: Cons apart_def)
    then have ch: "take (child_count (ns ! i)) (children (ns ! i)) @ map Some st' = map Some ?st"
      using assms(2) by (simp add: linked_def)
    have "collect_subtree ns m (map Some st) s = Some (put_ids (map (\<lambda>j. (nid (ns ! j), j)) (i # xs)) m s)" for m s
    proof -
      obtain m' s' where p: "put_id (nid (ns ! i)) i m s = (m', s')" by force
      have "collect_subtree ns m (map Some st) s = collect_subtree ns m' (map Some ?st) s'"
        unfolding Cons by (subst collect_subtree.simps) (simp only: list.map list.case option.case p prod.case ch)
      also have "\<dots> = Some (put_ids (map (\<lambda>j. (nid (ns ! j), j)) xs) m' s')" by (rule xs(3))
      finally show ?thesis by (simp add: p)
    qed
    moreover have "set (i # xs) = trees ns st" "distinct (i # xs)" using xs(1,2) A(2,3) by (auto simp: Cons)
    ultimately show ?thesis by blast
  qed
qed

section \<open>Creating and destroying a context\<close>

abbreviation name_of :: "NodeInfo list \<Rightarrow> nat \<Rightarrow> string" where
  "name_of ns j \<equiv> chars (the (nid (ns ! j)))"

lemma map_of_names:
  assumes "distinct (map f xs)"
  shows "map_of (rev (map (\<lambda>j. (f j, j)) xs)) k = Some n \<longleftrightarrow> n \<in> set xs \<and> f n = k"
proof -
  have d: "distinct (map fst (rev (map (\<lambda>j. (f j, j)) xs)))" using assms by (simp add: comp_def rev_map [symmetric])
  show ?thesis unfolding map_of_eq_Some_iff [OF d] by auto
qed

lemma put_ids_nodes:
  assumes "\<forall>j \<in> set xs. nid (ns ! j) \<noteq> None"
  shows "map (\<lambda>j. (nid (ns ! j), j)) xs = map (\<lambda>(h, v). (Some h, v)) (map (\<lambda>j. (the (nid (ns ! j)), j)) xs)"
  using assms by auto

text \<open>The map that is built from a list of nodes.\<close>

lemma node_map:
  assumes "holds L K X s" "True \<notin> set (oom s)" "0 < c" "c < 2 ^ 21" "length xs \<le> c"
    and "\<forall>j \<in> set xs. nid (ns ! j) \<noteq> None" "distinct (map (name_of ns) xs)"
  shows "\<exists>m s1 m' s'. hashmap_create c (Some hash_string) (Some eq_string) (Some free_str) None s = (Some m, s1) \<and>
    put_ids (map (\<lambda>j. (nid (ns ! j), j)) xs) (Some m) s1 = (Some m', s') \<and>
    smap.hm_owned m' s' \<and> holds L K (smap.hm_blks m' @ X) s' \<and> True \<notin> set (oom s') \<and>
    (\<forall>k n. hashmap_get (Some m') (Some k) = Some n \<longleftrightarrow> n \<in> set xs \<and> name_of ns n = chars k)"
proof -
  let ?kvs = "map (\<lambda>j. (the (nid (ns ! j)), j)) xs"
  have e: "map (\<lambda>(h, v). (chars h, v)) ?kvs = map (\<lambda>j. (name_of ns j, j)) xs" by simp
  have len: "length ?kvs \<le> c" using assms(5) by simp
  from build_map [OF assms(1-4) len] obtain m s1 m' s'
    where b: "hashmap_create c (Some hash_string) (Some eq_string) (Some free_str) None s = (Some m, s1)"
      "put_ids (map (\<lambda>(h, v). (Some h, v)) ?kvs) (Some m) s1 = (Some m', s')" "smap.hm_owned m' s'"
      "holds L K (smap.hm_blks m' @ X) s'" "True \<notin> set (oom s')"
      "\<And>k. hashmap_get (Some m') (Some k) = map_of (rev (map (\<lambda>(h, v). (chars h, v)) ?kvs)) (chars k)" by blast
  have "hashmap_get (Some m') (Some k) = Some n \<longleftrightarrow> n \<in> set xs \<and> name_of ns n = chars k" for k n
    unfolding b(6) e by (rule map_of_names [OF assms(7)])
  with b(1-5) show ?thesis unfolding put_ids_nodes [OF assms(6)] by blast
qed

definition ctx_blks :: "CPContext \<Rightarrow> nat list" where
  "ctx_blks c = smap.hm_blks (the (cmap c)) @ the (cchildren_blk c) # nodes_blks (arr (all_nodes c)) @
     arr_blk (all_nodes c) # [ctx_blk c]"

text \<open>A context of the node \<open>r\<close> over the nodes \<open>ns\<close>.\<close>

definition ctx_for :: "NodeInfo list \<Rightarrow> nat \<Rightarrow> CPContext \<Rightarrow> bool" where
  "ctx_for ns r c \<longleftrightarrow> me c = r \<and> arr (all_nodes c) = ns \<and> cchildren c = map Some (kids_of ns r) \<and>
     cchild_count c = length (kids_of ns r) \<and>
     (\<forall>k n. hashmap_get (cmap c) (Some k) = Some n \<longleftrightarrow> n \<in> tree ns r \<and> name_of ns n = chars k)"

lemma describes_names:
  assumes "describes rs ns"
  shows "\<forall>j < length ns. nid (ns ! j) \<noteq> None" "map (name_of ns) [0..<length ns] = map row_id rs"
  using assms by (auto simp: describes_def intro!: nth_equalityI)

lemma tree_names:
  assumes "describes rs ns" "distinct (map row_id rs)" "set xs \<subseteq> {0..<length ns}" "distinct xs"
  shows "distinct (map (name_of ns) xs)" "\<forall>j \<in> set xs. nid (ns ! j) \<noteq> None" "length xs \<le> length ns"
proof -
  have "inj_on (name_of ns) (set [0..<length ns])"
    using assms(2) unfolding describes_names(2) [OF assms(1), symmetric] distinct_map by blast
  then have "inj_on (name_of ns) (set xs)" by (rule inj_on_subset) (use assms(3) in simp)
  then show "distinct (map (name_of ns) xs)" using assms(4) by (simp add: distinct_map)
  show "\<forall>j \<in> set xs. nid (ns ! j) \<noteq> None" using describes_names(1) [OF assms(1)] assms(3) by fastforce
  have "card (set xs) \<le> card {0..<length ns}" by (rule card_mono) (use assms(3) in auto)
  then show "length xs \<le> length ns" using distinct_card [OF assms(4)] by simp
qed

lemma ctx_build_spec:
  assumes "holds L K X s" "True \<notin> set (oom s)"
  shows "\<exists>c s'. ctx_build all m submap s = (Some c, s') \<and> True \<notin> set (oom s') \<and> cmap c = submap \<and> me c = m \<and>
    cchildren c = take (child_count (arr all ! m)) (children (arr all ! m)) \<and> cchild_count c = child_count (arr all ! m) \<and>
    all_nodes c = all \<and> cchildren_blk c \<noteq> None \<and> holds L K (the (cchildren_blk c) # ctx_blk c # X) s'"
proof -
  from malloc_succeeds [OF assms(2)] obtain b s1 where b: "malloc s = (Some b, s1)" "True \<notin> set (oom s1)" by blast
  from malloc_succeeds [OF b(2)] obtain d s2 where d: "malloc s1 = (Some d, s2)" "True \<notin> set (oom s2)" by blast
  from holds_malloc [OF holds_malloc [OF assms(1) b(1)] d(1)] b d show ?thesis
    by (simp add: ctx_build_def Let_def)
qed

lemma cp_context_create_spec:
  assumes "os_ok s" "True \<notin> set (oom s)" "length (file_rows cs) < 2 ^ 19" "distinct (map row_id (file_rows cs))"
    and "node_load_all (Some cs) s = (Some na, s0)" "forest (arr na)"
    and "r < length (arr na)" "name_of (arr na) r = root_id"
  shows "\<exists>c s'. cp_context_create (Some cs) root_id s = Some (Some c, s') \<and> ctx_for (arr na) r c \<and>
    holds (live s) (socks s) (ctx_blks c) s' \<and> smap.hm_owned (the (cmap c)) s' \<and> cmap c \<noteq> None \<and> cchildren_blk c \<noteq> None \<and>
    True \<notin> set (oom s')"
proof -
  let ?ns = "arr na" and ?rs = "file_rows cs" and ?L = "live s" and ?K = "socks s"
  let ?n = "length ?ns" and ?N = "nodes_blks ?ns @ [arr_blk na]"
  from node_load_all_spec [OF assms(1-3)] assms(5)
  have D: "describes ?rs ?ns" "holds ?L ?K ?N s0" "True \<notin> set (oom s0)" by auto
  have n: "0 < ?n" "?n < 2 ^ 21" using assms(3,7) D(1) by (auto simp: describes_def)
  have zip: "zip (map nid ?ns) [0..<?n] = map (\<lambda>j. (nid (?ns ! j), j)) [0..<?n]"
    by (auto intro: nth_equalityI)
  have x0: "set [0..<?n] \<subseteq> {0..<?n}" "distinct [0..<?n]" by auto
  note T0 = tree_names [OF D(1) assms(4) x0]
  from node_map [OF D(2,3) n T0(3,2,1)] obtain a s1 a' s2
    where a: "hashmap_create ?n (Some hash_string) (Some eq_string) (Some free_str) None s0 = (Some a, s1)"
      "put_ids (zip (map nid ?ns) [0..<?n]) (Some a) s1 = (Some a', s2)" "smap.hm_owned a' s2"
      "holds ?L ?K (smap.hm_blks a' @ ?N) s2" "True \<notin> set (oom s2)"
      "\<And>k n. hashmap_get (Some a') (Some k) = Some n \<longleftrightarrow> n \<in> set [0..<?n] \<and> name_of ?ns n = chars k"
    unfolding zip by blast
  have m: "hashmap_get (Some a') (Some (tmp_str root_id)) = Some r"
    using a(6) [of "tmp_str root_id" r] assms(7,8) by (simp add: tmp_str_def)
  have "apart ?ns [r]" using assms(7) by (simp add: apart_def)
  from collect_subtree_spec [OF assms(6) describes_linked [OF D(1)] this] obtain xs
    where xs0: "set xs = trees ?ns [r]" "distinct xs"
      "\<And>m s. collect_subtree ?ns m (map Some [r]) s = Some (put_ids (map (\<lambda>j. (nid (?ns ! j), j)) xs) m s)"
    by blast
  then have xs: "set xs = tree ?ns r" "distinct xs"
    "\<And>m s. collect_subtree ?ns m [Some r] s = Some (put_ids (map (\<lambda>j. (nid (?ns ! j), j)) xs) m s)"
    by (simp_all add: trees_def)
  have "set xs \<subseteq> {0..<?n}" unfolding xs(1) by (rule tree_sub)
  note T = tree_names [OF D(1) assms(4) this xs(2)]
  from node_map [OF a(4,5) n T(3,2,1)] obtain b s3 b' s4
    where b: "hashmap_create ?n (Some hash_string) (Some eq_string) (Some free_str) None s2 = (Some b, s3)"
      "put_ids (map (\<lambda>j. (nid (?ns ! j), j)) xs) (Some b) s3 = (Some b', s4)" "smap.hm_owned b' s4"
      "holds ?L ?K (smap.hm_blks b' @ smap.hm_blks a' @ ?N) s4" "True \<notin> set (oom s4)"
      "\<And>k n. hashmap_get (Some b') (Some k) = Some n \<longleftrightarrow> n \<in> set xs \<and> name_of ?ns n = chars k" by blast
  from ctx_build_spec [OF b(4,5), of na r "Some b'"] obtain c s5
    where c: "ctx_build na r (Some b') s4 = (Some c, s5)" "cmap c = Some b'" "me c = r"
      "cchildren c = take (child_count (?ns ! r)) (children (?ns ! r))" "cchild_count c = child_count (?ns ! r)"
      "all_nodes c = na" "cchildren_blk c \<noteq> None"
      "holds ?L ?K (the (cchildren_blk c) # ctx_blk c # smap.hm_blks b' @ smap.hm_blks a' @ ?N) s5" "True \<notin> set (oom s5)" by blast
  have h: "holds ?L ?K (smap.hm_blks a' @ ctx_blks c) s5"
    using c(8) by (subst holds_perm [of _ "the (cchildren_blk c) # ctx_blk c # smap.hm_blks b' @ smap.hm_blks a' @ ?N"])
      (auto simp: ctx_blks_def c(2,6))
  then have ha: "smap.hm_owned a' s5" using a(3) by (auto simp: smap.hm_owned_def holds_def)
  from destroy_map [OF ha h] have h': "holds ?L ?K (ctx_blks c) (hashmap_destroy (Some a') s5)" .
  then have o: "smap.hm_owned b' (hashmap_destroy (Some a') s5)"
    using b(3) by (auto simp: smap.hm_owned_def holds_def ctx_blks_def c(2))
  have l: "cchildren c = map Some (kids_of ?ns r)" "cchild_count c = length (kids_of ?ns r)"
    using describes_children [OF D(1) assms(7)] c(4,5) by simp_all
  have "ctx_for ?ns r c" using c(2,3,6) l b(6) xs(1) by (simp add: ctx_for_def)
  moreover have "cp_context_create (Some cs) root_id s = Some (Some c, hashmap_destroy (Some a') s5)"
    using assms(5) a(1,2) m b(1,2) xs(3) c(1) by (simp add: cp_context_create_def cp_string_functions Let_def)
  ultimately show ?thesis using h' o c(2,7,9) destroy_map_oom [OF ha]
    by (intro exI [of _ c] exI [of _ "hashmap_destroy (Some a') s5"] conjI) simp_all
qed

text \<open>The same for the context of a row of the file.\<close>

lemma context_facts:
  assumes "os_ok s" "True \<notin> set (oom s)" "length (file_rows cs) < 2 ^ 19" "distinct (map row_id (file_rows cs))"
    and "acyclic_rows (file_rows cs)" "r < length (file_rows cs)"
    and "cp_context_create (Some cs) (row_id (file_rows cs ! r)) s = Some (Some c, s')"
  shows "describes (file_rows cs) (arr (all_nodes c)) \<and> forest (arr (all_nodes c)) \<and> ctx_for (arr (all_nodes c)) r c \<and>
    holds (live s) (socks s) (ctx_blks c) s' \<and> smap.hm_owned (the (cmap c)) s' \<and> cmap c \<noteq> None \<and> cchildren_blk c \<noteq> None \<and>
    True \<notin> set (oom s')"
proof -
  from node_load_all_spec [OF assms(1-3)] obtain na s0
    where na: "node_load_all (Some cs) s = (Some na, s0)" "describes (file_rows cs) (arr na)" by blast
  note f = describes_forest [OF na(2) assms(5)]
  have r: "r < length (arr na)" "name_of (arr na) r = row_id (file_rows cs ! r)" using na(2) assms(6) by (auto simp: describes_def)
  from cp_context_create_spec [OF assms(1-4) na(1) f r] assms(7)
  have c: "ctx_for (arr na) r c" "holds (live s) (socks s) (ctx_blks c) s'" "smap.hm_owned (the (cmap c)) s'" "cmap c \<noteq> None" "cchildren_blk c \<noteq> None"
    "True \<notin> set (oom s')" by auto
  have "arr (all_nodes c) = arr na" using c(1) by (simp add: ctx_for_def)
  with na(2) f c show ?thesis by (simp only: simp_thms)
qed

lemma describes_row:
  assumes "describes rs ns" "i < length rs"
  shows "name_of ns i = row_id (rs ! i)" "nparent (ns ! i) = row_parent rs i"
    "\<exists>a. naddress (ns ! i) = Some a \<and> chars a = trim (fst (snd (rs ! i)))"
    "nport (ns ! i) = word_of_int (atoi (trim (fst (snd (snd (rs ! i))))))" "i < length ns"
  using assms by (auto simp: describes_def)

lemma cp_context_destroy_holds:
  assumes "smap.hm_owned (the (cmap c)) s" "cmap c \<noteq> None" "cchildren_blk c \<noteq> None" "holds L K (ctx_blks c) s"
  shows "holds L K [] (cp_context_destroy (Some c) s)"
proof -
  obtain m where m: "cmap c = Some m" using assms(2) by blast
  obtain b where b: "cchildren_blk c = Some b" using assms(3) by blast
  from destroy_map [OF assms(1) assms(4) [unfolded ctx_blks_def]]
  have "holds L K (b # nodes_blks (arr (all_nodes c)) @ arr_blk (all_nodes c) # [ctx_blk c]) (hashmap_destroy (cmap c) s)"
    by (simp add: m b)
  from destroy_all_holds [OF holds_free [OF this]] holds_free show ?thesis
    by (simp add: cp_context_destroy_def free_ptr_def b)
qed

section \<open>Properties\<close>

text \<open>
  C23. A central propagator learns its subtree: when the ids of \<open>nodes.csv\<close> are distinct, its parent
  chains end and no allocation fails, \<open>cp_context_create\<close> terminates for the id of any row and
  returns a context with the table the file describes, in which the node of that row is the own
  node, the children are its children in the order of the file, and the hash map finds exactly the
  ids of the subtree of that node, each with its node; destroying the context then gives back
  every block, so the temporary map of all nodes was freed as well.
\<close>

theorem context_correct:
  assumes "os_ok s" "True \<notin> set (oom s)" "length (file_rows cs) < 2 ^ 19" "distinct (map row_id (file_rows cs))"
    and "acyclic_rows (file_rows cs)" "r < length (file_rows cs)"
  shows "\<exists>c s'. cp_context_create (Some cs) (row_id (file_rows cs ! r)) s = Some (Some c, s') \<and> os_ok s' \<and>
    describes (file_rows cs) (arr (all_nodes c)) \<and> me c = r \<and> cchildren c = map Some (row_children (file_rows cs) r) \<and>
    (\<forall>k n. hashmap_get (cmap c) (Some k) = Some n \<longleftrightarrow>
       n < length (file_rows cs) \<and> below (arr (all_nodes c)) r n \<and> row_id (file_rows cs ! n) = chars k) \<and>
    os_ok (cp_context_destroy (Some c) s') \<and> live (cp_context_destroy (Some c) s') = live s"
proof -
  from node_load_all_spec [OF assms(1-3)] obtain na s0
    where na: "node_load_all (Some cs) s = (Some na, s0)" "describes (file_rows cs) (arr na)" by blast
  have len: "length (arr na) = length (file_rows cs)" using na(2) by (simp add: describes_def)
  have nm: "name_of (arr na) i = row_id (file_rows cs ! i)" if "i < length (file_rows cs)" for i
    using na(2) that by (auto simp: describes_def)
  note f = describes_forest [OF na(2) assms(5)]
  have r: "r < length (arr na)" "name_of (arr na) r = row_id (file_rows cs ! r)" using assms(6) len nm by auto
  from cp_context_create_spec [OF assms(1-4) na(1) f r] obtain c s'
    where c: "cp_context_create (Some cs) (row_id (file_rows cs ! r)) s = Some (Some c, s')" "ctx_for (arr na) r c"
      "holds (live s) (socks s) (ctx_blks c) s'" "smap.hm_owned (the (cmap c)) s'" "cmap c \<noteq> None" "cchildren_blk c \<noteq> None"
    by blast
  from cp_context_destroy_holds [OF c(4-6,3)]
  have d: "os_ok (cp_context_destroy (Some c) s')" "live (cp_context_destroy (Some c) s') = live s" by (auto simp: holds_end)
  have ok: "os_ok s'" using c(3) by (simp add: holds_def)
  have a: "arr (all_nodes c) = arr na" "me c = r" "cchildren c = map Some (row_children (file_rows cs) r)"
    using c(2) describes_kids [OF na(2)] by (simp_all add: ctx_for_def)
  have g: "hashmap_get (cmap c) (Some k) = Some n \<longleftrightarrow>
       n < length (file_rows cs) \<and> below (arr na) r n \<and> row_id (file_rows cs ! n) = chars k" for k n
    using c(2) len nm by (auto simp: ctx_for_def tree_def)
  show ?thesis
    by (rule exI [of _ c], rule exI [of _ s']) (use c(1) ok na(2) g d in \<open>simp add: a\<close>)
qed

theorem context_correct_witness:
  "\<exists>c s'. cp_context_create (Some demo_csv) ''CP1'' fresh_os = Some (Some c, s') \<and> me c = 0 \<and> cchildren c = [Some 1] \<and>
     hashmap_get (cmap c) (Some (tmp_str ''CP1'')) = Some 0 \<and> live (cp_context_destroy (Some c) s') = {}"
proof -
  have h: "length (file_rows demo_csv) < 2 ^ 19" "distinct (map row_id (file_rows demo_csv))"
    "acyclic_rows (file_rows demo_csv)" "0 < length (file_rows demo_csv)"
    unfolding demo_rows by (simp, code_simp, code_simp, simp)
  have k: "row_children (file_rows demo_csv) 0 = [1]" "row_id (file_rows demo_csv ! 0) = ''CP1''"
    unfolding demo_rows by code_simp+
  from context_correct [OF fresh_os_ok(1) _ h] obtain c s'
    where c: "cp_context_create (Some demo_csv) ''CP1'' fresh_os = Some (Some c, s')" "me c = 0" "cchildren c = [Some 1]"
      "hashmap_get (cmap c) (Some (tmp_str ''CP1'')) = Some 0" "live (cp_context_destroy (Some c) s') = {}"
    using k h(4) by (auto simp: tmp_str_def)
  then show ?thesis by blast
qed

end
