(* ===== verification/ThreadPool.thy ===== *)
theory ThreadPool
  imports QueueOwner
begin

text \<open>
  \<open>CentralPropagator/thread_pool.c\<close>: worker threads that take tasks from an unbounded
  thread-safe queue.  \<open>tp_submit\<close> reads \<open>shutting_down\<close> without a lock, so the test and the
  insertion are two steps of the submitting thread.  A task is a function and its argument;
  running it is recorded in \<open>executed\<close>.  The system \<open>pstep\<close> interleaves clients, workers and the
  thread that shuts the pool down.
\<close>

section \<open>Data and operations\<close>

record ('f, 'a) Task =
  fn :: 'f
  arg :: 'a
  task_blk :: nat

record ('f, 'a) ThreadPool =
  thread_count :: nat
  threads_blk :: nat
  pqueue :: "('f, 'a) Task TSQueue"
  shutting_down :: bool
  pool_blk :: nat

text \<open>\<open>free\<close>, as it is given to the queue.\<close>

definition free_task :: "('f, 'a) Task \<Rightarrow> os \<Rightarrow> os" where
  "free_task t s = free_blk (task_blk t) s"

text \<open>\<open>None\<close>: the call does not return.\<close>

definition tp_create :: "nat \<Rightarrow> os \<Rightarrow> (('f, 'a) ThreadPool option \<times> os) option" where
  "tp_create n s =
     (case malloc s of
        (None, s) \<Rightarrow> Some (None, s)
      | (Some p, s) \<Rightarrow>
          (case tsqueue_create 0 (Some free_task) s of
             (None, s) \<Rightarrow> Some (None, free_blk p s)
           | (Some q, s) \<Rightarrow>
               (case malloc s of
                  (None, s) \<Rightarrow> map_option (\<lambda>s. (None, free_blk p s)) (tsqueue_destroy (Some q) s)
                | (Some b, s) \<Rightarrow>
                    Some (Some \<lparr>thread_count = n, threads_blk = b, pqueue = q, shutting_down = False, pool_blk = p\<rparr>, s))))"

text \<open>
  \<open>tp_submit\<close>: the test of its first line, and the rest.  The rest returns \<open>false\<close> without memory
  for the task, and \<open>true\<close> whether or not the queue took the task.  The queue is unbounded, so
  the insertion does not wait.
\<close>

definition tp_submit_test :: "('f, 'a) ThreadPool option \<Rightarrow> 'f option \<Rightarrow> bool" where
  "tp_submit_test pool f = (case (pool, f) of (Some p, Some _) \<Rightarrow> \<not> shutting_down p | _ \<Rightarrow> False)"

definition tp_submit_rest :: "('f, 'a) ThreadPool \<Rightarrow> 'f \<Rightarrow> 'a \<Rightarrow> os \<Rightarrow> (bool \<times> ('f, 'a) ThreadPool \<times> os) option" where
  "tp_submit_rest p f a s =
     (case malloc s of
        (None, s) \<Rightarrow> Some (False, p, s)
      | (Some b, s) \<Rightarrow>
          map_option (\<lambda>(r, q, s). (True, p\<lparr>pqueue := q\<rparr>, s))
            (tsqueue_enqueue (pqueue p) (Some \<lparr>fn = f, arg = a, task_blk = b\<rparr>) s))"

definition tp_submit :: "('f, 'a) ThreadPool option \<Rightarrow> 'f option \<Rightarrow> 'a \<Rightarrow> os \<Rightarrow>
    (bool \<times> ('f, 'a) ThreadPool option \<times> os) option" where
  "tp_submit pool f a s =
     (if \<not> tp_submit_test pool f then Some (False, pool, s)
      else map_option (\<lambda>(r, p, s). (r, Some p, s)) (tp_submit_rest (the pool) (the f) a s))"

text \<open>The end of \<open>tp_shutdown\<close>, after the join.\<close>

definition tp_free :: "('f, 'a) ThreadPool \<Rightarrow> os \<Rightarrow> os option" where
  "tp_free p s =
     map_option (\<lambda>s. free_blk (pool_blk p) (free_blk (threads_blk p) s)) (tsqueue_destroy (Some (pqueue p)) s)"

section \<open>The threads of a pool\<close>

text \<open>
  A worker waits in \<open>tsqueue_dequeue\<close>, runs a task, or has left its loop.  A client is between the
  test and the insertion of \<open>tp_submit\<close>, or not.  The main thread runs, has put a number of NULL
  items into the queue, or has freed the pool.
\<close>

datatype ('f, 'a) worker = Waiting | Running "('f, 'a) Task" | Exited

datatype ('f, 'a) client = Outside | Tested 'f 'a

datatype stage = Serving | Closing nat | Freed

record ('f, 'a) psys =
  pool :: "('f, 'a) ThreadPool"
  pheap :: os
  workers :: "('f, 'a) worker list"
  clients :: "('f, 'a) client list"
  stage :: stage
  enqueued :: "('f, 'a) Task option list"
  taken :: "('f, 'a) Task option list"
  executed :: "('f \<times> 'a) list"

text \<open>
  A client that passes the test before the shutdown and goes on after the pool was freed uses freed
  memory (\<open>submit_dangling\<close> below).

  The steps of the workers.  Where \<open>tsqueue_dequeue\<close> finds no item the worker sleeps, which is no
  step here; \<open>TSQueue\<close> shows that it is woken.
\<close>

inductive wstep :: "('f, 'a) psys \<Rightarrow> ('f, 'a) psys \<Rightarrow> bool" where
  take_task: "i < length (workers c) \<Longrightarrow> workers c ! i = Waiting \<Longrightarrow>
    tsqueue_dequeue (pqueue (pool c)) (pheap c) = Some (Some t, q, s) \<Longrightarrow>
    wstep c (c\<lparr>pool := (pool c)\<lparr>pqueue := q\<rparr>, pheap := s, workers := (workers c)[i := Running t], taken := taken c @ [Some t]\<rparr>)"
| take_null: "i < length (workers c) \<Longrightarrow> workers c ! i = Waiting \<Longrightarrow>
    tsqueue_dequeue (pqueue (pool c)) (pheap c) = Some (None, q, s) \<Longrightarrow>
    wstep c (c\<lparr>pool := (pool c)\<lparr>pqueue := q\<rparr>, pheap := s, workers := (workers c)[i := Exited], taken := taken c @ [None]\<rparr>)"
| run_task: "i < length (workers c) \<Longrightarrow> workers c ! i = Running t \<Longrightarrow>
    wstep c (c\<lparr>pheap := free_task t (pheap c), workers := (workers c)[i := Waiting], executed := executed c @ [(fn t, arg t)]\<rparr>)"

inductive pstep :: "('f, 'a) psys \<Rightarrow> ('f, 'a) psys \<Rightarrow> bool" where
  worker: "wstep c c' \<Longrightarrow> pstep c c'"
| submit_test: "j < length (clients c) \<Longrightarrow> clients c ! j = Outside \<Longrightarrow> tp_submit_test (Some (pool c)) (Some f) \<Longrightarrow>
    pstep c (c\<lparr>clients := (clients c)[j := Tested f a]\<rparr>)"
| submit_rest: "j < length (clients c) \<Longrightarrow> clients c ! j = Tested f a \<Longrightarrow> stage c \<noteq> Freed \<Longrightarrow>
    tp_submit_rest (pool c) f a (pheap c) = Some (r, p, s) \<Longrightarrow>
    new = drop (length (titems (pqueue (pool c)))) (titems (pqueue p)) \<Longrightarrow>
    pstep c (c\<lparr>pool := p, pheap := s, clients := (clients c)[j := Outside], enqueued := enqueued c @ new\<rparr>)"
| submit_dangling: "j < length (clients c) \<Longrightarrow> clients c ! j = Tested f a \<Longrightarrow> stage c = Freed \<Longrightarrow>
    pstep c (c\<lparr>pheap := (pheap c)\<lparr>ub := True\<rparr>, clients := (clients c)[j := Outside]\<rparr>)"
| shutdown: "stage c = Serving \<Longrightarrow>
    pstep c (c\<lparr>pool := (pool c)\<lparr>shutting_down := True\<rparr>, stage := Closing 0\<rparr>)"
| sentinel: "stage c = Closing k \<Longrightarrow> k < thread_count (pool c) \<Longrightarrow>
    tsqueue_enqueue (pqueue (pool c)) None (pheap c) = Some (r, q, s) \<Longrightarrow>
    pstep c (c\<lparr>pool := (pool c)\<lparr>pqueue := q\<rparr>, pheap := s, stage := Closing (k + 1),
      enqueued := (if r = 0 then enqueued c @ [None] else enqueued c)\<rparr>)"
| join: "stage c = Closing (thread_count (pool c)) \<Longrightarrow> \<forall>w \<in> set (workers c). w = Exited \<Longrightarrow>
    tp_free (pool c) (pheap c) = Some s \<Longrightarrow> pstep c (c\<lparr>pheap := s, stage := Freed\<rparr>)"

text \<open>A new pool with \<open>k\<close> workers (those whose \<open>CreateThread\<close> succeeded) and \<open>m\<close> clients.\<close>

definition pstart :: "nat \<Rightarrow> nat \<Rightarrow> ('f, 'a) ThreadPool \<Rightarrow> os \<Rightarrow> ('f, 'a) psys" where
  "pstart k m p s = \<lparr>pool = p, pheap = s, workers = replicate k Waiting, clients = replicate m Outside,
     stage = Serving, enqueued = [], taken = [], executed = []\<rparr>"

inductive_cases wstepE: "wstep c c'"

lemma num_pos: "0 < num P ps \<longleftrightarrow> (\<exists>p \<in> set ps. P p)"
  by (auto simp: num_def filter_empty_conv)

lemma num_le: "num P ps \<le> length ps"
  by (simp add: num_def)

section \<open>Memory of a pool\<close>

interpretation td: destructor free_task "\<lambda>t. [task_blk t]" "\<lambda>t. {}"
  by unfold_locales (simp add: free_task_def os_simps)

text \<open>The tasks that are being run.\<close>

fun task_of :: "('f, 'a) worker \<Rightarrow> ('f, 'a) Task list" where
  "task_of (Running t) = [t]" | "task_of _ = []"

definition running :: "('f, 'a) worker list \<Rightarrow> ('f, 'a) Task list" where
  "running ws = concat (map task_of ws)"

lemma running_waiting [simp]: "running (replicate k Waiting) = []"
  by (auto simp: running_def)

lemma running_upd:
  assumes "i < length ws"
  shows "mset (running (ws[i := w])) + mset (task_of (ws ! i)) = mset (running ws) + mset (task_of w)"
  using mset_concat_upd [of i "map task_of ws" "task_of w"] assms by (simp add: running_def map_update)

text \<open>
  The blocks of the pool that are not the queue's: besides those of the surrounding program,
  \<open>L\<close>, exactly these are live.
\<close>

definition pool_blks :: "('f, 'a) psys \<Rightarrow> nat list" where
  "pool_blks c = [pool_blk (pool c), threads_blk (pool c), tself (pqueue (pool c))] @
     map task_blk (somes (titems (pqueue (pool c))) @ running (workers c))"

definition pool_mem :: "nat set \<Rightarrow> ('f, 'a) psys \<Rightarrow> bool" where
  "pool_mem L c \<longleftrightarrow> tsq_ok (pqueue (pool c)) (pheap c) \<and> tcapacity (pqueue (pool c)) = 0 \<and>
     map_option freeFunc (inner (pqueue (pool c))) = Some (Some free_task) \<and> True \<notin> set (oom (pheap c)) \<and>
     live (pheap c) - queue_blocks (inner (pqueue (pool c))) = L \<union> set (pool_blks c) \<and>
     distinct (pool_blks c) \<and> set (pool_blks c) \<inter> L = {}"

lemma pool_mem_perm:
  assumes "pool_mem L c" "tsq_ok (pqueue (pool c')) (pheap c')" "tcapacity (pqueue (pool c')) = 0"
    and "map_option freeFunc (inner (pqueue (pool c'))) = Some (Some free_task)" "True \<notin> set (oom (pheap c'))"
    and "live (pheap c') - queue_blocks (inner (pqueue (pool c'))) = live (pheap c) - queue_blocks (inner (pqueue (pool c)))"
    and "mset (pool_blks c') = mset (pool_blks c)"
  shows "pool_mem L c'"
proof -
  note mset_eq_imp_distinct_iff [OF assms(7)] mset_eq_setD [OF assms(7)]
  with assms(1-6) show ?thesis unfolding pool_mem_def by simp
qed

lemma mset_blks:
  "mset (pool_blks c) = {#pool_blk (pool c), threads_blk (pool c), tself (pqueue (pool c))#} +
     image_mset task_blk (mset (somes (titems (pqueue (pool c)))) + mset (running (workers c)))"
  by (simp add: pool_blks_def)

lemma wstep_mem:
  assumes "wstep c c'" "pool_mem L c"
  shows "pool_mem L c'"
  using assms(1)
proof (cases rule: wstep.cases)
  case (take_task i t q s)
  from assms(2) have ok: "tsq_ok (pqueue (pool c)) (pheap c)" by (simp add: pool_mem_def)
  note D = tsqueue_dequeue_ok [OF ok take_task(4)] dequeue_oom [OF take_task(4)]
  from assms(2) show ?thesis
  proof (rule pool_mem_perm)
    show "mset (pool_blks c') = mset (pool_blks c)"
      using D running_upd [OF take_task(2), of "Running t"] take_task(1,3) by (simp add: mset_blks)
  qed (use D take_task(1) assms(2) in \<open>auto simp: pool_mem_def\<close>)
next
  case (take_null i q s)
  from assms(2) have ok: "tsq_ok (pqueue (pool c)) (pheap c)" by (simp add: pool_mem_def)
  note D = tsqueue_dequeue_ok [OF ok take_null(4)] dequeue_oom [OF take_null(4)]
  from assms(2) show ?thesis
  proof (rule pool_mem_perm)
    show "mset (pool_blks c') = mset (pool_blks c)"
      using D running_upd [OF take_null(2), of Exited] take_null(1,3) by (simp add: mset_blks)
  qed (use D take_null(1) assms(2) in \<open>auto simp: pool_mem_def\<close>)
next
  case (run_task i t)
  let ?q = "pqueue (pool c)" and ?h = "pheap c"
  from assms(2) have m: "tsq_ok ?q ?h" "tcapacity ?q = 0" "live ?h - queue_blocks (inner ?q) = L \<union> set (pool_blks c)"
    "distinct (pool_blks c)" "set (pool_blks c) \<inter> L = {}" by (auto simp: pool_mem_def)
  have "mset (running (workers c)) = add_mset t (mset (running (workers c')))"
    using running_upd [OF run_task(2), of Waiting] run_task(1,3) by simp
  then have blks: "mset (pool_blks c) = add_mset (task_blk t) (mset (pool_blks c'))"
    using run_task(1) by (simp add: mset_blks)
  then have b: "set (pool_blks c) = insert (task_blk t) (set (pool_blks c'))"
    by (metis set_mset_mset set_mset_add_mset_insert)
  have dist: "distinct (task_blk t # pool_blks c')" using m(4) blks by (metis mset.simps(2) mset_eq_imp_distinct_iff)
  from m(3) b have tb: "task_blk t \<in> live ?h" "task_blk t \<notin> queue_blocks (inner ?q)" by blast+
  then have h': "pheap c' = release {task_blk t} {} ?h" using run_task(1) by (simp add: free_task_def os_simps)
  have "os_ok ?h" "queue_blocks (inner ?q) \<subseteq> live ?h"
    using m(1) queue_blocks_live [of "inner ?q" ?h] by (auto simp: tsq_ok_def queue_ok_def)
  then have "tsq_ok ?q (pheap c')" using tb unfolding h'
    by (intro tsq_ok_frame [OF m(1)]) (auto simp: release_sel intro: os_intros)
  moreover have "pool c' = pool c" using run_task(1) by simp
  moreover have "live (pheap c') - queue_blocks (inner ?q) = L \<union> set (pool_blks c')"
    using m(3,5) b dist unfolding h' release_sel by auto
  ultimately show ?thesis using m(2,5) b dist assms(2) by (simp add: pool_mem_def h' release_sel)
qed

lemma submit_rest_spec:
  assumes "pool_mem L c" "tp_submit_rest (pool c) f a (pheap c) = Some (r, p, s)"
  shows "\<exists>t. r \<and> fn t = f \<and> arg t = a \<and> titems (pqueue p) = titems (pqueue (pool c)) @ [Some t] \<and>
    thread_count p = thread_count (pool c) \<and> shutting_down p = shutting_down (pool c) \<and>
    pool_mem L (c\<lparr>pool := p, pheap := s\<rparr>)"
proof -
  let ?q = "pqueue (pool c)" and ?h = "pheap c"
  from assms(1) have m: "tsq_ok ?q ?h" "tcapacity ?q = 0" "live ?h - queue_blocks (inner ?q) = L \<union> set (pool_blks c)"
    "distinct (pool_blks c)" "set (pool_blks c) \<inter> L = {}" "True \<notin> set (oom ?h)" by (auto simp: pool_mem_def)
  have ok: "os_ok ?h" using m(1) by (simp add: tsq_ok_def queue_ok_def)
  from malloc_succeeds [OF m(6)] obtain b h1 where b: "malloc ?h = (Some b, h1)" "True \<notin> set (oom h1)" by blast
  note M = malloc_Some(1) [OF b(1)] malloc_fresh [OF ok b(1)] malloc_ok [OF ok b(1)]
  have qb: "queue_blocks (inner ?q) \<subseteq> live ?h" using m(1) queue_blocks_live by (auto simp: tsq_ok_def)
  then have ok1: "tsq_ok ?q h1" using M by (intro tsq_ok_frame [OF m(1)]) auto
  let ?t = "\<lparr>fn = f, arg = a, task_blk = b\<rparr>"
  from assms(2) b obtain r' q where e: "tsqueue_enqueue ?q (Some ?t) h1 = Some (r', q, s)" "r" "p = (pool c)\<lparr>pqueue := q\<rparr>"
    by (auto simp: tp_submit_rest_def)
  from enqueue_succeeds [OF ok1 e(1) b(2)] have r': "r' = 0" "True \<notin> set (oom s)" by auto
  note E = tsqueue_enqueue_ok [OF ok1 e(1)]
  let ?c = "c\<lparr>pool := p, pheap := s\<rparr>"
  have it: "titems q = titems ?q @ [Some ?t]" using E r' by auto
  have blks: "mset (pool_blks ?c) = mset (b # pool_blks c)" using E e(3) it by (simp add: mset_blks)
  have dist: "distinct (b # pool_blks c)" "set (b # pool_blks c) \<inter> L = {}" using m(3-5) M(2) by auto
  have "live s - queue_blocks (inner q) = insert b (live ?h) - queue_blocks (inner ?q)" using E M(1) by auto
  also have "\<dots> = insert b (L \<union> set (pool_blks c))" using m(3) qb M(2) by auto
  finally have lv: "live s - queue_blocks (inner q) = insert b (L \<union> set (pool_blks c))" .
  have "pool_mem L ?c" unfolding pool_mem_def
    using E r'(2) e(3) m(2) lv dist mset_eq_setD [OF blks] mset_eq_imp_distinct_iff [OF blks] assms(1)
    by (simp add: pool_mem_def)
  then show ?thesis using e(2,3) it by (intro exI [of _ ?t]) simp
qed

lemma submit_rest_returns:
  assumes "tcapacity (pqueue p) = 0"
  shows "\<exists>r p' s'. tp_submit_rest p f a s = Some (r, p', s')"
proof (cases "malloc s")
  case (Pair b t)
  show ?thesis
  proof (cases b)
    case None
    with Pair show ?thesis by (auto simp: tp_submit_rest_def)
  next
    case (Some x)
    from enqueue_unbounded [OF assms, of "Some \<lparr>fn = f, arg = a, task_blk = x\<rparr>" t] Pair Some show ?thesis
      by (auto simp: tp_submit_rest_def)
  qed
qed

lemma sentinel_spec:
  assumes "pool_mem L c" "tsqueue_enqueue (pqueue (pool c)) None (pheap c) = Some (r, q, s)"
  shows "r = 0 \<and> titems q = titems (pqueue (pool c)) @ [None] \<and> pool_mem L (c\<lparr>pool := (pool c)\<lparr>pqueue := q\<rparr>, pheap := s\<rparr>)"
proof -
  from assms(1) have m: "tsq_ok (pqueue (pool c)) (pheap c)" "True \<notin> set (oom (pheap c))" by (auto simp: pool_mem_def)
  note E = tsqueue_enqueue_ok [OF m(1) assms(2)] enqueue_succeeds [OF m(1) assms(2) m(2)]
  from assms(1) have "pool_mem L (c\<lparr>pool := (pool c)\<lparr>pqueue := q\<rparr>, pheap := s\<rparr>)"
    by (rule pool_mem_perm) (use E assms(1) in \<open>auto simp: pool_mem_def mset_blks\<close>)
  with E show ?thesis by auto
qed

lemma tp_free_spec:
  assumes "pool_mem L c" "\<forall>w \<in> set (workers c). w = Exited"
  shows "\<exists>s. tp_free (pool c) (pheap c) = Some s \<and> live s = L \<and> os_ok s"
proof -
  let ?q = "pqueue (pool c)" and ?h = "pheap c"
  from assms(2) have run: "running (workers c) = []" by (auto simp: running_def concat_eq_Nil_conv)
  let ?T = "map task_blk (somes (titems ?q))"
  have own: "td.owns (somes (titems ?q)) = ?T" "td.owns_socks (somes (titems ?q)) = {}"
    by (auto simp: td.owns_def td.owns_socks_def concat_map_singleton)
  from assms(1) run have m: "tsq_ok ?q ?h" "live ?h - queue_blocks (inner ?q) = L \<union> set (pool_blks c)"
    "distinct (pool_blks c)" "set (pool_blks c) \<inter> L = {}" "map_option freeFunc (inner ?q) = Some (Some free_task)"
    "pool_blks c = [pool_blk (pool c), threads_blk (pool c), tself ?q] @ ?T"
    by (auto simp: pool_mem_def pool_blks_def)
  have sub: "set (pool_blks c) \<subseteq> live ?h - queue_blocks (inner ?q)" using m(2) by blast
  have "tsqueue_destroy (Some ?q) ?h = Some (release (insert (tself ?q) (queue_blocks (inner ?q) \<union> set ?T)) {} ?h)"
    using td.tsqueue_destroy_releases [OF m(1,5)] sub m(3) unfolding own m(6) by auto
  moreover have "free_blk (pool_blk (pool c)) (free_blk (threads_blk (pool c))
      (release (insert (tself ?q) (queue_blocks (inner ?q) \<union> set ?T)) {} ?h)) =
      release (queue_blocks (inner ?q) \<union> set (pool_blks c)) {} ?h"
  proof -
    have "threads_blk (pool c) \<in> live (release (insert (tself ?q) (queue_blocks (inner ?q) \<union> set ?T)) {} ?h)"
      "pool_blk (pool c) \<in> live (release {threads_blk (pool c)} {} (release (insert (tself ?q) (queue_blocks (inner ?q) \<union> set ?T)) {} ?h))"
      using sub m(3) unfolding m(6) by (auto simp: release_sel)
    then show ?thesis unfolding m(6)
      by (auto simp: free_blk_live release_release intro: arg_cong [where f = "\<lambda>B. release B {} ?h"])
  qed
  moreover have "live ?h - (queue_blocks (inner ?q) \<union> set (pool_blks c)) = L" using m(2,4) by blast
  moreover have "os_ok ?h" using m(1) by (simp add: tsq_ok_def queue_ok_def)
  ultimately show ?thesis by (auto simp: tp_free_def release_sel intro: os_intros)
qed

section \<open>History of a pool\<close>

abbreviation job :: "('f, 'a) Task \<Rightarrow> 'f \<times> 'a" where
  "job t \<equiv> (fn t, arg t)"

abbreviation nulls :: "'b option list \<Rightarrow> nat" where
  "nulls ds \<equiv> num (\<lambda>d. d = None) ds"

abbreviation exits :: "('f, 'a) worker list \<Rightarrow> nat" where
  "exits ws \<equiv> num (\<lambda>w. w = Exited) ws"

definition pool_hist :: "('f, 'a) psys \<Rightarrow> bool" where
  "pool_hist c \<longleftrightarrow> enqueued c = taken c @ titems (pqueue (pool c)) \<and>
     mset (map job (somes (taken c))) = mset (executed c) + mset (map job (running (workers c))) \<and>
     nulls (taken c) = exits (workers c) \<and>
     nulls (enqueued c) = (case stage c of Closing j \<Rightarrow> j | _ \<Rightarrow> 0)"

lemma wstep_hist:
  assumes "wstep c c'" "pool_mem L c" "pool_hist c"
  shows "pool_hist c' \<and> length (workers c') = length (workers c) \<and> stage c' = stage c \<and>
    thread_count (pool c') = thread_count (pool c)"
  using assms(1)
proof (cases rule: wstep.cases)
  case (take_task i t q s)
  from assms(2) have ok: "tsq_ok (pqueue (pool c)) (pheap c)" by (simp add: pool_mem_def)
  note D = tsqueue_dequeue_ok [OF ok take_task(4)]
  from running_upd [OF take_task(2), of "Running t"] take_task(3)
  have r: "mset (running ((workers c)[i := Running t])) = add_mset t (mset (running (workers c)))" by simp
  from num_keep [OF take_task(2), of "\<lambda>w. w = Exited" "Running t"] take_task(3)
  have e: "exits ((workers c)[i := Running t]) = exits (workers c)" by simp
  show ?thesis using assms(3) D r e unfolding take_task(1) by (auto simp: pool_hist_def num_def)
next
  case (take_null i q s)
  from assms(2) have ok: "tsq_ok (pqueue (pool c)) (pheap c)" by (simp add: pool_mem_def)
  note D = tsqueue_dequeue_ok [OF ok take_null(4)]
  from running_upd [OF take_null(2), of Exited] take_null(3)
  have r: "mset (running ((workers c)[i := Exited])) = mset (running (workers c))" by simp
  from num_upd [OF take_null(2), of "\<lambda>w. w = Exited" Exited] take_null(3)
  have e: "exits ((workers c)[i := Exited]) = exits (workers c) + 1" by simp
  have "nulls (taken c @ [None]) = nulls (taken c) + 1" by (simp add: num_def)
  then show ?thesis using assms(3) D r e unfolding take_null(1) by (auto simp: pool_hist_def)
next
  case (run_task i t)
  from running_upd [OF run_task(2), of Waiting] run_task(3)
  have r: "mset (running (workers c)) = add_mset t (mset (running ((workers c)[i := Waiting])))" by simp
  from num_keep [OF run_task(2), of "\<lambda>w. w = Exited" Waiting] run_task(3)
  have e: "exits ((workers c)[i := Waiting]) = exits (workers c)" by simp
  show ?thesis using assms(3) r e unfolding run_task(1) by (auto simp: pool_hist_def)
qed

text \<open>What holds as long as the pool has not been freed.\<close>

definition pool_inv :: "nat set \<Rightarrow> nat \<Rightarrow> nat \<Rightarrow> ('f, 'a) psys \<Rightarrow> bool" where
  "pool_inv L k n c \<longleftrightarrow> stage c = Freed \<or>
     pool_mem L c \<and> pool_hist c \<and> length (workers c) = k \<and> thread_count (pool c) = n"

lemma pool_mem_cong:
  "pool c' = pool c \<Longrightarrow> pheap c' = pheap c \<Longrightarrow> workers c' = workers c \<Longrightarrow> pool_mem L c' = pool_mem L c"
  by (simp add: pool_mem_def pool_blks_def)

lemma pool_mem_flag: "pool_mem L (c\<lparr>pool := (pool c)\<lparr>shutting_down := b\<rparr>\<rparr>) = pool_mem L c"
  by (simp add: pool_mem_def pool_blks_def)

lemma pstep_inv:
  assumes "pstep c c'" "pool_inv L k n c"
  shows "pool_inv L k n c'"
proof (cases "stage c = Freed")
  case True
  with assms(1) have "stage c' = Freed"
    by (cases rule: pstep.cases) (auto elim: wstepE)
  then show ?thesis by (simp add: pool_inv_def)
next
  case False
  with assms(2) have i: "pool_mem L c" "pool_hist c" "length (workers c) = k" "thread_count (pool c) = n"
    by (auto simp: pool_inv_def)
  from assms(1) show ?thesis
  proof (cases rule: pstep.cases)
    case worker
    from wstep_mem [OF this i(1)] wstep_hist [OF this i(1,2)] i(3,4) show ?thesis by (simp add: pool_inv_def)
  next
    case (submit_test j f a)
    then show ?thesis using i pool_mem_cong [of c' c L] by (auto simp: pool_inv_def pool_hist_def)
  next
    case (submit_rest j f a r p s new)
    from submit_rest_spec [OF i(1) submit_rest(5)] obtain t
      where t: "titems (pqueue p) = titems (pqueue (pool c)) @ [Some t]" "thread_count p = thread_count (pool c)"
        "pool_mem L (c\<lparr>pool := p, pheap := s\<rparr>)" by blast
    moreover have "pool_mem L c'" using t(3) pool_mem_cong [of c' "c\<lparr>pool := p, pheap := s\<rparr>" L] submit_rest(1) by simp
    moreover have "pool_hist c'" using i(2) t(1) submit_rest(1,6) by (auto simp: pool_hist_def num_def)
    ultimately show ?thesis using i(3,4) submit_rest(1) by (simp add: pool_inv_def)
  next
    case shutdown
    then have "pool_mem L c'" using i(1) pool_mem_flag [where c = c and b = True and L = L]
        pool_mem_cong [of c' "c\<lparr>pool := (pool c)\<lparr>shutting_down := True\<rparr>\<rparr>" L] by simp
    then show ?thesis using shutdown i(2-4) by (auto simp: pool_inv_def pool_hist_def)
  next
    case (sentinel j r q s)
    from sentinel_spec [OF i(1) sentinel(4)] have t: "r = 0" "titems q = titems (pqueue (pool c)) @ [None]"
      "pool_mem L (c\<lparr>pool := (pool c)\<lparr>pqueue := q\<rparr>, pheap := s\<rparr>)" by auto
    have "pool_mem L c'" using t(3) pool_mem_cong [of c' "c\<lparr>pool := (pool c)\<lparr>pqueue := q\<rparr>, pheap := s\<rparr>" L] sentinel(1) by simp
    moreover have "pool_hist c'" using i(2) t(1,2) sentinel(1,2) by (auto simp: pool_hist_def num_def)
    ultimately show ?thesis using i(3,4) sentinel(1) by (simp add: pool_inv_def)
  qed (use False in \<open>auto simp: pool_inv_def\<close>)
qed

lemma preach_inv: "pstep\<^sup>*\<^sup>* c c' \<Longrightarrow> pool_inv L k n c \<Longrightarrow> pool_inv L k n c'"
  by (induction rule: rtranclp_induct) (auto dest: pstep_inv)

lemma pool_mem_start:
  assumes "os_ok s" "True \<notin> set (oom s)" "tp_create n s = Some (Some p, s')"
  shows "pool_inv (live s) k n (pstart k m p s')"
proof -
  from assms(3) obtain b s1 q s2 t where a: "malloc s = (Some b, s1)" "tsqueue_create 0 (Some free_task) s1 = (Some q, s2)"
    "malloc s2 = (Some t, s')" "p = \<lparr>thread_count = n, threads_blk = t, pqueue = q, shutting_down = False, pool_blk = b\<rparr>"
    by (auto simp: tp_create_def split: prod.splits option.splits)
  note ok1 = malloc_ok [OF assms(1) a(1)]
  from tsqueue_create_ok [OF ok1 a(2)]
  have Q: "tsq_ok q s2" "titems q = []" "tcapacity q = 0" "live s2 = live s1 \<union> insert (tself q) (queue_blocks (inner q))"
    "insert (tself q) (queue_blocks (inner q)) \<inter> live s1 = {}" "tself q \<notin> queue_blocks (inner q)"
    "map_option freeFunc (inner q) = Some (Some free_task)" by simp_all
  from Q(1) have ok2: "os_ok s2" by (simp add: tsq_ok_def queue_ok_def)
  note M1 = malloc_Some(1) [OF a(1)] malloc_fresh [OF assms(1) a(1)]
  note M3 = malloc_Some(1) [OF a(3)] malloc_fresh [OF ok2 a(3)] malloc_ok [OF ok2 a(3)]
  have qb: "queue_blocks (inner q) \<subseteq> live s2" using Q(4) by blast
  have ok: "tsq_ok q s'" using M3 qb by (intro tsq_ok_frame [OF Q(1)]) auto
  have "True \<notin> set (oom s')" using malloc_oom [OF a(1)] tsqueue_create_oom [OF a(2)] malloc_oom [OF a(3)] assms(2) by blast
  moreover have "live s' - queue_blocks (inner q) = live s \<union> {b, t, tself q}"
    using Q(4-6) M1 M3(1,2) by auto
  moreover have "distinct [b, t, tself q]" "{b, t, tself q} \<inter> live s = {}" using Q(4-6) M1 M3(1,2) by auto
  ultimately have "pool_mem (live s) (pstart k m p s')"
    using Q(2,3,7) ok by (simp add: pool_mem_def pstart_def pool_blks_def a(4))
  moreover have "pool_hist (pstart k m p s')" using Q(2) by (simp add: pool_hist_def pstart_def a(4) num_def)
  ultimately show ?thesis by (simp add: pool_inv_def pstart_def a(4))
qed

section \<open>Shutting down\<close>

text \<open>Every step of a worker uses up an item or finishes a task.\<close>

definition work :: "('f, 'a) psys \<Rightarrow> nat" where
  "work c = 2 * length (titems (pqueue (pool c))) + length (running (workers c))"

lemma wstep_work:
  assumes "wstep c c'" "pool_mem L c"
  shows "work c' < work c"
  using assms(1)
proof (cases rule: wstep.cases)
  case (take_task i t q s)
  from assms(2) have ok: "tsq_ok (pqueue (pool c)) (pheap c)" by (simp add: pool_mem_def)
  from arg_cong [OF running_upd [OF take_task(2), of "Running t"], of size] take_task(3)
  have "length (running ((workers c)[i := Running t])) = length (running (workers c)) + 1" by simp
  with tsqueue_dequeue_ok [OF ok take_task(4)] take_task(1) show ?thesis by (simp add: work_def)
next
  case (take_null i q s)
  from assms(2) have ok: "tsq_ok (pqueue (pool c)) (pheap c)" by (simp add: pool_mem_def)
  from arg_cong [OF running_upd [OF take_null(2), of Exited], of size] take_null(3)
  have "length (running ((workers c)[i := Exited])) = length (running (workers c))" by simp
  with tsqueue_dequeue_ok [OF ok take_null(4)] take_null(1) show ?thesis by (simp add: work_def)
next
  case (run_task i t)
  from arg_cong [OF running_upd [OF run_task(2), of Waiting], of size] run_task(3)
  have "length (running (workers c)) = length (running ((workers c)[i := Waiting])) + 1" by simp
  with run_task(1) show ?thesis by (simp add: work_def)
qed

text \<open>
  When as many NULL items were put in as there are workers, a worker that has not exited finds
  something to do.
\<close>

lemma wstep_progress:
  assumes "pool_mem L c" "pool_hist c" "stage c = Closing n" "length (workers c) \<le> n" "\<exists>w \<in> set (workers c). w \<noteq> Exited"
  shows "\<exists>c'. wstep c c'"
proof -
  from assms(5) obtain i where i: "i < length (workers c)" "workers c ! i \<noteq> Exited" by (metis in_set_conv_nth)
  show ?thesis
  proof (cases "workers c ! i")
    case (Running t)
    from wstep.run_task [OF i(1) this] show ?thesis by blast
  next
    case Waiting
    have "exits (workers c) < length (workers c)"
      using i length_filter_less [of "workers c ! i" "workers c" "\<lambda>w. w = Exited"] by (simp add: num_def)
    with assms(2-4) have "nulls (taken c) < nulls (enqueued c)" by (auto simp: pool_hist_def)
    with assms(2) have ne: "titems (pqueue (pool c)) \<noteq> []" by (auto simp: pool_hist_def num_def)
    from assms(1) have ok: "tsq_ok (pqueue (pool c)) (pheap c)" by (simp add: pool_mem_def)
    from dequeue_blocks [OF ok] ne obtain d q s where d: "tsqueue_dequeue (pqueue (pool c)) (pheap c) = Some (d, q, s)"
      by (cases "tsqueue_dequeue (pqueue (pool c)) (pheap c)") auto
    show ?thesis
    proof (cases d)
      case None
      from wstep.take_null [OF i(1) Waiting] d None show ?thesis by blast
    next
      case (Some t)
      from wstep.take_task [OF i(1) Waiting] d Some show ?thesis by blast
    qed
  qed (use i in auto)
qed

lemma workers_finish:
  assumes "pool_mem L c" "pool_hist c" "stage c = Closing n" "length (workers c) \<le> n"
  shows "\<exists>c'. wstep\<^sup>*\<^sup>* c c' \<and> (\<forall>w \<in> set (workers c'). w = Exited) \<and> pool_mem L c' \<and> pool_hist c'"
  using assms
proof (induction "work c" arbitrary: c rule: less_induct)
  case less
  show ?case
  proof (cases "\<exists>w \<in> set (workers c). w \<noteq> Exited")
    case False
    with less.prems show ?thesis by blast
  next
    case True
    from wstep_progress [OF less.prems True] obtain c1 where c1: "wstep c c1" by blast
    note W = wstep_work [OF c1 less.prems(1)] wstep_mem [OF c1 less.prems(1)] wstep_hist [OF c1 less.prems(1,2)]
    from less.hyps [OF W(1,2)] W(3) less.prems(3,4) c1 show ?thesis
      by (auto intro: converse_rtranclp_into_rtranclp)
  qed
qed

text \<open>The tasks in front of the first NULL item have all been run once every worker has exited.\<close>

lemma drained:
  assumes "pool_hist c" "\<forall>w \<in> set (workers c). w = Exited" "workers c \<noteq> []"
  shows "mset (map job (somes (takeWhile (\<lambda>d. d \<noteq> None) (enqueued c)))) \<subseteq># mset (executed c) \<and>
    mset (executed c) \<subseteq># mset (map job (somes (enqueued c)))"
proof -
  from assms(2) have run: "running (workers c) = []" by (auto simp: running_def concat_eq_Nil_conv)
  have "0 < exits (workers c)" using assms(2,3) by (auto simp: num_pos neq_Nil_conv)
  with assms(1) have "0 < nulls (taken c)" by (simp add: pool_hist_def)
  then obtain d where d: "d \<in> set (taken c)" "\<not> d \<noteq> None" by (auto simp: num_pos)
  have "takeWhile (\<lambda>d. d \<noteq> None) (enqueued c) = takeWhile (\<lambda>d. d \<noteq> None) (taken c)"
    using assms(1) takeWhile_append1 [of d "taken c" "\<lambda>d. d \<noteq> None"] d by (simp add: pool_hist_def)
  then have tw: "takeWhile (\<lambda>d. d \<noteq> None) (enqueued c) = takeWhile (\<lambda>d. d \<noteq> None) (taken c)" .
  obtain ys where "taken c = takeWhile (\<lambda>d. d \<noteq> None) (taken c) @ ys" by (metis takeWhile_dropWhile_id)
  then have s: "somes (taken c) = somes (takeWhile (\<lambda>d. d \<noteq> None) (taken c)) @ somes ys" by (metis somes_append)
  have e: "mset (executed c) = mset (map job (somes (taken c)))" using assms(1) run by (simp add: pool_hist_def)
  have q: "somes (enqueued c) = somes (taken c) @ somes (titems (pqueue (pool c)))"
    using assms(1) by (simp add: pool_hist_def)
  have "mset (map job (somes (takeWhile (\<lambda>d. d \<noteq> None) (enqueued c)))) \<subseteq># mset (executed c)"
    unfolding e tw by (subst s) simp
  moreover have "mset (executed c) \<subseteq># mset (map job (somes (enqueued c)))" unfolding e q by simp
  ultimately show ?thesis ..
qed

section \<open>Properties\<close>

text \<open>
  C21. Shutting the pool down completes and loses no work: in every state reachable under every
  interleaving of clients, workers and the shutdown, once all NULL items are in the queue, the
  workers can only take finitely many more steps, they never get stuck before every one of them
  has left its loop, and then every task that was queued before the first NULL item has been run,
  none was run more often than it was queued, and the final clean-up terminates and gives back
  every block of the pool, exactly once.
\<close>

theorem pool_shutdown_complete:
  assumes "os_ok s" "True \<notin> set (oom s)" "tp_create n s = Some (Some p, s1)" "0 < k" "k \<le> n"
    and "pstep\<^sup>*\<^sup>* (pstart k m p s1) c" "stage c = Closing n"
  shows "(\<forall>c'. wstep c c' \<longrightarrow> work c' < work c) \<and>
    ((\<exists>w \<in> set (workers c). w \<noteq> Exited) \<longrightarrow> (\<exists>c'. wstep c c')) \<and>
    (\<exists>c' s'. wstep\<^sup>*\<^sup>* c c' \<and> (\<forall>w \<in> set (workers c'). w = Exited) \<and>
      mset (map job (somes (takeWhile (\<lambda>d. d \<noteq> None) (enqueued c)))) \<subseteq># mset (executed c') \<and>
      mset (executed c') \<subseteq># mset (map job (somes (enqueued c))) \<and>
      tp_free (pool c') (pheap c') = Some s' \<and> os_ok s' \<and> live s' = live s)"
proof -
  from preach_inv [OF assms(6) pool_mem_start [OF assms(1-3)]] assms(7)
  have i: "pool_mem (live s) c" "pool_hist c" "length (workers c) = k" by (auto simp: pool_inv_def)
  have k: "length (workers c) \<le> n" using i(3) assms(5) by simp
  have enq: "enqueued c' = enqueued c \<and> length (workers c') = length (workers c)" if "wstep\<^sup>*\<^sup>* c c'" for c'
    using that by (induction rule: rtranclp_induct) (auto elim: wstepE)
  from workers_finish [OF i(1,2) assms(7) k] obtain c'
    where c': "wstep\<^sup>*\<^sup>* c c'" "\<forall>w \<in> set (workers c'). w = Exited" "pool_mem (live s) c'" "pool_hist c'" by blast
  from tp_free_spec [OF c'(3,2)] obtain s' where s': "tp_free (pool c') (pheap c') = Some s'" "live s' = live s" "os_ok s'"
    by blast
  have "workers c' \<noteq> []" using enq [OF c'(1)] i(3) assms(4) by auto
  note D = drained [OF c'(4,2) this, unfolded enq [OF c'(1), THEN conjunct1]]
  show ?thesis
  proof (intro conjI allI impI)
    show "\<exists>c' s'. wstep\<^sup>*\<^sup>* c c' \<and> (\<forall>w \<in> set (workers c'). w = Exited) \<and>
      mset (map job (somes (takeWhile (\<lambda>d. d \<noteq> None) (enqueued c)))) \<subseteq># mset (executed c') \<and>
      mset (executed c') \<subseteq># mset (map job (somes (enqueued c))) \<and>
      tp_free (pool c') (pheap c') = Some s' \<and> os_ok s' \<and> live s' = live s"
      using D c'(1,2) s' by (intro exI [of _ c'] exI [of _ s'] conjI) simp_all
  qed (use wstep_work [OF _ i(1)] wstep_progress [OF i(1,2) assms(7) k] in blast)+
qed

lemma tp_create_succeeds:
  assumes "True \<notin> set (oom s)"
  shows "\<exists>p s'. tp_create n s = Some (Some p, s') \<and> thread_count p = n"
proof -
  from malloc_succeeds [OF assms] obtain a s1 where a: "malloc s = (Some a, s1)" "True \<notin> set (oom s1)" by blast
  from malloc_succeeds [OF a(2)] obtain b s2 where b: "malloc s1 = (Some b, s2)" "True \<notin> set (oom s2)" by blast
  from malloc_succeeds [OF b(2)] obtain d s3 where d: "malloc s2 = (Some d, s3)" "True \<notin> set (oom s3)" by blast
  from malloc_succeeds [OF d(2)] obtain e s4 where e: "malloc s3 = (Some e, s4)" by blast
  from a b d e show ?thesis by (simp add: tp_create_def tsqueue_create_def queue_create_def)
qed

text \<open>A pool of one worker: a task is submitted, the pool is shut down.\<close>

theorem pool_shutdown_complete_witness:
  "\<exists>(p :: (nat, nat) ThreadPool) s1 c c' s'. tp_create 1 fresh_os = Some (Some p, s1) \<and> pstep\<^sup>*\<^sup>* (pstart 1 1 p s1) c \<and>
     wstep\<^sup>*\<^sup>* c c' \<and> {#(7, 8)#} \<subseteq># mset (executed c') \<and> tp_free (pool c') (pheap c') = Some s' \<and> live s' = {}"
proof -
  obtain p :: "(nat, nat) ThreadPool" and s1 where p: "tp_create 1 fresh_os = Some (Some p, s1)" "thread_count p = 1"
    using tp_create_succeeds [of fresh_os 1] by auto
  let ?c0 = "pstart 1 1 p s1" and ?c1 = "(pstart 1 1 p s1)\<lparr>clients := [Tested 7 8]\<rparr>"
  have i: "pool_inv {} 1 1 ?c0" using pool_mem_start [OF fresh_os_ok(1) _ p(1), of 1 1] by simp
  then have m0: "pool_mem {} ?c0" by (simp add: pool_inv_def pstart_def)
  have sd: "shutting_down p = False" using p(1) by (auto simp: tp_create_def split: prod.splits option.splits)
  have st1: "pstep ?c0 ?c1" using pstep.submit_test [of 0 ?c0 7 8] sd by (simp add: pstart_def tp_submit_test_def)
  from pool_mem_cong [of ?c1 ?c0 "{}"] m0 have m1: "pool_mem {} ?c1" by simp
  obtain r p2 s2 where r: "tp_submit_rest p 7 8 s1 = Some (r, p2, s2)"
    using submit_rest_returns [of p 7 8 s1] m0 by (auto simp: pool_mem_def pstart_def)
  from submit_rest_spec [OF m1, of 7 8 r p2 s2] r obtain t
    where t: "fn t = 7" "arg t = 8" "titems (pqueue p2) = titems (pqueue p) @ [Some t]" "thread_count p2 = 1"
    using p(2) by (auto simp: pstart_def)
  have e0: "titems (pqueue p) = []" using i by (auto simp: pool_inv_def pool_hist_def pstart_def)
  let ?c2 = "?c0\<lparr>pool := p2, pheap := s2, enqueued := [Some t]\<rparr>"
  have st2: "pstep ?c1 ?c2" using pstep.submit_rest [of 0 ?c1 7 8 r p2 s2] r t(3) e0 by (simp add: pstart_def)
  let ?c3 = "?c2\<lparr>pool := p2\<lparr>shutting_down := True\<rparr>, stage := Closing 0\<rparr>"
  have st3: "pstep ?c2 ?c3" using pstep.shutdown [of ?c2] by (simp add: pstart_def)
  from st1 st2 st3 have r3: "pstep\<^sup>*\<^sup>* ?c0 ?c3" by (meson r_into_rtranclp rtranclp_trans)
  from preach_inv [OF r3 i] have m3: "pool_mem {} ?c3" by (simp add: pool_inv_def pstart_def)
  then obtain r4 q s4 where n: "tsqueue_enqueue (pqueue p2) None s2 = Some (r4, q, s4)"
    by (cases "tsqueue_enqueue (pqueue p2) None s2") (auto simp: pool_mem_def pstart_def tsqueue_enqueue_def split: prod.splits)
  with sentinel_spec [OF m3] have r4: "r4 = 0" by (simp add: pstart_def)
  let ?c4 = "?c3\<lparr>pool := p2\<lparr>shutting_down := True, pqueue := q\<rparr>, pheap := s4, stage := Closing 1, enqueued := [Some t, None]\<rparr>"
  have "pstep ?c3 ?c4" using pstep.sentinel [of ?c3 0 r4 q s4] n r4 t(4) by (simp add: pstart_def)
  with r3 have r4: "pstep\<^sup>*\<^sup>* ?c0 ?c4" by (meson rtranclp.rtrancl_into_rtrancl)
  have "stage ?c4 = Closing 1" by simp
  from pool_shutdown_complete [OF fresh_os_ok(1) _ p(1) _ _ r4 this] t(1,2) obtain c' s'
    where "wstep\<^sup>*\<^sup>* ?c4 c'" "{#(7, 8)#} \<subseteq># mset (executed c')" "tp_free (pool c') (pheap c') = Some s'" "live s' = {}"
    by auto
  with p(1) r4 show ?thesis by blast
qed

end
