(* ===== verification/Dispatcher.thy ===== *)
theory Dispatcher
  imports Context ThreadPool QueueOwner Client
begin

text \<open>
  \<open>CentralPropagator/cp_dispatcher.c\<close>: a warning that arrived becomes a job of the thread pool; a
  worker finds the next hop in the context, sends the warning there and frees it.
\<close>

section \<open>Data and operations\<close>

record DispatchJob =
  jctx :: CPContext
  jw :: Warning
  job_blk :: nat

text \<open>The only function that is ever given to the pool.\<close>

datatype task_fn = Dispatch_job_fn

record CPDispatcher =
  dpool :: "(task_fn, DispatchJob) ThreadPool"
  dctx :: CPContext
  d_blk :: nat

text \<open>The node that \<open>dispatch_job_fn\<close> sends to; \<open>None\<close>: the climb does not end.\<close>

definition dispatch_hop :: "CPContext \<Rightarrow> Warning \<Rightarrow> nat option" where
  "dispatch_hop ctx w =
     (case hashmap_get (cmap ctx) (Some (dest_node w)) of
        None \<Rightarrow> Some (me ctx)
      | Some dest \<Rightarrow> if dest = me ctx then Some (me ctx) else climb_below (arr (all_nodes ctx)) (me ctx) dest)"

text \<open>
  The job: the result of the send is only printed; the warning and the job are freed in any case.
  An address that was never stored is a null pointer.
\<close>

definition dispatch_job_fn :: "DispatchJob \<Rightarrow> net \<Rightarrow> os \<Rightarrow> (net \<times> os) option" where
  "dispatch_job_fn j n s =
     (case dispatch_hop (jctx j) (jw j) of
        None \<Rightarrow> None
      | Some h \<Rightarrow>
          (let hop = arr (all_nodes (jctx j)) ! h
           in (case naddress hop of
                 None \<Rightarrow> Some (n, s\<lparr>ub := True\<rparr>)
               | Some address \<Rightarrow>
                   (case send_warning_to (chars address) (nport hop) (jw j) n s of
                      (_, n, s) \<Rightarrow> Some (n, free_blk (job_blk j) (warning_destroy (Some (jw j)) s))))))"

definition cp_dispatcher_create :: "CPContext \<Rightarrow> nat \<Rightarrow> os \<Rightarrow> (CPDispatcher option \<times> os) option" where
  "cp_dispatcher_create ctx num_workers s =
     (case malloc s of
        (None, s) \<Rightarrow> Some (None, s)
      | (Some b, s) \<Rightarrow>
          (case tp_create num_workers s of
             None \<Rightarrow> None
           | Some (None, s) \<Rightarrow> Some (None, free_blk b s)
           | Some (Some p, s) \<Rightarrow> Some (Some \<lparr>dpool = p, dctx = ctx, d_blk = b\<rparr>, s)))"

definition cp_dispatcher_submit :: "CPDispatcher \<Rightarrow> Warning \<Rightarrow> os \<Rightarrow> (CPDispatcher \<times> os) option" where
  "cp_dispatcher_submit d w s =
     (case malloc s of
        (None, s) \<Rightarrow> Some (d, warning_destroy (Some w) s)
      | (Some b, s) \<Rightarrow>
          (case tp_submit (Some (dpool d)) (Some Dispatch_job_fn) \<lparr>jctx = dctx d, jw = w, job_blk = b\<rparr> s of
             None \<Rightarrow> None
           | Some (ok, p, s) \<Rightarrow>
               (let d = d\<lparr>dpool := the p\<rparr>
                in if \<not> ok then Some (d, free_blk b (warning_destroy (Some w) s)) else Some (d, s))))"

text \<open>
  \<open>cp_dispatcher_shutdown\<close> after the workers have left their loops; what \<open>tp_shutdown\<close> does before
  is in \<open>pstep\<close>.
\<close>

definition cp_dispatcher_free :: "CPDispatcher option \<Rightarrow> os \<Rightarrow> os option" where
  "cp_dispatcher_free dp s =
     (case dp of
        None \<Rightarrow> Some s
      | Some d \<Rightarrow> map_option (free_blk (d_blk d)) (tp_free (dpool d) s))"

section \<open>The jobs of a dispatcher\<close>

definition job_blks :: "DispatchJob \<Rightarrow> nat list" where
  "job_blks j = warning_blks (jw j) @ [job_blk j]"

definition task_own :: "(task_fn, DispatchJob) Task \<Rightarrow> nat list" where
  "task_own t = task_blk t # job_blks (arg t)"

abbreviation dqueue :: "CPDispatcher \<Rightarrow> (task_fn, DispatchJob) Task TSQueue" where
  "dqueue d \<equiv> pqueue (dpool d)"

definition disp_blks :: "CPDispatcher \<Rightarrow> nat list" where
  "disp_blks d = [tself (dqueue d), d_blk d, pool_blk (dpool d), threads_blk (dpool d)]"

text \<open>A dispatcher that accepts jobs, and owns the queued ones with their warnings.\<close>

definition disp_ok :: "nat set \<Rightarrow> SOCKET set \<Rightarrow> CPDispatcher \<Rightarrow> os \<Rightarrow> bool" where
  "disp_ok L K d s \<longleftrightarrow> qholds L K task_own (disp_blks d) (dqueue d) s \<and> tcapacity (dqueue d) = 0 \<and>
     \<not> shutting_down (dpool d) \<and> map_option freeFunc (inner (dqueue d)) = Some (Some free_task)"

text \<open>The warnings that wait to be dispatched.\<close>

definition pending :: "CPDispatcher \<Rightarrow> Warning list" where
  "pending d = map (\<lambda>t. jw (arg t)) (somes (titems (dqueue d)))"

lemma cp_dispatcher_create_spec:
  assumes "os_ok s" "cp_dispatcher_create ctx n s = Some (Some d, s')"
  shows "disp_ok (live s) (socks s) d s' \<and> pending d = [] \<and> dctx d = ctx"
proof -
  from assms(2) obtain a s1 b s2 q s3 c where e: "malloc s = (Some a, s1)" "malloc s1 = (Some b, s2)"
    "tsqueue_create 0 (Some free_task) s2 = (Some q, s3)" "malloc s3 = (Some c, s')"
    "d = \<lparr>dpool = \<lparr>thread_count = n, threads_blk = c, pqueue = q, shutting_down = False, pool_blk = b\<rparr>, dctx = ctx, d_blk = a\<rparr>"
    by (auto simp: cp_dispatcher_create_def tp_create_def split: prod.splits option.splits)
  from holds_malloc [OF holds_malloc [OF holds_start [OF assms(1)] e(1)] e(2)]
  have h: "holds (live s) (socks s) [b, a] s2" .
  then have ok: "os_ok s2" and l: "live s2 = live s \<union> set [b, a]" "socks s2 = socks s" "distinct [b, a]" "set [b, a] \<inter> live s = {}"
    by (auto simp: holds_def)
  from qholds_create [OF ok e(3)] have "qholds (live s \<union> set [b, a]) (socks s) task_own [tself q] q s3" unfolding l .
  from qholds_claim [OF this l(3,4)] have "qholds (live s) (socks s) task_own [b, a, tself q] q s3" by simp
  from qholds_malloc [OF this e(4)] have "qholds (live s) (socks s) task_own [c, b, a, tself q] q s'" .
  then have "qholds (live s) (socks s) task_own [tself q, a, b, c] q s'" by (subst qholds_perm) auto
  with tsqueue_create_ok [OF ok e(3)] show ?thesis by (simp add: disp_ok_def disp_blks_def pending_def e(5))
qed

text \<open>
  Submitting a warning: it is queued, or it is freed with its job, or, when the queue found no
  memory for its node, it is neither (\<open>tp_submit\<close> does not look at what \<open>tsqueue_enqueue\<close> returns).
\<close>

lemma cp_dispatcher_submit_spec:
  assumes "disp_ok (L \<union> set (warning_blks w)) K d s" "distinct (warning_blks w)" "set (warning_blks w) \<inter> L = {}"
  shows "\<exists>d' s'. cp_dispatcher_submit d w s = Some (d', s') \<and> dctx d' = dctx d \<and>
    (pending d' = pending d @ [w] \<and> disp_ok L K d' s' \<or>
     pending d' = pending d \<and> disp_ok L K d' s' \<and> True \<in> set (oom s) \<or>
     pending d' = pending d \<and> True \<in> set (oom s) \<and>
       (\<exists>B. disp_ok (L \<union> set B) K d' s' \<and> set (warning_blks w) \<subseteq> set B \<and> set B \<inter> L = {}))"
proof -
  let ?W = "warning_blks w" and ?D = "disp_blks d"
  from assms(1) have d: "tcapacity (dqueue d) = 0" "\<not> shutting_down (dpool d)"
    "map_option freeFunc (inner (dqueue d)) = Some (Some free_task)" by (auto simp: disp_ok_def)
  have q0: "qholds L K task_own (?W @ ?D) (dqueue d) s"
    using assms by (intro qholds_claim) (auto simp: disp_ok_def)
  obtain bp s1 where b: "malloc s = (bp, s1)" by force
  show ?thesis
  proof (cases bp)
    case None
    from qholds_warning_destroy [OF qholds_malloc_None [OF q0]] b None d
    have "disp_ok L K d (warning_destroy (Some w) s1)" by (simp add: disp_ok_def)
    moreover have "True \<in> set (oom s)" using malloc_succeeds [of s] b None by auto
    ultimately show ?thesis using b None by (simp add: cp_dispatcher_submit_def)
  next
    case (Some b1)
    with b have b1: "malloc s = (Some b1, s1)" by simp
    let ?j = "\<lparr>jctx = dctx d, jw = w, job_blk = b1\<rparr>"
    have q1: "qholds L K task_own (job_blks ?j @ ?D) (dqueue d) s1"
      using qholds_malloc [OF q0 b1] by (subst (asm) qholds_perm [where Y = "job_blks ?j @ ?D"]) (auto simp: job_blks_def)
    obtain cp s2 where c: "malloc s1 = (cp, s2)" by force
    show ?thesis
    proof (cases cp)
      case None
      have "qholds L K task_own (?W @ b1 # ?D) (dqueue d) s2"
        using qholds_malloc_None [OF q1] c None by (simp add: job_blks_def)
      from qholds_free [OF qholds_warning_destroy [OF this]] d
      have "disp_ok L K d (free_blk b1 (warning_destroy (Some w) s2))" by (simp add: disp_ok_def)
      moreover have "True \<in> set (oom s)" using malloc_succeeds [of s1] malloc_oom [OF b1] c None by auto
      moreover have "cp_dispatcher_submit d w s = Some (d, free_blk b1 (warning_destroy (Some w) s2))"
        using b1 c None d(2) by (simp add: cp_dispatcher_submit_def tp_submit_def tp_submit_test_def tp_submit_rest_def)
      ultimately show ?thesis by blast
    next
      case (Some b2)
      with c have b2: "malloc s1 = (Some b2, s2)" by simp
      let ?t = "\<lparr>fn = Dispatch_job_fn, arg = ?j, task_blk = b2\<rparr>"
      have q2: "qholds L K task_own (task_own ?t @ ?D) (dqueue d) s2" using qholds_malloc [OF q1 b2] by (simp add: task_own_def)
      from enqueue_unbounded [OF d(1)] obtain r q' s3 where e: "tsqueue_enqueue (dqueue d) (Some ?t) s2 = Some (r, q', s3)" by blast
      let ?d' = "d\<lparr>dpool := (dpool d)\<lparr>pqueue := q'\<rparr>\<rparr>"
      have sub: "cp_dispatcher_submit d w s = Some (?d', s3)"
        using b1 b2 d(2) e by (simp add: cp_dispatcher_submit_def tp_submit_def tp_submit_test_def tp_submit_rest_def)
      note E = qholds_enqueue [OF q2 e]
      show ?thesis
      proof (cases "r = 0")
        case True
        with E d have "disp_ok L K ?d' s3" "pending ?d' = pending d @ [w]" by (auto simp: disp_ok_def disp_blks_def pending_def)
        with sub show ?thesis by auto
      next
        case False
        with E have q3: "qholds L K task_own (task_own ?t @ ?D) q' s3" "titems q' = titems (dqueue d)" by auto
        from qholds_yield [OF q3(1)] E d have "disp_ok (L \<union> set (task_own ?t)) K ?d' s3" "set (task_own ?t) \<inter> L = {}"
          by (auto simp: disp_ok_def disp_blks_def)
        moreover have "True \<in> set (oom s)"
          using enqueue_succeeds [OF _ e] q2 False malloc_oom [OF b1] malloc_oom [OF b2] by (auto simp: qholds_def)
        moreover have "set ?W \<subseteq> set (task_own ?t)" by (auto simp: task_own_def job_blks_def)
        moreover have "pending ?d' = pending d" using q3(2) by (simp add: pending_def)
        ultimately show ?thesis using sub by (intro exI [of _ ?d'] exI [of _ s3]) auto
      qed
    qed
  qed
qed

section \<open>Running a job\<close>

lemma dispatch_hop_below:
  assumes "ctx_for ns r c" "forest ns" "d < length ns" "(up ns ^^ Suc n) d r" "chars (dest_node w) = name_of ns d"
  shows "\<exists>h. dispatch_hop c w = Some h \<and> up ns h r \<and> (up ns ^^ n) d h \<and> h < length ns"
proof -
  from assms(4) have b: "below ns r d" by (rule relpowp_imp_rtranclp)
  have g: "hashmap_get (cmap c) (Some (dest_node w)) = Some d"
    using assms(1,3,5) b by (simp add: ctx_for_def tree_def)
  have "d \<noteq> r"
  proof
    assume "d = r"
    with relpowp_Suc_D2 [OF assms(4)] obtain q where "up ns r q" "(up ns ^^ n) q r" by blast
    with no_cycle [OF assms(2)] assms(3) \<open>d = r\<close> show False by (meson relpowp_imp_rtranclp)
  qed
  moreover from climb_below_hop [OF assms(2-4)] obtain h where h: "climb_below ns r d = Some h" "up ns h r" "(up ns ^^ n) d h" by blast
  moreover have "h < length ns" using below_less [OF relpowp_imp_rtranclp [OF h(3)] assms(2,3)] .
  moreover have "me c = r" "arr (all_nodes c) = ns" using assms(1) by (simp_all add: ctx_for_def)
  ultimately show ?thesis using g by (simp add: dispatch_hop_def)
qed

text \<open>Every other warning is sent to the own node.\<close>

lemma dispatch_hop_self:
  assumes "ctx_for ns r c" "\<And>d. d \<in> tree ns r \<Longrightarrow> name_of ns d = chars (dest_node w) \<Longrightarrow> d = r"
  shows "dispatch_hop c w = Some r"
proof (cases "hashmap_get (cmap c) (Some (dest_node w))")
  case None
  with assms(1) show ?thesis by (simp add: dispatch_hop_def ctx_for_def)
next
  case (Some d)
  with assms have "d = r" by (simp add: ctx_for_def)
  moreover have "me c = r" using assms(1) by (simp add: ctx_for_def)
  ultimately show ?thesis using Some by (simp add: dispatch_hop_def)
qed

lemma conn_inv_free_job:
  assumes "conn_inv (L \<union> set (job_blks j)) K m s" "distinct (job_blks j)" "set (job_blks j) \<inter> L = {}"
  shows "conn_inv L K m (free_blk (job_blk j) (warning_destroy (Some (jw j)) s))"
proof -
  have "L \<union> set (job_blks j) = insert (job_blk j) L \<union> set (warning_blks (jw j))" by (auto simp: job_blks_def)
  with assms have "conn_inv (insert (job_blk j) L) K m (warning_destroy (Some (jw j)) s)"
    by (intro conn_inv_free_warning) (auto simp: job_blks_def)
  then show ?thesis by (rule conn_inv_free) (use assms(3) in \<open>auto simp: job_blks_def\<close>)
qed

lemma dispatch_job_spec:
  assumes "dispatch_hop (jctx j) (jw j) = Some h" "naddress (arr (all_nodes (jctx j)) ! h) = Some ad"
    and "connections_map (tab n) = Some m" "conn_inv (L \<union> set (job_blks j)) K m s" "distinct (job_blks j)" "set (job_blks j) \<inter> L = {}"
    and "names_apart n s" "sendable (jw j)"
  shows "\<exists>ok n' s1 m' s'. send_warning_to (chars ad) (nport (arr (all_nodes (jctx j)) ! h)) (jw j) n s = (ok, n', s1) \<and>
    dispatch_job_fn j n s = Some (n', s') \<and> connections_map (tab n') = Some m' \<and> conn_inv L K m' s' \<and> names_apart n' s'"
proof -
  let ?p = "nport (arr (all_nodes (jctx j)) ! h)"
  obtain ok n' s1 where sd: "send_warning_to (chars ad) ?p (jw j) n s = (ok, n', s1)" by (cases "send_warning_to (chars ad) ?p (jw j) n s")
  from send_step [OF assms(3,4,7,8) sd] obtain m' where
    m': "connections_map (tab n') = Some m'" "conn_inv (L \<union> set (job_blks j)) K m' s1" "names_apart n' s1" by blast
  let ?s = "free_blk (job_blk j) (warning_destroy (Some (jw j)) s1)"
  have i: "conn_inv L K m' ?s" by (rule conn_inv_free_job [OF m'(2) assms(5,6)])
  have "names_apart n' ?s" using names_apart_frame [OF m'(3), of n' ?s "{}"] unfolding table_socks [OF i] table_socks [OF m'(2)] by simp
  with sd m'(1) i assms(1,2) show ?thesis by (simp add: dispatch_job_fn_def Let_def)
qed

section \<open>Properties\<close>

text \<open>
  C14. A central propagator forwards a warning one level closer to its destination: in a context
  made from a \<open>nodes.csv\<close> with distinct ids and no cycles, a job whose destination is \<open>n + 1\<close> levels
  below the own node returns, makes exactly one send, which goes to the address and port of the
  child that is \<open>n\<close> levels above the destination, and gives back the warning and the job, whatever
  the outcome of the send; no undefined behaviour occurs.
\<close>

theorem dispatch_forwards:
  assumes "os_ok s0" "True \<notin> set (oom s0)" "length (file_rows cs) < 2 ^ 19" "distinct (map row_id (file_rows cs))"
    and "acyclic_rows (file_rows cs)" "r < length (file_rows cs)"
    and "cp_context_create (Some cs) (row_id (file_rows cs ! r)) s0 = Some (Some c, s1)" "jctx j = c"
    and "d < length (file_rows cs)" "chars (dest_node (jw j)) = row_id (file_rows cs ! d)" "(up (arr (all_nodes c)) ^^ Suc n) d r"
    and "connections_map (tab nt) = Some m" "conn_inv (L \<union> set (job_blks j)) K m s" "distinct (job_blks j)"
    and "set (job_blks j) \<inter> L = {}" "names_apart nt s" "sendable (jw j)"
  shows "\<exists>h ok nt' s2 m' s'. row_parent (file_rows cs) h = Some r \<and> (up (arr (all_nodes c)) ^^ n) d h \<and>
    send_warning_to (trim (fst (snd (file_rows cs ! h)))) (word_of_int (atoi (trim (fst (snd (snd (file_rows cs ! h)))))))
      (jw j) nt s = (ok, nt', s2) \<and>
    dispatch_job_fn j nt s = Some (nt', s') \<and> connections_map (tab nt') = Some m' \<and> conn_inv L K m' s' \<and> os_ok s'"
proof -
  let ?ns = "arr (all_nodes c)" and ?rs = "file_rows cs"
  from context_facts [OF assms(1-7)] have c: "describes ?rs ?ns" "forest ?ns" "ctx_for ?ns r c" by auto
  note R = describes_row [OF c(1)]
  from dispatch_hop_below [OF c(3,2) R(5) [OF assms(9)] assms(11)] assms(10) R(1) [OF assms(9)] obtain h
    where h: "dispatch_hop c (jw j) = Some h" "up ?ns h r" "(up ?ns ^^ n) d h" "h < length ?ns" by auto
  have hl: "h < length ?rs" using h(4) c(1) by (simp add: describes_def)
  from R(3) [OF hl] obtain ad where ad: "naddress (?ns ! h) = Some ad" "chars ad = trim (fst (snd (?rs ! h)))" by blast
  have p: "row_parent ?rs h = Some r" using h(2) R(2) [OF hl] by (simp add: up_def)
  from dispatch_job_spec [of j h ad, OF _ _ assms(12-17)] h(1) ad(1) assms(8)
  obtain ok nt' s2 m' s' where e: "send_warning_to (chars ad) (nport (?ns ! h)) (jw j) nt s = (ok, nt', s2)"
    "dispatch_job_fn j nt s = Some (nt', s')" "connections_map (tab nt') = Some m'" "conn_inv L K m' s'" by auto
  show ?thesis
    by (rule exI [of _ h], rule exI [of _ ok], rule exI [of _ nt'], rule exI [of _ s2], rule exI [of _ m'], rule exI [of _ s'])
      (use e p h(3) ad(2) R(4) [OF hl] conn_inv_ok [OF e(4)] in simp)
qed


text \<open>A heap that holds the demonstration warning and a job.\<close>

definition demo_heap :: os where
  "demo_heap = fresh_os\<lparr>live := {0, 1, 2, 3}, next_blk := 4\<rparr>"

definition demo_job :: "CPContext \<Rightarrow> DispatchJob" where
  "demo_job c = \<lparr>jctx = c, jw = demo_warning, job_blk = 3\<rparr>"

lemma demo_table:
  "\<exists>t1 s1 m. connections_init demo_reuse demo_heap = (t1, s1) \<and> connections_map t1 = Some m \<and>
     conn_inv ({} \<union> set (job_blks (demo_job c))) {} m s1 \<and> names_apart (demo_net t1) s1"
proof -
  obtain t1 s1 where i: "connections_init demo_reuse demo_heap = (t1, s1)" by force
  then obtain m where m: "connections_map t1 = Some m" "socks s1 = {}" "new_socks t1 = [5]"
    by (auto simp: connections_init_def hashmap_create_def calloc_def malloc_def demo_heap_def fresh_os_def demo_reuse_def)
  have "os_ok demo_heap" "live demo_heap = {0, 1, 2, 3}" "socks demo_heap = {}" by (auto simp: os_ok_def demo_heap_def fresh_os_def)
  with connections_init_spec [OF _ i m(1)] have "conn_inv {0, 1, 2, 3} {} m s1" by simp
  moreover have "set (job_blks (demo_job c)) = {0, 1, 2, 3}" by (auto simp: job_blks_def demo_job_def warning_blks_def demo_warning_def)
  moreover have "names_apart (demo_net t1) s1" 
    using m(2,3) by (simp add: names_apart_def demo_net_def)
  ultimately show ?thesis using i m(1) by auto
qed

lemma demo_context:
  shows "length (file_rows demo_csv) < 2 ^ 19" "distinct (map row_id (file_rows demo_csv))" "acyclic_rows (file_rows demo_csv)"
    "0 < length (file_rows demo_csv)" "1 < length (file_rows demo_csv)" "row_id (file_rows demo_csv ! 0) = ''CP1''"
    "row_id (file_rows demo_csv ! 1) = ''D1''" "row_parent (file_rows demo_csv) 1 = Some 0"
    "\<exists>c s'. cp_context_create (Some demo_csv) (row_id (file_rows demo_csv ! 0)) fresh_os = Some (Some c, s')"
proof -
  show h: "length (file_rows demo_csv) < 2 ^ 19" "distinct (map row_id (file_rows demo_csv))" "acyclic_rows (file_rows demo_csv)"
    "0 < length (file_rows demo_csv)" unfolding demo_rows by (simp, code_simp, code_simp, simp)
  show "1 < length (file_rows demo_csv)" "row_id (file_rows demo_csv ! 0) = ''CP1''"
    "row_id (file_rows demo_csv ! 1) = ''D1''" "row_parent (file_rows demo_csv) 1 = Some 0" unfolding demo_rows by (simp, code_simp, code_simp, code_simp)
  from node_load_all_spec [OF fresh_os_ok(1) _ h(1)] obtain na s0
    where na: "node_load_all (Some demo_csv) fresh_os = (Some na, s0)" "describes (file_rows demo_csv) (arr na)" by auto
  from cp_context_create_spec [OF fresh_os_ok(1) _ h(1,2) na(1) describes_forest [OF na(2) h(3)] describes_row(5) [OF na(2) h(4)] describes_row(1) [OF na(2) h(4)]]
  show "\<exists>c s'. cp_context_create (Some demo_csv) (row_id (file_rows demo_csv ! 0)) fresh_os = Some (Some c, s')" by auto
qed

theorem dispatch_forwards_witness:
  "\<exists>c s1 nt s ok nt' s2 s'. cp_context_create (Some demo_csv) ''CP1'' fresh_os = Some (Some c, s1) \<and>
     send_warning_to ''127.0.0.1'' 5001 demo_warning nt s = (ok, nt', s2) \<and> dispatch_job_fn (demo_job c) nt s = Some (nt', s')"
proof -
  note D = demo_context
  from D(9) obtain c s1 where c: "cp_context_create (Some demo_csv) (row_id (file_rows demo_csv ! 0)) fresh_os = Some (Some c, s1)" by blast
  from demo_table [of c] obtain t1 s m where t: "connections_map t1 = Some m" "conn_inv ({} \<union> set (job_blks (demo_job c))) {} m s"
    "names_apart (demo_net t1) s" by blast
  from context_facts [OF fresh_os_ok(1) _ D(1-4) c] have de: "describes (file_rows demo_csv) (arr (all_nodes c))" by simp
  from describes_row(2) [OF de D(5)] D(8) have "up (arr (all_nodes c)) 1 0" by (simp add: up_def)
  then have u: "(up (arr (all_nodes c)) ^^ Suc 0) 1 0" by auto
  have dst: "chars (dest_node (jw (demo_job c))) = row_id (file_rows demo_csv ! 1)"
    unfolding D(7) by (simp add: demo_job_def demo_warning_def)
  have j: "distinct (job_blks (demo_job c))" "sendable (jw (demo_job c))" "jctx (demo_job c) = c"
    by (simp_all add: job_blks_def demo_job_def warning_blks_def demo_warning_def sendable_def)
  have "connections_map (tab (demo_net t1)) = Some m" using t(1) by (simp add: demo_net_def)
  from dispatch_forwards [OF fresh_os_ok(1) _ D(1-4) c j(3) D(5) dst u this t(2) j(1) _ t(3) j(2)]
  obtain h ok nt' s2 s' where h: "row_parent (file_rows demo_csv) h = Some 0" "(up (arr (all_nodes c)) ^^ 0) 1 h"
    "send_warning_to (trim (fst (snd (file_rows demo_csv ! h)))) (word_of_int (atoi (trim (fst (snd (snd (file_rows demo_csv ! h)))))))
      (jw (demo_job c)) (demo_net t1) s = (ok, nt', s2)"
    "dispatch_job_fn (demo_job c) (demo_net t1) s = Some (nt', s')" by auto
  have "h = 1" using h(2) by simp
  moreover have "trim (fst (snd (file_rows demo_csv ! 1))) = ''127.0.0.1''" unfolding demo_rows by code_simp
  moreover have "(word_of_int (atoi (trim (fst (snd (snd (file_rows demo_csv ! 1)))))) :: u16) = 5001" unfolding demo_rows by code_simp
  moreover have "jw (demo_job c) = demo_warning" by (simp add: demo_job_def)
  ultimately have "send_warning_to ''127.0.0.1'' 5001 demo_warning (demo_net t1) s = (ok, nt', s2)" using h(3) by simp
  with h(4) c show ?thesis unfolding D(6) by blast
qed


end
