(* ===== verification/Listener.thy ===== *)
theory Listener
  imports Dispatcher
begin

text \<open>
  \<open>CentralPropagator/cp_listener.c\<close> and \<open>cp_thread.c\<close>: the thread that accepts connections, reads
  warnings from each until it ends or breaks off, and hands every warning over.  The loop over the
  messages of a connection is the same in the data destination, with another receiver of the
  warnings; \<open>sink\<close> is the contract between the loop and whoever takes the warnings.
\<close>

section \<open>Operations\<close>

text \<open>
  The messages of one connection: \<open>put\<close> takes each warning (\<open>None\<close>: it does not return).
\<close>

function serve :: "(Warning \<Rightarrow> 'd \<Rightarrow> os \<Rightarrow> ('d \<times> os) option) \<Rightarrow> conn \<Rightarrow> 'd \<Rightarrow> os \<Rightarrow> ('d \<times> conn \<times> os) option" where
  "serve put c d s =
     (case deserialize_warning c s of
        (None, c', s) \<Rightarrow> Some (d, c', s)
      | (Some w, c', s) \<Rightarrow> (case put w d s of None \<Rightarrow> None | Some (d, s) \<Rightarrow> serve put c' d s))"
  by pat_completeness auto
termination
  by (relation "measure (\<lambda>(put, c, d, s). length (stream c))") (auto dest: deserialize_shorter [OF sym])

declare serve.simps [simp del]

text \<open>
  What the central propagator does with a warning: it prints and frees its text (\<open>fmt2f\<close> and
  \<open>localtime\<close> are the C library's), and submits it.
\<close>

definition cp_put :: "(u64 \<Rightarrow> string) \<Rightarrow> (u64 \<Rightarrow> tm) \<Rightarrow> Warning \<Rightarrow> CPDispatcher \<Rightarrow> os \<Rightarrow> (CPDispatcher \<times> os) option" where
  "cp_put fmt2f localtime w d s =
     (case warning_to_string fmt2f localtime (Some w) s of
        (desc, s) \<Rightarrow> cp_dispatcher_submit d w (case desc of None \<Rightarrow> s | Some h \<Rightarrow> free_str h s))"

text \<open>
  What happens in a round of the accept loop: the exit event is found set, \<open>accept\<close> fails, or it
  returns a client, whose connection delivers these bytes.  A list that ends without \<open>Exit\<close> leaves
  the listener waiting in \<open>accept\<close> (first component \<open>False\<close>).
\<close>

datatype round = Exit | Accept_fails | Client SOCKET conn

fun accept_loop :: "(Warning \<Rightarrow> 'd \<Rightarrow> os \<Rightarrow> ('d \<times> os) option) \<Rightarrow> round list \<Rightarrow> 'd \<Rightarrow> os \<Rightarrow> (bool \<times> 'd \<times> os) option" where
  "accept_loop put [] d s = Some (False, d, s)"
| "accept_loop put (Exit # rs) d s = Some (True, d, s)"
| "accept_loop put (Accept_fails # rs) d s = accept_loop put rs d s"
| "accept_loop put (Client k c # rs) d s =
     (case serve put c d (s\<lparr>socks := insert k (socks s)\<rparr>) of
        None \<Rightarrow> None
      | Some (d, _, s) \<Rightarrow> accept_loop put rs d (closesocket k s))"

text \<open>
  \<open>listen_sock\<close> is what \<open>socket\<close> returns; the program does not look at the results of \<open>socket\<close>,
  \<open>bind\<close> and \<open>listen\<close> (where they fail, every \<open>accept\<close> fails).
\<close>

definition cp_listener_run :: "(u64 \<Rightarrow> string) \<Rightarrow> (u64 \<Rightarrow> tm) \<Rightarrow> SOCKET \<Rightarrow> round list \<Rightarrow> CPDispatcher \<Rightarrow> os \<Rightarrow>
    (bool \<times> CPDispatcher \<times> os) option" where
  "cp_listener_run fmt2f localtime listen_sock rs d s =
     (let s = (if listen_sock = INVALID_SOCKET then s else s\<lparr>socks := insert listen_sock (socks s)\<rparr>)
      in (case accept_loop (cp_put fmt2f localtime) rs d s of
            None \<Rightarrow> None
          | Some (True, d, s) \<Rightarrow> Some (True, d, closesocket listen_sock s)
          | Some (False, d, s) \<Rightarrow> Some (False, d, s)))"

text \<open>
  The arguments of the listener thread, its start and its body.  \<open>created\<close>: \<open>CreateThread\<close> succeeds.
  Without a thread nobody frees the arguments.
\<close>

record ListenerArgs =
  la_ctx :: CPContext
  la_port :: u16
  la_dispatcher :: CPDispatcher
  la_blk :: nat

definition cp_start_listener_thread :: "bool \<Rightarrow> CPContext \<Rightarrow> u16 \<Rightarrow> CPDispatcher \<Rightarrow> os \<Rightarrow> ListenerArgs option \<times> os" where
  "cp_start_listener_thread created ctx port d s =
     (case malloc s of
        (None, s) \<Rightarrow> (None, s)
      | (Some b, s) \<Rightarrow>
          (if created then Some \<lparr>la_ctx = ctx, la_port = port, la_dispatcher = d, la_blk = b\<rparr> else None, s))"

definition listener_fn :: "(u64 \<Rightarrow> string) \<Rightarrow> (u64 \<Rightarrow> tm) \<Rightarrow> SOCKET \<Rightarrow> round list \<Rightarrow> ListenerArgs \<Rightarrow> os \<Rightarrow>
    (bool \<times> CPDispatcher \<times> os) option" where
  "listener_fn fmt2f localtime listen_sock rs args s =
     (case cp_listener_run fmt2f localtime listen_sock rs (la_dispatcher args) s of
        None \<Rightarrow> None
      | Some (done, d, s) \<Rightarrow> Some (done, d, if done then free_blk (la_blk args) s else s))"

text \<open>A connection that carries whole messages, and perhaps one more that broke off.\<close>

definition carries :: "conn \<Rightarrow> Warning list \<Rightarrow> bool" where
  "carries c ws \<longleftrightarrow> conn_ok c \<and> (\<forall>w \<in> set ws. sendable w \<and> is_cstr (chars (city w)) \<and> is_cstr (chars (dest_node w))) \<and>
     (\<exists>rest. stream c = concat (map encode ws) @ rest \<and>
       (rest = [] \<or> (\<exists>w z. encode w = rest @ z \<and> z \<noteq> [] \<and> sendable w \<and> is_cstr (chars (city w)) \<and> is_cstr (chars (dest_node w)))))"

section \<open>The contract of a receiver of warnings\<close>

text \<open>
  \<open>inv L K d s\<close>: the receiver \<open>d\<close> is well-formed, and besides its own blocks exactly \<open>L\<close> is live and
  \<open>K\<close> are the open sockets.  \<open>items d\<close>: the warnings that it holds.
\<close>

locale sink =
  fixes put :: "Warning \<Rightarrow> 'd \<Rightarrow> os \<Rightarrow> ('d \<times> os) option"
    and inv :: "nat set \<Rightarrow> SOCKET set \<Rightarrow> 'd \<Rightarrow> os \<Rightarrow> bool"
    and items :: "'d \<Rightarrow> Warning list"
  assumes inv_ok: "inv L K d s \<Longrightarrow> os_ok s \<and> socks s = K"
    and inv_frame: "inv L K d s \<Longrightarrow> os_ok s' \<Longrightarrow> live s' = live s \<union> set B \<Longrightarrow> live s \<inter> set B = {} \<Longrightarrow> distinct B \<Longrightarrow>
      socks s' = K \<Longrightarrow> inv (L \<union> set B) K d s' \<and> set B \<inter> L = {}"
    and inv_socks: "inv L K d s \<Longrightarrow> inv L K' d (s\<lparr>socks := K'\<rparr>)"
    and put_safe: "inv (L \<union> set (warning_blks w)) K d s \<Longrightarrow> distinct (warning_blks w) \<Longrightarrow> set (warning_blks w) \<inter> L = {} \<Longrightarrow>
      \<exists>d' s' B. put w d s = Some (d', s') \<and> inv (L \<union> B) K d' s' \<and> items d' \<in> {items d, items d @ [w]} \<and>
        set (oom s') \<subseteq> set (oom s) \<and> (True \<notin> set (oom s) \<longrightarrow> B = {} \<and> items d' = items d @ [w])"
begin

text \<open>Reading one connection, whatever arrives: it returns, in a well-formed state.\<close>

lemma serve_safe:
  assumes "inv L K d s"
  shows "\<exists>d' c' s' B ws. serve put c d s = Some (d', c', s') \<and> inv (L \<union> B) K d' s' \<and> items d' = items d @ ws \<and>
    set (oom s') \<subseteq> set (oom s)"
  using assms
proof (induction "length (stream c)" arbitrary: c d s L rule: less_induct)
  case less
  obtain r c1 s1 where r: "deserialize_warning c s = (r, c1, s1)" by (cases "deserialize_warning c s")
  note S = deserialize_safe [OF conjunct1 [OF inv_ok [OF less.prems]] r] deserialize_oom [OF r]
  have K: "socks s = K" using inv_ok [OF less.prems] by simp
  show ?case
  proof (cases r)
    case None
    with S K inv_frame [OF less.prems, of s1 "[]"] have "inv L K d s1" by simp
    with r None S show ?thesis by (subst serve.simps) (auto intro!: exI [of _ "{}"])
  next
    case (Some w)
    with S K inv_frame [OF less.prems, of s1 "warning_blks w"]
    have f: "inv (L \<union> set (warning_blks w)) K d s1" "distinct (warning_blks w)" "set (warning_blks w) \<inter> L = {}" by auto
    from put_safe [OF f] obtain d2 s2 B where p: "put w d s1 = Some (d2, s2)" "inv (L \<union> B) K d2 s2"
      "items d2 \<in> {items d, items d @ [w]}" "set (oom s2) \<subseteq> set (oom s1)" by blast
    have sh: "length (stream c1) < length (stream c)" using deserialize_shorter r Some by blast
    from less.hyps [OF sh p(2)] obtain d' c' s' B' ws where "serve put c1 d2 s2 = Some (d', c', s')" "inv (L \<union> B \<union> B') K d' s'"
      "items d' = items d2 @ ws" "set (oom s') \<subseteq> set (oom s2)" by blast
    moreover from this have "serve put c d s = Some (d', c', s')" using r Some p(1) by (subst serve.simps) simp
    moreover have "\<exists>vs. items d2 @ ws = items d @ vs" using p(3) by auto
    ultimately show ?thesis using p(4) S by (metis (no_types, lifting) Un_assoc subset_trans)
  qed
qed

text \<open>The messages of a connection are handed over in order; a message that broke off is dropped.\<close>

lemma serve_delivers:
  assumes "inv L K d s" "conn_ok c" "stream c = concat (map encode ws) @ rest" "True \<notin> set (oom s)"
    and "\<forall>w \<in> set ws. sendable w \<and> is_cstr (chars (city w)) \<and> is_cstr (chars (dest_node w))"
    and "rest = [] \<or> (\<exists>w z. encode w = rest @ z \<and> z \<noteq> [] \<and> sendable w \<and> is_cstr (chars (city w)) \<and> is_cstr (chars (dest_node w)))"
  shows "\<exists>d' c' s' vs. serve put c d s = Some (d', c', s') \<and> inv L K d' s' \<and> items d' = items d @ vs \<and>
    map view vs = map view ws \<and> True \<notin> set (oom s')"
  using assms
proof (induction ws arbitrary: c d s)
  case Nil
  have ok: "os_ok s" "socks s = K" using inv_ok [OF Nil.prems(1)] by auto
  have "\<exists>c1 s1. deserialize_warning c s = (None, c1, s1)"
  proof (cases "rest = []")
    case True
    show ?thesis
    proof (cases "deserialize_warning c s")
      case (fields r c1 s1)
      with deserialize_shorter [of c s _ c1 s1] Nil.prems(3) True show ?thesis by (cases r) auto
    qed
  next
    case False
    with Nil.prems(6) obtain w z where w: "encode w = rest @ z" "z \<noteq> []" "sendable w" "is_cstr (chars (city w))" "is_cstr (chars (dest_node w))"
      by blast
    have "encode w = stream c @ z" using w(1) Nil.prems(3) by simp
    from deserialize_broken [OF Nil.prems(2) this w(2) ok(1) Nil.prems(4)] w(3-5) show ?thesis by (auto simp: sendable_def)
  qed
  then obtain c1 s1 where r: "deserialize_warning c s = (None, c1, s1)" by blast
  from deserialize_safe [OF ok(1) r] deserialize_oom [OF r] inv_frame [OF Nil.prems(1), of s1 "[]"] ok(2) Nil.prems(4)
  have "inv L K d s1" "True \<notin> set (oom s1)" by auto
  with r show ?case by (subst serve.simps) simp
next
  case (Cons w ws)
  have ok: "os_ok s" "socks s = K" using inv_ok [OF Cons.prems(1)] by auto
  have w: "sendable w" "is_cstr (chars (city w))" "is_cstr (chars (dest_node w))" using Cons.prems(5) by auto
  have "stream c = encode w @ concat (map encode ws) @ rest" using Cons.prems(3) by simp
  from deserialize_encode [OF Cons.prems(2) this ok(1) Cons.prems(4)] w obtain v c1 s1
    where r: "deserialize_warning c s = (Some v, c1, s1)" "view v = view w" "conn_ok c1" "stream c1 = concat (map encode ws) @ rest"
    by (auto simp: sendable_def)
  note S = deserialize_safe [OF ok(1) r(1)] deserialize_oom [OF r(1)]
  from S ok(2) inv_frame [OF Cons.prems(1), of s1 "warning_blks v"]
  have f: "inv (L \<union> set (warning_blks v)) K d s1" "distinct (warning_blks v)" "set (warning_blks v) \<inter> L = {}" by auto
  have o: "True \<notin> set (oom s1)" using S Cons.prems(4) by blast
  from put_safe [OF f] o obtain d2 s2 where p: "put v d s1 = Some (d2, s2)" "inv L K d2 s2" "items d2 = items d @ [v]" "True \<notin> set (oom s2)"
    by auto
  from Cons.IH [OF p(2) r(3,4) p(4)] Cons.prems(5,6) obtain d' c' s' vs where "serve put c1 d2 s2 = Some (d', c', s')"
    "inv L K d' s'" "items d' = items d2 @ vs" "map view vs = map view ws" "True \<notin> set (oom s')" by auto
  with r(1,2) p(1,3) show ?case by (subst serve.simps) (auto intro!: exI [of _ "v # vs"])
qed

text \<open>The accept loop: the sockets of the clients are closed again.\<close>

lemma inv_accept:
  assumes "inv L K d s"
  shows "inv L (insert k K) d (s\<lparr>socks := insert k (socks s)\<rparr>)"
  using inv_socks [OF assms, of "insert k K"] inv_ok [OF assms] by simp

lemma inv_close:
  assumes "inv L (insert k K) d s" "k \<notin> K"
  shows "inv L K d (closesocket k s)"
  using inv_socks [OF assms(1), of K] inv_ok [OF assms(1)] assms(2) by (simp add: closesocket_def)

lemma accept_loop_safe:
  assumes "inv L K d s" "\<forall>k c. Client k c \<in> set rs \<longrightarrow> k \<notin> K"
  shows "\<exists>e d' s' B ws. accept_loop put rs d s = Some (e, d', s') \<and> inv (L \<union> B) K d' s' \<and> items d' = items d @ ws \<and>
    (e \<longleftrightarrow> Exit \<in> set rs)"
  using assms
proof (induction rs arbitrary: d s L)
  case Nil
  then show ?case by (intro exI [of _ False] exI [of _ d] exI [of _ s] exI [of _ "{}"] exI [of _ "[]"]) simp
next
  case (Cons r rs)
  show ?case
  proof (cases r)
    case Exit
    with Cons.prems show ?thesis by (intro exI [of _ True] exI [of _ d] exI [of _ s] exI [of _ "{}"] exI [of _ "[]"]) simp
  next
    case Accept_fails
    with Cons.IH [OF Cons.prems(1)] Cons.prems(2) show ?thesis by auto
  next
    case (Client k c)
    with Cons.prems(2) have k: "k \<notin> K" by auto
    from serve_safe [OF inv_accept [OF Cons.prems(1)]] obtain d1 c1 s1 B ws
      where d1: "serve put c d (s\<lparr>socks := insert k (socks s)\<rparr>) = Some (d1, c1, s1)" "inv (L \<union> B) (insert k K) d1 s1" "items d1 = items d @ ws"
      by blast
    have "\<forall>k c. Client k c \<in> set rs \<longrightarrow> k \<notin> K" using Cons.prems(2) by simp
    from Cons.IH [OF inv_close [OF d1(2) k] this] obtain e d' s' B' ws'
      where "accept_loop put rs d1 (closesocket k s1) = Some (e, d', s')" "inv (L \<union> B \<union> B') K d' s'" "items d' = items d1 @ ws'"
        "e \<longleftrightarrow> Exit \<in> set rs" by blast
    with d1 Client show ?thesis
      by (intro exI [of _ e] exI [of _ d'] exI [of _ s'] exI [of _ "B \<union> B'"] exI [of _ "ws @ ws'"]) (simp add: Un_assoc)
  qed
qed

lemma accept_loop_delivers:
  assumes "inv L K d s" "True \<notin> set (oom s)" "\<forall>k c. Client k c \<in> set rs \<longrightarrow> k \<notin> K \<and> carries c (sent c)"
  shows "\<exists>e d' s' vs. accept_loop put rs d s = Some (e, d', s') \<and> inv L K d' s' \<and> items d' = items d @ vs \<and>
    map view vs = concat (map (\<lambda>r. case r of Client k c \<Rightarrow> map view (sent c) | _ \<Rightarrow> []) (takeWhile (\<lambda>r. r \<noteq> Exit) rs)) \<and>
    (e \<longleftrightarrow> Exit \<in> set rs) \<and> True \<notin> set (oom s')"
  using assms
proof (induction rs arbitrary: d s)
  case (Cons r rs)
  show ?case
  proof (cases r)
    case Exit
    with Cons.prems show ?thesis by auto
  next
    case Accept_fails
    with Cons.IH [OF Cons.prems(1,2)] Cons.prems(3) show ?thesis by auto
  next
    case (Client k c)
    with Cons.prems(3) have k: "k \<notin> K" "carries c (sent c)" by auto
    let ?s = "s\<lparr>socks := insert k (socks s)\<rparr>"
    from k(2) obtain rest where c: "conn_ok c" "stream c = concat (map encode (sent c)) @ rest"
      "\<forall>w \<in> set (sent c). sendable w \<and> is_cstr (chars (city w)) \<and> is_cstr (chars (dest_node w))"
      "rest = [] \<or> (\<exists>w z. encode w = rest @ z \<and> z \<noteq> [] \<and> sendable w \<and> is_cstr (chars (city w)) \<and> is_cstr (chars (dest_node w)))"
      unfolding carries_def by blast
    have "True \<notin> set (oom ?s)" using Cons.prems(2) by simp
    from serve_delivers [OF inv_accept [OF Cons.prems(1)] c(1,2) this c(3,4)] obtain d1 c1 s1 vs
      where d1: "serve put c d ?s = Some (d1, c1, s1)" "inv L (insert k K) d1 s1" "items d1 = items d @ vs"
        "map view vs = map view (sent c)" "True \<notin> set (oom s1)" by blast
    have "True \<notin> set (oom (closesocket k s1))" using d1(5) by simp
    from Cons.IH [OF inv_close [OF d1(2) k(1)] this] Cons.prems(3) obtain e d' s' us
      where "accept_loop put rs d1 (closesocket k s1) = Some (e, d', s')" "inv L K d' s'" "items d' = items d1 @ us"
        "map view us = concat (map (\<lambda>r. case r of Client k c \<Rightarrow> map view (sent c) | _ \<Rightarrow> []) (takeWhile (\<lambda>r. r \<noteq> Exit) rs))"
        "e \<longleftrightarrow> Exit \<in> set rs" "True \<notin> set (oom s')" by auto
    with d1 Client show ?thesis by auto
  qed
qed auto

end

section \<open>The dispatcher as a receiver\<close>

lemma submit_oom:
  assumes "cp_dispatcher_submit d w s = Some (d', s')"
  shows "set (oom s') \<subseteq> set (oom s)"
  using assms
  by (auto simp: cp_dispatcher_submit_def tp_submit_def tp_submit_rest_def Let_def warning_destroy_oom free_blk_oom
      split: prod.splits option.splits if_splits dest!: malloc_oom enqueue_oom)

lemma disp_ok_frame:
  assumes "disp_ok L K d s" "os_ok s'" "live s' = live s \<union> set B" "live s \<inter> set B = {}" "distinct B" "socks s' = K"
  shows "disp_ok (L \<union> set B) K d s' \<and> set B \<inter> L = {}"
proof -
  from assms(1) have "qholds L K task_own (disp_blks d) (dqueue d) s" "socks s = K" by (auto simp: disp_ok_def qholds_def)
  from qholds_yield [OF qholds_frame [OF this(1) assms(2,3)]] assms(4-6) this(2) assms(1) show ?thesis
    by (auto simp: disp_ok_def)
qed

lemma disp_ok_socks: "disp_ok L K d s \<Longrightarrow> disp_ok L K' d (s\<lparr>socks := K'\<rparr>)"
  using tsq_ok_frame [of "dqueue d" s "s\<lparr>socks := K'\<rparr>"] qholds_ok [of L K task_own "disp_blks d" "dqueue d" s]
  by (auto simp: disp_ok_def qholds_def os_ok_def)

interpretation cps: sink "cp_put f l" disp_ok pending
proof (unfold_locales, goal_cases)
  case (1 L K d s)
  then show ?case by (simp add: disp_ok_def qholds_def tsq_ok_def queue_ok_def)
next
  case (2 L K d s s' B)
  then show ?case by (rule disp_ok_frame)
next
  case (3 L K d s K')
  then show ?case by (rule disp_ok_socks)
next
  case (4 L w K d s)
  note a = this
  obtain desc s1 where p: "warning_to_string f l (Some w) s = (desc, s1)" by force
  let ?s = "case desc of None \<Rightarrow> s1 | Some h \<Rightarrow> free_str h s1"
  have ok: "os_ok s" "socks s = K" using a(1) qholds_ok by (auto simp: disp_ok_def qholds_def tsq_ok_def queue_ok_def)
  note P = print_warning [OF ok(1) p]
  have "disp_ok (L \<union> set (warning_blks w)) K d ?s" using disp_ok_frame [OF a(1), of ?s "[]"] P ok(2) by simp
  from cp_dispatcher_submit_spec [OF this a(2,3)] obtain d' s' where e: "cp_dispatcher_submit d w ?s = Some (d', s')"
    "pending d' = pending d @ [w] \<and> disp_ok L K d' s' \<or>
     pending d' = pending d \<and> disp_ok L K d' s' \<and> True \<in> set (oom ?s) \<or>
     pending d' = pending d \<and> True \<in> set (oom ?s) \<and> (\<exists>B. disp_ok (L \<union> set B) K d' s')" by blast
  have put: "cp_put f l w d s = Some (d', s')" using p e(1) by (simp add: cp_put_def)
  have o: "set (oom s') \<subseteq> set (oom s)" using submit_oom [OF e(1)] P by blast
  have T: "True \<notin> set (oom s) \<Longrightarrow> True \<notin> set (oom ?s)" using P by blast
  from e(2) consider (A) "pending d' = pending d @ [w]" "disp_ok L K d' s'"
    | (R) "pending d' = pending d" "disp_ok L K d' s'" "True \<in> set (oom ?s)"
    | (Lk) B where "pending d' = pending d" "True \<in> set (oom ?s)" "disp_ok (L \<union> set B) K d' s'" by blast
  then show ?case
  proof cases
    case A
    then show ?thesis using put o by (intro exI [of _ d'] exI [of _ s'] exI [of _ "{}"]) simp
  next
    case R
    then show ?thesis using put o T by (intro exI [of _ d'] exI [of _ s'] exI [of _ "{}"]) auto
  next
    case (Lk B)
    then show ?thesis using put o T by (intro exI [of _ d'] exI [of _ s'] exI [of _ "set B"]) auto
  qed
qed

section \<open>Properties\<close>

text \<open>
  C17. The listener of a central propagator hands over what was sent: when the clients' connections
  carry encoded warnings, each perhaps followed by a message that breaks off, in chunks of any size, and no
  allocation fails, then after any number of rounds the dispatcher holds exactly these warnings,
  connection by connection and in the order they were sent; what broke off is dropped.  The
  sockets of the clients are closed, and after the exit event the listening socket is closed as
  well and everything on the heap belongs to the dispatcher.
\<close>

theorem cp_listener_delivers:
  assumes "os_ok s" "cp_dispatcher_create ctx n s = Some (Some d, s1)" "True \<notin> set (oom s1)"
    and "ls \<notin> socks s" "\<forall>k c. Client k c \<in> set rs \<longrightarrow> k \<notin> insert ls (socks s) \<and> carries c (sent c)"
  shows "\<exists>e d' s'. cp_listener_run f l ls rs d s1 = Some (e, d', s') \<and>
    map view (pending d') = concat (map (\<lambda>r. case r of Client k c \<Rightarrow> map view (sent c) | _ \<Rightarrow> []) (takeWhile (\<lambda>r. r \<noteq> Exit) rs)) \<and>
    (e \<longleftrightarrow> Exit \<in> set rs) \<and> os_ok s' \<and> (e \<longrightarrow> disp_ok (live s) (socks s) d' s')"
proof -
  from cp_dispatcher_create_spec [OF assms(1,2)] have d: "disp_ok (live s) (socks s) d s1" "pending d = []" by auto
  let ?K = "if ls = INVALID_SOCKET then socks s else insert ls (socks s)"
  let ?s = "if ls = INVALID_SOCKET then s1 else s1\<lparr>socks := insert ls (socks s1)\<rparr>"
  have i: "disp_ok (live s) ?K d ?s" using d(1) cps.inv_accept [OF d(1)] by simp
  have "True \<notin> set (oom ?s)" using assms(3) by simp
  moreover have "\<forall>k c. Client k c \<in> set rs \<longrightarrow> k \<notin> ?K \<and> carries c (sent c)" using assms(5) by auto
  ultimately obtain e d' s' vs where e: "accept_loop (cp_put f l) rs d ?s = Some (e, d', s')" "disp_ok (live s) ?K d' s'"
    "pending d' = pending d @ vs"
    "map view vs = concat (map (\<lambda>r. case r of Client k c \<Rightarrow> map view (sent c) | _ \<Rightarrow> []) (takeWhile (\<lambda>r. r \<noteq> Exit) rs))"
    "e \<longleftrightarrow> Exit \<in> set rs" using cps.accept_loop_delivers [OF i, of rs sent f l] by blast
  let ?s' = "if e then closesocket ls s' else s'"
  have run: "cp_listener_run f l ls rs d s1 = Some (e, d', ?s')" using e(1) by (cases e) (simp_all add: cp_listener_run_def Let_def)
  have "disp_ok (live s) (socks s) d' (closesocket ls s')"
  proof (cases "ls = INVALID_SOCKET")
    case True
    with e(2) assms(4) have "closesocket ls s' = s'" "?K = socks s" by (auto simp: closesocket_def disp_ok_def qholds_def)
    with e(2) True show ?thesis by simp
  next
    case False
    with e(2) cps.inv_close assms(4) show ?thesis by simp
  qed
  moreover have "os_ok s'" using cps.inv_ok [OF e(2)] by simp
  ultimately show ?thesis using run e(3-5) d(2) cps.inv_ok by (intro exI [of _ e] exI [of _ d'] exI [of _ ?s']) auto
qed

text \<open>
  C19. Nothing that arrives from the network harms the listener: for every byte stream of every
  client, every pattern of allocation failures and every sequence of rounds the listener comes
  back to its accept loop, with no undefined behaviour, and keeps the warnings that were pending.
\<close>

theorem cp_listener_safe:
  assumes "os_ok s" "cp_dispatcher_create ctx n s = Some (Some d, s1)"
    and "\<forall>k c. Client k c \<in> set rs \<longrightarrow> k \<notin> insert ls (socks s)"
  shows "\<exists>e d' s'. cp_listener_run f l ls rs d s1 = Some (e, d', s') \<and> os_ok s' \<and> (e \<longleftrightarrow> Exit \<in> set rs) \<and>
    socks s' \<subseteq> insert ls (socks s)"
proof -
  from cp_dispatcher_create_spec [OF assms(1,2)] have d: "disp_ok (live s) (socks s) d s1" "pending d = []" by auto
  let ?K = "if ls = INVALID_SOCKET then socks s else insert ls (socks s)"
  let ?s = "if ls = INVALID_SOCKET then s1 else s1\<lparr>socks := insert ls (socks s1)\<rparr>"
  have i: "disp_ok (live s) ?K d ?s" using d(1) cps.inv_accept [OF d(1)] by simp
  have "\<forall>k c. Client k c \<in> set rs \<longrightarrow> k \<notin> ?K" using assms(3) by auto
  from cps.accept_loop_safe [OF i this, of f l] obtain e d' s' B where e: "accept_loop (cp_put f l) rs d ?s = Some (e, d', s')"
    "disp_ok (live s \<union> B) ?K d' s'" "e \<longleftrightarrow> Exit \<in> set rs" by blast
  let ?s' = "if e then closesocket ls s' else s'"
  have run: "cp_listener_run f l ls rs d s1 = Some (e, d', ?s')" using e(1) by (cases e) (simp_all add: cp_listener_run_def Let_def)
  have "os_ok s'" "socks s' = ?K" using cps.inv_ok [OF e(2)] by auto
  then have "os_ok ?s'" "socks ?s' \<subseteq> insert ls (socks s)" by (auto simp: closesocket_def os_ok_def)
  with run e(3) show ?thesis by blast
qed

definition demo_ctx :: CPContext where
  "demo_ctx = \<lparr>cmap = None, me = 0, cchildren = [], cchildren_blk = None, cchild_count = 0,
     all_nodes = \<lparr>arr = [], arr_blk = 0\<rparr>, ctx_blk = 0\<rparr>"

lemma demo_dispatcher: "\<exists>d s1. cp_dispatcher_create demo_ctx 2 fresh_os = Some (Some d, s1) \<and> oom s1 = []"
  by (simp add: cp_dispatcher_create_def tp_create_def tsqueue_create_def queue_create_def malloc_def fresh_os_def)

lemma demo_carries: "carries \<lparr>chunks = [encode demo_warning, [0, 0]], fin = Failed\<rparr> [demo_warning]"
proof -
  have s: "sendable demo_warning" "is_cstr (chars (city demo_warning))" "is_cstr (chars (dest_node demo_warning))"
    unfolding sendable_def by (simp add: demo_warning_def, code_simp, code_simp)
  have n: "encode demo_warning \<noteq> []" using length_encode(1) [OF s(1)] by auto
  have "\<exists>z. encode demo_warning = [0, 0] @ z \<and> z \<noteq> []"
    by (intro exI [of _ "drop 2 (encode demo_warning)"]) code_simp
  with s n show ?thesis by (auto simp: carries_def conn_ok_def stream_def)
qed

theorem cp_listener_delivers_witness:
  "\<exists>d s1 e d' s'. cp_dispatcher_create demo_ctx 2 fresh_os = Some (Some d, s1) \<and>
     cp_listener_run (\<lambda>_. []) (\<lambda>_. \<lparr>tm_mday = 1, tm_mon = 0, tm_year = 0, tm_hour = 0, tm_min = 0, tm_sec = 0\<rparr>) 9
       [Client 7 \<lparr>chunks = [encode demo_warning, [0, 0]], fin = Failed\<rparr>, Exit] d s1 = Some (e, d', s') \<and>
     map view (pending d') = [view demo_warning] \<and> e"
proof -
  from demo_dispatcher obtain d s1 where d: "cp_dispatcher_create demo_ctx 2 fresh_os = Some (Some d, s1)" "oom s1 = []" by blast
  let ?c = "\<lparr>chunks = [encode demo_warning, [0, 0]], fin = Failed\<rparr>"
  have "True \<notin> set (oom s1)" "9 \<notin> socks fresh_os" using d(2) by simp_all
  moreover have "\<forall>k c. Client k c \<in> set [Client 7 ?c, Exit] \<longrightarrow> k \<notin> insert 9 (socks fresh_os) \<and> carries c [demo_warning]"
    using demo_carries by simp
  ultimately show ?thesis
    using cp_listener_delivers [OF fresh_os_ok(1) d(1), of 9 "[Client 7 ?c, Exit]" "\<lambda>_. [demo_warning]"] d(1) by fastforce
qed

theorem cp_listener_safe_witness:
  "\<exists>d s1 e d' s'. cp_dispatcher_create demo_ctx 2 fresh_os = Some (Some d, s1) \<and>
     cp_listener_run (\<lambda>_. []) (\<lambda>_. \<lparr>tm_mday = 1, tm_mon = 0, tm_year = 0, tm_hour = 0, tm_min = 0, tm_sec = 0\<rparr>) 9
       [Client 7 \<lparr>chunks = [[255, 255], [255, 255, 1]], fin = Closed\<rparr>, Accept_fails] d s1 = Some (e, d', s') \<and> \<not> e \<and> os_ok s'"
proof -
  from demo_dispatcher obtain d s1 where d: "cp_dispatcher_create demo_ctx 2 fresh_os = Some (Some d, s1)" by blast
  let ?rs = "[Client 7 \<lparr>chunks = [[255, 255], [255, 255, 1]], fin = Closed\<rparr>, Accept_fails]"
  have "\<forall>k c. Client k c \<in> set ?rs \<longrightarrow> k \<notin> insert 9 (socks fresh_os)" by simp
  from cp_listener_safe [OF fresh_os_ok(1) d this] d show ?thesis by fastforce
qed

end
