(* ===== verification/Propagator.thy ===== *)
theory Propagator
  imports SharedHeap Listener
begin

text \<open>
  A central propagator at work (\<open>CentralPropagator/main.c\<close> and all it starts): the listener thread, the
  workers of the thread pool and the main thread, which waits for the exit event and then shuts the
  dispatcher down.  The step relation \<open>cstep\<close> interleaves them on one heap, one table of
  connections and one queue; the calls that take a lock or that make a system call are single
  steps.  The listener's submission is one step here (\<open>ThreadPool\<close> splits it).
\<close>

section \<open>The parts of a send\<close>

text \<open>
  \<open>send_warning_to\<close> holds the lock of the table only while it looks for the connection and while it
  closes one, so it has three parts: up to the allocated buffer, the call of \<open>send\<close>, and what
  follows a short send.
\<close>

definition send_open :: "string \<Rightarrow> u16 \<Rightarrow> net \<Rightarrow> os \<Rightarrow> (SOCKET \<times> nat) option \<times> net \<times> os" where
  "send_open address port n s =
     (case get_or_create_connection address port (tab n) s of
        (k, t, s) \<Rightarrow>
          (let n = n\<lparr>tab := t\<rparr>
           in if k = INVALID_SOCKET then (None, n, s)
              else (case malloc s of (None, s) \<Rightarrow> (None, n, s) | (Some buf, s) \<Rightarrow> (Some (k, buf), n, s))))"

definition send_data :: "SOCKET \<Rightarrow> nat \<Rightarrow> Warning \<Rightarrow> net \<Rightarrow> os \<Rightarrow> bool \<times> net \<times> os" where
  "send_data k buf w n s =
     (let buf_len = encode_len w;
          s = (if unat buf_len < length (encode w) then s\<lparr>ub := True\<rparr> else s)
      in (case sys_send k (encode w) (sint buf_len) n of (sent, n) \<Rightarrow> (sent = sint buf_len, n, free_blk buf s)))"

definition send_failed :: "string \<Rightarrow> u16 \<Rightarrow> net \<Rightarrow> os \<Rightarrow> net \<times> os" where
  "send_failed address port n s = (case close_connection address port (tab n) s of (t, s) \<Rightarrow> (n\<lparr>tab := t\<rparr>, s))"

lemma send_warning_parts:
  "send_warning_to a p w n s =
     (case send_open a p n s of
        (None, n, s) \<Rightarrow> (False, n, s)
      | (Some (k, b), n, s) \<Rightarrow>
          (case send_data k b w n s of
             (True, n, s) \<Rightarrow> (True, n, s)
           | (False, n, s) \<Rightarrow> (case send_failed a p n s of (n, s) \<Rightarrow> (False, n, s))))"
  by (simp add: send_warning_to_def send_open_def send_data_def send_failed_def Let_def split: prod.split option.split bool.split)

section \<open>The system\<close>

type_synonym task = "(task_fn, DispatchJob) Task"

text \<open>
  The listener waits in \<open>accept\<close>, reads from a client, or has left its loop.  A worker waits for a
  task, has one, is about to call \<open>send\<close> with a socket and a buffer, is about to close a connection
  after a short send, or has left its loop.
\<close>

datatype cp_listener = Accepts | Reads SOCKET conn | Left_loop

datatype cp_worker = Idle | Has task | Sends task string u16 SOCKET nat | Closes task string u16 | Gone

text \<open>The main thread waits for the exit event, sends NULL items, has freed the dispatcher, or has
  cleaned up.\<close>

datatype cp_stage = Up | Stopping nat | Down | Clean

record cpsys =
  cdisp :: CPDispatcher
  cnet :: net
  cheap :: os
  clst :: cp_listener
  cwork :: "cp_worker list"
  cstage :: cp_stage
  cexit :: bool
  crecv :: "Warning list"
  clog :: "(string \<times> u16 \<times> Warning \<times> bool) list"

text \<open>Address and port of the hop that \<open>dispatch_job_fn\<close> chooses.\<close>

definition hop_of :: "CPContext \<Rightarrow> Warning \<Rightarrow> (string \<times> u16) option" where
  "hop_of ctx w =
     (case dispatch_hop ctx w of
        None \<Rightarrow> None
      | Some h \<Rightarrow>
          (case naddress (arr (all_nodes ctx) ! h) of
             None \<Rightarrow> None
           | Some a \<Rightarrow> Some (chars a, nport (arr (all_nodes ctx) ! h))))"

text \<open>The end of a job and of its task.\<close>

definition end_task :: "task \<Rightarrow> os \<Rightarrow> os" where
  "end_task t s = free_task t (free_blk (job_blk (arg t)) (warning_destroy (Some (jw (arg t))) s))"

inductive cstep :: "(conn \<Rightarrow> bool) \<Rightarrow> (u64 \<Rightarrow> string) \<Rightarrow> (u64 \<Rightarrow> tm) \<Rightarrow> SOCKET \<Rightarrow> nat \<Rightarrow> cpsys \<Rightarrow> cpsys \<Rightarrow> bool"
  for good fmt2f localtime listen_sock args where
  accept: "clst c = Accepts \<Longrightarrow> good cn \<Longrightarrow> k \<noteq> INVALID_SOCKET \<Longrightarrow> k \<notin> socks (cheap c) \<Longrightarrow>
    k \<notin> set (new_socks (tab (cnet c))) \<Longrightarrow> k \<notin> fst ` set (wire (cnet c)) \<Longrightarrow>
    cstep good fmt2f localtime listen_sock args c
      (c\<lparr>clst := Reads k cn, cheap := (cheap c)\<lparr>socks := insert k (socks (cheap c))\<rparr>\<rparr>)"
| exit_seen: "clst c = Accepts \<Longrightarrow> cexit c \<Longrightarrow>
    cstep good fmt2f localtime listen_sock args c
      (c\<lparr>clst := Left_loop, cheap := free_blk args (closesocket listen_sock (cheap c))\<rparr>)"
| read_warning: "clst c = Reads k cn \<Longrightarrow> deserialize_warning cn (cheap c) = (Some w, cn', s) \<Longrightarrow> cstage c = Up \<or> (\<exists>i. cstage c = Stopping i) \<Longrightarrow>
    cp_put fmt2f localtime w (cdisp c) s = Some (d, s') \<Longrightarrow>
    cstep good fmt2f localtime listen_sock args c
      (c\<lparr>clst := Reads k cn', cdisp := d, cheap := s',
         crecv := (if length (pending (cdisp c)) < length (pending d) then crecv c @ [w] else crecv c)\<rparr>)"
| read_dangling: "clst c = Reads k cn \<Longrightarrow> deserialize_warning cn (cheap c) = (Some w, cn', s) \<Longrightarrow> cstage c = Down \<or> cstage c = Clean \<Longrightarrow>
    cstep good fmt2f localtime listen_sock args c (c\<lparr>clst := Reads k cn', cheap := s\<lparr>ub := True\<rparr>\<rparr>)"
| read_end: "clst c = Reads k cn \<Longrightarrow> deserialize_warning cn (cheap c) = (None, cn', s) \<Longrightarrow>
    cstep good fmt2f localtime listen_sock args c (c\<lparr>clst := Accepts, cheap := closesocket k s\<rparr>)"
| take: "i < length (cwork c) \<Longrightarrow> cwork c ! i = Idle \<Longrightarrow> tsqueue_dequeue (dqueue (cdisp c)) (cheap c) = Some (Some t, q, s) \<Longrightarrow>
    cstep good fmt2f localtime listen_sock args c
      (c\<lparr>cdisp := (cdisp c)\<lparr>dpool := (dpool (cdisp c))\<lparr>pqueue := q\<rparr>\<rparr>, cheap := s, cwork := (cwork c)[i := Has t]\<rparr>)"
| take_null: "i < length (cwork c) \<Longrightarrow> cwork c ! i = Idle \<Longrightarrow> tsqueue_dequeue (dqueue (cdisp c)) (cheap c) = Some (None, q, s) \<Longrightarrow>
    cstep good fmt2f localtime listen_sock args c
      (c\<lparr>cdisp := (cdisp c)\<lparr>dpool := (dpool (cdisp c))\<lparr>pqueue := q\<rparr>\<rparr>, cheap := s, cwork := (cwork c)[i := Gone]\<rparr>)"
| connect: "i < length (cwork c) \<Longrightarrow> cwork c ! i = Has t \<Longrightarrow> hop_of (jctx (arg t)) (jw (arg t)) = Some (a, p) \<Longrightarrow>
    send_open a p (cnet c) (cheap c) = (Some (k, b), n, s) \<Longrightarrow>
    cstep good fmt2f localtime listen_sock args c (c\<lparr>cnet := n, cheap := s, cwork := (cwork c)[i := Sends t a p k b]\<rparr>)"
| no_connection: "i < length (cwork c) \<Longrightarrow> cwork c ! i = Has t \<Longrightarrow> hop_of (jctx (arg t)) (jw (arg t)) = Some (a, p) \<Longrightarrow>
    send_open a p (cnet c) (cheap c) = (None, n, s) \<Longrightarrow>
    cstep good fmt2f localtime listen_sock args c
      (c\<lparr>cnet := n, cheap := end_task t s, cwork := (cwork c)[i := Idle], clog := clog c @ [(a, p, jw (arg t), False)]\<rparr>)"
| no_hop: "i < length (cwork c) \<Longrightarrow> cwork c ! i = Has t \<Longrightarrow> hop_of (jctx (arg t)) (jw (arg t)) = None \<Longrightarrow>
    cstep good fmt2f localtime listen_sock args c (c\<lparr>cheap := (cheap c)\<lparr>ub := True\<rparr>\<rparr>)"
| send: "i < length (cwork c) \<Longrightarrow> cwork c ! i = Sends t a p k b \<Longrightarrow> send_data k b (jw (arg t)) (cnet c) (cheap c) = (True, n, s) \<Longrightarrow>
    cstep good fmt2f localtime listen_sock args c
      (c\<lparr>cnet := n, cheap := end_task t s, cwork := (cwork c)[i := Idle], clog := clog c @ [(a, p, jw (arg t), True)]\<rparr>)"
| short_send: "i < length (cwork c) \<Longrightarrow> cwork c ! i = Sends t a p k b \<Longrightarrow> send_data k b (jw (arg t)) (cnet c) (cheap c) = (False, n, s) \<Longrightarrow>
    cstep good fmt2f localtime listen_sock args c (c\<lparr>cnet := n, cheap := s, cwork := (cwork c)[i := Closes t a p]\<rparr>)"
| close: "i < length (cwork c) \<Longrightarrow> cwork c ! i = Closes t a p \<Longrightarrow> send_failed a p (cnet c) (cheap c) = (n, s) \<Longrightarrow>
    cstep good fmt2f localtime listen_sock args c
      (c\<lparr>cnet := n, cheap := end_task t s, cwork := (cwork c)[i := Idle], clog := clog c @ [(a, p, jw (arg t), False)]\<rparr>)"
| exit_event: "cstep good fmt2f localtime listen_sock args c (c\<lparr>cexit := True\<rparr>)"
| shutdown: "cexit c \<Longrightarrow> cstage c = Up \<Longrightarrow>
    cstep good fmt2f localtime listen_sock args c
      (c\<lparr>cdisp := (cdisp c)\<lparr>dpool := (dpool (cdisp c))\<lparr>shutting_down := True\<rparr>\<rparr>, cstage := Stopping 0\<rparr>)"
| sentinel: "cstage c = Stopping i \<Longrightarrow> i < thread_count (dpool (cdisp c)) \<Longrightarrow>
    tsqueue_enqueue (dqueue (cdisp c)) None (cheap c) = Some (r, q, s) \<Longrightarrow>
    cstep good fmt2f localtime listen_sock args c
      (c\<lparr>cdisp := (cdisp c)\<lparr>dpool := (dpool (cdisp c))\<lparr>pqueue := q\<rparr>\<rparr>, cheap := s, cstage := Stopping (i + 1)\<rparr>)"
| join: "cstage c = Stopping (thread_count (dpool (cdisp c))) \<Longrightarrow> \<forall>w \<in> set (cwork c). w = Gone \<Longrightarrow>
    cp_dispatcher_free (Some (cdisp c)) (cheap c) = Some s \<Longrightarrow>
    cstep good fmt2f localtime listen_sock args c (c\<lparr>cheap := s, cstage := Down\<rparr>)"
| clean: "cstage c = Down \<Longrightarrow> connections_cleanup (tab (cnet c)) (cp_context_destroy (Some (dctx (cdisp c))) (cheap c)) = (t, s) \<Longrightarrow>
    cstep good fmt2f localtime listen_sock args c (c\<lparr>cnet := (cnet c)\<lparr>tab := t\<rparr>, cheap := s, cstage := Clean\<rparr>)"

text \<open>The start: the listener waits for its first client, the workers for tasks.\<close>

definition cstart :: "nat \<Rightarrow> CPDispatcher \<Rightarrow> net \<Rightarrow> os \<Rightarrow> cpsys" where
  "cstart k d n s = \<lparr>cdisp = d, cnet = n, cheap = s, clst = Accepts, cwork = replicate k Idle, cstage = Up, cexit = False,
     crecv = [], clog = []\<rparr>"

section \<open>What the parts of a send do\<close>

lemma send_open_spec:
  assumes "connections_map (tab n) = Some m" "shares own L K m q X s" "names_apart n s" "True \<notin> set (oom s)"
    and "send_open a p n s = (r, n', s')"
  shows "\<exists>m'. connections_map (tab n') = Some m' \<and> names_apart n' s' \<and> True \<notin> set (oom s') \<and> wire n' = wire n \<and>
    sends n' = sends n \<and> set (new_socks (tab n')) \<subseteq> set (new_socks (tab n)) \<and>
    (case r of None \<Rightarrow> shares own L K m' q X s' \<and> answers m' = answers m
     | Some (k, b) \<Rightarrow> shares own L K m' q (b # X) s' \<and> k \<notin> set (new_socks (tab n')) \<and>
         (\<forall>a' p'. answers m' a' p' = (if a' = a \<and> p' = p then Some k else answers m a' p')) \<and>
         (answers m a p = Some k \<or> answers m a p = None \<and> k \<notin> fst ` set (wire n)))"
proof -
  from assms(2) have c: "conn_inv (live s - set (conn.hm_blks m)) K m s" by (simp add: shares_def)
  obtain k t s1 where g: "get_or_create_connection a p (tab n) s = (k, t, s1)" by (metis prod.exhaust)
  from get_step [OF assms(1) c assms(3) g] obtain m' where
    m': "connections_map t = Some m'" "conn_inv (live s - set (conn.hm_blks m)) K m' s1" "names_apart (n\<lparr>tab := t\<rparr>) s1"
      "\<And>a' p'. answers m' a' p' = (if k \<noteq> INVALID_SOCKET \<and> a' = a \<and> p' = p then Some k else answers m a' p')"
      "k \<noteq> INVALID_SOCKET \<Longrightarrow> k \<notin> set (new_socks t) \<and> (answers m a p = Some k \<or> answers m a p = None \<and> k \<notin> socks s \<union> fst ` set (wire n))"
    by blast
  note S = shares_table [OF assms(2) m'(2)]
  have "conn.hm_owned m s" using c by (simp add: conn_inv_def)
  from get_or_create_oom [OF assms(1) this g] assms(4) have o: "True \<notin> set (oom s1)" by blast
  have ns: "set (new_socks t) \<subseteq> set (new_socks (tab n))"
    using get_or_create_new_socks [OF g] by (cases "new_socks (tab n)") auto
  show ?thesis
  proof (cases "k = INVALID_SOCKET")
    case True
    with assms(5) g have e: "r = None" "n' = n\<lparr>tab := t\<rparr>" "s' = s1" by (simp_all add: send_open_def Let_def)
    have "answers m' = answers m" using m'(4) True by (intro ext) simp
    with e m'(1,3) S o ns show ?thesis by (intro exI [of _ m'] conjI) simp_all
  next
    case False
    from malloc_succeeds [OF o] obtain b s2 where b: "malloc s1 = (Some b, s2)" "True \<notin> set (oom s2)" by blast
    with assms(5) g False have e: "r = Some (k, b)" "n' = n\<lparr>tab := t\<rparr>" "s' = s2" by (simp_all add: send_open_def Let_def)
    note B = shares_malloc [OF S b(1)]
    have "names_apart n' s2" using shares_names [OF S B m'(3)] e by simp
    with e m'(1) B b(2) ns m'(4) m'(5) [OF False] False show ?thesis by (intro exI [of _ m'] conjI) auto
  qed
qed

lemma send_data_spec:
  assumes "shares own L K m q (b # X) s" "names_apart n s" "sendable w" "k \<notin> set (new_socks (tab n))"
    and "send_data k b w n s = (ok, n', s')"
  shows "shares own L K m q X s' \<and> names_apart n' s' \<and> oom s' = oom s \<and> tab n' = tab n \<and>
    (ok \<longrightarrow> wire n' = wire n @ [(k, encode w)]) \<and> (sends n = [] \<longrightarrow> ok \<and> sends n' = [])"
proof -
  note len = length_encode [OF assms(3)]
  obtain r n1 where r: "sys_send k (encode w) (int (length (encode w))) n = (r, n1)" by force
  from assms(5) r len have e: "ok = (r = int (length (encode w)))" "n' = n1" "s' = free_blk b s"
    by (simp_all add: send_data_def Let_def)
  from sys_send_spec [OF r] obtain bs where w: "tab n1 = tab n" "wire n1 = wire n @ [(k, bs)]"
    "r = int (length (encode w)) \<longrightarrow> bs = encode w" by blast
  note F = shares_free [OF assms(1)]
  have "names_apart n' s'"
    by (rule names_apart_frame [OF assms(2), of n' s' "{k}"]) (use e w assms(4) in \<open>auto simp: free_blk_oom\<close>)
  moreover have "sends n = [] \<Longrightarrow> r = int (length (encode w)) \<and> sends n1 = []" using r by (auto simp: sys_send_def)
  ultimately show ?thesis using F e w by (auto simp: free_blk_oom)
qed

lemma send_failed_spec:
  assumes "connections_map (tab n) = Some m" "shares own L K m q X s" "names_apart n s"
    and "send_failed a p n s = (n', s')"
  shows "\<exists>m'. connections_map (tab n') = Some m' \<and> shares own L K m' q X s' \<and> names_apart n' s' \<and> oom s' = oom s \<and>
    new_socks (tab n') = new_socks (tab n) \<and> sends n' = sends n"
proof -
  obtain t s1 where c: "close_connection a p (tab n) s = (t, s1)" by force
  with assms(4) have e: "n' = n\<lparr>tab := t\<rparr>" "s' = s1" by (simp_all add: send_failed_def)
  from shares_closed [OF assms(2,1) c] obtain m' where
    m': "connections_map t = Some m'" "shares own L K m' q X s1" "new_socks t = new_socks (tab n)" "socks s1 \<subseteq> socks s" "oom s1 = oom s"
    by blast
  have "names_apart n' s'" by (rule names_apart_frame [OF assms(3), of n' s' "{}"]) (use e m' in simp_all)
  with e m' show ?thesis by auto
qed

lemma end_task_spec:
  assumes "shares own L K m q (task_own t @ X) s"
  shows "shares own L K m q X (end_task t s) \<and> oom (end_task t s) = oom s"
proof -
  have "mset (task_own t @ X) = mset (warning_blks (jw (arg t)) @ job_blk (arg t) # task_blk t # X)"
    by (simp add: task_own_def job_blks_def)
  from assms [unfolded shares_perm [OF this]]
  have "shares own L K m q (warning_blks (jw (arg t)) @ job_blk (arg t) # task_blk t # X) s" .
  from shares_free [OF shares_free [OF shares_destroy [OF this]]] show ?thesis
    by (simp add: end_task_def free_task_def free_blk_oom warning_destroy_oom)
qed

section \<open>What reading and submitting do\<close>

lemma shares_frame:
  assumes "shares own L K m q X s" "os_ok s'" "live s' = live s \<union> set B" "socks s' = socks s" "distinct B" "set B \<inter> live s = {}"
  shows "shares own L K m q (B @ X) s'"
  by (rule shares_queue [OF assms(1) qholds_frame [OF shares_qholds [OF assms(1)] assms(2-6)]])

lemma shares_read:
  assumes "shares own L K m q X s" "deserialize_warning cn s = (r, cn', s')"
  shows "shares own L K m q ((case r of None \<Rightarrow> [] | Some w \<Rightarrow> warning_blks w) @ X) s'"
  using deserialize_safe [OF conjunct1 [OF shares_os [OF assms(1)]] assms(2)]
  by (intro shares_frame [OF assms(1)]) (auto split: option.splits)

lemma shares_print:
  assumes "shares own L K m q X s" "warning_to_string f l (Some w) s = (desc, s1)"
  shows "shares own L K m q X (case desc of None \<Rightarrow> s1 | Some h \<Rightarrow> free_str h s1)"
  using print_warning [OF conjunct1 [OF shares_os [OF assms(1)]] assms(2)]
    shares_frame [OF assms(1), of "case desc of None \<Rightarrow> s1 | Some h \<Rightarrow> free_str h s1" "[]"] by simp

lemma shares_enqueue:
  assumes "shares own L K m q (own x @ X) s" "tsqueue_enqueue q (Some x) s = Some (r, q', s')" "True \<notin> set (oom s)"
  shows "shares own L K m q' X s' \<and> titems q' = titems q @ [Some x] \<and> tcapacity q' = tcapacity q \<and>
    tself q' = tself q \<and> map_option freeFunc (inner q') = map_option freeFunc (inner q) \<and> True \<notin> set (oom s')"
  using qholds_enqueue [OF shares_qholds [OF assms(1)] assms(2)] shares_queue [OF assms(1)] enqueue_succeeds [OF _ assms(2,3)]
    shares_os [OF assms(1)] by auto

text \<open>The listener's submission while the pool takes tasks, and after it was told to stop.\<close>

lemma put_accepted:
  assumes "shares task_own L K m (dqueue d) (warning_blks w @ X) s" "tcapacity (dqueue d) = 0" "\<not> shutting_down (dpool d)"
    and "True \<notin> set (oom s)" "cp_put f l w d s = Some (d', s')"
  shows "\<exists>t q. d' = d\<lparr>dpool := (dpool d)\<lparr>pqueue := q\<rparr>\<rparr> \<and> arg t = \<lparr>jctx = dctx d, jw = w, job_blk = job_blk (arg t)\<rparr> \<and>
    shares task_own L K m q X s' \<and> titems q = titems (dqueue d) @ [Some t] \<and> tcapacity q = 0 \<and> tself q = tself (dqueue d) \<and>
    map_option freeFunc (inner q) = map_option freeFunc (inner (dqueue d)) \<and> True \<notin> set (oom s')"
proof -
  obtain desc s1 where p: "warning_to_string f l (Some w) s = (desc, s1)" by force
  let ?s = "case desc of None \<Rightarrow> s1 | Some h \<Rightarrow> free_str h s1"
  note S = shares_print [OF assms(1) p]
  have "True \<notin> set (oom ?s)" using print_warning [OF conjunct1 [OF shares_os [OF assms(1)]] p] assms(4) by blast
  from malloc_succeeds [OF this] obtain b s2 where b: "malloc ?s = (Some b, s2)" "True \<notin> set (oom s2)" by blast
  from malloc_succeeds [OF b(2)] obtain b' s3 where b': "malloc s2 = (Some b', s3)" "True \<notin> set (oom s3)" by blast
  let ?j = "\<lparr>jctx = dctx d, jw = w, job_blk = b\<rparr>"
  let ?t = "\<lparr>fn = Dispatch_job_fn, arg = ?j, task_blk = b'\<rparr>"
  from shares_malloc [OF shares_malloc [OF S b(1)] b'(1)]
  have "shares task_own L K m (dqueue d) (b' # b # warning_blks w @ X) s3" .
  moreover have "mset (b' # b # warning_blks w @ X) = mset (task_own ?t @ X)" by (simp add: task_own_def job_blks_def)
  ultimately have T: "shares task_own L K m (dqueue d) (task_own ?t @ X) s3" using shares_perm by blast
  from assms(5) p b(1) b'(1) assms(3) obtain r q where
    e: "tsqueue_enqueue (dqueue d) (Some ?t) s3 = Some (r, q, s')" "d' = d\<lparr>dpool := (dpool d)\<lparr>pqueue := q\<rparr>\<rparr>"
    by (cases "tsqueue_enqueue (dqueue d) (Some ?t) s3")
      (auto simp: cp_put_def cp_dispatcher_submit_def tp_submit_def tp_submit_test_def tp_submit_rest_def)
  from shares_enqueue [OF T e(1) b'(2)] e(2) assms(2) show ?thesis by (intro exI [of _ ?t] exI [of _ q]) simp
qed

lemma put_refused:
  assumes "shares own L K m q (warning_blks w @ X) s" "shutting_down (dpool d)" "cp_put f l w d s = Some (d', s')"
  shows "d' = d \<and> shares own L K m q X s' \<and> set (oom s') \<subseteq> set (oom s)"
proof -
  obtain desc s1 where p: "warning_to_string f l (Some w) s = (desc, s1)" by force
  let ?s = "case desc of None \<Rightarrow> s1 | Some h \<Rightarrow> free_str h s1"
  note S = shares_print [OF assms(1) p]
  have o: "set (oom ?s) \<subseteq> set (oom s)" using print_warning [OF conjunct1 [OF shares_os [OF assms(1)]] p] by blast
  obtain b s2 where b: "malloc ?s = (b, s2)" by force
  show ?thesis
  proof (cases b)
    case None
    with assms(3) p b have e: "d' = d" "s' = warning_destroy (Some w) s2" by (simp_all add: cp_put_def cp_dispatcher_submit_def)
    from b None have "malloc ?s = (None, s2)" by simp
    from shares_destroy [OF shares_malloc_None [OF S this]] e malloc_oom [OF b] o show ?thesis by (auto simp: warning_destroy_oom)
  next
    case (Some b1)
    with assms(2,3) p b have e: "d' = d" "s' = free_blk b1 (warning_destroy (Some w) s2)"
      by (simp_all add: cp_put_def cp_dispatcher_submit_def tp_submit_def tp_submit_test_def)
    from b Some have b1: "malloc ?s = (Some b1, s2)" by simp
    have "mset (b1 # warning_blks w @ X) = mset (warning_blks w @ b1 # X)" by simp
    from shares_malloc [OF S b1, unfolded shares_perm [OF this]]
    have "shares own L K m q (warning_blks w @ b1 # X) s2" .
    from shares_free [OF shares_destroy [OF this]] e malloc_oom [OF b] o show ?thesis
      by (auto simp: warning_destroy_oom free_blk_oom)
  qed
qed

section \<open>The state of the propagator\<close>

text \<open>The tasks in the hands of the workers, and the blocks of the workers and of the listener.\<close>

fun wtask :: "cp_worker \<Rightarrow> task list" where
  "wtask (Has t) = [t]" | "wtask (Sends t a p k b) = [t]" | "wtask (Closes t a p) = [t]" | "wtask _ = []"

fun wblks :: "cp_worker \<Rightarrow> nat list" where
  "wblks (Has t) = task_own t" | "wblks (Sends t a p k b) = b # task_own t" | "wblks (Closes t a p) = task_own t" | "wblks _ = []"

definition doing :: "cp_worker list \<Rightarrow> task list" where
  "doing ws = concat (map wtask ws)"

abbreviation tw :: "task \<Rightarrow> Warning" where
  "tw t \<equiv> jw (arg t)"

fun lblks :: "nat \<Rightarrow> cp_listener \<Rightarrow> nat list" where
  "lblks args Left_loop = []" | "lblks args _ = [args]"

fun lsocks :: "SOCKET \<Rightarrow> cp_listener \<Rightarrow> SOCKET set" where
  "lsocks ls Accepts = {ls}" | "lsocks ls (Reads k cn) = {k, ls}" | "lsocks ls Left_loop = {}"

lemma slot_out:
  assumes "i < length ws"
  shows "mset (X @ concat (map wblks ws)) = mset (wblks (ws ! i) @ X @ concat (map wblks (ws[i := Idle])))"
  using mset_concat_upd [of i "map wblks ws" "[]"] assms by (simp add: map_update add.commute)

lemma slot_in:
  assumes "i < length ws"
  shows "mset (wblks w @ X @ concat (map wblks (ws[i := Idle]))) = mset (X @ concat (map wblks (ws[i := w])))"
  using slot_out [of i "ws[i := w]" X] assms by simp

lemma doing_upd:
  assumes "i < length ws"
  shows "mset (doing (ws[i := w])) + mset (wtask (ws ! i)) = mset (doing ws) + mset (wtask w)"
  using mset_concat_upd [of i "map wtask ws" "wtask w"] assms by (simp add: map_update doing_def)

text \<open>The memory, while the dispatcher exists.\<close>

abbreviation cblks :: "nat \<Rightarrow> cpsys \<Rightarrow> nat list" where
  "cblks args c \<equiv> lblks args (clst c) @ disp_blks (cdisp c)"

definition cmem :: "nat set \<Rightarrow> SOCKET set \<Rightarrow> SOCKET \<Rightarrow> nat \<Rightarrow> (ConnectionKey, sock_ptr) HashMap \<Rightarrow> cpsys \<Rightarrow> bool" where
  "cmem L K ls args m c \<longleftrightarrow> connections_map (tab (cnet c)) = Some m \<and>
     shares task_own L (K \<union> lsocks ls (clst c)) m (dqueue (cdisp c)) (cblks args c @ concat (map wblks (cwork c))) (cheap c) \<and>
     names_apart (cnet c) (cheap c) \<and> True \<notin> set (oom (cheap c)) \<and> tcapacity (dqueue (cdisp c)) = 0 \<and>
     map_option freeFunc (inner (dqueue (cdisp c))) = Some (Some free_task) \<and> ls \<notin> K \<and>
     (case clst c of Reads k cn \<Rightarrow> k \<notin> insert ls K \<and> (\<exists>ws. carries cn ws) | _ \<Rightarrow> True)"

text \<open>A worker takes its blocks out of the common ones, and puts others back.\<close>

lemma cmem_slot:
  assumes "cmem L K ls args m c" "i < length (cwork c)"
  shows "shares task_own L (K \<union> lsocks ls (clst c)) m (dqueue (cdisp c))
    (wblks (cwork c ! i) @ cblks args c @ concat (map wblks ((cwork c)[i := Idle]))) (cheap c)"
  using assms(1) shares_perm [OF slot_out [OF assms(2), of "cblks args c"]] unfolding cmem_def by blast

lemma cmem_put_back:
  assumes "cmem L K ls args m c" "i < length (cwork c)"
    and "shares task_own L (K \<union> lsocks ls (clst c)) m' (dqueue (cdisp c)) (wblks w @ cblks args c @ concat (map wblks ((cwork c)[i := Idle]))) s"
    and "connections_map (tab n) = Some m'" "names_apart n s" "True \<notin> set (oom s)"
  shows "cmem L K ls args m' (c\<lparr>cnet := n, cheap := s, cwork := (cwork c)[i := w]\<rparr>)"
  using assms(1,3-6) unfolding shares_perm [OF slot_in [OF assms(2), of w "cblks args c"]] unfolding cmem_def by simp

lemma cmem_os:
  assumes "cmem L K ls args m c"
  shows "os_ok (cheap c)" "tsq_ok (dqueue (cdisp c)) (cheap c)" "True \<notin> set (oom (cheap c))"
  using assms shares_os unfolding cmem_def by blast+

lemma cmem_log [simp]: "cmem L K ls args m (c\<lparr>clog := x\<rparr>) = cmem L K ls args m c"
  "cmem L K ls args m (c\<lparr>crecv := y\<rparr>) = cmem L K ls args m c"
  "cmem L K ls args m (c\<lparr>cexit := e\<rparr>) = cmem L K ls args m c"
  "cmem L K ls args m (c\<lparr>cstage := g\<rparr>) = cmem L K ls args m c"
  by (simp_all add: cmem_def)

lemma cmem_stop: "cmem L K ls args m (c\<lparr>cdisp := (cdisp c)\<lparr>dpool := (dpool (cdisp c))\<lparr>shutting_down := x\<rparr>\<rparr>\<rparr>) = cmem L K ls args m c"
  by (simp add: cmem_def disp_blks_def)

lemma cmem_names: "cmem L K ls args m c \<Longrightarrow> shares own L' K' m q X (cheap c) \<Longrightarrow> shares own L' K' m q' X' s' \<Longrightarrow> names_apart (cnet c) s'"
  unfolding cmem_def using shares_names by blast

text \<open>The queue of the pool.\<close>

abbreviation with_queue :: "cpsys \<Rightarrow> task TSQueue \<Rightarrow> os \<Rightarrow> cpsys" where
  "with_queue c q s \<equiv> c\<lparr>cdisp := (cdisp c)\<lparr>dpool := (dpool (cdisp c))\<lparr>pqueue := q\<rparr>\<rparr>, cheap := s\<rparr>"

lemma cmem_dequeue:
  assumes "cmem L K ls args m c" "i < length (cwork c)" "cwork c ! i = Idle"
    and "tsqueue_dequeue (dqueue (cdisp c)) (cheap c) = Some (d, q, s)" "wblks w = (case d of None \<Rightarrow> [] | Some t \<Rightarrow> task_own t)"
  shows "cmem L K ls args m ((with_queue c q s)\<lparr>cwork := (cwork c)[i := w]\<rparr>) \<and> titems (dqueue (cdisp c)) = d # titems q"
proof -
  have S: "shares task_own L (K \<union> lsocks ls (clst c)) m (dqueue (cdisp c)) (cblks args c @ concat (map wblks ((cwork c)[i := Idle]))) (cheap c)"
    using cmem_slot [OF assms(1,2)] assms(3) by simp
  note D = shares_dequeue [OF S assms(4), folded assms(5)]
  have n: "names_apart (cnet c) s" using cmem_names [OF assms(1) S] D by blast
  have "shares task_own L (K \<union> lsocks ls (clst c)) m q (cblks args c @ concat (map wblks ((cwork c)[i := w]))) s"
    using D shares_perm [OF slot_in [OF assms(2), of w "cblks args c"]] by blast
  with n D assms(1) show ?thesis by (simp add: cmem_def disp_blks_def)
qed

lemma cmem_sentinel:
  assumes "cmem L K ls args m c" "tsqueue_enqueue (dqueue (cdisp c)) None (cheap c) = Some (r, q, s)"
  shows "cmem L K ls args m (with_queue c q s) \<and> titems q = titems (dqueue (cdisp c)) @ [None]"
proof -
  from assms(1) have S: "shares task_own L (K \<union> lsocks ls (clst c)) m (dqueue (cdisp c)) (cblks args c @ concat (map wblks (cwork c))) (cheap c)"
    "True \<notin> set (oom (cheap c))" by (auto simp: cmem_def)
  note E = shares_enqueue_None [OF S(1) assms(2) S(2)]
  have "names_apart (cnet c) s" using cmem_names [OF assms(1) S(1)] E by blast
  with E assms(1) show ?thesis by (simp add: cmem_def disp_blks_def)
qed

text \<open>The listener.\<close>

lemma cmem_accept:
  assumes "cmem L K ls args m c" "clst c = Accepts" "carries cn ws" "k \<notin> socks (cheap c)" "k \<notin> set (new_socks (tab (cnet c)))"
  shows "cmem L K ls args m (c\<lparr>clst := Reads k cn, cheap := (cheap c)\<lparr>socks := insert k (socks (cheap c))\<rparr>\<rparr>)"
proof -
  from assms(1,2) have S: "shares task_own L (K \<union> {ls}) m (dqueue (cdisp c)) (cblks args c @ concat (map wblks (cwork c))) (cheap c)"
    by (simp add: cmem_def)
  from shares_open_sock [OF S assms(4)]
  have T: "shares task_own L (K \<union> {k, ls}) m (dqueue (cdisp c)) (cblks args c @ concat (map wblks (cwork c))) ((cheap c)\<lparr>socks := insert k (socks (cheap c))\<rparr>)"
    by simp
  have "k \<notin> insert ls K" using shares_socks [OF S] assms(4) by blast
  moreover have "names_apart (cnet c) ((cheap c)\<lparr>socks := insert k (socks (cheap c))\<rparr>)"
    using assms(1,5) by (auto simp: cmem_def names_apart_def)
  ultimately show ?thesis using T assms(1-3) by (auto simp: cmem_def)
qed

lemma names_apart_less: "names_apart n s \<Longrightarrow> socks s' \<subseteq> socks s \<Longrightarrow> names_apart n s'"
  by (auto simp: names_apart_def)

lemma cmem_exit_seen:
  assumes "cmem L K ls args m c" "clst c = Accepts"
  shows "cmem L K ls args m (c\<lparr>clst := Left_loop, cheap := free_blk args (closesocket ls (cheap c))\<rparr>)"
proof -
  from assms have S: "shares task_own L (insert ls K) m (dqueue (cdisp c)) (args # disp_blks (cdisp c) @ concat (map wblks (cwork c))) (cheap c)"
    "ls \<notin> K" by (auto simp: cmem_def)
  from shares_free [OF shares_close_sock [OF S]] have
    "shares task_own L K m (dqueue (cdisp c)) (disp_blks (cdisp c) @ concat (map wblks (cwork c))) (free_blk args (closesocket ls (cheap c)))" .
  moreover have "names_apart (cnet c) (free_blk args (closesocket ls (cheap c)))"
    by (rule names_apart_less [of _ "cheap c"]) (use assms(1) in \<open>auto simp: cmem_def free_blk_oom closesocket_def\<close>)
  ultimately show ?thesis using assms by (simp add: cmem_def free_blk_oom closesocket_def)
qed

lemma cmem_read:
  assumes "cmem L K ls args m c" "clst c = Reads k cn" "deserialize_warning cn (cheap c) = (r, cn', s)"
  shows "shares task_own L (K \<union> {k, ls}) m (dqueue (cdisp c))
      ((case r of None \<Rightarrow> [] | Some w \<Rightarrow> warning_blks w) @ cblks args c @ concat (map wblks (cwork c))) s"
    "names_apart (cnet c) s" "True \<notin> set (oom s)"
proof -
  from assms(1,2) have S: "shares task_own L (K \<union> {k, ls}) m (dqueue (cdisp c)) (cblks args c @ concat (map wblks (cwork c))) (cheap c)"
    "True \<notin> set (oom (cheap c))" by (simp_all add: cmem_def)
  show T: "shares task_own L (K \<union> {k, ls}) m (dqueue (cdisp c))
      ((case r of None \<Rightarrow> [] | Some w \<Rightarrow> warning_blks w) @ cblks args c @ concat (map wblks (cwork c))) s"
    by (rule shares_read [OF S(1) assms(3)])
  show "names_apart (cnet c) s" by (rule cmem_names [OF assms(1) S(1) T])
  show "True \<notin> set (oom s)" using deserialize_oom [OF assms(3)] S(2) by blast
qed

lemma carries_step:
  assumes "carries c ws" "os_ok s" "True \<notin> set (oom s)" "deserialize_warning c s = (Some v, c', s')"
  shows "\<exists>w ws'. ws = w # ws' \<and> view v = view w \<and> sendable v \<and> carries c' ws'"
proof -
  from assms(1) obtain rest where c: "conn_ok c" "stream c = concat (map encode ws) @ rest"
    "\<forall>w \<in> set ws. sendable w \<and> is_cstr (chars (city w)) \<and> is_cstr (chars (dest_node w))"
    "rest = [] \<or> (\<exists>w z. encode w = rest @ z \<and> z \<noteq> [] \<and> sendable w \<and> is_cstr (chars (city w)) \<and> is_cstr (chars (dest_node w)))"
    unfolding carries_def by blast
  show ?thesis
  proof (cases ws)
    case Nil
    with c(2) have st: "stream c = rest" by simp
    show ?thesis
    proof (cases "rest = []")
      case True
      with deserialize_shorter [OF assms(4)] st show ?thesis by simp
    next
      case False
      with c(4) st obtain w z where w: "encode w = stream c @ z" "z \<noteq> []" "sendable w" "is_cstr (chars (city w))" "is_cstr (chars (dest_node w))"
        by blast
      from deserialize_broken [OF c(1) w(1,2) assms(2,3)] w(3-5) assms(4) show ?thesis by (auto simp: sendable_def)
    qed
  next
    case (Cons w ws')
    with c(3) have w: "sendable w" "is_cstr (chars (city w))" "is_cstr (chars (dest_node w))" by auto
    have "stream c = encode w @ concat (map encode ws') @ rest" using c(2) Cons by simp
    from deserialize_encode [OF c(1) this assms(2,3)] w obtain v1 c1 s1
      where r: "deserialize_warning c s = (Some v1, c1, s1)" "view v1 = view w" "conn_ok c1" "stream c1 = concat (map encode ws') @ rest"
      by (auto simp: sendable_def)
    with assms(4) have e: "v1 = v" "c1 = c'" by simp_all
    have "sendable v" using w(1) r(2) e by (simp add: view_def sendable_def)
    moreover have "carries c' ws'" unfolding carries_def using r(3,4) e c(3,4) Cons by auto
    ultimately show ?thesis using Cons r(2) e by blast
  qed
qed

lemma cmem_read_end:
  assumes "cmem L K ls args m c" "clst c = Reads k cn" "deserialize_warning cn (cheap c) = (None, cn', s)"
  shows "cmem L K ls args m (c\<lparr>clst := Accepts, cheap := closesocket k s\<rparr>)"
proof -
  note R = cmem_read [OF assms]
  have k: "k \<notin> insert ls K" using assms(1,2) by (simp add: cmem_def)
  have "shares task_own L (insert k (insert ls K)) m (dqueue (cdisp c)) (args # disp_blks (cdisp c) @ concat (map wblks (cwork c))) s"
    using R(1) assms(2) by simp
  from shares_close_sock [OF this k] have
    "shares task_own L (insert ls K) m (dqueue (cdisp c)) (args # disp_blks (cdisp c) @ concat (map wblks (cwork c))) (closesocket k s)" .
  moreover have "names_apart (cnet c) (closesocket k s)"
    by (rule names_apart_less [OF R(2)]) (auto simp: closesocket_def)
  ultimately show ?thesis using assms(1,2) R(3) by (simp add: cmem_def)
qed

end
