(* ===== verification/PropagatorSystem.thy ===== *)
theory PropagatorSystem
  imports Propagator
begin

text \<open>
  What holds in every state of a central propagator at work (\<open>Propagator\<close>) until its dispatcher is
  freed: \<open>cmem\<close> (the memory), \<open>cdata\<close> (where the accepted warnings are), \<open>cshape\<close> (the queue and
  the workers while the pool stops), and, when every \<open>send\<close> takes the whole buffer, \<open>cfull\<close> (the
  streams).  From these: nothing is lost, the shutdown ends, and the memory is given back.
\<close>

section \<open>The invariant\<close>

definition tok :: "CPContext \<Rightarrow> task \<Rightarrow> bool" where
  "tok ctx t \<longleftrightarrow> jctx (arg t) = ctx \<and> sendable (tw t)"

fun wok :: "CPContext \<Rightarrow> net \<Rightarrow> cp_worker \<Rightarrow> bool" where
  "wok ctx n (Has t) \<longleftrightarrow> tok ctx t"
| "wok ctx n (Sends t a p k b) \<longleftrightarrow> tok ctx t \<and> hop_of ctx (tw t) = Some (a, p) \<and> k \<notin> set (new_socks (tab n))"
| "wok ctx n (Closes t a p) \<longleftrightarrow> tok ctx t \<and> hop_of ctx (tw t) = Some (a, p)"
| "wok ctx n _ \<longleftrightarrow> True"

abbreviation logged :: "(string \<times> u16 \<times> Warning \<times> bool) list \<Rightarrow> Warning list" where
  "logged lg \<equiv> map (\<lambda>(a, p, w, ok). w) lg"

abbreviation tasks :: "cpsys \<Rightarrow> task list" where
  "tasks c \<equiv> somes (titems (dqueue (cdisp c)))"

definition cdata :: "CPContext \<Rightarrow> cpsys \<Rightarrow> bool" where
  "cdata ctx c \<longleftrightarrow> dctx (cdisp c) = ctx \<and> (\<forall>t \<in> set (tasks c). tok ctx t) \<and> (\<forall>w \<in> set (cwork c). wok ctx (cnet c) w) \<and>
     mset (crecv c) = mset (map tw (tasks c)) + mset (map tw (doing (cwork c))) + mset (logged (clog c)) \<and>
     (\<forall>(a, p, w, ok) \<in> set (clog c). hop_of ctx w = Some (a, p))"

text \<open>How many NULL items the main thread has put in, and how many workers have taken one.\<close>

fun sentinels :: "cp_stage \<Rightarrow> nat" where
  "sentinels (Stopping i) = i" | "sentinels _ = 0"

abbreviation gone :: "cp_worker list \<Rightarrow> nat" where
  "gone ws \<equiv> num (\<lambda>w. w = Gone) ws"

definition cshape :: "nat \<Rightarrow> cpsys \<Rightarrow> bool" where
  "cshape n c \<longleftrightarrow> thread_count (dpool (cdisp c)) = n \<and> (shutting_down (dpool (cdisp c)) \<longleftrightarrow> cstage c \<noteq> Up) \<and>
     (\<exists>ts j. titems (dqueue (cdisp c)) = map Some ts @ replicate j None \<and> j + gone (cwork c) = sentinels (cstage c) \<and>
        (0 < gone (cwork c) \<longrightarrow> ts = []))"

fun wfull :: "(ConnectionKey, sock_ptr) HashMap \<Rightarrow> cp_worker \<Rightarrow> bool" where
  "wfull m (Sends t a p k b) \<longleftrightarrow> answers m a p = Some k" | "wfull m (Closes t a p) \<longleftrightarrow> False" | "wfull m _ \<longleftrightarrow> True"

definition cfull :: "(ConnectionKey, sock_ptr) HashMap \<Rightarrow> cpsys \<Rightarrow> bool" where
  "cfull m c \<longleftrightarrow> sends (cnet c) = [] \<and> framed m (cnet c) (reported (clog c)) \<and> (\<forall>w \<in> set (cwork c). wfull m w)"

section \<open>Steps of the workers\<close>

lemma wok_less: "wok ctx n w \<Longrightarrow> set (new_socks (tab n')) \<subseteq> set (new_socks (tab n)) \<Longrightarrow> wok ctx n' w"
  by (cases w; simp; blast)

lemma upd_all: "\<forall>w \<in> set ws. P w \<Longrightarrow> P x \<Longrightarrow> \<forall>w \<in> set (ws[i := x]). P w"
  using set_update_subset_insert by fastforce

lemma cdata_slot:
  assumes "cdata ctx c" "i < length (cwork c)" "wtask w = wtask (cwork c ! i)" "wok ctx n w"
    and "set (new_socks (tab n)) \<subseteq> set (new_socks (tab (cnet c)))"
  shows "cdata ctx (c\<lparr>cnet := n, cheap := s, cwork := (cwork c)[i := w]\<rparr>)"
proof -
  from assms(1) have "\<forall>w \<in> set (cwork c). wok ctx (cnet c) w" by (simp add: cdata_def)
  then have "\<forall>w \<in> set (cwork c). wok ctx n w" using wok_less assms(5) by blast
  from upd_all [OF this assms(4)] doing_upd [OF assms(2), of w] assms(1,3) show ?thesis
    by (simp add: cdata_def)
qed

lemma cdata_done:
  assumes "cdata ctx c" "i < length (cwork c)" "wtask (cwork c ! i) = [t]" "hop_of ctx (tw t) = Some (a, p)"
    and "set (new_socks (tab n)) \<subseteq> set (new_socks (tab (cnet c)))"
  shows "cdata ctx (c\<lparr>cnet := n, cheap := s, cwork := (cwork c)[i := Idle], clog := clog c @ [(a, p, tw t, ok)]\<rparr>)"
proof -
  from assms(1) have "\<forall>w \<in> set (cwork c). wok ctx (cnet c) w" by (simp add: cdata_def)
  then have "\<forall>w \<in> set (cwork c). wok ctx n w" using wok_less assms(5) by blast
  from upd_all [OF this, of Idle i] have u: "\<forall>w \<in> set ((cwork c)[i := Idle]). wok ctx n w" by simp
  have d: "mset (doing (cwork c)) = add_mset t (mset (doing ((cwork c)[i := Idle])))"
    using doing_upd [OF assms(2), of Idle] assms(3) by simp
  show ?thesis using u d assms(1,4) by (simp add: cdata_def)
qed

lemma cdata_take:
  assumes "cdata ctx c" "i < length (cwork c)" "cwork c ! i = Idle" "titems (dqueue (cdisp c)) = d # titems q"
    and "w = (case d of None \<Rightarrow> Gone | Some t \<Rightarrow> Has t)"
  shows "cdata ctx ((with_queue c q s)\<lparr>cwork := (cwork c)[i := w]\<rparr>)"
proof -
  have d: "mset (doing ((cwork c)[i := w])) = mset (doing (cwork c)) + mset (case d of None \<Rightarrow> [] | Some t \<Rightarrow> [t])"
    using doing_upd [OF assms(2), of w] assms(3,5) by (simp split: option.splits)
  have t: "tasks c = (case d of None \<Rightarrow> [] | Some t \<Rightarrow> [t]) @ somes (titems q)" using assms(4) by (simp split: option.split)
  from assms(1) have w: "\<forall>w \<in> set (cwork c). wok ctx (cnet c) w" by (simp add: cdata_def)
  moreover have "wok ctx (cnet c) w" using assms(1,4,5) by (cases d) (simp_all add: cdata_def)
  ultimately have "\<forall>w \<in> set ((cwork c)[i := w]). wok ctx (cnet c) w" by (rule upd_all)
  then show ?thesis using d t assms(1) by (simp add: cdata_def)
qed

lemma cshape_slot:
  assumes "cshape n c" "i < length (cwork c)" "cwork c ! i \<noteq> Gone" "w \<noteq> Gone"
  shows "cshape n (c\<lparr>cnet := nt, cheap := s, cwork := (cwork c)[i := w]\<rparr>)"
proof -
  have "gone ((cwork c)[i := w]) = gone (cwork c)" by (rule num_keep) (use assms in simp_all)
  with assms(1) show ?thesis by (simp add: cshape_def)
qed

lemma cshape_log [simp]: "cshape n (c\<lparr>clog := x\<rparr>) = cshape n c" "cshape n (c\<lparr>crecv := y\<rparr>) = cshape n c"
  "cshape n (c\<lparr>cexit := e\<rparr>) = cshape n c" "cshape n (c\<lparr>clst := l\<rparr>) = cshape n c" "cshape n (c\<lparr>cheap := h\<rparr>) = cshape n c"
  by (simp_all add: cshape_def)

lemma cshapeE:
  assumes "cshape n c"
  obtains ts j where "titems (dqueue (cdisp c)) = map Some ts @ replicate j None" "j + gone (cwork c) = sentinels (cstage c)"
    "0 < gone (cwork c) \<Longrightarrow> ts = []"
  using assms unfolding cshape_def by (elim exE conjE) (rule that, assumption, assumption, simp)

lemma cshape_take:
  assumes "cshape n c" "i < length (cwork c)" "cwork c ! i = Idle" "titems (dqueue (cdisp c)) = d # titems q"
    and "w = (case d of None \<Rightarrow> Gone | Some t \<Rightarrow> Has t)"
  shows "cshape n ((with_queue c q s)\<lparr>cwork := (cwork c)[i := w]\<rparr>)"
proof -
  from assms(1) obtain ts j where j: "titems (dqueue (cdisp c)) = map Some ts @ replicate j None"
    "j + gone (cwork c) = sentinels (cstage c)" "0 < gone (cwork c) \<Longrightarrow> ts = []" by (rule cshapeE) (rule that, assumption, assumption, simp)
  have g: "gone ((cwork c)[i := w]) = gone (cwork c) + of_bool (d = None)"
    using num_upd [OF assms(2), of "\<lambda>w. w = Gone" w] assms(3,5) by (simp split: option.splits)
  have "\<exists>ts j. titems q = map Some ts @ replicate j None \<and> j + gone ((cwork c)[i := w]) = sentinels (cstage c) \<and>
      (0 < gone ((cwork c)[i := w]) \<longrightarrow> ts = [])"
  proof (cases ts)
    case Nil
    with j assms(4) g show ?thesis by (cases j) (auto intro!: exI [of _ "[]"])
  next
    case (Cons t ts')
    with j assms(4) g show ?thesis by (auto intro!: exI [of _ ts'])
  qed
  with assms(1) show ?thesis by (simp add: cshape_def)
qed

lemma replicate_snoc: "replicate j x @ [x] = replicate (Suc j) x"
  by (simp add: replicate_append_same)

lemma cshape_sentinel:
  assumes "cshape n c" "cstage c = Stopping i" "titems q = titems (dqueue (cdisp c)) @ [None]"
  shows "cshape n ((with_queue c q s)\<lparr>cstage := Stopping (i + 1)\<rparr>)"
proof -
  from assms(1) obtain ts j where j: "titems (dqueue (cdisp c)) = map Some ts @ replicate j None"
    "j + gone (cwork c) = sentinels (cstage c)" "0 < gone (cwork c) \<Longrightarrow> ts = []" by (rule cshapeE) (rule that, assumption, assumption, simp)
  have "\<exists>ts j'. titems q = map Some ts @ replicate j' None \<and> j' + gone (cwork c) = i + 1 \<and> (0 < gone (cwork c) \<longrightarrow> ts = [])"
    by (intro exI [of _ ts] exI [of _ "Suc j"]) (use j assms(2,3) in \<open>simp add: replicate_snoc\<close>)
  with assms(1,2) show ?thesis by (simp add: cshape_def)
qed

section \<open>Steps of the listener and of the main thread\<close>

lemma cdata_cong:
  assumes "cdata ctx c" "dctx (cdisp c') = dctx (cdisp c)" "titems (dqueue (cdisp c')) = titems (dqueue (cdisp c)) @ replicate j None"
    and "cwork c' = cwork c" "cnet c' = cnet c" "crecv c' = crecv c" "clog c' = clog c"
  shows "cdata ctx c'"
proof -
  have "somes (replicate j None) = ([] :: task list)" by (induction j) auto
  then have "tasks c' = tasks c" using assms(3) by simp
  with assms show ?thesis by (simp add: cdata_def)
qed

lemma pending_queue: "pending d = map tw (somes (titems (dqueue d)))"
  by (simp add: pending_def)

lemma cdata_recv:
  assumes "cdata ctx c" "titems q = titems (dqueue (cdisp c)) @ [Some t]" "arg t = \<lparr>jctx = dctx (cdisp c), jw = w, job_blk = b\<rparr>" "sendable w"
  shows "cdata ctx ((with_queue c q s)\<lparr>clst := l, crecv := crecv c @ [w]\<rparr>)"
proof -
  have "tok ctx t" "tw t = w" using assms by (simp_all add: tok_def cdata_def)
  with assms(1,2) show ?thesis by (auto simp: cdata_def)
qed

lemma cshape_recv:
  assumes "cshape n c" "cstage c = Up" "titems q = titems (dqueue (cdisp c)) @ [Some t]"
  shows "cshape n ((with_queue c q s)\<lparr>clst := l, crecv := r\<rparr>)"
proof -
  from assms(1) obtain ts j where j: "titems (dqueue (cdisp c)) = map Some ts @ replicate j None"
    "j + gone (cwork c) = sentinels (cstage c)" "0 < gone (cwork c) \<Longrightarrow> ts = []" by (rule cshapeE) (rule that, assumption, assumption, simp)
  with assms(2) have z: "j = 0" "gone (cwork c) = 0" by simp_all
  have "\<exists>ts j. titems q = map Some ts @ replicate j None \<and> j + gone (cwork c) = 0 \<and> (0 < gone (cwork c) \<longrightarrow> ts = [])"
    by (intro exI [of _ "ts @ [t]"] exI [of _ 0]) (use j z assms(3) in simp)
  with assms(1,2) show ?thesis by (simp add: cshape_def)
qed

section \<open>The streams\<close>

lemma framed_wire:
  assumes "framed m n xs" "wire n' = wire n" "\<And>a p k. answers m' a p = Some k \<Longrightarrow> answers m a p = Some k \<or> k \<notin> fst ` set (wire n)"
  shows "framed m' n' xs"
  unfolding framed_def
proof (intro allI impI)
  fix a p k assume "answers m' a p = Some k"
  from assms(3) [OF this] show "\<exists>old ws. sent_to a p xs = old @ ws \<and> sent_on k n' = concat (map encode ws)"
  proof
    assume "answers m a p = Some k"
    from framedD [OF assms(1) this] sent_on_same [OF assms(2)] show ?thesis by simp
  next
    assume "k \<notin> fst ` set (wire n)"
    then have "k \<notin> fst ` set (wire n')" by (simp only: assms(2)) simp
    then show ?thesis by (rule framed_new [OF sent_on_new])
  qed
qed

lemma framed_sent:
  assumes "framed m n xs" "conn_inv L K m s" "answers m a p = Some k" "wire n' = wire n @ [(k, encode w)]"
  shows "framed m n' (xs @ [(a, p, w)])"
  unfolding framed_def
proof (intro allI impI)
  fix a' p' k' assume k': "answers m a' p' = Some k'"
  from framedD [OF assms(1) this] obtain old ws where f: "sent_to a' p' xs = old @ ws" "sent_on k' n = concat (map encode ws)" by blast
  show "\<exists>old ws. sent_to a' p' (xs @ [(a, p, w)]) = old @ ws \<and> sent_on k' n' = concat (map encode ws)"
  proof (cases "a' = a \<and> p' = p")
    case True
    then have "k' = k" using k' assms(3) by simp
    with f True show ?thesis
      by (intro exI [of _ old] exI [of _ "ws @ [w]"]) (simp add: sent_to_one sent_on_append [OF assms(4)])
  next
    case False
    then have "k' \<noteq> k" using answers_inj [OF assms(2) k'] assms(3) by blast
    with f False show ?thesis
      by (intro exI [of _ old] exI [of _ ws]) (auto simp: sent_to_one sent_on_append [OF assms(4)])
  qed
qed

lemma cfull_connect:
  assumes "cfull m c" "wire n' = wire (cnet c)" "sends n' = sends (cnet c)"
    and "\<And>a' p'. answers m' a' p' = (if a' = a \<and> p' = p then Some k else answers m a' p')"
    and "answers m a p = Some k \<or> answers m a p = None \<and> k \<notin> fst ` set (wire (cnet c))"
  shows "cfull m' (c\<lparr>cnet := n', cheap := s, cwork := (cwork c)[i := Sends t a p k b]\<rparr>)"
proof -
  from assms(1) have f: "sends (cnet c) = []" "framed m (cnet c) (reported (clog c))" "\<forall>w \<in> set (cwork c). wfull m w" by (auto simp: cfull_def)
  have "framed m' n' (reported (clog c))"
    by (rule framed_wire [OF f(2) assms(2)]) (use assms(4,5) in \<open>auto split: if_splits\<close>)
  moreover have "wfull m' w" if "w \<in> set (cwork c)" for w
  proof -
    from f(3) that have "wfull m w" by blast
    then show ?thesis
    proof (cases w)
      case (Sends t1 a1 p1 k1 b1)
      with \<open>wfull m w\<close> have "answers m a1 p1 = Some k1" by simp
      with assms(4) [of a1 p1] assms(5) have "answers m' a1 p1 = Some k1" by (auto split: if_splits)
      with Sends show ?thesis by simp
    qed simp_all
  qed
  then have "\<forall>w \<in> set (cwork c). wfull m' w" by blast
  then have "\<forall>w \<in> set ((cwork c)[i := Sends t a p k b]). wfull m' w"
    by (rule upd_all) (use assms(4) [of a p] in simp)
  ultimately show ?thesis using f(1) assms(3) by (simp add: cfull_def)
qed

lemma cfull_slot:
  assumes "cfull m c" "wire n' = wire (cnet c)" "sends n' = sends (cnet c)" "answers m' = answers m" "wfull m w"
  shows "cfull m' (c\<lparr>cnet := n', cheap := s, cwork := (cwork c)[i := w], clog := clog c @ [(a, p, x, False)]\<rparr>)"
    "cfull m' (c\<lparr>cnet := n', cheap := s, cwork := (cwork c)[i := w]\<rparr>)"
proof -
  note a = fun_cong [OF fun_cong [OF assms(4)]]
  from assms(1) have f: "sends (cnet c) = []" "framed m (cnet c) (reported (clog c))" "\<forall>w \<in> set (cwork c). wfull m w" by (auto simp: cfull_def)
  have w: "wfull m' w = wfull m w" for w using a by (cases w) simp_all
  have "framed m' n' (reported (clog c))" by (rule framed_wire [OF f(2) assms(2)]) (use a in simp)
  moreover have "\<forall>v \<in> set ((cwork c)[i := w]). wfull m' v" unfolding w by (rule upd_all [OF f(3) assms(5)])
  ultimately show "cfull m' (c\<lparr>cnet := n', cheap := s, cwork := (cwork c)[i := w], clog := clog c @ [(a, p, x, False)]\<rparr>)"
    "cfull m' (c\<lparr>cnet := n', cheap := s, cwork := (cwork c)[i := w]\<rparr>)" using f(1) assms(3) by (simp_all add: cfull_def)
qed

lemma cfull_send:
  assumes "cfull m c" "conn_inv L K m h" "answers m a p = Some k" "wire n' = wire (cnet c) @ [(k, encode w)]" "sends n' = []"
  shows "cfull m (c\<lparr>cnet := n', cheap := s, cwork := (cwork c)[i := Idle], clog := clog c @ [(a, p, w, True)]\<rparr>)"
proof -
  from assms(1) have f: "framed m (cnet c) (reported (clog c))" "\<forall>w \<in> set (cwork c). wfull m w" by (auto simp: cfull_def)
  from framed_sent [OF f(1) assms(2-4)] have "framed m n' (reported (clog c) @ [(a, p, w)])" .
  moreover have "\<forall>v \<in> set ((cwork c)[i := Idle]). wfull m v" by (rule upd_all [OF f(2)]) simp
  ultimately show ?thesis using assms(5) by (simp add: cfull_def)
qed

lemma cfull_cong: "cfull m c \<Longrightarrow> cnet c' = cnet c \<Longrightarrow> clog c' = clog c \<Longrightarrow> cwork c' = cwork c \<Longrightarrow> cfull m c'"
  by (simp add: cfull_def)

lemma cfull_take: "cfull m c \<Longrightarrow> wfull m w \<Longrightarrow> cfull m ((with_queue c q s)\<lparr>cwork := (cwork c)[i := w]\<rparr>)"
  unfolding cfull_def using upd_all [of "cwork c" "wfull m" w i] by simp

section \<open>Every step keeps the invariant\<close>

definition cinv :: "CPContext \<Rightarrow> nat set \<Rightarrow> SOCKET set \<Rightarrow> SOCKET \<Rightarrow> nat \<Rightarrow> nat \<Rightarrow> bool \<Rightarrow> cpsys \<Rightarrow> bool" where
  "cinv ctx L K ls args n fl c \<longleftrightarrow>
     (\<exists>m. cmem L K ls args m c \<and> cdata ctx c \<and> cshape n c \<and> (fl \<longrightarrow> cfull m c))"

abbreviation alive :: "cpsys \<Rightarrow> bool" where
  "alive c \<equiv> cstage c \<noteq> Down \<and> cstage c \<noteq> Clean"

text \<open>Clients that follow the protocol; a message may break off.\<close>

abbreviation protocol :: "conn \<Rightarrow> bool" where
  "protocol cn \<equiv> \<exists>ws. carries cn ws"

lemma cinvI: "cmem L K ls args m c \<Longrightarrow> cdata ctx c \<Longrightarrow> cshape n c \<Longrightarrow> (fl \<Longrightarrow> cfull m c) \<Longrightarrow> cinv ctx L K ls args n fl c"
  unfolding cinv_def by blast

lemma cinvE:
  assumes "cinv ctx L K ls args n fl c"
  obtains m where "cmem L K ls args m c" "cdata ctx c" "cshape n c" "fl \<longrightarrow> cfull m c"
  using assms unfolding cinv_def by blast

lemma cinv_take:
  assumes "cinv ctx L K ls args n fl c" "i < length (cwork c)" "cwork c ! i = Idle"
    and "tsqueue_dequeue (dqueue (cdisp c)) (cheap c) = Some (d, q, s)" "w = (case d of None \<Rightarrow> Gone | Some t \<Rightarrow> Has t)"
  shows "cinv ctx L K ls args n fl ((with_queue c q s)\<lparr>cwork := (cwork c)[i := w]\<rparr>)"
proof -
  from assms(1) obtain m where m: "cmem L K ls args m c" "cdata ctx c" "cshape n c" "fl \<longrightarrow> cfull m c" by (rule cinvE)
  have w: "wblks w = (case d of None \<Rightarrow> [] | Some t \<Rightarrow> task_own t)" "wfull m w" using assms(5) by (cases d; simp)+
  note M = cmem_dequeue [OF m(1) assms(2-4) w(1)]
  show ?thesis
    by (rule cinvI [OF conjunct1 [OF M] cdata_take [OF m(2) assms(2,3) conjunct2 [OF M] assms(5)]
        cshape_take [OF m(3) assms(2,3) conjunct2 [OF M] assms(5)] cfull_take [OF m(4) [rule_format] w(2)]])
qed

lemma cinv_connect:
  assumes "cinv ctx L K ls args n fl c" "i < length (cwork c)" "cwork c ! i = Has t" "hop_of (jctx (arg t)) (tw t) = Some (a, p)"
    and "send_open a p (cnet c) (cheap c) = (r, n', s)"
  shows "case r of
     None \<Rightarrow> cinv ctx L K ls args n fl (c\<lparr>cnet := n', cheap := end_task t s, cwork := (cwork c)[i := Idle], clog := clog c @ [(a, p, tw t, False)]\<rparr>)
   | Some (k, b) \<Rightarrow> cinv ctx L K ls args n fl (c\<lparr>cnet := n', cheap := s, cwork := (cwork c)[i := Sends t a p k b]\<rparr>)"
proof -
  from assms(1) obtain m where m: "cmem L K ls args m c" "cdata ctx c" "cshape n c" "fl \<longrightarrow> cfull m c" by (rule cinvE)
  have "Has t \<in> set (cwork c)" using assms(2,3) nth_mem by fastforce
  with m(2) have t: "tok ctx t" "hop_of ctx (tw t) = Some (a, p)" using assms(4) by (auto simp: cdata_def tok_def)
  from m(1) have c: "connections_map (tab (cnet c)) = Some m" "names_apart (cnet c) (cheap c)" "True \<notin> set (oom (cheap c))"
    by (simp_all add: cmem_def)
  have S: "shares task_own L (K \<union> lsocks ls (clst c)) m (dqueue (cdisp c)) (task_own t @ cblks args c @ concat (map wblks ((cwork c)[i := Idle]))) (cheap c)"
    using cmem_slot [OF m(1) assms(2)] assms(3) by simp
  from send_open_spec [OF c(1) S c(2,3) assms(5)] obtain m' where m':
    "connections_map (tab n') = Some m'" "names_apart n' s" "True \<notin> set (oom s)" "wire n' = wire (cnet c)" "sends n' = sends (cnet c)"
    "set (new_socks (tab n')) \<subseteq> set (new_socks (tab (cnet c)))"
    "case r of None \<Rightarrow> shares task_own L (K \<union> lsocks ls (clst c)) m' (dqueue (cdisp c)) (task_own t @ cblks args c @ concat (map wblks ((cwork c)[i := Idle]))) s \<and> answers m' = answers m
     | Some (k, b) \<Rightarrow> shares task_own L (K \<union> lsocks ls (clst c)) m' (dqueue (cdisp c)) (b # task_own t @ cblks args c @ concat (map wblks ((cwork c)[i := Idle]))) s \<and>
         k \<notin> set (new_socks (tab n')) \<and> (\<forall>a' p'. answers m' a' p' = (if a' = a \<and> p' = p then Some k else answers m a' p')) \<and>
         (answers m a p = Some k \<or> answers m a p = None \<and> k \<notin> fst ` set (wire (cnet c)))" by blast
  show ?thesis
  proof (cases r)
    case None
    from m'(7) None have T: "shares task_own L (K \<union> lsocks ls (clst c)) m' (dqueue (cdisp c)) (task_own t @ cblks args c @ concat (map wblks ((cwork c)[i := Idle]))) s"
      and a: "answers m' = answers m" by simp_all
    note E = end_task_spec [OF T]
    have "names_apart n' (end_task t s)" using shares_names [OF T _ m'(2)] E by blast
    from cmem_put_back [OF m(1) assms(2), of m' Idle "end_task t s" n'] E m'(1,3) this
    have "cmem L K ls args m' (c\<lparr>cnet := n', cheap := end_task t s, cwork := (cwork c)[i := Idle]\<rparr>)" by simp
    then have "cmem L K ls args m' (c\<lparr>cnet := n', cheap := end_task t s, cwork := (cwork c)[i := Idle], clog := clog c @ [(a, p, tw t, False)]\<rparr>)"
      by (simp only: cmem_log)
    moreover have "cdata ctx (c\<lparr>cnet := n', cheap := end_task t s, cwork := (cwork c)[i := Idle], clog := clog c @ [(a, p, tw t, False)]\<rparr>)"
      by (rule cdata_done [OF m(2) assms(2) _ t(2) m'(6)]) (simp add: assms(3))
    moreover have "cshape n (c\<lparr>cnet := n', cheap := end_task t s, cwork := (cwork c)[i := Idle], clog := clog c @ [(a, p, tw t, False)]\<rparr>)"
      using cshape_slot [OF m(3) assms(2), where w = Idle and nt = n' and s = "end_task t s"] assms(3) by (simp add: cshape_def)
    moreover have "cfull m' (c\<lparr>cnet := n', cheap := end_task t s, cwork := (cwork c)[i := Idle], clog := clog c @ [(a, p, tw t, False)]\<rparr>)" if fl
      by (rule cfull_slot(1) [OF m(4) [rule_format, OF that] m'(4,5) a]) simp
    ultimately show ?thesis using None by (simp add: cinvI)
  next
    case (Some kb)
    obtain k b where kb: "kb = (k, b)" by (cases kb)
    from m'(7) Some kb have T: "shares task_own L (K \<union> lsocks ls (clst c)) m' (dqueue (cdisp c)) (wblks (Sends t a p k b) @ cblks args c @ concat (map wblks ((cwork c)[i := Idle]))) s"
      and k: "k \<notin> set (new_socks (tab n'))" "\<And>a' p'. answers m' a' p' = (if a' = a \<and> p' = p then Some k else answers m a' p')"
        "answers m a p = Some k \<or> answers m a p = None \<and> k \<notin> fst ` set (wire (cnet c))" by simp_all
    from cmem_put_back [OF m(1) assms(2) T m'(1-3)]
    have "cmem L K ls args m' (c\<lparr>cnet := n', cheap := s, cwork := (cwork c)[i := Sends t a p k b]\<rparr>)" .
    moreover have "cdata ctx (c\<lparr>cnet := n', cheap := s, cwork := (cwork c)[i := Sends t a p k b]\<rparr>)"
      by (rule cdata_slot [OF m(2) assms(2) _ _ m'(6)]) (use t k(1) assms(3) in simp_all)
    moreover have "cshape n (c\<lparr>cnet := n', cheap := s, cwork := (cwork c)[i := Sends t a p k b]\<rparr>)"
      by (rule cshape_slot [OF m(3) assms(2)]) (simp_all add: assms(3))
    moreover have "cfull m' (c\<lparr>cnet := n', cheap := s, cwork := (cwork c)[i := Sends t a p k b]\<rparr>)" if fl
      by (rule cfull_connect [OF m(4) [rule_format, OF that] m'(4,5) k(2,3)])
    ultimately show ?thesis using Some kb by (simp add: cinvI)
  qed
qed

lemma cinv_send:
  assumes "cinv ctx L K ls args n fl c" "i < length (cwork c)" "cwork c ! i = Sends t a p k b"
    and "send_data k b (tw t) (cnet c) (cheap c) = (ok, n', s)"
  shows "if ok
     then cinv ctx L K ls args n fl (c\<lparr>cnet := n', cheap := end_task t s, cwork := (cwork c)[i := Idle], clog := clog c @ [(a, p, tw t, True)]\<rparr>)
     else cinv ctx L K ls args n fl (c\<lparr>cnet := n', cheap := s, cwork := (cwork c)[i := Closes t a p]\<rparr>)"
proof -
  from assms(1) obtain m where m: "cmem L K ls args m c" "cdata ctx c" "cshape n c" "fl \<longrightarrow> cfull m c" by (rule cinvE)
  have w: "Sends t a p k b \<in> set (cwork c)" using assms(2,3) nth_mem by fastforce
  with m(2) have t: "tok ctx t" "hop_of ctx (tw t) = Some (a, p)" "k \<notin> set (new_socks (tab (cnet c)))" by (auto simp: cdata_def)
  from m(1) have c: "connections_map (tab (cnet c)) = Some m" "names_apart (cnet c) (cheap c)" "True \<notin> set (oom (cheap c))"
    by (simp_all add: cmem_def)
  have S: "shares task_own L (K \<union> lsocks ls (clst c)) m (dqueue (cdisp c)) (b # task_own t @ cblks args c @ concat (map wblks ((cwork c)[i := Idle]))) (cheap c)"
    using cmem_slot [OF m(1) assms(2)] assms(3) by simp
  have "sendable (tw t)" using t(1) by (simp add: tok_def)
  from send_data_spec [OF S c(2) this t(3) assms(4)] have
    D: "shares task_own L (K \<union> lsocks ls (clst c)) m (dqueue (cdisp c)) (task_own t @ cblks args c @ concat (map wblks ((cwork c)[i := Idle]))) s"
    "names_apart n' s" "oom s = oom (cheap c)" "tab n' = tab (cnet c)" "ok \<Longrightarrow> wire n' = wire (cnet c) @ [(k, encode (tw t))]"
    "sends (cnet c) = [] \<Longrightarrow> ok \<and> sends n' = []" by simp_all
  show ?thesis
  proof (cases ok)
    case True
    note E = end_task_spec [OF D(1)]
    have "names_apart n' (end_task t s)" using shares_names [OF D(1) _ D(2)] E by blast
    from cmem_put_back [OF m(1) assms(2), of m Idle "end_task t s" n'] E c D(3,4) this
    have "cmem L K ls args m (c\<lparr>cnet := n', cheap := end_task t s, cwork := (cwork c)[i := Idle]\<rparr>)" by simp
    then have "cmem L K ls args m (c\<lparr>cnet := n', cheap := end_task t s, cwork := (cwork c)[i := Idle], clog := clog c @ [(a, p, tw t, True)]\<rparr>)"
      by (simp only: cmem_log)
    moreover have "cdata ctx (c\<lparr>cnet := n', cheap := end_task t s, cwork := (cwork c)[i := Idle], clog := clog c @ [(a, p, tw t, True)]\<rparr>)"
      by (rule cdata_done [OF m(2) assms(2) _ t(2)]) (simp_all add: assms(3) D(4))
    moreover have "cshape n (c\<lparr>cnet := n', cheap := end_task t s, cwork := (cwork c)[i := Idle], clog := clog c @ [(a, p, tw t, True)]\<rparr>)"
      using cshape_slot [OF m(3) assms(2), where w = Idle and nt = n' and s = "end_task t s"] assms(3) by (simp add: cshape_def)
    moreover have "cfull m (c\<lparr>cnet := n', cheap := end_task t s, cwork := (cwork c)[i := Idle], clog := clog c @ [(a, p, tw t, True)]\<rparr>)" if fl
    proof -
      have f: "cfull m c" using m(4) that by simp
      then have "wfull m (Sends t a p k b)" "sends (cnet c) = []" using w unfolding cfull_def by blast+
      moreover have "conn_inv (live (cheap c) - set (conn.hm_blks m)) (K \<union> lsocks ls (clst c)) m (cheap c)" using S by (simp add: shares_def)
      ultimately show ?thesis using cfull_send [OF f _ _ D(5) [OF True]] D(6) by auto
    qed
    ultimately show ?thesis using True by (simp add: cinvI)
  next
    case False
    from cmem_put_back [OF m(1) assms(2), of m "Closes t a p" s n'] D c
    have "cmem L K ls args m (c\<lparr>cnet := n', cheap := s, cwork := (cwork c)[i := Closes t a p]\<rparr>)" by simp
    moreover have "cdata ctx (c\<lparr>cnet := n', cheap := s, cwork := (cwork c)[i := Closes t a p]\<rparr>)"
      by (rule cdata_slot [OF m(2) assms(2)]) (use t assms(3) D(4) in simp_all)
    moreover have "cshape n (c\<lparr>cnet := n', cheap := s, cwork := (cwork c)[i := Closes t a p]\<rparr>)"
      by (rule cshape_slot [OF m(3) assms(2)]) (simp_all add: assms(3))
    moreover have "\<not> fl" using m(4) D(6) False by (auto simp: cfull_def)
    ultimately show ?thesis using False by (simp add: cinvI)
  qed
qed

lemma cinv_close:
  assumes "cinv ctx L K ls args n fl c" "i < length (cwork c)" "cwork c ! i = Closes t a p"
    and "send_failed a p (cnet c) (cheap c) = (n', s)"
  shows "cinv ctx L K ls args n fl (c\<lparr>cnet := n', cheap := end_task t s, cwork := (cwork c)[i := Idle], clog := clog c @ [(a, p, tw t, False)]\<rparr>)"
proof -
  from assms(1) obtain m where m: "cmem L K ls args m c" "cdata ctx c" "cshape n c" "fl \<longrightarrow> cfull m c" by (rule cinvE)
  have w: "Closes t a p \<in> set (cwork c)" using assms(2,3) nth_mem by fastforce
  with m(2) have t: "hop_of ctx (tw t) = Some (a, p)" by (auto simp: cdata_def)
  have "\<not> cfull m c" unfolding cfull_def using w by force
  then have fl: "\<not> fl" using m(4) by simp
  from m(1) have c: "connections_map (tab (cnet c)) = Some m" "names_apart (cnet c) (cheap c)" "True \<notin> set (oom (cheap c))"
    by (simp_all add: cmem_def)
  have S: "shares task_own L (K \<union> lsocks ls (clst c)) m (dqueue (cdisp c)) (task_own t @ cblks args c @ concat (map wblks ((cwork c)[i := Idle]))) (cheap c)"
    using cmem_slot [OF m(1) assms(2)] assms(3) by simp
  from send_failed_spec [OF c(1) S c(2) assms(4)] obtain m' where m':
    "connections_map (tab n') = Some m'" "shares task_own L (K \<union> lsocks ls (clst c)) m' (dqueue (cdisp c)) (task_own t @ cblks args c @ concat (map wblks ((cwork c)[i := Idle]))) s"
    "names_apart n' s" "oom s = oom (cheap c)" "new_socks (tab n') = new_socks (tab (cnet c))" by blast
  note E = end_task_spec [OF m'(2)]
  have "names_apart n' (end_task t s)" using shares_names [OF m'(2) _ m'(3)] E by blast
  from cmem_put_back [OF m(1) assms(2), of m' Idle "end_task t s" n'] E c m'(1,4) this
  have "cmem L K ls args m' (c\<lparr>cnet := n', cheap := end_task t s, cwork := (cwork c)[i := Idle]\<rparr>)" by simp
  then have "cmem L K ls args m' (c\<lparr>cnet := n', cheap := end_task t s, cwork := (cwork c)[i := Idle], clog := clog c @ [(a, p, tw t, False)]\<rparr>)"
    by (simp only: cmem_log)
  moreover have "cdata ctx (c\<lparr>cnet := n', cheap := end_task t s, cwork := (cwork c)[i := Idle], clog := clog c @ [(a, p, tw t, False)]\<rparr>)"
    by (rule cdata_done [OF m(2) assms(2) _ t]) (simp_all add: assms(3) m'(5))
  moreover have "cshape n (c\<lparr>cnet := n', cheap := end_task t s, cwork := (cwork c)[i := Idle], clog := clog c @ [(a, p, tw t, False)]\<rparr>)"
    using cshape_slot [OF m(3) assms(2), where w = Idle and nt = n' and s = "end_task t s"] assms(3) by (simp add: cshape_def)
  ultimately show ?thesis using fl by (simp add: cinvI)
qed

lemma cmem_with_recv:
  assumes "cmem L K ls args m c" "clst c = Reads k cn" "protocol cn'"
    and "shares task_own L (K \<union> {k, ls}) m q (cblks args c @ concat (map wblks (cwork c))) s" "names_apart (cnet c) s"
    and "tcapacity q = 0" "tself q = tself (dqueue (cdisp c))" "map_option freeFunc (inner q) = map_option freeFunc (inner (dqueue (cdisp c)))"
    and "True \<notin> set (oom s)"
  shows "cmem L K ls args m ((with_queue c q s)\<lparr>clst := Reads k cn'\<rparr>)"
  using assms by (simp add: cmem_def disp_blks_def)

lemma cinv_read:
  assumes "cinv ctx L K ls args n fl c" "clst c = Reads k cn" "deserialize_warning cn (cheap c) = (Some w, cn', s)" "alive c"
    and "cp_put f l w (cdisp c) s = Some (d, s')"
  shows "cinv ctx L K ls args n fl (c\<lparr>clst := Reads k cn', cdisp := d, cheap := s',
    crecv := (if length (pending (cdisp c)) < length (pending d) then crecv c @ [w] else crecv c)\<rparr>)"
proof -
  from assms(1) obtain m where m: "cmem L K ls args m c" "cdata ctx c" "cshape n c" "fl \<longrightarrow> cfull m c" by (rule cinvE)
  from m(1) assms(2) obtain ws where ws: "carries cn ws" by (auto simp: cmem_def)
  note o = cmem_os(1,3) [OF m(1)]
  from carries_step [OF ws o assms(3)] have w: "sendable w" "protocol cn'" by blast+
  note R = cmem_read [OF m(1) assms(2,3), simplified option.case]
  have q0: "tcapacity (dqueue (cdisp c)) = 0" using m(1) by (simp add: cmem_def)
  show ?thesis
  proof (cases "cstage c = Up")
    case True
    then have "\<not> shutting_down (dpool (cdisp c))" using m(3) by (simp add: cshape_def)
    from put_accepted [OF R(1) q0 this R(3) assms(5)] obtain t q where
      e: "d = (cdisp c)\<lparr>dpool := (dpool (cdisp c))\<lparr>pqueue := q\<rparr>\<rparr>" "arg t = \<lparr>jctx = dctx (cdisp c), jw = w, job_blk = job_blk (arg t)\<rparr>"
      "shares task_own L (K \<union> {k, ls}) m q (cblks args c @ concat (map wblks (cwork c))) s'" "titems q = titems (dqueue (cdisp c)) @ [Some t]"
      "tcapacity q = 0" "tself q = tself (dqueue (cdisp c))" "map_option freeFunc (inner q) = map_option freeFunc (inner (dqueue (cdisp c)))"
      "True \<notin> set (oom s')" by (elim exE conjE)
    have "length (pending (cdisp c)) < length (pending d)" using e(1,4) by (simp add: pending_queue)
    then have c': "c\<lparr>clst := Reads k cn', cdisp := d, cheap := s', crecv := (if length (pending (cdisp c)) < length (pending d) then crecv c @ [w] else crecv c)\<rparr> =
      (with_queue c q s')\<lparr>clst := Reads k cn', crecv := crecv c @ [w]\<rparr>" using e(1) by simp
    have "names_apart (cnet c) s'" by (rule shares_names [OF R(1) e(3) R(2)])
    from cmem_with_recv [OF m(1) assms(2) w(2) e(3) this e(5-8)]
    have "cmem L K ls args m ((with_queue c q s')\<lparr>clst := Reads k cn', crecv := crecv c @ [w]\<rparr>)" by (simp only: cmem_log)
    moreover have "cdata ctx ((with_queue c q s')\<lparr>clst := Reads k cn', crecv := crecv c @ [w]\<rparr>)"
      by (rule cdata_recv [OF m(2) e(4,2) w(1)])
    moreover have "cshape n ((with_queue c q s')\<lparr>clst := Reads k cn', crecv := crecv c @ [w]\<rparr>)"
      by (rule cshape_recv [OF m(3) True e(4)])
    moreover have "cfull m ((with_queue c q s')\<lparr>clst := Reads k cn', crecv := crecv c @ [w]\<rparr>)" if fl
      by (rule cfull_cong [OF m(4) [rule_format, OF that]]) simp_all
    ultimately show ?thesis unfolding c' by (rule cinvI)
  next
    case False
    then have "shutting_down (dpool (cdisp c))" using m(3) by (simp add: cshape_def)
    from put_refused [OF R(1) this assms(5)] have e: "d = cdisp c" "set (oom s') \<subseteq> set (oom s)"
      "shares task_own L (K \<union> {k, ls}) m (dqueue (cdisp c)) (cblks args c @ concat (map wblks (cwork c))) s'" by auto
    then have c': "c\<lparr>clst := Reads k cn', cdisp := d, cheap := s', crecv := (if length (pending (cdisp c)) < length (pending d) then crecv c @ [w] else crecv c)\<rparr> =
      (with_queue c (dqueue (cdisp c)) s')\<lparr>clst := Reads k cn'\<rparr>" by simp
    have "names_apart (cnet c) s'" by (rule shares_names [OF R(1) e(3) R(2)])
    from cmem_with_recv [OF m(1) assms(2) w(2) e(3) this] q0 R(3) e(2)
    have "cmem L K ls args m ((with_queue c (dqueue (cdisp c)) s')\<lparr>clst := Reads k cn'\<rparr>)" by auto
    moreover have "cdata ctx ((with_queue c (dqueue (cdisp c)) s')\<lparr>clst := Reads k cn'\<rparr>)"
      by (rule cdata_cong [OF m(2), where j = 0]) simp_all
    moreover have "cshape n ((with_queue c (dqueue (cdisp c)) s')\<lparr>clst := Reads k cn'\<rparr>)" using m(3) by (simp add: cshape_def)
    moreover have "cfull m ((with_queue c (dqueue (cdisp c)) s')\<lparr>clst := Reads k cn'\<rparr>)" if fl
      by (rule cfull_cong [OF m(4) [rule_format, OF that]]) simp_all
    ultimately show ?thesis unfolding c' by (rule cinvI)
  qed
qed

lemma cinv_same:
  assumes "cinv ctx L K ls args n fl c" "\<And>m. cmem L K ls args m c \<Longrightarrow> cmem L K ls args m c'" "cshape n c \<Longrightarrow> cshape n c'"
    and "cdisp c' = cdisp c" "cwork c' = cwork c" "cnet c' = cnet c" "crecv c' = crecv c" "clog c' = clog c"
  shows "cinv ctx L K ls args n fl c'"
proof -
  from assms(1) obtain m where m: "cmem L K ls args m c" "cdata ctx c" "cshape n c" "fl \<longrightarrow> cfull m c" by (rule cinvE)
  have "cdata ctx c'" by (rule cdata_cong [OF m(2), where j = 0]) (simp_all add: assms)
  moreover have "fl \<Longrightarrow> cfull m c'" using m(4) assms(4-8) by (auto intro: cfull_cong)
  ultimately show ?thesis using assms(2) [OF m(1)] assms(3) [OF m(3)] by (intro cinvI)
qed

lemma cinv_sentinel:
  assumes "cinv ctx L K ls args n fl c" "cstage c = Stopping i"
    and "tsqueue_enqueue (dqueue (cdisp c)) None (cheap c) = Some (r, q, s)"
  shows "cinv ctx L K ls args n fl ((with_queue c q s)\<lparr>cstage := Stopping (i + 1)\<rparr>)"
proof -
  from assms(1) obtain m where m: "cmem L K ls args m c" "cdata ctx c" "cshape n c" "fl \<longrightarrow> cfull m c" by (rule cinvE)
  note S = cmem_sentinel [OF m(1) assms(3)]
  have "cmem L K ls args m ((with_queue c q s)\<lparr>cstage := Stopping (i + 1)\<rparr>)" using S by (simp only: cmem_log)
  moreover have "cdata ctx ((with_queue c q s)\<lparr>cstage := Stopping (i + 1)\<rparr>)"
    by (rule cdata_cong [OF m(2), where j = 1]) (simp_all add: S)
  moreover have "cshape n ((with_queue c q s)\<lparr>cstage := Stopping (i + 1)\<rparr>)"
    by (rule cshape_sentinel [OF m(3) assms(2) conjunct2 [OF S]])
  moreover have "fl \<Longrightarrow> cfull m ((with_queue c q s)\<lparr>cstage := Stopping (i + 1)\<rparr>)" using m(4) by (auto intro: cfull_cong)
  ultimately show ?thesis by (rule cinvI)
qed

lemma cstep_alive: "cstep good f l ls args c c' \<Longrightarrow> alive c' \<Longrightarrow> alive c"
  by (erule cstep.cases) auto

lemma cstep_cinv:
  assumes "cstep protocol f l ls args c c'" "cinv ctx L K ls args n fl c" "alive c'" "\<And>w. hop_of ctx w \<noteq> None"
  shows "cinv ctx L K ls args n fl c'"
  using assms(1)
proof (cases rule: cstep.cases)
  case (accept cn k)
  then obtain ws where ws: "carries cn ws" by blast
  show ?thesis
    by (rule cinv_same [OF assms(2)]) (use accept cmem_accept [OF _ accept(2) ws accept(5,6)] in \<open>simp_all\<close>)
next
  case exit_seen
  show ?thesis by (rule cinv_same [OF assms(2)]) (use exit_seen cmem_exit_seen in \<open>simp_all\<close>)
next
  case (read_warning k cn w cn' s d s')
  have "alive c" using read_warning(4) by auto
  from cinv_read [OF assms(2) read_warning(2,3) this read_warning(5)] show ?thesis using read_warning(1) by simp
next
  case (read_end k cn cn' s)
  show ?thesis by (rule cinv_same [OF assms(2)]) (use read_end cmem_read_end [OF _ read_end(2,3)] in \<open>simp_all\<close>)
next
  case (take i t q s)
  from cinv_take [OF assms(2) take(2-4)] take(1) show ?thesis by simp
next
  case (take_null i q s)
  from cinv_take [OF assms(2) take_null(2-4)] take_null(1) show ?thesis by simp
next
  case (connect i t a p k b n' s)
  from cinv_connect [OF assms(2) connect(2-5)] connect(1) show ?thesis by simp
next
  case (no_connection i t a p n' s)
  from cinv_connect [OF assms(2) no_connection(2-5)] no_connection(1) show ?thesis by simp
next
  case (no_hop i t)
  from assms(2) have "jctx (arg t) = ctx" using no_hop(2,3) nth_mem by (force simp: cinv_def cdata_def tok_def)
  with assms(4) [of "tw t"] no_hop(4) show ?thesis by simp
next
  case (send i t a p k b n' s)
  from cinv_send [OF assms(2) send(2-4)] send(1) show ?thesis by simp
next
  case (short_send i t a p k b n' s)
  from cinv_send [OF assms(2) short_send(2-4)] short_send(1) show ?thesis by simp
next
  case (close i t a p n' s)
  from cinv_close [OF assms(2) close(2-4)] close(1) show ?thesis by simp
next
  case exit_event
  show ?thesis by (rule cinv_same [OF assms(2)]) (use exit_event in \<open>simp_all\<close>)
next
  case shutdown
  show ?thesis
  proof -
    from assms(2) obtain m where m: "cmem L K ls args m c" "cdata ctx c" "cshape n c" "fl \<longrightarrow> cfull m c" by (rule cinvE)
    have "cmem L K ls args m c'" unfolding shutdown(1) using m(1) cmem_stop by (simp add: cmem_def disp_blks_def)
    moreover have "cdata ctx c'" by (rule cdata_cong [OF m(2), where j = 0]) (simp_all add: shutdown(1))
    moreover have "cshape n c'" using m(3) shutdown by (simp add: cshape_def)
    moreover have "fl \<Longrightarrow> cfull m c'" using m(4) shutdown(1) by (auto intro: cfull_cong)
    ultimately show ?thesis by (rule cinvI)
  qed
next
  case (sentinel i r q s)
  from cinv_sentinel [OF assms(2) sentinel(2,4)] sentinel(1) show ?thesis by simp
qed (use assms(3) cstep_alive [OF assms(1,3)] in \<open>simp_all\<close>)

lemma creach_cinv:
  assumes "(cstep protocol f l ls args)\<^sup>*\<^sup>* c c'" "cinv ctx L K ls args n fl c" "alive c'" "\<And>w. hop_of ctx w \<noteq> None"
  shows "cinv ctx L K ls args n fl c'"
  using assms(1,3)
proof (induction rule: rtranclp_induct)
  case (step y z)
  then show ?case using cstep_cinv [OF step.hyps(2) _ step.prems assms(4)] cstep_alive by blast
qed (rule assms(2))

section \<open>The start\<close>

lemma gone_start [simp]: "gone (replicate k Idle) = 0"
  by (simp add: num_def)

lemma doing_start [simp]: "doing (replicate k Idle) = []"
  by (auto simp: doing_def)

lemma cp_dispatcher_empty:
  assumes "os_ok s" "cp_dispatcher_create ctx n s = Some (Some d, s')"
  shows "titems (dqueue d) = [] \<and> thread_count (dpool d) = n"
proof -
  from assms(2) obtain a s1 b s2 q s3 c where e: "malloc s = (Some a, s1)" "malloc s1 = (Some b, s2)"
    "tsqueue_create 0 (Some free_task) s2 = (Some q, s3)"
    "d = \<lparr>dpool = \<lparr>thread_count = n, threads_blk = c, pqueue = q, shutting_down = False, pool_blk = b\<rparr>, dctx = ctx, d_blk = a\<rparr>"
    by (auto simp: cp_dispatcher_create_def tp_create_def split: prod.splits option.splits)
  have "os_ok s2" using malloc_ok [OF malloc_ok [OF assms(1) e(1)] e(2)] .
  from tsqueue_create_ok [OF this e(3)] e(4) show ?thesis by simp
qed

lemma cinv_start:
  assumes "connections_map (tab n) = Some m" "conn_inv (live s0 - set (conn.hm_blks m)) K m s0" "names_apart n s0" "True \<notin> set (oom s)"
    and "cp_dispatcher_create ctx cnt s0 = Some (Some d, s)" "malloc s = (Some args, s1)" "True \<notin> set (oom s1)"
    and "ls \<notin> socks s1" "ls \<notin> set (new_socks (tab n))" "ls \<notin> K" "\<And>a p. answers m a p = None" "wire n = []"
  shows "cinv ctx (live s0 - set (conn.hm_blks m)) K ls args cnt (sends n = []) (cstart k d n (s1\<lparr>socks := insert ls (socks s1)\<rparr>))"
proof -
  let ?L = "live s0 - set (conn.hm_blks m)" and ?s = "s1\<lparr>socks := insert ls (socks s1)\<rparr>"
  let ?c = "cstart k d n ?s"
  have ok: "os_ok s0" using conn_inv_live(1) [OF assms(2)] .
  from cp_dispatcher_create_spec [OF ok assms(5)] have D: "disp_ok (live s0) (socks s0) d s" "pending d = []" "dctx d = ctx" by auto
  have lv: "live s0 = ?L \<union> set (conn.hm_blks m)" "set (conn.hm_blks m) \<inter> ?L = {}" using conn_inv_live(2) [OF assms(2)] by blast+
  have q: "qholds (?L \<union> set (conn.hm_blks m)) (socks s) task_own (disp_blks d) (dqueue d) s" "socks s = socks s0"
    using D(1) lv(1) by (simp_all add: disp_ok_def qholds_def)
  have qo: "os_ok s" "set (conn.hm_blks m) \<subseteq> live s" using qholds_ok [OF q(1)] q(1) by (auto simp: qholds_def)
  have "conn_inv (live s - set (conn.hm_blks m)) K m s" by (rule conn_inv_move [OF assms(2) qo(1) q(2) qo(2)])
  then have S: "shares task_own ?L K m (dqueue d) (disp_blks d) s" using q(1) lv(2) by (simp add: shares_def)
  from shares_open_sock [OF shares_malloc [OF S assms(6)] assms(8)]
  have T: "shares task_own ?L (insert ls K) m (dqueue d) (args # disp_blks d) ?s" .
  have "socks s1 \<subseteq> socks s0" using q(2) malloc_Some [OF assms(6)] by simp
  then have N: "names_apart n ?s" using assms(3,9) by (auto simp: names_apart_def)
  have "concat (map wblks (replicate k Idle)) = []" by auto
  with T N assms(1,7,10) D(1) have "cmem ?L K ls args m ?c" by (simp add: cmem_def cstart_def disp_ok_def)
  moreover have it: "tasks ?c = []" using D(2) by (simp add: pending_def cstart_def)
  then have "cdata ctx ?c" using D(3) by (simp add: cdata_def cstart_def)
  moreover have "titems (dqueue d) = [] \<and> thread_count (dpool d) = cnt"
    using cp_dispatcher_empty [OF ok assms(5)] by simp
  then have "cshape cnt ?c" using D(1) by (simp add: cshape_def cstart_def disp_ok_def)
  moreover have "cfull m ?c" if "sends n = []" using that assms(11) by (simp add: cfull_def cstart_def framed_def)
  ultimately show ?thesis by (rule cinvI)
qed

section \<open>The end\<close>

text \<open>Every step of a worker uses up an item or brings a task nearer to its end.\<close>

fun rank :: "cp_worker \<Rightarrow> nat" where
  "rank (Has t) = 3" | "rank (Sends t a p k b) = 2" | "rank (Closes t a p) = 1" | "rank _ = 0"

definition cpwork :: "cpsys \<Rightarrow> nat" where
  "cpwork c = 4 * length (titems (dqueue (cdisp c))) + sum_list (map rank (cwork c))"

lemma rank_upd:
  assumes "i < length ws"
  shows "sum_list (map rank (ws[i := w])) + rank (ws ! i) = sum_list (map rank ws) + rank w"
  using assms elem_le_sum_list [of i "map rank ws"] by (simp add: map_update sum_list_update)

abbreviation worker_step :: "(u64 \<Rightarrow> string) \<Rightarrow> (u64 \<Rightarrow> tm) \<Rightarrow> SOCKET \<Rightarrow> nat \<Rightarrow> cpsys \<Rightarrow> cpsys \<Rightarrow> bool" where
  "worker_step f l ls args c c' \<equiv> cstep protocol f l ls args c c' \<and> cwork c' \<noteq> cwork c"

lemma cinv_dequeue:
  assumes "cinv ctx L K ls args n fl c" "tsqueue_dequeue (dqueue (cdisp c)) (cheap c) = Some (d, q, s)"
  shows "titems (dqueue (cdisp c)) = d # titems q"
proof -
  from assms(1) obtain m where "cmem L K ls args m c" by (rule cinvE)
  from tsqueue_dequeue_ok [OF cmem_os(2) [OF this] assms(2)] show ?thesis by simp
qed

lemma worker_step_work:
  assumes "worker_step f l ls args c c'" "cinv ctx L K ls args n fl c"
  shows "cpwork c' < cpwork c \<and> clst c' = clst c \<and> cexit c' = cexit c \<and> cstage c' = cstage c \<and> crecv c' = crecv c \<and>
    length (cwork c') = length (cwork c)"
  using conjunct1 [OF assms(1)]
proof (cases rule: cstep.cases)
  case (take i t q s)
  from rank_upd [OF take(2), of "Has t"] cinv_dequeue [OF assms(2) take(4)] take(1,3) show ?thesis by (simp add: cpwork_def)
next
  case (take_null i q s)
  from rank_upd [OF take_null(2), of Gone] cinv_dequeue [OF assms(2) take_null(4)] take_null(1,3) show ?thesis by (simp add: cpwork_def)
next
  case (connect i t a p k b n' s)
  from rank_upd [OF connect(2), of "Sends t a p k b"] connect(1,3) show ?thesis by (simp add: cpwork_def)
next
  case (no_connection i t a p n' s)
  from rank_upd [OF no_connection(2), of Idle] no_connection(1,3) show ?thesis by (simp add: cpwork_def)
next
  case (send i t a p k b n' s)
  from rank_upd [OF send(2), of Idle] send(1,3) show ?thesis by (simp add: cpwork_def)
next
  case (short_send i t a p k b n' s)
  from rank_upd [OF short_send(2), of "Closes t a p"] short_send(1,3) show ?thesis by (simp add: cpwork_def)
next
  case (close i t a p n' s)
  from rank_upd [OF close(2), of Idle] close(1,3) show ?thesis by (simp add: cpwork_def)
qed (use assms(1) in simp_all)

lemma workers_progress:
  assumes "cinv ctx L K ls args n fl c" "cstage c = Stopping n" "length (cwork c) \<le> n" "\<exists>w \<in> set (cwork c). w \<noteq> Gone"
    and "\<And>w. hop_of ctx w \<noteq> None"
  shows "\<exists>c'. worker_step f l ls args c c'"
proof -
  from assms(1) obtain m where m: "cmem L K ls args m c" "cdata ctx c" "cshape n c" "fl \<longrightarrow> cfull m c" by (rule cinvE)
  from assms(4) obtain i where i: "i < length (cwork c)" "cwork c ! i \<noteq> Gone" by (metis in_set_conv_nth)
  then have ci: "cwork c ! i \<in> set (cwork c)" by simp
  have ch: "(cwork c)[i := w] \<noteq> cwork c" if "cwork c ! i \<noteq> w" for w using i(1) that by (simp add: list_update_same_conv)
  show ?thesis
  proof (cases "cwork c ! i")
    case Idle
    from m(3) obtain ts j where j: "titems (dqueue (cdisp c)) = map Some ts @ replicate j None"
      "j + gone (cwork c) = sentinels (cstage c)" "0 < gone (cwork c) \<Longrightarrow> ts = []" by (rule cshapeE) (rule that, assumption, assumption, simp)
    have "gone (cwork c) < length (cwork c)"
      using i length_filter_less [of "cwork c ! i" "cwork c" "\<lambda>w. w = Gone"] by (simp add: num_def)
    with j(2) assms(2,3) have "0 < j" by simp
    with j(1) obtain d r where "titems (dqueue (cdisp c)) = d # r" by (cases ts; cases j) auto
    from dequeue_first [OF cmem_os(2) [OF m(1)] this] obtain q s where q: "tsqueue_dequeue (dqueue (cdisp c)) (cheap c) = Some (d, q, s)"
      by blast
    show ?thesis
    proof (cases d)
      case None
      with q cstep.take_null [OF i(1) Idle, of q s] ch [of Gone] Idle show ?thesis by fastforce
    next
      case (Some t)
      with q cstep.take [OF i(1) Idle, of t q s] ch [of "Has t"] Idle show ?thesis by fastforce
    qed
  next
    case (Has t)
    from m(2) ci Has have "jctx (arg t) = ctx" by (auto simp: cdata_def tok_def)
    with assms(5) [of "tw t"] obtain a p where h: "hop_of (jctx (arg t)) (tw t) = Some (a, p)" by fastforce
    obtain r n' s where o: "send_open a p (cnet c) (cheap c) = (r, n', s)" by (metis prod.exhaust)
    show ?thesis
    proof (cases r)
      case None
      with o cstep.no_connection [OF i(1) Has h, of n' s] ch [of Idle] Has show ?thesis by fastforce
    next
      case (Some kb)
      with o cstep.connect [OF i(1) Has h, of "fst kb" "snd kb" n' s] ch [of "Sends t a p (fst kb) (snd kb)"] Has show ?thesis by fastforce
    qed
  next
    case (Sends t a p k b)
    obtain ok n' s where d: "send_data k b (tw t) (cnet c) (cheap c) = (ok, n', s)" by (metis prod.exhaust)
    show ?thesis
    proof (cases ok)
      case True
      with d cstep.send [OF i(1) Sends, of n' s] ch [of Idle] Sends show ?thesis by fastforce
    next
      case False
      with d cstep.short_send [OF i(1) Sends, of n' s] ch [of "Closes t a p"] Sends show ?thesis by fastforce
    qed
  next
    case (Closes t a p)
    obtain n' s where d: "send_failed a p (cnet c) (cheap c) = (n', s)" by (metis prod.exhaust)
    from cstep.close [OF i(1) Closes d] ch [of Idle] Closes show ?thesis by fastforce
  qed (use i in simp)
qed

lemma workers_end:
  assumes "cinv ctx L K ls args n fl c" "cstage c = Stopping n" "length (cwork c) \<le> n" "\<And>w. hop_of ctx w \<noteq> None"
  shows "\<exists>c'. (worker_step f l ls args)\<^sup>*\<^sup>* c c' \<and> cinv ctx L K ls args n fl c' \<and> (\<forall>w \<in> set (cwork c'). w = Gone) \<and>
    clst c' = clst c \<and> cexit c' = cexit c \<and> cstage c' = cstage c \<and> crecv c' = crecv c \<and> length (cwork c') = length (cwork c)"
  using assms(1-3)
proof (induction "cpwork c" arbitrary: c rule: less_induct)
  case less
  show ?case
  proof (cases "\<exists>w \<in> set (cwork c). w \<noteq> Gone")
    case False
    with less.prems(1) show ?thesis by blast
  next
    case True
    from workers_progress [OF less.prems True assms(4)] obtain c1 where c1: "worker_step f l ls args c c1" by blast
    note W = worker_step_work [OF c1 less.prems(1)]
    have "cinv ctx L K ls args n fl c1"
      by (rule cstep_cinv [OF conjunct1 [OF c1] less.prems(1) _ assms(4)]) (use W less.prems(2) in simp)
    from less.hyps [OF _ this] W less.prems(2,3) obtain c2 where c2: "(worker_step f l ls args)\<^sup>*\<^sup>* c1 c2" "cinv ctx L K ls args n fl c2"
      "\<forall>w \<in> set (cwork c2). w = Gone" "clst c2 = clst c1" "cexit c2 = cexit c1" "cstage c2 = cstage c1" "crecv c2 = crecv c1"
      "length (cwork c2) = length (cwork c1)" by auto
    from converse_rtranclp_into_rtranclp [of "worker_step f l ls args", OF c1 c2(1)] c2(2-) W show ?thesis
      by (intro exI [of _ c2]) simp
  qed
qed

text \<open>Freeing the dispatcher when its workers have left their loops and no task is left.\<close>

lemma free_dispatcher_holds:
  assumes "qholds L K task_own (disp_blks d @ X) (dqueue d) s" "map_option freeFunc (inner (dqueue d)) = Some (Some free_task)"
    and "somes (titems (dqueue d)) = []"
  shows "\<exists>s'. cp_dispatcher_free (Some d) s = Some s' \<and> holds L K X s' \<and> oom s' = oom s"
proof -
  from assms(1,3) have "qholds L K (\<lambda>t. [task_blk t]) (tself (dqueue d) # d_blk d # pool_blk (dpool d) # threads_blk (dpool d) # X) (dqueue d) s"
    by (simp add: qholds_def disp_blks_def)
  from td.qholds_destroy [OF this assms(2)] assms(3) obtain s1 where
    s1: "tsqueue_destroy (Some (dqueue d)) s = Some s1" "holds L K (d_blk d # pool_blk (dpool d) # threads_blk (dpool d) # X) s1"
    "oom s1 = oom s" by (auto simp: td.owns_socks_def)
  have "mset (d_blk d # pool_blk (dpool d) # threads_blk (dpool d) # X) = mset (threads_blk (dpool d) # pool_blk (dpool d) # d_blk d # X)" by simp
  from s1(2) [unfolded holds_perm [OF this]] holds_free
  have "holds L K X (free_blk (d_blk d) (free_blk (pool_blk (dpool d)) (free_blk (threads_blk (dpool d)) s1)))" by metis
  with s1(1,3) show ?thesis by (simp add: cp_dispatcher_free_def tp_free_def free_blk_oom)
qed

lemma free_dispatcher:
  assumes "shares task_own L K m (dqueue d) (disp_blks d @ X) s" "map_option freeFunc (inner (dqueue d)) = Some (Some free_task)"
    and "somes (titems (dqueue d)) = []"
  shows "\<exists>s'. cp_dispatcher_free (Some d) s = Some s' \<and> conn_inv (L \<union> set X) K m s' \<and> set X \<inter> L = {} \<and> oom s' = oom s"
proof -
  let ?H = "set (conn.hm_blks m)"
  from assms(1) have b: "conn_inv (live s - ?H) K m s" "qholds (L \<union> ?H) (socks s) task_own (disp_blks d @ X) (dqueue d) s" "?H \<inter> L = {}"
    by (auto simp: shares_def)
  from free_dispatcher_holds [OF b(2) assms(2,3)] obtain s' where e: "cp_dispatcher_free (Some d) s = Some s'"
    "holds (L \<union> ?H) (socks s) X s'" "oom s' = oom s" by blast
  then have l: "os_ok s'" "live s' = L \<union> ?H \<union> set X" "socks s' = socks s" "set X \<inter> (L \<union> ?H) = {}" by (auto simp: holds_def)
  have "conn_inv (live s' - ?H) K m s'" by (rule conn_inv_move [OF b(1) l(1,3)]) (use l(2) in blast)
  moreover have "live s' - ?H = L \<union> set X" using l(2,4) b(3) by blast
  ultimately show ?thesis using e(1,3) l(4) by auto
qed

end
