(* ===== verification/Shutdown.thy ===== *)
theory Shutdown
  imports Windows
begin

text \<open>
  \<open>CentralPropagator/cp_shutdown.c\<close> and \<open>DataDestination/dd_shutdown.c\<close>: how a program is told to
  stop.  The exit event is created by \<open>main\<close>; console signals and the data source set it.
\<close>

definition CTRL_C_EVENT :: nat where
  "CTRL_C_EVENT = 0"

definition CTRL_CLOSE_EVENT :: nat where
  "CTRL_CLOSE_EVENT = 2"

text \<open>\<open>g_exitEvent\<close> is a null pointer until the event exists.\<close>

definition console_handler :: "nat \<Rightarrow> HANDLE option \<Rightarrow> win \<Rightarrow> bool \<times> win" where
  "console_handler signal g_exitEvent w =
     (if signal = CTRL_CLOSE_EVENT \<or> signal = CTRL_C_EVENT
      then (True, case g_exitEvent of None \<Rightarrow> w | Some ev \<Rightarrow> SetEvent ev w)
      else (False, w))"

text \<open>The copy in the destination.\<close>

definition dd_console_handler :: "nat \<Rightarrow> HANDLE option \<Rightarrow> win \<Rightarrow> bool \<times> win" where
  "dd_console_handler signal g_exitEvent w =
     (if signal = CTRL_CLOSE_EVENT \<or> signal = CTRL_C_EVENT
      then (True, case g_exitEvent of None \<Rightarrow> w | Some ev \<Rightarrow> SetEvent ev w)
      else (False, w))"

definition shutdown_waiter_fn :: "HANDLE \<Rightarrow> win \<Rightarrow> win option" where
  "shutdown_waiter_fn g_exitEvent w = WaitForSingleObject g_exitEvent w"

section \<open>Lemmas\<close>

lemma call_fails_frame:
  assumes "call_fails w = (b, w')"
  shows "wholds H X w \<Longrightarrow> wholds H X w'" "set (fails w') \<subseteq> set (fails w)" "signalled w' = signalled w" "b \<longrightarrow> True \<in> set (fails w)"
proof -
  have e: "handles w' = handles w \<and> next_handle w' = next_handle w \<and> misuse w' = misuse w \<and> set (fails w') \<subseteq> set (fails w) \<and>
      signalled w' = signalled w \<and> (b \<longrightarrow> True \<in> set (fails w))"
    using assms by (auto simp: call_fails_def split: list.splits)
  then show "wholds H X w \<Longrightarrow> wholds H X w'" by (auto intro: wholds_frame)
  from e show "set (fails w') \<subseteq> set (fails w)" "signalled w' = signalled w" "b \<longrightarrow> True \<in> set (fails w)" by auto
qed

lemma CreateEventA_spec:
  assumes "wholds H X w" "CreateEventA name w = (Some ev, w')"
  shows "wholds H ((ev, Event name) # X) w' \<and> set (fails w') \<subseteq> set (fails w) \<and> signalled w' = signalled w"
proof -
  from assms(2) obtain wa where a: "call_fails w = (False, wa)" "new_handle (Event name) wa = (ev, w')"
    by (auto simp: CreateEventA_def split: prod.splits bool.splits)
  note F = call_fails_frame [OF a(1)]
  from wholds_new [OF F(1) [OF assms(1)] a(2)] F show ?thesis by simp
qed

lemma SetEvent_event:
  assumes "handles w ev = Some (Event name)"
  shows "SetEvent ev w = w\<lparr>signalled := insert name (signalled w)\<rparr>"
  using assms by (simp add: SetEvent_def)

text \<open>The handler sets the event for Ctrl-C and for a closed console, and nothing else.\<close>

lemma console_handler_sets:
  assumes "handles w ev = Some (Event name)" "console_handler sig (Some ev) w = (r, w')"
  shows "r \<longleftrightarrow> sig \<in> {0, 2}" "w' = (if r then w\<lparr>signalled := insert name (signalled w)\<rparr> else w)"
  using assms by (auto simp: console_handler_def SetEvent_event CTRL_C_EVENT_def CTRL_CLOSE_EVENT_def split: if_splits)

lemma waiter_returns:
  assumes "handles w ev = Some (Event name)"
  shows "shutdown_waiter_fn ev w = (if name \<in> signalled w then Some w else None)"
  using assms by (simp add: shutdown_waiter_fn_def WaitForSingleObject_def)

end
