(* ===== verification/PropagatorMain.thy ===== *)
theory PropagatorMain
  imports PropagatorSystem Shutdown
begin

text \<open>
  \<open>CentralPropagator/main.c\<close>: the set-up of a central propagator, the wait for its exit event, and
  what it does after.  \<open>PropagatorSystem\<close> says what happens between; the
  properties of the whole program are here.
\<close>

section \<open>Operations\<close>

abbreviation THREAD_POOL_SIZE :: nat where
  "THREAD_POOL_SIZE \<equiv> 4"

record cpmain =
  cm_ctx :: CPContext
  cm_disp :: CPDispatcher
  cm_args :: ListenerArgs
  cm_event :: HANDLE
  cm_listener :: HANDLE

text \<open>
  \<open>main\<close> up to the start of the listener thread: \<open>Some (None, \<dots>)\<close> is a return of \<open>EXIT_FAILURE\<close>, \<open>None\<close>
  a loop that does not end.  The table of connections is created before the arguments are looked
  at, and is not given back when one of the later calls fails.  Where the listener cannot be
  started the dispatcher is shut down while its workers wait at the empty queue: \<open>tp_shutdown\<close> queues
  a NULL item for each, each takes one, and the memory is freed.
\<close>

fun put_nulls :: "nat \<Rightarrow> task TSQueue \<Rightarrow> os \<Rightarrow> (task TSQueue \<times> os) option" where
  "put_nulls 0 q s = Some (q, s)"
| "put_nulls (Suc n) q s = (case tsqueue_enqueue q None s of None \<Rightarrow> None | Some (_, q, s) \<Rightarrow> put_nulls n q s)"

text \<open>A worker that finds nothing waits for ever, and so does the join.\<close>

fun take_nulls :: "nat \<Rightarrow> task TSQueue \<Rightarrow> os \<Rightarrow> (task TSQueue \<times> os) option" where
  "take_nulls 0 q s = Some (q, s)"
| "take_nulls (Suc n) q s = (case tsqueue_dequeue q s of None \<Rightarrow> None | Some (_, q, s) \<Rightarrow> take_nulls n q s)"

definition shut_down_idle :: "CPDispatcher \<Rightarrow> os \<Rightarrow> os option" where
  "shut_down_idle d s =
     (case put_nulls (thread_count (dpool d)) (dqueue d) s of
        None \<Rightarrow> None
      | Some (q, s) \<Rightarrow>
          (case take_nulls (thread_count (dpool d)) q s of
             None \<Rightarrow> None
           | Some (q, s) \<Rightarrow> cp_dispatcher_free (Some (d\<lparr>dpool := (dpool d)\<lparr>pqueue := q, shutting_down := True\<rparr>\<rparr>)) s))"

definition cp_start_listener :: "CPContext \<Rightarrow> u16 \<Rightarrow> CPDispatcher \<Rightarrow> HANDLE \<Rightarrow> win \<Rightarrow> os \<Rightarrow> (cpmain option \<times> win \<times> os) option" where
  "cp_start_listener ctx port d ev w s =
     (case call_fails w of
        (failed, w) \<Rightarrow>
          (case cp_start_listener_thread (\<not> failed) ctx port d s of
             (None, s) \<Rightarrow> map_option (\<lambda>s. (None, w, cp_context_destroy (Some ctx) s)) (shut_down_idle d s)
           | (Some args, s) \<Rightarrow>
               (case new_handle (Thread 0) w of
                  (hl, w) \<Rightarrow> Some (Some \<lparr>cm_ctx = ctx, cm_disp = d, cm_args = args, cm_event = ev, cm_listener = hl\<rparr>, w, s))))"

definition cp_setup :: "bool \<Rightarrow> string list \<Rightarrow> string option \<Rightarrow> conns \<Rightarrow> win \<Rightarrow> os \<Rightarrow> (cpmain option \<times> conns \<times> win \<times> os) option" where
  "cp_setup wsa_ok args csv t w s =
     (if \<not> wsa_ok then Some (None, t, w, s)
      else
        (case connections_init t s of
           (t, s) \<Rightarrow>
             (case args of
                [prog, root_id, port] \<Rightarrow>
                  (case CreateEventA (event_name ''CP_Exit_'' root_id) w of
                     (None, w) \<Rightarrow> Some (None, t, w, s)
                   | (Some ev, w) \<Rightarrow>
                       (case cp_context_create csv root_id s of
                          None \<Rightarrow> None
                        | Some (None, s) \<Rightarrow> Some (None, t, w, s)
                        | Some (Some ctx, s) \<Rightarrow>
                            (case cp_dispatcher_create ctx THREAD_POOL_SIZE s of
                               None \<Rightarrow> None
                             | Some (None, s) \<Rightarrow> Some (None, t, w, cp_context_destroy (Some ctx) s)
                             | Some (Some d, s) \<Rightarrow>
                                 map_option (\<lambda>(r, w, s). (r, t, w, s)) (cp_start_listener ctx (word_of_int (atoi port)) d ev w s))))
              | _ \<Rightarrow> Some (None, t, w, s))))"

text \<open>
  \<open>main\<close> starts a thread that waits for the exit event, and waits for that thread.  When the thread
  cannot be created the wait fails at once, and the shutdown begins.  Neither call closes the
  handle of the exit event.
\<close>

definition cp_await :: "cpmain \<Rightarrow> win \<Rightarrow> win option" where
  "cp_await x w =
     (case call_fails w of
        (True, w) \<Rightarrow> Some (CloseHandle (cm_listener x) w)
      | (False, w) \<Rightarrow>
          (case new_handle (Thread 0) w of
             (hs, w) \<Rightarrow>
               (case shutdown_waiter_fn (cm_event x) w of
                  None \<Rightarrow> None
                | Some w \<Rightarrow> Some (CloseHandle (cm_listener x) (CloseHandle hs w)))))"

text \<open>What is left to do when the dispatcher is gone.\<close>

definition cp_cleanup :: "CPContext \<Rightarrow> conns \<Rightarrow> os \<Rightarrow> conns \<times> os" where
  "cp_cleanup ctx t s = connections_cleanup t (cp_context_destroy (Some ctx) s)"

text \<open>The threads at work after the set-up: \<open>k\<close> of the workers could be created.\<close>

definition cp_run :: "cpmain \<Rightarrow> nat \<Rightarrow> SOCKET \<Rightarrow> net \<Rightarrow> os \<Rightarrow> cpsys" where
  "cp_run x k listen_sock n s = cstart k (cm_disp x) n (s\<lparr>socks := insert listen_sock (socks s)\<rparr>)"

section \<open>Shutting down an idle dispatcher\<close>

lemma put_nulls_spec:
  assumes "qholds L K own X q s" "tcapacity q = 0" "True \<notin> set (oom s)"
  shows "\<exists>q' s'. put_nulls n q s = Some (q', s') \<and> qholds L K own X q' s' \<and> titems q' = titems q @ replicate n None \<and>
    tself q' = tself q \<and> map_option freeFunc (inner q') = map_option freeFunc (inner q)"
  using assms
proof (induction n arbitrary: q s)
  case (Suc n)
  from enqueue_unbounded [OF Suc.prems(2)] obtain r q1 s1 where e: "tsqueue_enqueue q None s = Some (r, q1, s1)" by blast
  note E = qholds_enqueue_None [OF Suc.prems(1) e]
  have r: "r = 0" "True \<notin> set (oom s1)" using enqueue_succeeds [OF _ e Suc.prems(3)] Suc.prems(1) by (auto simp: qholds_def)
  have "tcapacity q1 = 0" using E Suc.prems(2) by simp
  from Suc.IH [OF _ this r(2)] E e r(1) show ?case by auto
qed simp

lemma take_nulls_spec:
  assumes "qholds L K own X q s" "titems q = replicate n None"
  shows "\<exists>q' s'. take_nulls n q s = Some (q', s') \<and> qholds L K own X q' s' \<and> titems q' = [] \<and>
    tself q' = tself q \<and> map_option freeFunc (inner q') = map_option freeFunc (inner q)"
  using assms
proof (induction n arbitrary: q s)
  case (Suc n)
  have "tsq_ok q s" using Suc.prems(1) by (simp add: qholds_def)
  from dequeue_first [OF this, of None "replicate n None"] Suc.prems(2) obtain q1 s1 where e: "tsqueue_dequeue q s = Some (None, q1, s1)" by auto
  note E = qholds_dequeue [OF Suc.prems(1) e]
  from Suc.IH [of q1 s1] E e Suc.prems(2) show ?case by simp
qed simp

lemma tsqueue_create_empty: "tsqueue_create cap ff s = (Some q, s') \<Longrightarrow> titems q = []"
  by (auto simp: tsqueue_create_def queue_create_def queue_items_def split: prod.splits option.splits)

text \<open>Unless an allocation fails the idle workers end and nothing is left.\<close>

lemma shut_down_idle_spec:
  assumes "os_ok s" "cp_dispatcher_create ctx n s = Some (Some d, s1)" "True \<notin> set (oom s1)"
  shows "\<exists>s2. shut_down_idle d s1 = Some s2 \<and> os_ok s2 \<and> live s2 = live s \<and> socks s2 = socks s"
proof -
  from cp_dispatcher_create_spec [OF assms(1,2)] have d: "qholds (live s) (socks s) task_own (disp_blks d) (dqueue d) s1" "tcapacity (dqueue d) = 0"
    "map_option freeFunc (inner (dqueue d)) = Some (Some free_task)" by (auto simp: disp_ok_def)
  from assms(2) have t: "titems (dqueue d) = []"
    by (auto simp: cp_dispatcher_create_def tp_create_def split: prod.splits option.splits dest!: tsqueue_create_empty)
  let ?n = "thread_count (dpool d)"
  from put_nulls_spec [OF d(1,2) assms(3), of ?n] t obtain q2 s2 where p: "put_nulls ?n (dqueue d) s1 = Some (q2, s2)"
    "qholds (live s) (socks s) task_own (disp_blks d) q2 s2" "titems q2 = replicate ?n None" "tself q2 = tself (dqueue d)"
    "map_option freeFunc (inner q2) = Some (Some free_task)" using d(3) by auto
  from take_nulls_spec [OF p(2,3)] obtain q3 s3 where k: "take_nulls ?n q2 s2 = Some (q3, s3)"
    "qholds (live s) (socks s) task_own (disp_blks d) q3 s3" "titems q3 = []" "tself q3 = tself (dqueue d)"
    "map_option freeFunc (inner q3) = Some (Some free_task)" using p(4,5) by auto
  let ?d = "d\<lparr>dpool := (dpool d)\<lparr>pqueue := q3, shutting_down := True\<rparr>\<rparr>"
  have "qholds (live s) (socks s) task_own (disp_blks ?d @ []) (dqueue ?d) s3" using k(2,4) by (simp add: disp_blks_def)
  from free_dispatcher_holds [OF this] k(3,5) obtain s4 where "cp_dispatcher_free (Some ?d) s3 = Some s4" "holds (live s) (socks s) [] s4" by auto
  with p(1) k(1) show ?thesis by (simp add: shut_down_idle_def holds_end)
qed

section \<open>The set-up\<close>

lemma context_hops:
  assumes "describes (file_rows cs) (arr (all_nodes c))" "forest (arr (all_nodes c))" "ctx_for (arr (all_nodes c)) r c"
    and "r < length (file_rows cs)"
  shows "\<exists>h. dispatch_hop c w = Some h \<and> h < length (file_rows cs) \<and>
    hop_of c w = Some (trim (fst (snd (file_rows cs ! h))), word_of_int (atoi (trim (fst (snd (snd (file_rows cs ! h)))))))"
proof -
  let ?ns = "arr (all_nodes c)"
  have len: "length ?ns = length (file_rows cs)" using assms(1) by (simp add: describes_def)
  have "\<exists>h. dispatch_hop c w = Some h \<and> h < length ?ns"
  proof (cases "\<exists>d \<in> tree ?ns r. name_of ?ns d = chars (dest_node w) \<and> d \<noteq> r")
    case False
    then have "d = r" if "d \<in> tree ?ns r" "name_of ?ns d = chars (dest_node w)" for d using that by blast
    from dispatch_hop_self [OF assms(3) this] assms(4) len show ?thesis by simp
  next
    case True
    then obtain d where d: "d < length ?ns" "below ?ns r d" "name_of ?ns d = chars (dest_node w)" "d \<noteq> r" by (auto simp: tree_def)
    from d(2) obtain n where n: "(up ?ns ^^ n) d r" by (meson rtranclp_imp_relpowp)
    with d(4) obtain n' where "n = Suc n'" by (cases n) auto
    with n have "(up ?ns ^^ Suc n') d r" by simp
    from dispatch_hop_below [OF assms(3,2) d(1) this] d(3) show ?thesis by auto
  qed
  then obtain h where h: "dispatch_hop c w = Some h" "h < length (file_rows cs)" using len by auto
  from describes_row(3,4) [OF assms(1) h(2)] h show ?thesis by (auto simp: hop_of_def)
qed

text \<open>What the set-up leaves: \<open>m\<close> is the table of connections, still empty.\<close>

definition cp_ready :: "string \<Rightarrow> nat \<Rightarrow> os \<Rightarrow> cpmain \<Rightarrow> conns \<Rightarrow> os \<Rightarrow> bool" where
  "cp_ready cs r s x t s1 \<longleftrightarrow> (\<exists>m sc sd s0. connections_map t = Some m \<and> conn_inv (live s) (socks s) m sc \<and> (\<forall>a p. answers m a p = None) \<and>
     describes (file_rows cs) (arr (all_nodes (cm_ctx x))) \<and> forest (arr (all_nodes (cm_ctx x))) \<and> ctx_for (arr (all_nodes (cm_ctx x))) r (cm_ctx x) \<and>
     holds (live sc) (socks sc) (ctx_blks (cm_ctx x)) s0 \<and> smap.hm_owned (the (cmap (cm_ctx x))) s0 \<and> cmap (cm_ctx x) \<noteq> None \<and>
     cchildren_blk (cm_ctx x) \<noteq> None \<and> cp_dispatcher_create (cm_ctx x) THREAD_POOL_SIZE s0 = Some (Some (cm_disp x), sd) \<and>
     malloc sd = (Some (la_blk (cm_args x)), s1) \<and> True \<notin> set (oom sd) \<and> True \<notin> set (oom s1))"

lemma dispatcher_create_oom: "cp_dispatcher_create c n s = Some (Some d, s') \<Longrightarrow> set (oom s') \<subseteq> set (oom s)"
  by (auto simp: cp_dispatcher_create_def tp_create_def split: prod.splits option.splits dest!: malloc_oom tsqueue_create_oom)

lemma cp_setup_ready:
  assumes "os_ok s" "True \<notin> set (oom s)" "length (file_rows cs) < 2 ^ 19" "distinct (map row_id (file_rows cs))"
    and "acyclic_rows (file_rows cs)" "r < length (file_rows cs)"
    and "cp_setup True [prog, row_id (file_rows cs ! r), port] (Some cs) t w s = Some (Some x, t1, w1, s1)"
  shows "cp_ready cs r s x t1 s1 \<and> new_socks t1 = new_socks t"
proof -
  from init_succeeds [OF assms(2), of t] obtain t' m sc where t': "connections_init t s = (t', sc)" "connections_map t' = Some m"
    "new_socks t' = new_socks t" "True \<notin> set (oom sc)" by blast
  have "t' = t1" using assms(7) t'(1) by (auto simp: cp_setup_def split: prod.splits option.splits)
  note t1 = t' [unfolded this]
  from connections_init_spec [OF assms(1) t1(1,2)] have ci: "conn_inv (live s) (socks s) m sc" "\<forall>a p. answers m a p = None" by auto
  from assms(7) t1(1) obtain ev w2 ctx s0 d sd where e: "cp_context_create (Some cs) (row_id (file_rows cs ! r)) sc = Some (Some ctx, s0)"
    "cp_dispatcher_create ctx THREAD_POOL_SIZE s0 = Some (Some d, sd)"
    "cp_start_listener ctx (word_of_int (atoi port)) d ev w2 sd = Some (Some x, w1, s1)"
    by (auto simp: cp_setup_def split: prod.splits option.splits)
  from conn_inv_ok [OF ci(1)] have "os_ok sc" by simp
  from context_facts [OF this t1(4) assms(3-6) e(1)] have c: "describes (file_rows cs) (arr (all_nodes ctx))" "forest (arr (all_nodes ctx))"
    "ctx_for (arr (all_nodes ctx)) r ctx" "holds (live sc) (socks sc) (ctx_blks ctx) s0" "smap.hm_owned (the (cmap ctx)) s0"
    "cmap ctx \<noteq> None" "cchildren_blk ctx \<noteq> None" "True \<notin> set (oom s0)" by blast+
  from e(3) have x: "cm_ctx x = ctx" "cm_disp x = d" "malloc sd = (Some (la_blk (cm_args x)), s1)"
    by (auto simp: cp_start_listener_def cp_start_listener_thread_def split: prod.splits option.splits if_splits)
  have o: "True \<notin> set (oom sd)" "True \<notin> set (oom s1)" using dispatcher_create_oom [OF e(2)] c(8) malloc_oom [OF x(3)] by blast+
  show ?thesis unfolding cp_ready_def
    by (intro conjI exI [of _ m] exI [of _ sc] exI [of _ sd] exI [of _ s0] t1(2,3) ci) (use c e(2) x o in simp_all)
qed

text \<open>The invariant holds from the start.\<close>

lemma cp_run_cinv:
  assumes "cp_ready cs r s x t1 s1" "names_apart \<lparr>tab = t1, sends = rs, wire = []\<rparr> s" "ls \<notin> socks s" "ls \<notin> set (new_socks t1)"
  shows "cinv (cm_ctx x) (live s \<union> set (ctx_blks (cm_ctx x))) (socks s) ls (la_blk (cm_args x)) THREAD_POOL_SIZE (rs = [])
      (cp_run x k ls \<lparr>tab = t1, sends = rs, wire = []\<rparr> s1) \<and>
    distinct (ctx_blks (cm_ctx x)) \<and> set (ctx_blks (cm_ctx x)) \<inter> live s = {} \<and>
    (\<exists>s0. smap.hm_owned (the (cmap (cm_ctx x))) s0) \<and> cmap (cm_ctx x) \<noteq> None \<and> cchildren_blk (cm_ctx x) \<noteq> None"
proof -
  let ?ctx = "cm_ctx x"
  from assms(1) obtain m sc sd s0 where r: "connections_map t1 = Some m" "conn_inv (live s) (socks s) m sc" "\<forall>a p. answers m a p = None"
    "holds (live sc) (socks sc) (ctx_blks ?ctx) s0" "smap.hm_owned (the (cmap ?ctx)) s0" "cmap ?ctx \<noteq> None" "cchildren_blk ?ctx \<noteq> None"
    "cp_dispatcher_create ?ctx THREAD_POOL_SIZE s0 = Some (Some (cm_disp x), sd)" "malloc sd = (Some (la_blk (cm_args x)), s1)"
    "True \<notin> set (oom sd)" "True \<notin> set (oom s1)" unfolding cp_ready_def by (elim exE conjE)
  note c = conn_inv_live [OF r(2)]
  from r(4) have h: "os_ok s0" "live s0 = live sc \<union> set (ctx_blks ?ctx)" "distinct (ctx_blks ?ctx)" "set (ctx_blks ?ctx) \<inter> live sc = {}" "socks s0 = socks sc"
    by (auto simp: holds_def)
  have sk: "socks sc = socks s" unfolding table_socks [OF r(2)] using r(3) by simp
  have L: "live s0 - set (conn.hm_blks m) = live s \<union> set (ctx_blks ?ctx)" "set (ctx_blks ?ctx) \<inter> live s = {}" using h(2,4) c(2,3) by blast+
  have ci: "conn_inv (live s0 - set (conn.hm_blks m)) (socks s) m s0"
    by (rule conn_inv_move [OF r(2) h(1,5)]) (use h(2) c(2) in blast)
  have na: "names_apart \<lparr>tab = t1, sends = rs, wire = []\<rparr> s0" by (rule names_apart_less [OF assms(2)]) (simp add: h(5) sk)
  have D: "socks sd = socks s0" using cp_dispatcher_create_spec [OF h(1) r(8)] by (simp add: disp_ok_def qholds_def)
  have s1: "socks s1 = socks s" using malloc_Some [OF r(9)] D h(5) sk by simp
  have "cinv ?ctx (live s0 - set (conn.hm_blks m)) (socks s) ls (la_blk (cm_args x)) THREAD_POOL_SIZE
      (sends \<lparr>tab = t1, sends = rs, wire = []\<rparr> = []) (cstart k (cm_disp x) \<lparr>tab = t1, sends = rs, wire = []\<rparr> (s1\<lparr>socks := insert ls (socks s1)\<rparr>))"
    by (rule cinv_start [OF _ ci na r(10,8,9,11)]) (use r(1,3) s1 assms(3,4) in simp_all)
  then show ?thesis using L h(3) r(5-7) by (auto simp: cp_run_def)
qed

lemma cp_ready_hops:
  assumes "cp_ready cs r s x t1 s1" "r < length (file_rows cs)"
  shows "\<exists>h. dispatch_hop (cm_ctx x) w = Some h \<and> h < length (file_rows cs) \<and>
    hop_of (cm_ctx x) w = Some (trim (fst (snd (file_rows cs ! h))), word_of_int (atoi (trim (fst (snd (snd (file_rows cs ! h)))))))"
  using assms(1) context_hops [OF _ _ _ assms(2)] unfolding cp_ready_def by blast

section \<open>The clean-up\<close>

lemma cp_cleanup_spec:
  assumes "conn_inv (L \<union> set (ctx_blks ctx) \<union> set X) K m s" "set X \<inter> (L \<union> set (ctx_blks ctx)) = {}" "set (ctx_blks ctx) \<inter> L = {}"
    and "distinct (ctx_blks ctx)" "smap.hm_owned (the (cmap ctx)) s0" "cmap ctx \<noteq> None" "cchildren_blk ctx \<noteq> None"
    and "connections_map t = Some m" "cp_cleanup ctx t s = (t', s')"
  shows "os_ok s' \<and> live s' = L \<union> set X \<and> socks s' = K"
proof -
  let ?H = "set (conn.hm_blks m)" and ?C = "set (ctx_blks ctx)"
  note c = conn_inv_live [OF assms(1)]
  have "set (smap.hm_blks (the (cmap ctx))) \<subseteq> live s" using c(2) by (auto simp: ctx_blks_def)
  then have o: "smap.hm_owned (the (cmap ctx)) s" using assms(5) c(1) by (simp add: smap.hm_owned_def)
  have "holds (L \<union> set X \<union> ?H) (socks s) (ctx_blks ctx) s" using c assms(2-4) unfolding holds_def by blast
  from cp_context_destroy_holds [OF o assms(6,7) this]
  have d: "os_ok (cp_context_destroy (Some ctx) s)" "live (cp_context_destroy (Some ctx) s) = L \<union> set X \<union> ?H"
    "socks (cp_context_destroy (Some ctx) s) = socks s" by (auto simp: holds_end)
  have "live (cp_context_destroy (Some ctx) s) - ?H = L \<union> set X" using d(2) c(3) by blast
  with conn_inv_move [OF assms(1) d(1,3)] d(2) have "conn_inv (L \<union> set X) K m (cp_context_destroy (Some ctx) s)" by auto
  from connections_cleanup_spec [OF assms(8) this] assms(9) show ?thesis by (auto simp: cp_cleanup_def)
qed

text \<open>After the workers have left their loops: nothing is queued any more, and everything can be freed.\<close>

lemma drained_all:
  assumes "cinv ctx L K ls args n fl c" "\<forall>w \<in> set (cwork c). w = Gone" "cwork c \<noteq> []" "cstage c = Stopping n"
  shows "tasks c = [] \<and> mset (crecv c) = mset (logged (clog c)) \<and> thread_count (dpool (cdisp c)) = n \<and>
    (\<exists>m s. connections_map (tab (cnet c)) = Some m \<and> cp_dispatcher_free (Some (cdisp c)) (cheap c) = Some s \<and> oom s = oom (cheap c) \<and>
      conn_inv (L \<union> set (lblks args (clst c))) (K \<union> lsocks ls (clst c)) m s \<and> set (lblks args (clst c)) \<inter> L = {})"
proof -
  from assms(1) obtain m where m: "cmem L K ls args m c" "cdata ctx c" "cshape n c" "fl \<longrightarrow> cfull m c" by (rule cinvE)
  from m(3) obtain ts j where j: "titems (dqueue (cdisp c)) = map Some ts @ replicate j None"
    "j + gone (cwork c) = sentinels (cstage c)" "0 < gone (cwork c) \<Longrightarrow> ts = []" by (rule cshapeE) (rule that, assumption, assumption, simp)
  have "0 < gone (cwork c)" using assms(2,3) by (auto simp: num_pos neq_Nil_conv)
  have rep: "somes (replicate i None) = ([] :: task list)" for i by (induction i) auto
  have t: "tasks c = []" using j(1) j(3) [OF \<open>0 < gone (cwork c)\<close>] by (simp add: rep)
  have "doing (cwork c) = []" "concat (map wblks (cwork c)) = []" using assms(2) by (auto simp: doing_def concat_eq_Nil_conv)
  then have "mset (crecv c) = mset (logged (clog c))" using m(2) t by (simp add: cdata_def)
  moreover have "shares task_own L (K \<union> lsocks ls (clst c)) m (dqueue (cdisp c)) (disp_blks (cdisp c) @ lblks args (clst c)) (cheap c)"
  proof -
    have "mset (cblks args c) = mset (disp_blks (cdisp c) @ lblks args (clst c))" by simp
    moreover from m(1) have "shares task_own L (K \<union> lsocks ls (clst c)) m (dqueue (cdisp c)) (cblks args c @ concat (map wblks (cwork c))) (cheap c)"
      by (simp only: cmem_def)
    ultimately show ?thesis unfolding \<open>concat (map wblks (cwork c)) = []\<close> append_Nil2 using shares_perm by blast
  qed
  from free_dispatcher [OF this _ t] m(1) obtain s where "cp_dispatcher_free (Some (cdisp c)) (cheap c) = Some s"
    "conn_inv (L \<union> set (lblks args (clst c))) (K \<union> lsocks ls (clst c)) m s" "set (lblks args (clst c)) \<inter> L = {}" "oom s = oom (cheap c)"
    unfolding cmem_def by blast
  ultimately show ?thesis using t m(1,3) unfolding cmem_def cshape_def by blast
qed

lemma sentinels_step:
  assumes "cinv ctx L K ls args n fl c" "cstage c = Stopping i" "i \<le> n" "\<And>w. hop_of ctx w \<noteq> None"
  shows "\<exists>c'. (cstep protocol f l ls args)\<^sup>*\<^sup>* c c' \<and> cinv ctx L K ls args n fl c' \<and> cstage c' = Stopping n \<and> clst c' = clst c \<and>
    cwork c' = cwork c \<and> crecv c' = crecv c"
  using assms(1-3)
proof (induction "n - i" arbitrary: c i)
  case 0
  then show ?case by (intro exI [of _ c]) simp
next
  case (Suc k)
  then have i: "i < n" by simp
  from Suc.prems(1) obtain m where m: "cmem L K ls args m c" "cshape n c" by (rule cinvE)
  then have "tcapacity (dqueue (cdisp c)) = 0" "thread_count (dpool (cdisp c)) = n" by (simp_all add: cmem_def cshape_def)
  with enqueue_unbounded [of "dqueue (cdisp c)" None "cheap c"] obtain e q s
    where e: "tsqueue_enqueue (dqueue (cdisp c)) None (cheap c) = Some (e, q, s)" by blast
  let ?c = "(with_queue c q s)\<lparr>cstage := Stopping (i + 1)\<rparr>"
  have st: "cstep protocol f l ls args c ?c"
    by (rule cstep.sentinel [OF Suc.prems(2) _ e]) (use i \<open>thread_count (dpool (cdisp c)) = n\<close> in simp)
  have "k = n - (i + 1)" using Suc.hyps(2) by simp
  from Suc.hyps(1) [OF this cinv_sentinel [OF Suc.prems(1,2) e]] i obtain c' where
    "(cstep protocol f l ls args)\<^sup>*\<^sup>* ?c c'" "cinv ctx L K ls args n fl c'" "cstage c' = Stopping n" "clst c' = clst ?c" "cwork c' = cwork ?c" "crecv c' = crecv ?c"
    by auto
  with st show ?case by (intro exI [of _ c']) (simp add: converse_rtranclp_into_rtranclp)
qed

lemma carries_first:
  assumes "carries cn (v # vs)" "os_ok s" "True \<notin> set (oom s)"
  shows "\<exists>v' cn' s'. deserialize_warning cn s = (Some v', cn', s')"
proof -
  from assms(1) obtain rest where c: "conn_ok cn" "stream cn = encode v @ concat (map encode vs) @ rest" "sendable v"
    "is_cstr (chars (city v))" "is_cstr (chars (dest_node v))" unfolding carries_def by auto
  from deserialize_encode [OF c(1,2) assms(2,3)] c(3-5) show ?thesis by (auto simp: sendable_def)
qed

lemma cstep_workers: "cstep good f l ls args c c' \<Longrightarrow> length (cwork c') = length (cwork c)"
  by (erule cstep.cases) simp_all

lemma creach_workers:
  assumes "(cstep good f l ls args)\<^sup>*\<^sup>* c c'"
  shows "length (cwork c') = length (cwork c)"
  using assms by (induction rule: rtranclp_induct) (simp_all add: cstep_workers)

lemma run_workers:
  assumes "(cstep good f l ls args)\<^sup>*\<^sup>* (cp_run x k ls n s) c" "0 < k" "k \<le> THREAD_POOL_SIZE"
  shows "length (cwork c) \<le> THREAD_POOL_SIZE" "cwork c \<noteq> []"
  using creach_workers [OF assms(1)] assms(2,3) by (auto simp: cp_run_def cstart_def)

lemma worker_steps: "(worker_step f l ls args)\<^sup>*\<^sup>* c c' \<Longrightarrow> (cstep protocol f l ls args)\<^sup>*\<^sup>* c c'"
  by (erule rtranclp_mono [THEN predicate2D, rotated]) blast

section \<open>Waiting for the exit event\<close>

lemma cp_setup_event:
  assumes "wholds H [] w" "True \<notin> set (fails w)" "cp_setup True [prog, str, port] csv t w s = Some (Some x, t1, w1, s1)"
  shows "wholds H [(cm_listener x, Thread 0), (cm_event x, Event (event_name ''CP_Exit_'' str))] w1 \<and> True \<notin> set (fails w1)"
proof -
  let ?e = "Event (event_name ''CP_Exit_'' str)"
  from assms(3) obtain t' sc ev w2 ctx s0 d sd where e: "CreateEventA (event_name ''CP_Exit_'' str) w = (Some ev, w2)"
    "cp_start_listener ctx (word_of_int (atoi port)) d ev w2 sd = Some (Some x, w1, s1)"
    by (auto simp: cp_setup_def split: prod.splits option.splits)
  note N = CreateEventA_spec [OF assms(1) e(1)]
  from e(2) obtain b wb hl where b: "call_fails w2 = (b, wb)" "new_handle (Thread 0) wb = (hl, w1)" "cm_event x = ev" "cm_listener x = hl"
    by (auto simp: cp_start_listener_def split: prod.splits option.splits)
  note F = call_fails_frame [OF b(1)]
  from wholds_new [OF F(1) [OF conjunct1 [OF N]] b(2)] F N assms(2) b(3,4) show ?thesis by auto
qed

text \<open>The wait ends exactly when the exit event is signalled.\<close>

lemma cp_await_returns:
  assumes "wholds H [(cm_listener x, Thread 0), (cm_event x, Event name)] w" "True \<notin> set (fails w)"
  shows "cp_await x w = None \<longleftrightarrow> name \<notin> signalled w"
proof -
  obtain b w1 where c: "call_fails w = (b, w1)" by force
  note F = call_fails_frame [OF c]
  then have "\<not> b" using assms(2) by blast
  obtain hs w2 where n: "new_handle (Thread 0) w1 = (hs, w2)" by force
  note N = wholds_new [OF F(1) [OF assms(1)] n]
  have "handles w2 (cm_event x) = Some (Event name)" by (rule wholds_mem [OF conjunct1 [OF N]]) simp
  from waiter_returns [OF this] N F c n \<open>\<not> b\<close> show ?thesis by (simp add: cp_await_def)
qed

section \<open>Properties\<close>



text \<open>
  C37. The main thread does not wait for the listener: in every reachable state in which a client's
  connection still has a warning to deliver, the exit event can be set and the dispatcher be freed
  while the listener goes on reading, and the next warning is then submitted to freed memory.
\<close>

theorem listener_outlives_dispatcher:
  assumes "os_ok s" "True \<notin> set (oom s)" "length (file_rows cs) < 2 ^ 19" "distinct (map row_id (file_rows cs))"
    and "acyclic_rows (file_rows cs)" "r < length (file_rows cs)"
    and "cp_setup True [prog, row_id (file_rows cs ! r), port] (Some cs) t w s = Some (Some x, t1, w1, s1)"
    and "names_apart \<lparr>tab = t, sends = rs, wire = []\<rparr> s" "ls \<notin> socks s" "ls \<notin> set (new_socks t)"
    and "(cstep protocol f l ls args)\<^sup>*\<^sup>* (cp_run x k ls \<lparr>tab = t1, sends = rs, wire = []\<rparr> s1) c" "args = la_blk (cm_args x)"
    and "cstage c = Up" "0 < k" "k \<le> THREAD_POOL_SIZE" "clst c = Reads ks cn" "carries cn (v # vs)"
  shows "\<exists>c'. (cstep protocol f l ls args)\<^sup>*\<^sup>* c c' \<and> ub (cheap c')"
proof -
  let ?C = "set (ctx_blks (cm_ctx x))" and ?st = "cstep protocol f l ls args"
  let ?inv = "cinv (cm_ctx x) (live s \<union> ?C) (socks s) ls args THREAD_POOL_SIZE (rs = [])"
  from cp_setup_ready [OF assms(1-7)] have rd: "cp_ready cs r s x t1 s1" and ns: "new_socks t1 = new_socks t" by auto
  have "names_apart \<lparr>tab = t1, sends = rs, wire = []\<rparr> s" "ls \<notin> set (new_socks t1)" using assms(8,10) ns by (simp_all add: names_apart_def)
  from cp_run_cinv [OF rd this(1) assms(9) this(2), of k] have i0: "?inv (cp_run x k ls \<lparr>tab = t1, sends = rs, wire = []\<rparr> s1)"
    unfolding assms(12) by blast
  have hops: "hop_of (cm_ctx x) w \<noteq> None" for w using cp_ready_hops [OF rd assms(6), of w] by auto
  have "alive c" using assms(13) by simp
  note i = creach_cinv [OF assms(11) i0 this hops]
  let ?c1 = "c\<lparr>cexit := True\<rparr>"
  let ?c2 = "?c1\<lparr>cdisp := (cdisp c)\<lparr>dpool := (dpool (cdisp c))\<lparr>shutting_down := True\<rparr>\<rparr>, cstage := Stopping 0\<rparr>"
  have s1: "?st c ?c1" by (rule cstep.exit_event)
  have s2: "?st ?c1 ?c2" using cstep.shutdown [of ?c1] assms(13) by simp
  have i1: "?inv ?c1" by (rule cstep_cinv [OF s1 i _ hops]) (use assms(13) in simp)
  have i2: "?inv ?c2" by (rule cstep_cinv [OF s2 i1 _ hops]) simp
  from sentinels_step [OF i2 _ _ hops, of 0 f l] obtain c3 where c3: "?st\<^sup>*\<^sup>* ?c2 c3" "?inv c3" "cstage c3 = Stopping THREAD_POOL_SIZE"
    "clst c3 = Reads ks cn" "cwork c3 = cwork c" using assms(16) by auto
  have "length (cwork c3) \<le> THREAD_POOL_SIZE" using c3(5) run_workers(1) [OF assms(11,14,15)] by simp
  from workers_end [OF c3(2,3) this hops, of f l] obtain c4 where c4: "(worker_step f l ls args)\<^sup>*\<^sup>* c3 c4" "?inv c4"
    "\<forall>w \<in> set (cwork c4). w = Gone" "clst c4 = clst c3" "cstage c4 = cstage c3" "length (cwork c4) = length (cwork c3)"
    by (elim exE conjE)
  note c4 = c4(1-3) c4(4-6) [unfolded c3(3-5)]
  have ne: "cwork c4 \<noteq> []" using c4(6) run_workers(2) [OF assms(11,14,15)] by auto
  from drained_all [OF c4(2,3) ne c4(5)] obtain m s2 where d: "thread_count (dpool (cdisp c4)) = THREAD_POOL_SIZE"
    "cp_dispatcher_free (Some (cdisp c4)) (cheap c4) = Some s2" "oom s2 = oom (cheap c4)"
    "conn_inv (live s \<union> ?C \<union> set (lblks args (clst c4))) (socks s \<union> lsocks ls (clst c4)) m s2" by blast
  let ?c5 = "c4\<lparr>cheap := s2, cstage := Down\<rparr>"
  have s5: "?st c4 ?c5" by (rule cstep.join [OF _ c4(3) d(2)]) (simp add: c4(5) d(1))
  from c4(2) obtain m' where "cmem (live s \<union> ?C) (socks s) ls args m' c4" by (rule cinvE)
  from cmem_os(3) [OF this] d(3) have o: "True \<notin> set (oom s2)" by simp
  from carries_first [OF assms(17) conn_inv_live(1) [OF d(4)] o] obtain v' cn' s6
    where rw: "deserialize_warning cn s2 = (Some v', cn', s6)" by blast
  have "?st ?c5 (?c5\<lparr>clst := Reads ks cn', cheap := s6\<lparr>ub := True\<rparr>\<rparr>)"
    by (rule cstep.read_dangling [where w = v']) (use c4(4) rw in simp_all)
  moreover have "?st\<^sup>*\<^sup>* c c4" using s1 s2 c3(1) worker_steps [OF c4(1)] by (meson converse_rtranclp_into_rtranclp rtranclp_trans)
  ultimately have "?st\<^sup>*\<^sup>* c (?c5\<lparr>clst := Reads ks cn', cheap := s6\<lparr>ub := True\<rparr>\<rparr>)" using s5 by (meson rtranclp.rtrancl_into_rtrancl)
  then show ?thesis by (intro exI [of _ "?c5\<lparr>clst := Reads ks cn', cheap := s6\<lparr>ub := True\<rparr>\<rparr>"]) simp
qed

section \<open>Witnesses\<close>

text \<open>The set-up of the demonstration file's propagator.\<close>

lemma demo_setup:
  "\<exists>x t1 w1 s1. cp_setup True [prog, row_id (file_rows demo_csv ! 0), ''5000''] (Some demo_csv) demo_reuse fresh_win fresh_os = Some (Some x, t1, w1, s1)"
proof -
  note D = demo_context
  have o: "True \<notin> set (oom fresh_os)" by simp
  from init_succeeds [OF o, of demo_reuse] obtain t1 m sc where t1: "connections_init demo_reuse fresh_os = (t1, sc)" "connections_map t1 = Some m"
    "True \<notin> set (oom sc)" by blast
  from connections_init_spec [OF fresh_os_ok(1) t1(1,2)] have "os_ok sc" using conn_inv_ok by blast
  from context_correct [OF this t1(3) D(1-4)] obtain c s0 where c: "cp_context_create (Some demo_csv) (row_id (file_rows demo_csv ! 0)) sc = Some (Some c, s0)"
    by blast
  from context_facts [OF \<open>os_ok sc\<close> t1(3) D(1-4) c] have o0: "True \<notin> set (oom s0)" by blast
  from malloc_succeeds [OF o0] obtain b s2 where b: "malloc s0 = (Some b, s2)" "True \<notin> set (oom s2)" by blast
  from tp_create_succeeds [OF b(2), of THREAD_POOL_SIZE] obtain p :: "(task_fn, DispatchJob) ThreadPool" and s3
    where p: "tp_create THREAD_POOL_SIZE s2 = Some (Some p, s3)" by blast
  have d: "cp_dispatcher_create c THREAD_POOL_SIZE s0 = Some (Some \<lparr>dpool = p, dctx = c, d_blk = b\<rparr>, s3)"
    using b(1) p by (simp add: cp_dispatcher_create_def)
  from dispatcher_create_oom [OF d] o0 have "True \<notin> set (oom s3)" by blast
  from malloc_succeeds [OF this] obtain a s4 where "malloc s3 = (Some a, s4)" by blast
  with t1(1) c d show ?thesis
    by (simp add: cp_setup_def cp_start_listener_def cp_start_listener_thread_def CreateEventA_def call_fails_def new_handle_def fresh_win_def)
qed

text \<open>A client has connected, whose connection carries one warning and a message that breaks off.\<close>

definition demo_conn :: conn where
  "demo_conn = \<lparr>chunks = [encode demo_warning, [0, 0]], fin = Failed\<rparr>"

abbreviation demo_start :: "cpmain \<Rightarrow> conns \<Rightarrow> os \<Rightarrow> cpsys" where
  "demo_start x t1 s1 \<equiv> cp_run x 2 9 \<lparr>tab = t1, sends = [], wire = []\<rparr> s1"

lemma demo_conn_carries: "carries demo_conn [demo_warning]"
  using demo_carries unfolding demo_conn_def .

lemma demo_names: "names_apart \<lparr>tab = demo_reuse, sends = [], wire = []\<rparr> fresh_os" "9 \<notin> socks fresh_os" "9 \<notin> set (new_socks demo_reuse)"
  by (simp_all add: names_apart_def demo_reuse_def)

lemma demo_accept:
  assumes "cp_setup True [''cp'', row_id (file_rows demo_csv ! 0), ''5000''] (Some demo_csv) demo_reuse fresh_win fresh_os = Some (Some x, t1, w1, s1)"
    and "carries cn [u]"
  shows "\<exists>c. (cstep protocol f l 9 (la_blk (cm_args x)))\<^sup>*\<^sup>* (demo_start x t1 s1) c \<and> cstage c = Up \<and> cwork c = [Idle, Idle] \<and>
    clst c = Reads 7 cn \<and> crecv c = [] \<and> clog c = [] \<and> cnet c = \<lparr>tab = t1, sends = [], wire = []\<rparr> \<and>
    cinv (cm_ctx x) (live fresh_os \<union> set (ctx_blks (cm_ctx x))) (socks fresh_os) 9 (la_blk (cm_args x)) THREAD_POOL_SIZE True c \<and>
    (\<forall>w. hop_of (cm_ctx x) w \<noteq> None)"
proof -
  note D = demo_context
  from cp_setup_ready [OF fresh_os_ok(1) _ D(1-4) assms(1)] have rd: "cp_ready demo_csv 0 fresh_os x t1 s1" and ns: "new_socks t1 = new_socks demo_reuse" by auto
  have n: "names_apart \<lparr>tab = t1, sends = [], wire = []\<rparr> fresh_os" "9 \<notin> set (new_socks t1)" "7 \<notin> set (new_socks t1)"
    using ns by (simp_all add: names_apart_def demo_reuse_def)
  let ?st = "demo_start x t1 s1"
  from cp_run_cinv [OF rd n(1) demo_names(2) n(2), of 2]
  have i: "cinv (cm_ctx x) (live fresh_os \<union> set (ctx_blks (cm_ctx x))) (socks fresh_os) 9 (la_blk (cm_args x)) THREAD_POOL_SIZE True ?st" by simp
  then obtain m where m: "cmem (live fresh_os \<union> set (ctx_blks (cm_ctx x))) (socks fresh_os) 9 (la_blk (cm_args x)) m ?st" "cfull m ?st"
    unfolding cinv_def by blast
  have hops: "hop_of (cm_ctx x) w \<noteq> None" for w using cp_ready_hops [OF rd D(4), of w] by auto
  from rd obtain m1 sc where m1: "connections_map t1 = Some m1" "\<forall>a p. answers m1 a p = None" unfolding cp_ready_def by (elim exE conjE)
  have "m = m1" using m(1) m1(1) by (simp add: cmem_def cp_run_def cstart_def)
  then have sk: "socks (cheap ?st) = {9}" using m(1) m1(2) shares_socks unfolding cmem_def
    by (auto simp: cp_run_def cstart_def dest!: shares_socks)
  let ?c = "?st\<lparr>clst := Reads 7 cn, cheap := (cheap ?st)\<lparr>socks := insert 7 (socks (cheap ?st))\<rparr>\<rparr>"
  have "protocol cn" using assms(2) by blast
  then have st: "cstep protocol f l 9 (la_blk (cm_args x)) ?st ?c"
    by (intro cstep.accept) (use sk n(3) in \<open>auto simp: cp_run_def cstart_def INVALID_SOCKET_def\<close>)
  have "cinv (cm_ctx x) (live fresh_os \<union> set (ctx_blks (cm_ctx x))) (socks fresh_os) 9 (la_blk (cm_args x)) THREAD_POOL_SIZE True ?c"
    by (rule cstep_cinv [OF st i _ hops]) (simp add: cp_run_def cstart_def)
  with st hops show ?thesis by (intro exI [of _ ?c]) (simp add: cp_run_def cstart_def numeral_2_eq_2)
qed

lemma demo_os: "os_ok fresh_os" "True \<notin> set (oom fresh_os)"
  by simp_all

text \<open>The warning is read and queued.\<close>

lemma demo_read:
  assumes "cinv ctx L K ls args n fl c" "clst c = Reads k cn" "cstage c = Up" "\<And>w. hop_of ctx w \<noteq> None" "crecv c = []"
    and ca: "carries cn [u]"
  shows "\<exists>c' v. cstep protocol f l ls args c c' \<and> cstage c' = Up \<and> crecv c' = [v] \<and> view v = view u \<and>
    cwork c' = cwork c \<and> clog c' = clog c \<and> cnet c' = cnet c"
proof -
  from assms(1) obtain m where m: "cmem L K ls args m c" "cdata ctx c" "cshape n c" by (rule cinvE)
  note o = cmem_os(1,3) [OF m(1)]
  from carries_first [OF ca o] obtain v cn' s where r: "deserialize_warning cn (cheap c) = (Some v, cn', s)" by blast
  from carries_step [OF ca o r] have v: "view v = view u" by auto
  note R = cmem_read [OF m(1) assms(2) r, simplified option.case]
  have q: "tcapacity (dqueue (cdisp c)) = 0" "\<not> shutting_down (dpool (cdisp c))" using m(1,3) assms(3) by (simp_all add: cmem_def cshape_def)
  obtain desc s1 where p: "warning_to_string f l (Some v) s = (desc, s1)" by force
  let ?s = "case desc of None \<Rightarrow> s1 | Some h \<Rightarrow> free_str h s1"
  have "True \<notin> set (oom ?s)" using print_warning [OF conjunct1 [OF shares_os [OF R(1)]] p] R(3) by blast
  from malloc_succeeds [OF this] obtain b s2 where b: "malloc ?s = (Some b, s2)" "True \<notin> set (oom s2)" by blast
  from submit_rest_returns [OF q(1), of Dispatch_job_fn "\<lparr>jctx = dctx (cdisp c), jw = v, job_blk = b\<rparr>" s2]
  obtain d s' where put: "cp_put f l v (cdisp c) s = Some (d, s')"
    using p b(1) q(2) by (fastforce simp: cp_put_def cp_dispatcher_submit_def tp_submit_def tp_submit_test_def Let_def split: if_splits)
  from put_accepted [OF R(1) q R(3) put] obtain t qq where "d = (cdisp c)\<lparr>dpool := (dpool (cdisp c))\<lparr>pqueue := qq\<rparr>\<rparr>"
    "titems qq = titems (dqueue (cdisp c)) @ [Some t]" by blast
  then have "length (pending (cdisp c)) < length (pending d)" by (simp add: pending_queue)
  with cstep.read_warning [OF assms(2) r _ put, of protocol] assms(3,5) v show ?thesis by fastforce
qed



theorem listener_outlives_dispatcher_witness:
  "\<exists>x t1 w1 s1 c. cp_setup True [''cp'', ''CP1'', ''5000''] (Some demo_csv) demo_reuse fresh_win fresh_os = Some (Some x, t1, w1, s1) \<and>
     (cstep protocol (\<lambda>_. []) (\<lambda>_. \<lparr>tm_mday = 1, tm_mon = 0, tm_year = 0, tm_hour = 0, tm_min = 0, tm_sec = 0\<rparr>) 9 (la_blk (cm_args x)))\<^sup>*\<^sup>*
       (demo_start x t1 s1) c \<and> ub (cheap c)"
proof -
  let ?f = "\<lambda>_. []" and ?l = "\<lambda>_. \<lparr>tm_mday = 1, tm_mon = 0, tm_year = 0, tm_hour = 0, tm_min = 0, tm_sec = 0\<rparr>"
  from demo_setup [of "''cp''"] obtain x t1 w1 s1 where x: "cp_setup True [''cp'', row_id (file_rows demo_csv ! 0), ''5000''] (Some demo_csv) demo_reuse fresh_win fresh_os = Some (Some x, t1, w1, s1)"
    by blast
  from demo_accept [OF x demo_conn_carries, of ?f ?l] obtain c where c: "(cstep protocol ?f ?l 9 (la_blk (cm_args x)))\<^sup>*\<^sup>* (demo_start x t1 s1) c"
    "cstage c = Up" "cwork c = [Idle, Idle]" "clst c = Reads 7 demo_conn" by blast
  have k: "0 < (2 :: nat)" "2 \<le> THREAD_POOL_SIZE" by simp_all
  from listener_outlives_dispatcher [OF demo_os demo_context(1-4) x demo_names c(1) refl c(2) k c(4) demo_conn_carries] c(1) x show ?thesis
    unfolding demo_context(6) by (meson rtranclp_trans)
qed

end
