(* ===== verification/Delivery.thy ===== *)
theory Delivery
  imports SourceMain PropagatorMain
begin

text \<open>
  The programs together: every program loads the same \<open>nodes.csv\<close>, the data source sends a warning to
  the root above its destination, and every central propagator sends it one level down.
\<close>

section \<open>The tree of the file\<close>

lemma describes_up:
  assumes "describes rs ns" "i < length rs"
  shows "up ns i j \<longleftrightarrow> row_parent rs i = Some j"
  using describes_row(2) [OF assms] by (simp add: up_def)

lemma up_pow_Suc: "(up ns ^^ Suc n) d a \<longleftrightarrow> (\<exists>e. up ns d e \<and> (up ns ^^ n) e a)"
  by (meson relpowp_Suc_D2 relpowp_Suc_I2)

lemma up_pow_unique: "(up ns ^^ n) d a \<Longrightarrow> (up ns ^^ n) d b \<Longrightarrow> a = b"
proof (induction n arbitrary: d)
  case (Suc n)
  then show ?case unfolding up_pow_Suc using up_unique by metis
qed simp

lemma describes_steps:
  assumes "describes rs ns" "describes rs ns'" "forest ns" "d < length rs"
  shows "(up ns ^^ n) d a \<longleftrightarrow> (up ns' ^^ n) d a"
  using assms(4)
proof (induction n arbitrary: d)
  case (Suc n)
  have len: "length ns = length rs" using assms(1) by (simp add: describes_def)
  have less: "e < length rs" if "up ns d e" for e
    using forest_parent [OF assms(3), of d e] that Suc.prems len by (simp add: up_def)
  have same: "up ns d e \<longleftrightarrow> up ns' d e" for e using describes_up [OF assms(1) Suc.prems] describes_up [OF assms(2) Suc.prems] by simp
  show ?case unfolding up_pow_Suc using Suc.IH less same by blast
qed simp

text \<open>\<open>ctx\<close> is what the propagator of row \<open>i\<close> makes of the file.\<close>

definition context_of :: "string \<Rightarrow> nat \<Rightarrow> CPContext \<Rightarrow> bool" where
  "context_of cs i ctx \<longleftrightarrow> (\<exists>s s'. os_ok s \<and> True \<notin> set (oom s) \<and>
     cp_context_create (Some cs) (row_id (file_rows cs ! i)) s = Some (Some ctx, s'))"

text \<open>Where a row is reached.\<close>

definition row_addr :: "string \<Rightarrow> nat \<Rightarrow> string \<times> u16" where
  "row_addr cs i = (trim (fst (snd (file_rows cs ! i))), word_of_int (atoi (trim (fst (snd (snd (file_rows cs ! i)))))))"

lemma hop_down:
  assumes "length (file_rows cs) < 2 ^ 19" "distinct (map row_id (file_rows cs))" "acyclic_rows (file_rows cs)"
    and "describes (file_rows cs) ns" "context_of cs a ctx" "a < length (file_rows cs)" "d < length (file_rows cs)"
    and "(up ns ^^ Suc n) d a" "chars (dest_node w) = row_id (file_rows cs ! d)"
  shows "\<exists>h. dispatch_hop ctx w = Some h \<and> h < length (file_rows cs) \<and> row_parent (file_rows cs) h = Some a \<and> (up ns ^^ n) d h \<and>
    hop_of ctx w = Some (row_addr cs h)"
proof -
  from assms(5) obtain s s' where c: "os_ok s" "True \<notin> set (oom s)"
    "cp_context_create (Some cs) (row_id (file_rows cs ! a)) s = Some (Some ctx, s')" by (auto simp: context_of_def)
  from context_facts [OF c(1,2) assms(1-3,6) c(3)] have f: "describes (file_rows cs) (arr (all_nodes ctx))" "forest (arr (all_nodes ctx))"
    "ctx_for (arr (all_nodes ctx)) a ctx" by auto
  note fn = describes_forest [OF assms(4,3)]
  have u: "(up (arr (all_nodes ctx)) ^^ Suc n) d a" using describes_steps [OF assms(4) f(1) fn assms(7)] assms(8) by blast
  have d: "d < length (arr (all_nodes ctx))" "name_of (arr (all_nodes ctx)) d = row_id (file_rows cs ! d)"
    using describes_row(1,5) [OF f(1) assms(7)] by auto
  from dispatch_hop_below [OF f(3,2) d(1) u] d(2) assms(9) obtain h where h: "dispatch_hop ctx w = Some h"
    "up (arr (all_nodes ctx)) h a" "(up (arr (all_nodes ctx)) ^^ n) d h" "h < length (arr (all_nodes ctx))" by auto
  have hl: "h < length (file_rows cs)" using h(4) f(1) by (simp add: describes_def)
  from context_hops [OF f assms(6), of w] h(1) have "hop_of ctx w = Some (row_addr cs h)" by (simp add: row_addr_def)
  moreover have "(up ns ^^ n) d h" using describes_steps [OF assms(4) f(1) fn assms(7)] h(3) by blast
  ultimately show ?thesis using h(1,2) hl describes_up [OF f(1) hl] by blast
qed

text \<open>The rows that a warning passes from \<open>a\<close> down to \<open>d\<close>.\<close>

lemma way_down:
  assumes "length (file_rows cs) < 2 ^ 19" "distinct (map row_id (file_rows cs))" "acyclic_rows (file_rows cs)"
    and "describes (file_rows cs) ns" "\<And>i. i < length (file_rows cs) \<Longrightarrow> context_of cs i (ctx i)" "d < length (file_rows cs)"
    and "a < length (file_rows cs)" "(up ns ^^ n) d a"
  shows "\<exists>way. length way = Suc n \<and> hd way = a \<and> last way = d \<and> (\<forall>k < n. way ! Suc k < length (file_rows cs) \<and>
    row_parent (file_rows cs) (way ! Suc k) = Some (way ! k) \<and>
    (\<forall>w. chars (dest_node w) = row_id (file_rows cs ! d) \<longrightarrow> hop_of (ctx (way ! k)) w = Some (row_addr cs (way ! Suc k))))"
  using assms(7,8)
proof (induction n arbitrary: a)
  case 0
  then show ?case by (intro exI [of _ "[a]"]) simp
next
  case (Suc n)
  note H = hop_down [OF assms(1-4) assms(5) [OF Suc.prems(1)] Suc.prems(1) assms(6) Suc.prems(2)]
  let ?v = "\<lparr>city = tmp_str [], wtype = 0, wvalue = 0, timestamp = 0, dest_node = tmp_str (row_id (file_rows cs ! d)), wblk = 0\<rparr>"
  from H [of ?v] obtain h where h: "h < length (file_rows cs)" "row_parent (file_rows cs) h = Some a" "(up ns ^^ n) d h"
    by (auto simp: tmp_str_def)
  have same: "hop_of (ctx a) w = Some (row_addr cs h)" if w: "chars (dest_node w) = row_id (file_rows cs ! d)" for w
  proof -
    from H [OF w] obtain h' where h': "h' < length (file_rows cs)" "row_parent (file_rows cs) h' = Some a" "(up ns ^^ n) d h'"
      "hop_of (ctx a) w = Some (row_addr cs h')" by blast
    with up_pow_unique [OF h(3) h'(3)] show ?thesis by simp
  qed
  from Suc.IH [OF h(1,3)] obtain way where w: "length way = Suc n" "hd way = h" "last way = d"
    "\<forall>k < n. way ! Suc k < length (file_rows cs) \<and> row_parent (file_rows cs) (way ! Suc k) = Some (way ! k) \<and>
      (\<forall>w. chars (dest_node w) = row_id (file_rows cs ! d) \<longrightarrow> hop_of (ctx (way ! k)) w = Some (row_addr cs (way ! Suc k)))" by blast
  have w0: "way ! 0 = h" using w(1,2) by (cases way) auto
  have "(a # way) ! Suc k < length (file_rows cs) \<and> row_parent (file_rows cs) ((a # way) ! Suc k) = Some ((a # way) ! k) \<and>
      (\<forall>w. chars (dest_node w) = row_id (file_rows cs ! d) \<longrightarrow> hop_of (ctx ((a # way) ! k)) w = Some (row_addr cs ((a # way) ! Suc k)))"
    if "k < Suc n" for k
  proof (cases k)
    case 0
    with w0 h(1,2) same show ?thesis by simp
  next
    case (Suc j)
    with w(4) that show ?thesis by simp
  qed
  with w(1,3) show ?case by (intro exI [of _ "a # way"]) auto
qed

section \<open>Property\<close>

text \<open>
  A warning reaches its destination: when all programs load the same \<open>nodes.csv\<close>, with distinct ids
  and no cycles, then for every warning that the data source generates there is a way down the tree
  of the file, from a root to the leaf that the warning names, such that the data source sends the
  warning to the address and port of the first row of the way, and the central propagator of every
  row on it sends each warning with that destination to the address and port of the next row.
\<close>

theorem warning_reaches_destination:
  assumes "length (file_rows cs) < 2 ^ 19" "distinct (map row_id (file_rows cs))" "acyclic_rows (file_rows cs)"
    and "describes (file_rows cs) ns" "proper ns w" "\<forall>i < length (file_rows cs). context_of cs i (ctx i)"
  shows "\<exists>way. 2 \<le> length way \<and> (\<forall>i \<in> set way. i < length (file_rows cs)) \<and> row_parent (file_rows cs) (hd way) = None \<and>
    row_id (file_rows cs ! last way) = chars (dest_node w) \<and> row_children (file_rows cs) (last way) = [] \<and>
    route ns w = [(fst (row_addr cs (hd way)), snd (row_addr cs (hd way)), w)] \<and>
    (\<forall>k v. Suc k < length way \<and> chars (dest_node v) = chars (dest_node w) \<longrightarrow>
       row_parent (file_rows cs) (way ! Suc k) = Some (way ! k) \<and> hop_of (ctx (way ! k)) v = Some (row_addr cs (way ! Suc k)))"
proof -
  let ?rs = "file_rows cs"
  from described_table [OF assms(4,3)] have tb: "source_table ns" by simp
  note fn = describes_forest [OF assms(4,3)]
  have len: "length ns = length ?rs" using assms(4) by (simp add: describes_def)
  from proper_route [OF tb assms(5)] obtain d rt a where r: "first_id ns (chars (dest_node w)) = Some d" "find_root ns d = Some rt"
    "rt < length ns" "nparent (ns ! rt) = None" "naddress (ns ! rt) = Some a" "route ns w = [(chars a, nport (ns ! rt), w)]" by blast
  have d: "d < length ?rs" "row_id (?rs ! d) = chars (dest_node w)"
    using r(1) len describes_row(1) [OF assms(4), of d] by (auto simp: first_id_def find_Some_iff)
  from assms(5) obtain e where e: "e < length ?rs" "ntype (ns ! e) = NODE_DESTINATION" "map_option chars (nid (ns ! e)) = Some (chars (dest_node w))"
    unfolding proper_def len by blast
  from e(3) describes_row(1) [OF assms(4) e(1)] have e3: "row_id (?rs ! e) = chars (dest_node w)" by auto
  have "e = d" using assms(2) d e(1) e3 by (metis distinct_conv_nth length_map nth_map)
  with e(1,2) assms(4) have leaf: "row_parent ?rs d \<noteq> None" "row_children ?rs d = []" by (auto simp: describes_def split: if_splits)
  from find_root_Some [OF r(2)] obtain n where n: "(up ns ^^ n) d rt" by (meson rtranclp_imp_relpowp)
  have rt: "rt < length ?rs" "row_parent ?rs rt = None" using r(3,4) len describes_row(2) [OF assms(4)] by auto
  from way_down [OF assms(1-4) assms(6) [rule_format] d(1) rt(1) n] obtain way where w: "length way = Suc n" "hd way = rt" "last way = d"
    "\<forall>k < n. way ! Suc k < length ?rs \<and> row_parent ?rs (way ! Suc k) = Some (way ! k) \<and>
      (\<forall>w. chars (dest_node w) = row_id (?rs ! d) \<longrightarrow> hop_of (ctx (way ! k)) w = Some (row_addr cs (way ! Suc k)))" by blast
  have "n \<noteq> 0"
  proof
    assume "n = 0"
    with n rt(2) leaf(1) show False by simp
  qed
  have all: "\<forall>i \<in> set way. i < length ?rs"
  proof
    fix i assume "i \<in> set way"
    then obtain k where k: "k < length way" "i = way ! k" by (auto simp: in_set_conv_nth)
    show "i < length ?rs"
    proof (cases k)
      case 0
      with k(2) w(1,2) rt(1) show ?thesis by (cases way) auto
    next
      case (Suc j)
      with k w(1,4) show ?thesis by auto
    qed
  qed
  have "row_addr cs rt = (chars a, nport (ns ! rt))" using describes_row(3,4) [OF assms(4) rt(1)] r(5) by (auto simp: row_addr_def)
  then have route: "route ns w = [(fst (row_addr cs (hd way)), snd (row_addr cs (hd way)), w)]" using r(6) w(2) by simp
  show ?thesis
    by (intro exI [of _ way] conjI all route) (use w d(2) leaf(2) rt(2) \<open>n \<noteq> 0\<close> in auto)
qed

theorem warning_reaches_destination_witness:
  "\<exists>ns ctx. describes (file_rows demo_csv) ns \<and> context_of demo_csv 0 ctx \<and>
     route ns (demo_warning\<lparr>city := tmp_str ''D1'', wvalue := double_of_nat 7\<rparr>) =
       [(''127.0.0.1'', 5000, demo_warning\<lparr>city := tmp_str ''D1'', wvalue := double_of_nat 7\<rparr>)] \<and>
     hop_of ctx demo_warning = Some (''127.0.0.1'', 5001)"
proof -
  note D = demo_context
  let ?w = "demo_warning\<lparr>city := tmp_str ''D1'', wvalue := double_of_nat 7\<rparr>"
  from node_load_all_spec [OF fresh_os_ok(1) _ D(1)] obtain na :: NodeArray where na: "describes (file_rows demo_csv) (arr na)" by auto
  let ?ns = "arr na"
  have "\<exists>c. context_of demo_csv i c" if "i < length (file_rows demo_csv)" for i
    using context_correct [OF fresh_os_ok(1) _ D(1-3) that] unfolding context_of_def by (metis fresh_os_ok(1,2) empty_iff list.set(1))
  then obtain ctx where ctx: "\<forall>i < length (file_rows demo_csv). context_of demo_csv i (ctx i)" by metis
  have ch: "row_children (file_rows demo_csv) 1 = []" "row_parent (file_rows demo_csv) 0 = None" unfolding demo_rows by code_simp+
  have "ntype (?ns ! 1) = NODE_DESTINATION" using na D(5,8) ch(1) by (simp add: describes_def)
  moreover have "map_option chars (nid (?ns ! 1)) = Some (row_id (file_rows demo_csv ! 1))" using na D(5) unfolding describes_def by blast
  moreover have "1 < length ?ns" using na D(5) by (simp add: describes_def)
  ultimately have "\<exists>i < length ?ns. ntype (?ns ! i) = NODE_DESTINATION \<and> map_option chars (nid (?ns ! i)) = Some (chars (dest_node ?w)) \<and>
      chars (city ?w) = chars (dest_node ?w)" unfolding D(7)
    by (intro conjI exI [of _ "1 :: nat"]) (simp_all add: demo_warning_def tmp_str_def WARNING_TYPE_FIRE_def)
  moreover have "\<exists>v < 100. wvalue ?w = double_of_nat v" by (intro exI [of _ 7]) simp
  moreover have "unat (wtype ?w) < 4" by (simp add: demo_warning_def WARNING_TYPE_FIRE_def)
  ultimately have "proper ?ns ?w" unfolding proper_def by blast
  from warning_reaches_destination [OF D(1-3) na this ctx] obtain way where w: "2 \<le> length way" "\<forall>i \<in> set way. i < length (file_rows demo_csv)"
    "row_parent (file_rows demo_csv) (hd way) = None" "row_id (file_rows demo_csv ! last way) = chars (dest_node ?w)"
    "route ?ns ?w = [(fst (row_addr demo_csv (hd way)), snd (row_addr demo_csv (hd way)), ?w)]"
    "\<forall>k v. Suc k < length way \<and> chars (dest_node v) = chars (dest_node ?w) \<longrightarrow>
       row_parent (file_rows demo_csv) (way ! Suc k) = Some (way ! k) \<and> hop_of (ctx (way ! k)) v = Some (row_addr demo_csv (way ! Suc k))" by (elim exE conjE)
  have three: "i = 0 \<or> i = 1 \<or> i = 2" if "i \<in> set way" for i
  proof -
    from w(2) that have "i < length (file_rows demo_csv)" by blast
    then show ?thesis unfolding demo_rows by simp arith
  qed
  have ne: "way \<noteq> []" using w(1) by auto
  have "row_id (file_rows demo_csv ! 0) \<noteq> ''D1''" "row_id (file_rows demo_csv ! 2) \<noteq> ''D1''" "row_parent (file_rows demo_csv) 2 = None"
    unfolding demo_rows by code_simp+
  moreover have "chars (dest_node ?w) = ''D1''" by (simp add: demo_warning_def)
  ultimately have l: "last way = 1" using three [of "last way"] ne w(4) by auto
  let ?k = "length way - 2"
  have k: "Suc ?k < length way" "way ! Suc ?k = 1" using w(1) l ne by (simp_all add: last_conv_nth Suc_diff_Suc numeral_2_eq_2)
  have h: "way ! ?k = 0" "hop_of (ctx 0) demo_warning = Some (row_addr demo_csv 1)"
    using w(6) [rule_format, of ?k demo_warning] k D(8) by simp_all
  have "hd way = 0"
  proof -
    have "hd way = 0 \<or> hd way = 2" using three [of "hd way"] ne w(3) D(8) by auto
    moreover have "hd way \<noteq> 2"
    proof
      assume "hd way = 2"
      then have "way ! 0 = 2" using ne by (simp add: hd_conv_nth)
      moreover have "way ! Suc 0 = 0 \<or> way ! Suc 0 = 1 \<or> way ! Suc 0 = 2" using three nth_mem [of "Suc 0" way] w(1) by simp
      moreover have "row_parent (file_rows demo_csv) (way ! Suc 0) = Some (way ! 0)" using w(6) [rule_format, of 0 ?w] w(1) by simp
      moreover have "row_parent (file_rows demo_csv) 0 = None" "row_parent (file_rows demo_csv) 2 = None" unfolding demo_rows by code_simp+
      ultimately show False using D(8) by auto
    qed
    ultimately show ?thesis by blast
  qed
  moreover have "row_addr demo_csv 0 = (''127.0.0.1'', 5000)" "row_addr demo_csv 1 = (''127.0.0.1'', 5001)"
    unfolding row_addr_def demo_rows by code_simp+
  ultimately show ?thesis using na ctx [rule_format, OF D(4)] h(2) w(5) by (intro exI [of _ ?ns] exI [of _ "ctx 0"]) simp
qed

end
