(* ===== verification/Destination.thy ===== *)
theory Destination
  imports Listener
begin

text \<open>
  \<open>DataDestination/data_destination.c\<close>: the process at a leaf of the tree.  One thread accepts
  connections and queues the warnings it reads, a second one prints, counts and frees them;
  \<open>dd_destroy\<close> stops the first, then sends the second a NULL item.  The system \<open>dstep\<close> interleaves the
  two threads and the one that destroys the context.
\<close>

section \<open>Data and operations\<close>

text \<open>\<open>listen_sock\<close> is set by the listener thread; the 32-bit counter wraps around.\<close>

record DDContext =
  dd_id :: "hstr option"
  dd_port :: u16
  dd_listen_sock :: "SOCKET option"
  dd_queue :: "Warning TSQueue"
  warning_count :: u32
  dd_blk :: nat

abbreviation destroy_warning :: "Warning \<Rightarrow> os \<Rightarrow> os" where
  "destroy_warning \<equiv> \<lambda>w. warning_destroy (Some w)"

text \<open>
  \<open>dd_create\<close>; the flags say whether the two \<open>CreateThread\<close> calls succeed, \<open>ls\<close> is what the field
  \<open>listen_sock\<close> holds when the second one fails.
\<close>

definition dd_create :: "bool \<Rightarrow> bool \<Rightarrow> SOCKET \<Rightarrow> string \<Rightarrow> u16 \<Rightarrow> os \<Rightarrow> (DDContext option \<times> os) option" where
  "dd_create created1 created2 ls str port s =
     (case malloc s of
        (None, s) \<Rightarrow> Some (None, s)
      | (Some b, s) \<Rightarrow>
          (case strdup str s of
             (h, s) \<Rightarrow>
               (case tsqueue_create 0 (Some destroy_warning) s of
                  (None, s) \<Rightarrow> Some (None, free_blk b (free_hstr h s))
                | (Some q, s) \<Rightarrow>
                    (if \<not> created1 then
                       map_option (\<lambda>s. (None, free_blk b (free_hstr h s))) (tsqueue_destroy (Some q) s)
                     else if \<not> created2 then
                       map_option (\<lambda>s. (None, free_blk b (free_hstr h s)))
                         (tsqueue_destroy (Some q) (if ls \<noteq> INVALID_SOCKET then closesocket ls s else s))
                     else
                       Some (Some \<lparr>dd_id = h, dd_port = port, dd_listen_sock = None, dd_queue = q, warning_count = 0, dd_blk = b\<rparr>, s)))))"

text \<open>What the listener does with a warning; the result of the insertion is not looked at.\<close>

definition dd_put :: "Warning \<Rightarrow> DDContext \<Rightarrow> os \<Rightarrow> (DDContext \<times> os) option" where
  "dd_put w ctx s = map_option (\<lambda>(r, q, s). (ctx\<lparr>dd_queue := q\<rparr>, s)) (tsqueue_enqueue (dd_queue ctx) (Some w) s)"

text \<open>
  \<open>listener_fn\<close>: the messages of one client, and the accept loop.  \<open>accept\<close> returns a client whose
  connection delivers these bytes, or fails (\<open>None\<close>), which ends the loop; a list that ends
  before leaves the thread waiting in \<open>accept\<close>.
\<close>

function dd_serve :: "conn \<Rightarrow> DDContext \<Rightarrow> os \<Rightarrow> (DDContext \<times> conn \<times> os) option" where
  "dd_serve c x s =
     (case dd_deserialize_warning c s of
        (None, c', s) \<Rightarrow> Some (x, c', s)
      | (Some w, c', s) \<Rightarrow> (case dd_put w x s of None \<Rightarrow> None | Some (x, s) \<Rightarrow> dd_serve c' x s))"
  by pat_completeness auto
termination
  by (relation "measure (\<lambda>(c, x, s). length (stream c))") (auto simp: dd_deserialize_eq dest: deserialize_shorter [OF sym])

declare dd_serve.simps [simp del]

fun dd_listener_fn :: "(SOCKET \<times> conn) option list \<Rightarrow> DDContext \<Rightarrow> os \<Rightarrow> (bool \<times> DDContext \<times> os) option" where
  "dd_listener_fn [] x s = Some (False, x, s)"
| "dd_listener_fn (None # as) x s = Some (True, x, s)"
| "dd_listener_fn (Some (k, c) # as) x s =
     (case dd_serve c x (s\<lparr>socks := insert k (socks s)\<rparr>) of
        None \<Rightarrow> None
      | Some (x, _, s) \<Rightarrow> dd_listener_fn as x (closesocket k s))"

text \<open>What the other thread does with a warning: print, count, destroy.\<close>

definition dd_process :: "(u64 \<Rightarrow> string) \<Rightarrow> (u64 \<Rightarrow> tm) \<Rightarrow> Warning \<Rightarrow> DDContext \<Rightarrow> os \<Rightarrow> DDContext \<times> os" where
  "dd_process fmt2f localtime w ctx s =
     (case warning_to_string fmt2f localtime (Some w) s of
        (desc, s) \<Rightarrow>
          (ctx\<lparr>warning_count := warning_count ctx + 1\<rparr>,
           warning_destroy (Some w) (case desc of None \<Rightarrow> s | Some h \<Rightarrow> free_str h s)))"

text \<open>The end of \<open>dd_destroy\<close>, after both threads have ended.\<close>

definition dd_free :: "DDContext \<Rightarrow> os \<Rightarrow> os option" where
  "dd_free ctx s = map_option (\<lambda>s. free_blk (dd_blk ctx) (free_hstr (dd_id ctx) s)) (tsqueue_destroy (Some (dd_queue ctx)) s)"

section \<open>The threads of a destination\<close>

text \<open>
  The listener is in \<open>accept\<close>, reads from a client, or has left its loop; the processor is in its
  loop or has left it; \<open>dd_destroy\<close> has not begun, waits for the listener, waits for the processor,
  or is done.  \<open>received\<close>, \<open>processed\<close>: what was read from clients and what was printed.
\<close>

datatype dd_listener = Accepting | Reading SOCKET conn | Ended

datatype dd_stage = Active | Join_listener | Join_processor | Destroyed

record ddsys =
  dd :: DDContext
  dheap :: os
  lst :: dd_listener
  proc :: bool
  dd_stage :: dd_stage
  received :: "Warning list"
  processed :: "Warning list"

inductive dstep :: "(u64 \<Rightarrow> string) \<Rightarrow> (u64 \<Rightarrow> tm) \<Rightarrow> ddsys \<Rightarrow> ddsys \<Rightarrow> bool" for fmt2f localtime where
  accept: "lst c = Accepting \<Longrightarrow> dd_stage c = Active \<Longrightarrow> k \<notin> socks (dheap c) \<Longrightarrow> k \<noteq> INVALID_SOCKET \<Longrightarrow>
    dstep fmt2f localtime c (c\<lparr>lst := Reading k cn, dheap := (dheap c)\<lparr>socks := insert k (socks (dheap c))\<rparr>\<rparr>)"
| accept_fails: "lst c = Accepting \<Longrightarrow> dstep fmt2f localtime c (c\<lparr>lst := Ended\<rparr>)"
| read_warning: "lst c = Reading k cn \<Longrightarrow> dd_deserialize_warning cn (dheap c) = (Some w, cn', s) \<Longrightarrow>
    dd_put w (dd c) s = Some (x, s') \<Longrightarrow>
    dstep fmt2f localtime c (c\<lparr>lst := Reading k cn', dd := x, dheap := s', received := received c @ [w]\<rparr>)"
| read_end: "lst c = Reading k cn \<Longrightarrow> dd_deserialize_warning cn (dheap c) = (None, cn', s) \<Longrightarrow>
    dstep fmt2f localtime c (c\<lparr>lst := Accepting, dheap := closesocket k s\<rparr>)"
| process: "proc c \<Longrightarrow> tsqueue_dequeue (dd_queue (dd c)) (dheap c) = Some (Some w, q, s) \<Longrightarrow>
    dd_process fmt2f localtime w ((dd c)\<lparr>dd_queue := q\<rparr>) s = (x, s') \<Longrightarrow>
    dstep fmt2f localtime c (c\<lparr>dd := x, dheap := s', processed := processed c @ [w]\<rparr>)"
| processor_ends: "proc c \<Longrightarrow> tsqueue_dequeue (dd_queue (dd c)) (dheap c) = Some (None, q, s) \<Longrightarrow>
    dstep fmt2f localtime c (c\<lparr>dd := (dd c)\<lparr>dd_queue := q\<rparr>, dheap := s, proc := False\<rparr>)"
| destroy_begins: "dd_stage c = Active \<Longrightarrow> dd_listen_sock (dd c) = Some ls \<Longrightarrow>
    dstep fmt2f localtime c (c\<lparr>dheap := closesocket ls (dheap c), dd_stage := Join_listener\<rparr>)"
| send_null: "dd_stage c = Join_listener \<Longrightarrow> lst c = Ended \<Longrightarrow> tsqueue_enqueue (dd_queue (dd c)) None (dheap c) = Some (r, q, s) \<Longrightarrow>
    dstep fmt2f localtime c (c\<lparr>dd := (dd c)\<lparr>dd_queue := q\<rparr>, dheap := s, dd_stage := Join_processor\<rparr>)"
| destroy_ends: "dd_stage c = Join_processor \<Longrightarrow> \<not> proc c \<Longrightarrow> dd_free (dd c) (dheap c) = Some s \<Longrightarrow>
    dstep fmt2f localtime c (c\<lparr>dheap := s, dd_stage := Destroyed\<rparr>)"

text \<open>A new context, after its listener has opened the listening socket.\<close>

definition dstart :: "SOCKET \<Rightarrow> DDContext \<Rightarrow> os \<Rightarrow> ddsys" where
  "dstart ls x s = \<lparr>dd = x\<lparr>dd_listen_sock := Some ls\<rparr>, dheap = s\<lparr>socks := insert ls (socks s)\<rparr>, lst = Accepting, proc = True,
     dd_stage = Active, received = [], processed = []\<rparr>"

section \<open>Invariant\<close>

definition dd_blks :: "DDContext \<Rightarrow> nat list" where
  "dd_blks x = tself (dd_queue x) # (case dd_id x of None \<Rightarrow> [] | Some h \<Rightarrow> [sblk h]) @ [dd_blk x]"

text \<open>The sockets of the destination itself.\<close>

definition dd_socks :: "ddsys \<Rightarrow> SOCKET set" where
  "dd_socks c = (if dd_stage c = Active then set_option (dd_listen_sock (dd c)) else {}) \<union>
     (case lst c of Reading k cn \<Rightarrow> {k} | _ \<Rightarrow> {})"

definition dd_ok :: "nat set \<Rightarrow> SOCKET set \<Rightarrow> DDContext \<Rightarrow> os \<Rightarrow> bool" where
  "dd_ok L K x s \<longleftrightarrow> qholds L K warning_blks (dd_blks x) (dd_queue x) s \<and> tcapacity (dd_queue x) = 0 \<and>
     map_option freeFunc (inner (dd_queue x)) = Some (Some destroy_warning)"

lemma dd_put_spec:
  assumes "dd_ok (L \<union> set (warning_blks w)) K x s" "distinct (warning_blks w)" "set (warning_blks w) \<inter> L = {}"
  shows "\<exists>r q s'. dd_put w x s = Some (x\<lparr>dd_queue := q\<rparr>, s') \<and> set (oom s') \<subseteq> set (oom s) \<and>
    (r = 0 \<and> titems q = titems (dd_queue x) @ [Some w] \<and> dd_ok L K (x\<lparr>dd_queue := q\<rparr>) s' \<or>
     r = (- 1 :: int) \<and> titems q = titems (dd_queue x) \<and> dd_ok (L \<union> set (warning_blks w)) K (x\<lparr>dd_queue := q\<rparr>) s' \<and> True \<in> set (oom s))"
proof -
  from assms have q: "qholds L K warning_blks (warning_blks w @ dd_blks x) (dd_queue x) s" "tcapacity (dd_queue x) = 0"
    by (auto simp: dd_ok_def intro: qholds_claim)
  from enqueue_unbounded [OF q(2)] obtain r q' s' where e: "tsqueue_enqueue (dd_queue x) (Some w) s = Some (r, q', s')" by blast
  note E = qholds_enqueue [OF q(1) e]
  have T: "True \<in> set (oom s)" if "r \<noteq> 0" using enqueue_succeeds [OF _ e] q(1) that by (auto simp: qholds_def)
  have P: "dd_put w x s = Some (x\<lparr>dd_queue := q'\<rparr>, s')" using e by (simp add: dd_put_def)
  show ?thesis
  proof (cases "r = 0")
    case True
    with E assms(1) have "titems q' = titems (dd_queue x) @ [Some w]" "dd_ok L K (x\<lparr>dd_queue := q'\<rparr>) s'"
      by (auto simp: dd_ok_def dd_blks_def)
    with P True enqueue_oom [OF e] show ?thesis by blast
  next
    case False
    with E have "qholds L K warning_blks (warning_blks w @ dd_blks x) q' s'" by auto
    from qholds_yield(1) [OF this] E assms(1) False have "titems q' = titems (dd_queue x)" "dd_ok (L \<union> set (warning_blks w)) K (x\<lparr>dd_queue := q'\<rparr>) s'" "r = - 1"
      by (auto simp: dd_ok_def dd_blks_def)
    with P T [OF False] enqueue_oom [OF e] show ?thesis by blast
  qed
qed

lemma dd_process_spec:
  assumes "qholds L K warning_blks (warning_blks w @ dd_blks x) (dd_queue x) s" "dd_process f l w x s = (x', s')"
  shows "x' = x\<lparr>warning_count := warning_count x + 1\<rparr> \<and> qholds L K warning_blks (dd_blks x) (dd_queue x) s' \<and> set (oom s') \<subseteq> set (oom s)"
proof -
  obtain desc s1 where p: "warning_to_string f l (Some w) s = (desc, s1)" by force
  let ?s = "case desc of None \<Rightarrow> s1 | Some h \<Rightarrow> free_str h s1"
  from qholds_ok [OF assms(1)] have "os_ok s" ..
  note P = print_warning [OF this p]
  have "qholds L K warning_blks ([] @ warning_blks w @ dd_blks x) (dd_queue x) ?s"
    by (rule qholds_frame [OF assms(1)]) (use P in simp_all)
  from qholds_warning_destroy [OF this [unfolded append_Nil]] p assms(2) P show ?thesis
    by (auto simp: dd_process_def warning_destroy_oom)
qed

definition dinv :: "nat set \<Rightarrow> SOCKET set \<Rightarrow> ddsys \<Rightarrow> bool" where
  "dinv L K c \<longleftrightarrow> dd_ok L (K \<union> dd_socks c) (dd c) (dheap c) \<and> True \<notin> set (oom (dheap c)) \<and> dd_socks c \<inter> K = {} \<and>
     (\<forall>k cn. lst c = Reading k cn \<longrightarrow> dd_listen_sock (dd c) = Some k \<longrightarrow> dd_stage c \<noteq> Active) \<and>
     warning_count (dd c) = of_nat (length (processed c)) \<and>
     (case dd_stage c of
        Join_processor \<Rightarrow> lst c = Ended \<and>
          (if proc c then \<exists>ws. titems (dd_queue (dd c)) = map Some ws @ [None] \<and> received c = processed c @ ws
           else titems (dd_queue (dd c)) = [] \<and> received c = processed c)
      | _ \<Rightarrow> proc c \<and> (\<exists>ws. titems (dd_queue (dd c)) = map Some ws \<and> received c = processed c @ ws))"

text \<open>A destroyed destination has left nothing behind.\<close>

definition dgone :: "nat set \<Rightarrow> SOCKET set \<Rightarrow> ddsys \<Rightarrow> bool" where
  "dgone L K c \<longleftrightarrow> os_ok (dheap c) \<and> live (dheap c) = L \<and> socks (dheap c) = K \<and> lst c = Ended \<and> \<not> proc c \<and>
     processed c = received c \<and> warning_count (dd c) = of_nat (length (processed c))"

lemma dd_ok_os: "dd_ok L K x s \<Longrightarrow> os_ok s \<and> socks s = K"
  by (simp add: dd_ok_def qholds_def tsq_ok_def queue_ok_def)

lemma dd_ok_frame:
  assumes "dd_ok L K x s" "os_ok s'" "live s' = live s \<union> set B" "live s \<inter> set B = {}" "distinct B" "socks s' = K"
  shows "dd_ok (L \<union> set B) K x s' \<and> set B \<inter> L = {}"
proof -
  from assms(1) have "qholds L K warning_blks (dd_blks x) (dd_queue x) s" "socks s = K" by (auto simp: dd_ok_def qholds_def)
  from qholds_yield [OF qholds_frame [OF this(1) assms(2,3)]] assms(4-6) this(2) assms(1) show ?thesis
    by (auto simp: dd_ok_def)
qed

lemma dd_ok_socks: "dd_ok L K x s \<Longrightarrow> dd_ok L K' x (s\<lparr>socks := K'\<rparr>)"
  using tsq_ok_frame [of "dd_queue x" s "s\<lparr>socks := K'\<rparr>"] qholds_ok [of L K warning_blks "dd_blks x" "dd_queue x" s]
  by (auto simp: dd_ok_def qholds_def os_ok_def)

text \<open>The queue of a destination is a receiver of warnings.\<close>

interpretation dds: sink dd_put dd_ok "\<lambda>x. somes (titems (dd_queue x))"
proof (unfold_locales, goal_cases)
  case (1 L K d s)
  then show ?case by (rule dd_ok_os)
next
  case (2 L K d s s' B)
  then show ?case by (rule dd_ok_frame)
next
  case (3 L K d s K')
  then show ?case by (rule dd_ok_socks)
next
  case (4 L w K d s)
  from dd_put_spec [OF this] obtain r :: int and q s' where e: "dd_put w d s = Some (d\<lparr>dd_queue := q\<rparr>, s')" "set (oom s') \<subseteq> set (oom s)"
    "r = 0 \<and> titems q = titems (dd_queue d) @ [Some w] \<and> dd_ok L K (d\<lparr>dd_queue := q\<rparr>) s' \<or>
     r = - 1 \<and> titems q = titems (dd_queue d) \<and> dd_ok (L \<union> set (warning_blks w)) K (d\<lparr>dd_queue := q\<rparr>) s' \<and> True \<in> set (oom s)" by blast
  from e(3) show ?case
  proof (elim disjE conjE)
    assume "titems q = titems (dd_queue d) @ [Some w]" "dd_ok L K (d\<lparr>dd_queue := q\<rparr>) s'"
    with e(1,2) show ?thesis by (intro exI [of _ "d\<lparr>dd_queue := q\<rparr>"] exI [of _ s'] exI [of _ "{}"]) simp
  next
    assume "titems q = titems (dd_queue d)" "dd_ok (L \<union> set (warning_blks w)) K (d\<lparr>dd_queue := q\<rparr>) s'" "True \<in> set (oom s)"
    with e(1,2) show ?thesis by (intro exI [of _ "d\<lparr>dd_queue := q\<rparr>"] exI [of _ s'] exI [of _ "set (warning_blks w)"]) simp
  qed
qed

lemma dd_free_spec:
  assumes "dd_ok L K x s"
  shows "\<exists>s'. dd_free x s = Some s' \<and> os_ok s' \<and> live s' = L \<and> socks s' = K"
proof -
  let ?X = "(case dd_id x of None \<Rightarrow> [] | Some h \<Rightarrow> [sblk h]) @ [dd_blk x]"
  from assms have q: "qholds L K warning_blks (tself (dd_queue x) # ?X) (dd_queue x) s"
    "map_option freeFunc (inner (dd_queue x)) = Some (Some destroy_warning)" by (auto simp: dd_ok_def dd_blks_def)
  have "wd.owns_socks (somes (titems (dd_queue x))) = {}" by (auto simp: wd.owns_socks_def)
  from wd.qholds_destroy [OF q this] obtain s1 where s1: "tsqueue_destroy (Some (dd_queue x)) s = Some s1" "holds L K ?X s1" by blast
  have "holds L K [dd_blk x] (free_hstr (dd_id x) s1)"
    using s1(2) by (cases "dd_id x") (simp_all add: free_hstr_def free_str_def holds_free)
  from holds_free [OF this] s1(1) show ?thesis by (simp add: dd_free_def holds_end)
qed

lemma dd_dequeue_spec:
  assumes "dd_ok L K x s" "tsqueue_dequeue (dd_queue x) s = Some (d, q, s')"
  shows "titems (dd_queue x) = d # titems q \<and> tcapacity q = 0 \<and> oom s' = oom s \<and>
    map_option freeFunc (inner q) = Some (Some destroy_warning) \<and>
    qholds L K warning_blks ((case d of None \<Rightarrow> [] | Some w \<Rightarrow> warning_blks w) @ dd_blks (x\<lparr>dd_queue := q\<rparr>)) q s'"
proof -
  from assms(1) have q: "qholds L K warning_blks (dd_blks x) (dd_queue x) s" by (simp add: dd_ok_def)
  note D = qholds_dequeue [OF q assms(2)]
  moreover have "dd_blks (x\<lparr>dd_queue := q\<rparr>) = dd_blks x" using D by (simp add: dd_blks_def)
  ultimately show ?thesis using assms(1) dequeue_oom [OF assms(2)] by (simp add: dd_ok_def)
qed

lemma step_accept:
  assumes "dinv L K c" "lst c = Accepting" "dd_stage c = Active" "k \<notin> socks (dheap c)"
  shows "dinv L K (c\<lparr>lst := Reading k cn, dheap := (dheap c)\<lparr>socks := insert k (socks (dheap c))\<rparr>\<rparr>)" (is "dinv L K ?c'")
proof -
  from assms(1) have i: "dd_ok L (K \<union> dd_socks c) (dd c) (dheap c)" by (simp add: dinv_def)
  from dd_ok_os [OF i] have s: "socks (dheap c) = K \<union> dd_socks c" by simp
  have t: "dd_socks ?c' = insert k (dd_socks c)" using assms(2,3) by (simp add: dd_socks_def)
  have "dd_ok L (K \<union> insert k (dd_socks c)) (dd c) ((dheap c)\<lparr>socks := insert k (socks (dheap c))\<rparr>)"
    using dd_ok_socks [OF i, of "K \<union> insert k (dd_socks c)"] s by simp
  moreover have "dd_listen_sock (dd c) \<noteq> Some k" using assms(2-4) s by (auto simp: dd_socks_def)
  ultimately show ?thesis using assms s unfolding dinv_def t by auto
qed

lemma step_accept_fails:
  assumes "dinv L K c" "lst c = Accepting"
  shows "dinv L K (c\<lparr>lst := Ended\<rparr>)"
proof -
  have "dd_socks (c\<lparr>lst := Ended\<rparr>) = dd_socks c" using assms(2) by (simp add: dd_socks_def)
  with assms show ?thesis by (auto simp: dinv_def split: dd_stage.splits)
qed

lemma step_read_warning:
  assumes "dinv L K c" "lst c = Reading k cn" "dd_deserialize_warning cn (dheap c) = (Some w, cn', s)"
    and "dd_put w (dd c) s = Some (x, s')"
  shows "dinv L K (c\<lparr>lst := Reading k cn', dd := x, dheap := s', received := received c @ [w]\<rparr>)" (is "dinv L K ?c'")
proof -
  from assms(1) have i: "dd_ok L (K \<union> dd_socks c) (dd c) (dheap c)" "True \<notin> set (oom (dheap c))" by (auto simp: dinv_def)
  from dd_ok_os [OF i(1)] have o: "os_ok (dheap c)" "socks (dheap c) = K \<union> dd_socks c" by auto
  note D = assms(3) [unfolded dd_deserialize_eq]
  note S = deserialize_safe [OF o(1) D] deserialize_oom [OF D]
  from dd_ok_frame [OF i(1), of s "warning_blks w"] S o(2)
  have f: "dd_ok (L \<union> set (warning_blks w)) (K \<union> dd_socks c) (dd c) s" "distinct (warning_blks w)" "set (warning_blks w) \<inter> L = {}" by auto
  have om: "True \<notin> set (oom s)" using S i(2) by blast
  from dd_put_spec [OF f] om assms(4) obtain q where q: "x = (dd c)\<lparr>dd_queue := q\<rparr>" "set (oom s') \<subseteq> set (oom s)"
    "titems q = titems (dd_queue (dd c)) @ [Some w]" "dd_ok L (K \<union> dd_socks c) x s'" by auto
  have t: "dd_socks ?c' = dd_socks c" using assms(2) q(1) by (simp add: dd_socks_def)
  have st: "dd_stage c \<noteq> Join_processor" using assms(1,2) by (auto simp: dinv_def)
  with assms(1) obtain ws where w: "titems (dd_queue (dd c)) = map Some ws" "received c = processed c @ ws" "proc c"
    by (auto simp: dinv_def split: dd_stage.splits)
  have "\<exists>vs. titems q = map Some vs \<and> received c @ [w] = processed c @ vs" using w(1,2) q(3) by (intro exI [of _ "ws @ [w]"]) simp
  then show ?thesis using assms(1,2) q om w(3) st unfolding dinv_def t by (auto split: dd_stage.splits)
qed

lemma step_read_end:
  assumes "dinv L K c" "lst c = Reading k cn" "dd_deserialize_warning cn (dheap c) = (None, cn', s)"
  shows "dinv L K (c\<lparr>lst := Accepting, dheap := closesocket k s\<rparr>)" (is "dinv L K ?c'")
proof -
  from assms(1) have i: "dd_ok L (K \<union> dd_socks c) (dd c) (dheap c)" "True \<notin> set (oom (dheap c))" "dd_socks c \<inter> K = {}" by (auto simp: dinv_def)
  from dd_ok_os [OF i(1)] have o: "os_ok (dheap c)" "socks (dheap c) = K \<union> dd_socks c" by auto
  note D = assms(3) [unfolded dd_deserialize_eq]
  note S = deserialize_safe [OF o(1) D] deserialize_oom [OF D]
  from dd_ok_frame [OF i(1), of s "[]"] S o(2) have f: "dd_ok L (K \<union> dd_socks c) (dd c) s" by simp
  have t: "dd_socks ?c' = dd_socks c - {k}" using assms(1,2) by (auto simp: dd_socks_def dinv_def)
  have "k \<notin> K" using i(3) assms(2) by (auto simp: dd_socks_def)
  then have "K \<union> dd_socks c - {k} = K \<union> (dd_socks c - {k})" by blast
  with dd_ok_socks [OF f, of "K \<union> (dd_socks c - {k})"] S o(2)
  have "dd_ok L (K \<union> (dd_socks c - {k})) (dd c) (closesocket k s)" by (simp add: closesocket_def)
  then show ?thesis using assms(1,2) S i(2,3) unfolding dinv_def t by (auto split: dd_stage.splits)
qed

lemma step_process:
  assumes "dinv L K c" "proc c" "tsqueue_dequeue (dd_queue (dd c)) (dheap c) = Some (Some w, q, s)"
    and "dd_process f l w ((dd c)\<lparr>dd_queue := q\<rparr>) s = (x, s')"
  shows "dinv L K (c\<lparr>dd := x, dheap := s', processed := processed c @ [w]\<rparr>)" (is "dinv L K ?c'")
proof -
  from assms(1) have i: "dd_ok L (K \<union> dd_socks c) (dd c) (dheap c)" "True \<notin> set (oom (dheap c))" by (auto simp: dinv_def)
  note D = dd_dequeue_spec [OF i(1) assms(3)]
  then have "qholds L (K \<union> dd_socks c) warning_blks (warning_blks w @ dd_blks ((dd c)\<lparr>dd_queue := q\<rparr>)) (dd_queue ((dd c)\<lparr>dd_queue := q\<rparr>)) s" by simp
  note P = dd_process_spec [OF this assms(4)]
  have t: "dd_socks ?c' = dd_socks c" using P by (simp add: dd_socks_def)
  have ok: "dd_ok L (K \<union> dd_socks c) x s'" using P D by (simp add: dd_ok_def dd_blks_def)
  have q: "dd_queue x = q" "titems (dd_queue (dd c)) = Some w # titems q" using P D by simp_all
  have om: "True \<notin> set (oom s')" using P D i(2) by auto
  show ?thesis
  proof (cases "dd_stage c = Join_processor")
    case True
    with assms(1,2) obtain ws where ws: "titems (dd_queue (dd c)) = map Some ws @ [None]" "received c = processed c @ ws" "lst c = Ended"
      by (auto simp: dinv_def)
    with q obtain vs where "ws = w # vs" "titems q = map Some vs @ [None]" by (cases ws) auto
    with ws True assms(1,2) ok om P q(1) show ?thesis unfolding dinv_def t by auto
  next
    case False
    with assms(1) obtain ws where ws: "titems (dd_queue (dd c)) = map Some ws" "received c = processed c @ ws"
      by (auto simp: dinv_def split: dd_stage.splits)
    with q obtain vs where "ws = w # vs" "titems q = map Some vs" by (cases ws) auto
    with ws False assms(1,2) ok om P q(1) show ?thesis unfolding dinv_def t by (auto split: dd_stage.splits)
  qed
qed

lemma step_processor_ends:
  assumes "dinv L K c" "proc c" "tsqueue_dequeue (dd_queue (dd c)) (dheap c) = Some (None, q, s)"
  shows "dinv L K (c\<lparr>dd := (dd c)\<lparr>dd_queue := q\<rparr>, dheap := s, proc := False\<rparr>)" (is "dinv L K ?c'")
proof -
  from assms(1) have i: "dd_ok L (K \<union> dd_socks c) (dd c) (dheap c)" "True \<notin> set (oom (dheap c))" by (auto simp: dinv_def)
  note D = dd_dequeue_spec [OF i(1) assms(3)]
  have t: "dd_socks ?c' = dd_socks c" by (simp add: dd_socks_def)
  have st: "dd_stage c = Join_processor" using assms(1) D by (auto simp: dinv_def split: dd_stage.splits)
  with assms(1,2) obtain ws where "titems (dd_queue (dd c)) = map Some ws @ [None]" "received c = processed c @ ws" "lst c = Ended"
    by (auto simp: dinv_def)
  with D have "titems q = []" "received c = processed c" "lst c = Ended" by (cases ws; auto)+
  with st D assms(1) i(2) show ?thesis unfolding dinv_def t by (simp add: dd_ok_def)
qed

lemma step_destroy_begins:
  assumes "dinv L K c" "dd_stage c = Active" "dd_listen_sock (dd c) = Some ls"
  shows "dinv L K (c\<lparr>dheap := closesocket ls (dheap c), dd_stage := Join_listener\<rparr>)" (is "dinv L K ?c'")
proof -
  from assms(1) have i: "dd_ok L (K \<union> dd_socks c) (dd c) (dheap c)" "dd_socks c \<inter> K = {}" by (auto simp: dinv_def)
  from dd_ok_os [OF i(1)] have o: "socks (dheap c) = K \<union> dd_socks c" by simp
  have t: "dd_socks ?c' = dd_socks c - {ls}" using assms by (auto simp: dd_socks_def dinv_def split: dd_listener.splits)
  have "ls \<in> dd_socks c" using assms(2,3) by (simp add: dd_socks_def)
  then have "socks (dheap c) - {ls} = K \<union> (dd_socks c - {ls})" using i(2) o by blast
  with dd_ok_socks [OF i(1), of "K \<union> (dd_socks c - {ls})"]
  have "dd_ok L (K \<union> (dd_socks c - {ls})) (dd c) (closesocket ls (dheap c))" by (simp add: closesocket_def)
  with assms i(2) show ?thesis unfolding dinv_def t by auto
qed

lemma step_send_null:
  assumes "dinv L K c" "dd_stage c = Join_listener" "lst c = Ended"
    and "tsqueue_enqueue (dd_queue (dd c)) None (dheap c) = Some (r, q, s)"
  shows "dinv L K (c\<lparr>dd := (dd c)\<lparr>dd_queue := q\<rparr>, dheap := s, dd_stage := Join_processor\<rparr>)" (is "dinv L K ?c'")
proof -
  from assms(1) have i: "dd_ok L (K \<union> dd_socks c) (dd c) (dheap c)" "True \<notin> set (oom (dheap c))" by (auto simp: dinv_def)
  then have q: "qholds L (K \<union> dd_socks c) warning_blks (dd_blks (dd c)) (dd_queue (dd c)) (dheap c)" by (simp add: dd_ok_def)
  note E = qholds_enqueue_None [OF q assms(4)] enqueue_succeeds [OF _ assms(4) i(2)]
  from E q have r: "titems q = titems (dd_queue (dd c)) @ [None]" "True \<notin> set (oom s)" by (auto simp: qholds_def)
  have t: "dd_socks ?c' = dd_socks c" using assms(2) by (simp add: dd_socks_def)
  have ok: "dd_ok L (K \<union> dd_socks c) ((dd c)\<lparr>dd_queue := q\<rparr>) s" using E i(1) by (simp add: dd_ok_def dd_blks_def)
  from assms(1,2) obtain ws where "titems (dd_queue (dd c)) = map Some ws" "received c = processed c @ ws" "proc c"
    by (auto simp: dinv_def)
  with assms(1-3) ok r show ?thesis unfolding dinv_def t by auto
qed

lemma step_destroy_ends:
  assumes "dinv L K c" "dd_stage c = Join_processor" "\<not> proc c" "dd_free (dd c) (dheap c) = Some s"
  shows "dgone L K (c\<lparr>dheap := s, dd_stage := Destroyed\<rparr>)"
proof -
  from assms(1) have i: "dd_ok L (K \<union> dd_socks c) (dd c) (dheap c)" by (simp add: dinv_def)
  have l: "lst c = Ended" "received c = processed c" using assms(1-3) by (auto simp: dinv_def)
  have "dd_socks c = {}" using assms(2) l(1) by (simp add: dd_socks_def)
  with dd_free_spec [OF i] assms(1,3,4) l show ?thesis by (auto simp: dgone_def dinv_def)
qed

definition dall :: "nat set \<Rightarrow> SOCKET set \<Rightarrow> ddsys \<Rightarrow> bool" where
  "dall L K c \<longleftrightarrow> (if dd_stage c = Destroyed then dgone L K c else dinv L K c)"

lemma dstep_dall:
  assumes "dstep f l c c'" "dall L K c"
  shows "dall L K c'"
proof (cases "dd_stage c = Destroyed")
  case True
  with assms(2) have "lst c = Ended" "\<not> proc c" by (auto simp: dall_def dgone_def)
  with assms(1) True show ?thesis by (cases rule: dstep.cases) auto
next
  case False
  with assms(2) have i: "dinv L K c" by (simp add: dall_def)
  show ?thesis using assms(1)
  proof (cases rule: dstep.cases)
    case (accept k cn)
    with step_accept [OF i accept(2,3,4)] False show ?thesis by (simp add: dall_def)
  next
    case accept_fails
    with step_accept_fails [OF i accept_fails(2)] False show ?thesis by (simp add: dall_def)
  next
    case (read_warning k cn w cn' s x s')
    with step_read_warning [OF i read_warning(2-4)] False show ?thesis by (simp add: dall_def)
  next
    case (read_end k cn cn' s)
    with step_read_end [OF i read_end(2,3)] False show ?thesis by (simp add: dall_def)
  next
    case (process w q s x s')
    with step_process [OF i process(2-4)] False show ?thesis by (simp add: dall_def)
  next
    case (processor_ends q s)
    with step_processor_ends [OF i processor_ends(2,3)] False show ?thesis by (simp add: dall_def)
  next
    case (destroy_begins ls)
    with step_destroy_begins [OF i destroy_begins(2,3)] show ?thesis by (simp add: dall_def)
  next
    case (send_null r q s)
    with step_send_null [OF i send_null(2-4)] show ?thesis by (simp add: dall_def)
  next
    case (destroy_ends s)
    with step_destroy_ends [OF i destroy_ends(2-4)] show ?thesis by (simp add: dall_def)
  qed
qed

lemma dreach_dall: "(dstep f l)\<^sup>*\<^sup>* c c' \<Longrightarrow> dall L K c \<Longrightarrow> dall L K c'"
  by (induction rule: rtranclp_induct) (auto dest: dstep_dall)

lemma dd_create_spec:
  assumes "os_ok s" "dd_create True True ls0 str port s = Some (Some x, s')"
  shows "dd_ok (live s) (socks s) x s' \<and> titems (dd_queue x) = [] \<and> warning_count x = 0"
proof -
  from assms(2) obtain b s1 h s2 q where e: "malloc s = (Some b, s1)" "strdup str s1 = (h, s2)"
    "tsqueue_create 0 (Some destroy_warning) s2 = (Some q, s')"
    "x = \<lparr>dd_id = h, dd_port = port, dd_listen_sock = None, dd_queue = q, warning_count = 0, dd_blk = b\<rparr>"
    by (auto simp: dd_create_def split: prod.splits option.splits)
  let ?X = "(case h of None \<Rightarrow> [] | Some h \<Rightarrow> [sblk h]) @ [b]"
  from holds_malloc [OF holds_start [OF assms(1)] e(1)] have h1: "holds (live s) (socks s) [b] s1" .
  have h2: "holds (live s) (socks s) ?X s2"
  proof (cases h)
    case None
    with e(2) strdup_None [of str s1 s2] strdup_ok [of s1 str None s2] h1 show ?thesis by (auto simp: holds_def)
  next
    case (Some k)
    with e(2) holds_strdup [OF h1] show ?thesis by simp
  qed
  then have o: "os_ok s2" "live s2 = live s \<union> set ?X" "socks s2 = socks s" "distinct ?X" "set ?X \<inter> live s = {}" by (auto simp: holds_def)
  from qholds_create [OF o(1) e(3)] have "qholds (live s \<union> set ?X) (socks s) warning_blks [tself q] q s'" unfolding o(2,3) .
  from qholds_claim [OF this o(4,5)] have "qholds (live s) (socks s) warning_blks (tself q # ?X) q s'"
    by (subst qholds_perm [where Y = "?X @ [tself q]"]) auto
  with tsqueue_create_ok [OF o(1) e(3)] show ?thesis by (simp add: dd_ok_def dd_blks_def e(4))
qed

lemma dstart_dall:
  assumes "dd_ok L K x s" "titems (dd_queue x) = []" "warning_count x = 0" "True \<notin> set (oom s)" "ls \<notin> K"
  shows "dall L K (dstart ls x s)"
proof -
  have t: "dd_socks (dstart ls x s) = {ls}" by (simp add: dd_socks_def dstart_def)
  have "socks s = K" using dd_ok_os [OF assms(1)] by simp
  with dd_ok_socks [OF assms(1), of "insert ls K"] have "dd_ok L (K \<union> {ls}) (x\<lparr>dd_listen_sock := Some ls\<rparr>) (s\<lparr>socks := insert ls (socks s)\<rparr>)"
    by (simp add: dd_ok_def dd_blks_def)
  then have "dinv L K (dstart ls x s)" unfolding dinv_def t using assms(2-5) by (simp add: dstart_def)
  then show ?thesis by (simp add: dall_def dstart_def)
qed

text \<open>What is left to do after the NULL item was sent.\<close>

definition dd_work :: "ddsys \<Rightarrow> nat" where
  "dd_work c = (if dd_stage c = Destroyed then 0 else 1 + length (titems (dd_queue (dd c))))"

lemma dd_progress:
  assumes "dinv L K c" "dd_stage c = Join_processor"
  shows "\<exists>c'. dstep f l c c'"
proof -
  from assms(1) have i: "dd_ok L (K \<union> dd_socks c) (dd c) (dheap c)" by (simp add: dinv_def)
  show ?thesis
  proof (cases "proc c")
    case True
    with assms have "titems (dd_queue (dd c)) \<noteq> []" by (auto simp: dinv_def)
    moreover have "tsq_ok (dd_queue (dd c)) (dheap c)" using i by (simp add: dd_ok_def qholds_def)
    ultimately obtain d q s where d: "tsqueue_dequeue (dd_queue (dd c)) (dheap c) = Some (d, q, s)"
      using dequeue_blocks by (cases "tsqueue_dequeue (dd_queue (dd c)) (dheap c)") auto
    show ?thesis
    proof (cases d)
      case None
      with d True dstep.processor_ends show ?thesis by blast
    next
      case (Some w)
      obtain x s' where "dd_process f l w ((dd c)\<lparr>dd_queue := q\<rparr>) s = (x, s')" by force
      with d True Some dstep.process show ?thesis by blast
    qed
  next
    case False
    from dd_free_spec [OF i] False assms(2) dstep.destroy_ends show ?thesis by blast
  qed
qed

lemma dd_work_less:
  assumes "dinv L K c" "dd_stage c = Join_processor" "dstep f l c c'"
  shows "dd_work c' < dd_work c"
proof -
  from assms(1) have i: "dd_ok L (K \<union> dd_socks c) (dd c) (dheap c)" by (simp add: dinv_def)
  have l: "lst c = Ended" using assms(1,2) by (simp add: dinv_def)
  from assms(3) show ?thesis
  proof (cases rule: dstep.cases)
    case (process w q s x s')
    have "dd_queue x = q" using process(4) by (auto simp: dd_process_def split: prod.splits)
    with dd_dequeue_spec [OF i process(3)] process(1) assms(2) show ?thesis by (simp add: dd_work_def)
  next
    case (processor_ends q s)
    with dd_dequeue_spec [OF i processor_ends(3)] assms(2) show ?thesis by (simp add: dd_work_def)
  qed (use l assms(2) in \<open>auto simp: dd_work_def\<close>)
qed

section \<open>What the listener queues\<close>

lemma dd_serve_eq: "dd_serve c x s = serve dd_put c x s"
proof (induction c x s rule: dd_serve.induct)
  case (1 c x s)
  then show ?case
    by (subst dd_serve.simps, subst serve.simps) (auto simp: dd_deserialize_eq split: prod.splits option.splits)
qed

lemma dd_listener_delivers_lemma:
  assumes "dd_ok L K x s" "True \<notin> set (oom s)" "\<forall>k c. Some (k, c) \<in> set as \<longrightarrow> k \<notin> K \<and> carries c (sent c)"
  shows "\<exists>e x' s' vs. dd_listener_fn as x s = Some (e, x', s') \<and> dd_ok L K x' s' \<and>
    somes (titems (dd_queue x')) = somes (titems (dd_queue x)) @ vs \<and>
    map view vs = concat (map (\<lambda>a. map view (sent (snd a))) (somes (takeWhile (\<lambda>a. a \<noteq> None) as))) \<and> (e \<longleftrightarrow> None \<in> set as)"
  using assms
proof (induction as arbitrary: x s)
  case (Cons a as)
  show ?case
  proof (cases a)
    case None
    with Cons.prems show ?thesis by auto
  next
    case (Some p)
    obtain k c where p: "a = Some (k, c)" using Some by (cases p) auto
    with Cons.prems(3) have k: "k \<notin> K" "carries c (sent c)" by auto
    let ?s = "s\<lparr>socks := insert k (socks s)\<rparr>"
    from k(2) obtain rest where c: "conn_ok c" "stream c = concat (map encode (sent c)) @ rest"
      "\<forall>w \<in> set (sent c). sendable w \<and> is_cstr (chars (city w)) \<and> is_cstr (chars (dest_node w))"
      "rest = [] \<or> (\<exists>w z. encode w = rest @ z \<and> z \<noteq> [] \<and> sendable w \<and> is_cstr (chars (city w)) \<and> is_cstr (chars (dest_node w)))"
      unfolding carries_def by blast
    have "True \<notin> set (oom ?s)" using Cons.prems(2) by simp
    from dds.serve_delivers [OF dds.inv_accept [OF Cons.prems(1)] c(1,2) this c(3,4)] obtain x1 c1 s1 vs
      where x1: "serve dd_put c x ?s = Some (x1, c1, s1)" "dd_ok L (insert k K) x1 s1"
        "somes (titems (dd_queue x1)) = somes (titems (dd_queue x)) @ vs" "map view vs = map view (sent c)" "True \<notin> set (oom s1)" by blast
    have "True \<notin> set (oom (closesocket k s1))" using x1(5) by simp
    moreover have "\<forall>k c. Some (k, c) \<in> set as \<longrightarrow> k \<notin> K \<and> carries c (sent c)" using Cons.prems(3) by simp
    ultimately obtain e x' s' us where "dd_listener_fn as x1 (closesocket k s1) = Some (e, x', s')" "dd_ok L K x' s'"
      "somes (titems (dd_queue x')) = somes (titems (dd_queue x1)) @ us"
      "map view us = concat (map (\<lambda>a. map view (sent (snd a))) (somes (takeWhile (\<lambda>a. a \<noteq> None) as)))" "e \<longleftrightarrow> None \<in> set as"
      using Cons.IH [OF dds.inv_close [OF x1(2) k(1)]] by blast
    with x1 p show ?thesis by (simp add: dd_serve_eq)
  qed
qed auto

section \<open>Properties\<close>

text \<open>
  A destination queues what was sent to it: when the clients' connections carry encoded warnings,
  each perhaps followed by one that breaks off, the listener thread of a new destination fills its
  queue with exactly these warnings, in order, closes the clients' sockets, and leaves its loop
  when \<open>accept\<close> fails, as it does once \<open>dd_destroy\<close> has closed the listening socket.
\<close>

theorem dd_listener_delivers:
  assumes "os_ok s" "dd_create True True ls0 str port s = Some (Some x, s1)" "True \<notin> set (oom s1)"
    and "\<forall>k c. Some (k, c) \<in> set as \<longrightarrow> k \<notin> socks s \<and> carries c (sent c)"
  shows "\<exists>e x' s'. dd_listener_fn as x s1 = Some (e, x', s') \<and> os_ok s' \<and> socks s' = socks s \<and> (e \<longleftrightarrow> None \<in> set as) \<and>
    map view (somes (titems (dd_queue x'))) = concat (map (\<lambda>a. map view (sent (snd a))) (somes (takeWhile (\<lambda>a. a \<noteq> None) as)))"
proof -
  from dd_create_spec [OF assms(1,2)] have d: "dd_ok (live s) (socks s) x s1" "titems (dd_queue x) = []" by auto
  from dd_listener_delivers_lemma [OF d(1) assms(3,4)] d(2) dd_ok_os show ?thesis by fastforce
qed


lemma demo_destination: "\<exists>x s1. dd_create True True 0 ''D1'' 5001 fresh_os = Some (Some x, s1) \<and> oom s1 = []"
  by (simp add: dd_create_def tsqueue_create_def queue_create_def strdup_def malloc_def fresh_os_def)

theorem dd_listener_delivers_witness:
  "\<exists>x s1 e x' s'. dd_create True True 0 ''D1'' 5001 fresh_os = Some (Some x, s1) \<and>
     dd_listener_fn [Some (7, \<lparr>chunks = [encode demo_warning, [0, 0]], fin = Failed\<rparr>), None] x s1 = Some (e, x', s') \<and>
     map view (somes (titems (dd_queue x'))) = [view demo_warning] \<and> e"
proof -
  from demo_destination obtain x s1 where d: "dd_create True True 0 ''D1'' 5001 fresh_os = Some (Some x, s1)" "oom s1 = []" by blast
  let ?c = "\<lparr>chunks = [encode demo_warning, [0, 0]], fin = Failed\<rparr>"
  have "True \<notin> set (oom s1)" using d(2) by simp
  moreover have "\<forall>k c. Some (k, c) \<in> set [Some (7, ?c), None] \<longrightarrow> k \<notin> socks fresh_os \<and> carries c [demo_warning]"
    using demo_carries by simp
  ultimately show ?thesis
    using dd_listener_delivers [OF fresh_os_ok(1) d(1), of "[Some (7, ?c), None]" "\<lambda>_. [demo_warning]"] d(1) by fastforce
qed

text \<open>A warning that has been received and not yet processed.\<close>

lemma demo_dd_run:
  "\<exists>x s1 c. dd_create True True 0 ''D1'' 5001 fresh_os = Some (Some x, s1) \<and> oom s1 = [] \<and> (dstep f l)\<^sup>*\<^sup>* (dstart 9 x s1) c \<and>
     dd_stage c = Active \<and> processed c = [] \<and> map view (received c) = [view demo_warning]"
proof -
  from demo_destination obtain x s1 where d: "dd_create True True 0 ''D1'' 5001 fresh_os = Some (Some x, s1)" "oom s1 = []" by blast
  from dd_create_spec [OF fresh_os_ok(1) d(1)] have x: "dd_ok {} {} x s1" "titems (dd_queue x) = []" "warning_count x = 0" by auto
  let ?cn = "\<lparr>chunks = [encode demo_warning], fin = Closed\<rparr>" and ?c0 = "dstart 9 x s1"
  let ?c1 = "?c0\<lparr>lst := Reading 7 ?cn, dheap := (dheap ?c0)\<lparr>socks := insert 7 (socks (dheap ?c0))\<rparr>\<rparr>"
  have "True \<notin> set (oom s1)" using d(2) by simp
  from dstart_dall [OF x this, of 9] have i0: "dall {} {} ?c0" by simp
  have s0: "socks (dheap ?c0) = {9}" using dd_ok_os [OF x(1)] by (simp add: dstart_def)
  have "(7 :: SOCKET) \<noteq> INVALID_SOCKET" by (simp add: INVALID_SOCKET_def)
  then have st1: "dstep f l ?c0 ?c1" using s0 by (intro dstep.accept) (auto simp: dstart_def)
  from dstep_dall [OF st1 i0] have i1: "dinv {} {} ?c1" by (simp add: dall_def dstart_def)
  then have o1: "os_ok (dheap ?c1)" "True \<notin> set (oom (dheap ?c1))" using dd_ok_os by (auto simp: dinv_def)
  have s: "sendable demo_warning" "is_cstr (chars (city demo_warning))" "is_cstr (chars (dest_node demo_warning))"
    using demo_carries by (auto simp: carries_def)
  have "encode demo_warning \<noteq> []" using length_encode(1) [OF s(1)] by auto
  then have c: "conn_ok ?cn" "stream ?cn = encode demo_warning @ []" by (simp_all add: conn_ok_def stream_def)
  from deserialize_encode [OF c o1] s obtain w cn' s2 where w: "deserialize_warning ?cn (dheap ?c1) = (Some w, cn', s2)" "view w = view demo_warning"
    by (auto simp: sendable_def)
  from i1 have "tcapacity (dd_queue (dd ?c1)) = 0" by (simp add: dinv_def dd_ok_def)
  from enqueue_unbounded [OF this, of "Some w" s2] obtain r q s3 where "tsqueue_enqueue (dd_queue (dd ?c1)) (Some w) s2 = Some (r, q, s3)" by blast
  then have p: "dd_put w (dd ?c1) s2 = Some ((dd ?c1)\<lparr>dd_queue := q\<rparr>, s3)" by (simp add: dd_put_def)
  let ?c2 = "?c1\<lparr>lst := Reading 7 cn', dd := (dd ?c1)\<lparr>dd_queue := q\<rparr>, dheap := s3, received := received ?c1 @ [w]\<rparr>"
  have "dstep f l ?c1 ?c2" using w(1) p by (intro dstep.read_warning) (simp_all add: dd_deserialize_eq)
  with st1 have "(dstep f l)\<^sup>*\<^sup>* ?c0 ?c2" by (meson r_into_rtranclp rtranclp_trans)
  moreover have "dd_stage ?c2 = Active" "processed ?c2 = []" "map view (received ?c2) = [view demo_warning]" using w(2) by (simp_all add: dstart_def)
  ultimately show ?thesis using d by (intro exI [of _ x] exI [of _ s1] exI [of _ ?c2] conjI)
qed


text \<open>
  The number that \<open>main\<close> prints and writes to its file can be too small: it is read when the exit
  event arrives, before \<open>dd_destroy\<close> lets the processor finish, and there is an execution in which
  a warning has been received and queued at that time, and the counter is still 0.
\<close>

theorem dd_count_read_early:
  "\<exists>x s1 c. dd_create True True 0 ''D1'' 5001 fresh_os = Some (Some x, s1) \<and> (dstep f l)\<^sup>*\<^sup>* (dstart 9 x s1) c \<and>
     dd_stage c = Active \<and> received c \<noteq> [] \<and> warning_count (dd c) = 0"
proof -
  from demo_dd_run [of f l] obtain x s1 c
    where c: "dd_create True True 0 ''D1'' 5001 fresh_os = Some (Some x, s1)" "oom s1 = []" "(dstep f l)\<^sup>*\<^sup>* (dstart 9 x s1) c"
      "dd_stage c = Active" "processed c = []" "map view (received c) = [view demo_warning]" by (elim exE conjE)
  from dd_create_spec [OF fresh_os_ok(1) c(1)] have d: "dd_ok {} {} x s1" "titems (dd_queue x) = []" "warning_count x = 0" by auto
  have "True \<notin> set (oom s1)" using c(2) by simp
  from dreach_dall [OF c(3) dstart_dall [OF d this, of 9]] c(4,5) have "warning_count (dd c) = 0" by (simp add: dall_def dinv_def)
  with c show ?thesis by fastforce
qed

end
