(* ===== verification/DebugLog.thy ===== *)
theory DebugLog
  imports Prelude
begin

text \<open>
  The memory log of a debug build (\<open>Common/utils.c\<close>): \<open>setup_debug_memory_log\<close> opens a file for the
  program, \<open>print_stats_to_file\<close> writes the statistics of the C run-time library into it.  The
  snapshots of that library, and whether two of them differ, are parameters.
\<close>

section \<open>Operations\<close>

text \<open>\<open>misused\<close> records that a stream was used after it was closed.\<close>

record FILE =
  fpath :: string
  ftext :: string
  is_open :: bool
  misused :: bool

definition fprintf :: "string \<Rightarrow> FILE \<Rightarrow> FILE" where
  "fprintf str f = (if is_open f then f\<lparr>ftext := ftext f @ str\<rparr> else f\<lparr>misused := True\<rparr>)"

definition fclose :: "FILE \<Rightarrow> FILE" where
  "fclose f = (if is_open f then f\<lparr>is_open := False\<rparr> else f\<lparr>misused := True\<rparr>)"

abbreviation newline :: string where
  "newline \<equiv> [CHR 0x0A]"

text \<open>
  \<open>_CrtMemState\<close>, with the three kinds of blocks that are written.  The formats \<open>%u\<close> and \<open>%lu\<close> print
  the low 32 bits of a \<open>size_t\<close>.
\<close>

datatype block_kind = NORMAL_BLOCK | CRT_BLOCK | FREE_BLOCK

record CrtMemState =
  lCounts :: "block_kind \<Rightarrow> u64"
  lSizes :: "block_kind \<Rightarrow> u64"

definition size_text :: "u64 \<Rightarrow> string" where
  "size_text x = string_of_nat (unat (ucast x :: u32))"

definition dump_text :: "string \<Rightarrow> CrtMemState \<Rightarrow> string" where
  "dump_text header st =
     newline @ header @ newline @
     ''Total blocks: '' @ size_text (lCounts st NORMAL_BLOCK) @ newline @
     ''Total bytes: '' @ size_text (lSizes st NORMAL_BLOCK) @ newline @
     ''CRT blocks: '' @ size_text (lCounts st CRT_BLOCK) @ newline @
     ''CRT bytes: '' @ size_text (lSizes st CRT_BLOCK) @ newline @
     ''Free blocks: '' @ size_text (lCounts st FREE_BLOCK) @ newline @
     ''Free bytes: '' @ size_text (lSizes st FREE_BLOCK) @ newline"

definition dump_to_file :: "FILE option \<Rightarrow> string \<Rightarrow> CrtMemState option \<Rightarrow> FILE option" where
  "dump_to_file file header state =
     (case (file, state) of (Some f, Some st) \<Rightarrow> Some (fprintf (dump_text header st) f) | _ \<Rightarrow> file)"

text \<open>
  The folder is made if it is not there; where it cannot be made the current directory is used.
  \<open>opens\<close> says which files can be opened for writing.
\<close>

definition log_folder :: "bool \<Rightarrow> bool \<Rightarrow> bool \<Rightarrow> string" where
  "log_folder there mkdir_ok create_ok = (if \<not> there \<and> \<not> mkdir_ok \<and> \<not> create_ok then ''.'' else ''MemoryLeakReports'')"

definition log_path :: "string \<Rightarrow> string \<Rightarrow> string" where
  "log_path folder node_id =
     snprintf 256 (if folder = ''.'' then ''memory_leaks_'' @ node_id @ ''.txt''
                   else folder @ ''/memory_leaks_'' @ node_id @ ''.txt'')"

definition setup_debug_memory_log :: "bool \<Rightarrow> bool \<Rightarrow> bool \<Rightarrow> (string \<Rightarrow> bool) \<Rightarrow> string \<Rightarrow> FILE option" where
  "setup_debug_memory_log there mkdir_ok create_ok opens node_id =
     (let filename = log_path (log_folder there mkdir_ok create_ok) node_id
      in if \<not> opens filename then None
         else
           (let file = \<lparr>fpath = filename, ftext = [], is_open = True, misused = False\<rparr>
            in Some (fprintf (''Log initialized at program start'' @ newline @ newline)
                      (fprintf (''=== MEMORY DEBUG REPORT FOR '' @ node_id @ '' ==='' @ newline) file))))"

text \<open>
  \<open>different\<close> is what \<open>_CrtMemDifference\<close> returns, \<open>objects\<close> what \<open>_CrtMemDumpAllObjectsSince\<close> adds to the
  stream (nothing, where the report handle is not the stream's), \<open>working_set\<close> the field
  \<open>WorkingSetSize\<close>.  The stream is closed at the end.
\<close>

definition print_stats_to_file ::
  "FILE option \<Rightarrow> CrtMemState \<Rightarrow> CrtMemState \<Rightarrow> CrtMemState \<Rightarrow> bool \<Rightarrow> string \<Rightarrow> u64 \<Rightarrow> FILE option" where
  "print_stats_to_file file s1 s2 sDiff different objects working_set =
     (case file of
        None \<Rightarrow> None
      | Some f \<Rightarrow>
          (let f = fprintf (newline @ ''=== FINAL MEMORY ANALYSIS ==='' @ newline) f;
               f = fprintf ((if different then ''[INFO] Memory leaks detected.'' else ''[INFO] No memory leaks detected.'') @ newline) f;
               file = dump_to_file (Some f) ''[STATISTICS] Initial memory state'' (Some s1);
               file = dump_to_file file ''[STATISTICS] Final memory state'' (Some s2);
               file = dump_to_file file ''[STATISTICS] Memory allocation difference'' (Some sDiff);
               file = (if different
                       then map_option (\<lambda>f. fprintf objects (fprintf (newline @ ''[LEAK REPORT] Detailed leak information:'' @ newline) f)) file
                       else file);
               file = map_option (fprintf (newline @ ''[SYSTEM] Process memory usage: '' @ size_text (working_set div 1024) @ '' KB'' @ newline)) file
           in map_option fclose file))"

text \<open>How the three main programs end: the statistics, then \<open>fclose\<close>.\<close>

definition end_log :: "FILE option \<Rightarrow> CrtMemState \<Rightarrow> CrtMemState \<Rightarrow> CrtMemState \<Rightarrow> bool \<Rightarrow> string \<Rightarrow> u64 \<Rightarrow> FILE option" where
  "end_log file s1 s2 sDiff different objects working_set =
     (case print_stats_to_file file s1 s2 sDiff different objects working_set of
        None \<Rightarrow> None
      | Some f \<Rightarrow> Some (fclose f))"

section \<open>Lemmas\<close>

lemma fprintf_simps [simp]:
  "is_open (fprintf str f) = is_open f" "fpath (fprintf str f) = fpath f"
  "is_open f \<Longrightarrow> misused (fprintf str f) = misused f" "is_open f \<Longrightarrow> ftext (fprintf str f) = ftext f @ str"
  by (simp_all add: fprintf_def)

lemma fclose_simps [simp]:
  "is_open (fclose f) = False" "fpath (fclose f) = fpath f" "ftext (fclose f) = ftext f"
  "misused (fclose f) = (misused f \<or> \<not> is_open f)"
  by (simp_all add: fclose_def)

lemma setup_log_open:
  assumes "setup_debug_memory_log there m k opens str = Some f"
  shows "is_open f \<and> \<not> misused f \<and> opens (fpath f) \<and> fpath f = log_path (log_folder there m k) str"
  using assms by (auto simp: setup_debug_memory_log_def fprintf_def Let_def split: if_splits)

lemma print_stats_spec:
  assumes "is_open f" "print_stats_to_file (Some f) s1 s2 d different objects ws = r"
  shows "\<exists>g rest. r = Some g \<and> fpath g = fpath f \<and> \<not> is_open g \<and> misused g = misused f \<and>
    ftext g = ftext f @ newline @ ''=== FINAL MEMORY ANALYSIS ==='' @ newline @
      (if different then ''[INFO] Memory leaks detected.'' else ''[INFO] No memory leaks detected.'') @ newline @ rest"
  using assms by (auto simp: print_stats_to_file_def dump_to_file_def Let_def)

text \<open>Programs with different short ids have different logs.\<close>

lemma log_path_inj:
  assumes "length str < 220" "length str' < 220" "log_path (log_folder there m k) str = log_path (log_folder there m k) str'"
  shows "str = str'"
  using assms by (auto simp: log_path_def log_folder_def snprintf_def split: if_splits)

section \<open>Property\<close>


definition demo_snapshot :: CrtMemState where
  "demo_snapshot = \<lparr>lCounts = \<lambda>_. 0, lSizes = \<lambda>_. 0\<rparr>"


end
