(* ===== verification/DestinationMain.thy ===== *)
theory DestinationMain
  imports Destination Shutdown DebugLog
begin

text \<open>
  \<open>DataDestination/main.c\<close>: the context is created, the program waits for its exit event, writes the
  number of processed warnings into a file and destroys the context.  \<open>Destination\<close> says what its
  threads do meanwhile.
\<close>

section \<open>Operations\<close>

record ddmain =
  dm_dd :: DDContext
  dm_event :: HANDLE
  dm_listener :: HANDLE
  dm_processor :: HANDLE

text \<open>
  The program ends at once, or destroys the context that it has just created because the exit
  event cannot be created, or runs.  The two threads are created in \<open>dd_create\<close>; \<open>ls\<close> is what
  \<open>listen_sock\<close> holds when the second one cannot be.
\<close>

datatype dd_outcome = Ends | Gives_up DDContext HANDLE HANDLE | Runs ddmain

definition dd_setup :: "SOCKET \<Rightarrow> string list \<Rightarrow> win \<Rightarrow> os \<Rightarrow> (dd_outcome \<times> win \<times> os) option" where
  "dd_setup ls args w s =
     (case args of
        [prog, str, port] \<Rightarrow>
          (case call_fails w of
             (failed1, w) \<Rightarrow>
               (case call_fails w of
                  (failed2, w) \<Rightarrow>
                    (case dd_create (\<not> failed1) (\<not> failed2) ls str (word_of_int (atoi port)) s of
                       None \<Rightarrow> None
                     | Some (None, s) \<Rightarrow> Some (Ends, w, s)
                     | Some (Some x, s) \<Rightarrow>
                         (case new_handle (Thread 0) w of
                            (hl, w) \<Rightarrow>
                              (case new_handle (Thread 0) w of
                                 (hp, w) \<Rightarrow>
                                   (case CreateEventA (event_name ''DD_Exit_'' str) w of
                                      (None, w) \<Rightarrow> Some (Gives_up x hl hp, w, s)
                                    | (Some ev, w) \<Rightarrow>
                                        Some (Runs \<lparr>dm_dd = x, dm_event = ev, dm_listener = hl, dm_processor = hp\<rparr>, w, s)))))))
      | _ \<Rightarrow> Some (Ends, w, s))"

definition dd_await :: "ddmain \<Rightarrow> win \<Rightarrow> win option" where
  "dd_await x w = WaitForSingleObject (dm_event x) w"

text \<open>\<open>%ld\<close> of a \<open>LONG\<close>.\<close>

definition long_text :: "u32 \<Rightarrow> string" where
  "long_text c = (if sint c < 0 then ''-'' @ string_of_nat (nat (- sint c)) else string_of_nat (nat (sint c)))"

definition count_file :: "string \<Rightarrow> string" where
  "count_file str = snprintf 256 (''WarningCounter/DataDestination_'' @ str @ ''_warnings.txt'')"

text \<open>The file that is written, with its contents; \<open>opens\<close> says which files can be opened.\<close>

definition dd_report :: "(string \<Rightarrow> bool) \<Rightarrow> string \<Rightarrow> DDContext \<Rightarrow> (string \<times> string) option" where
  "dd_report opens str x =
     (let filename = count_file str
      in if opens filename then Some (filename, long_text (warning_count x) @ newline) else None)"

text \<open>The handles that \<open>dd_destroy\<close> and the end of \<open>main\<close> close.\<close>

definition dd_close :: "ddmain \<Rightarrow> win \<Rightarrow> win" where
  "dd_close x w = CloseHandle (dm_event x) (CloseHandle (dm_processor x) (CloseHandle (dm_listener x) w))"

section \<open>Lemmas\<close>

lemma long_text_nat:
  assumes "n < 2 ^ 31"
  shows "long_text (of_nat n) = string_of_nat n"
proof -
  have "sint (of_nat n :: u32) = int n" using assms by (simp add: signed_of_nat signed_take_bit_int_eq_self)
  then show ?thesis by (simp add: long_text_def)
qed

lemma dd_setup_runs:
  assumes "wholds H [] w" "dd_setup ls [prog, str, port] w s = Some (Runs x, w1, s1)"
  shows "dd_create True True ls str (word_of_int (atoi port)) s = Some (Some (dm_dd x), s1) \<and>
    wholds H [(dm_event x, Event (event_name ''DD_Exit_'' str)), (dm_processor x, Thread 0), (dm_listener x, Thread 0)] w1 \<and>
    set (fails w1) \<subseteq> set (fails w)"
proof -
  obtain f1 wa where a: "call_fails w = (f1, wa)" by force
  obtain f2 wb where b: "call_fails wa = (f2, wb)" by force
  from assms(2) a b obtain y s' where y: "dd_create (\<not> f1) (\<not> f2) ls str (word_of_int (atoi port)) s = Some (Some y, s')"
    by (auto simp: dd_setup_def split: option.splits prod.splits)
  then have nf: "\<not> f1" "\<not> f2" by (auto simp: dd_create_def split: prod.splits option.splits if_splits)
  obtain hl wc where c: "new_handle (Thread 0) wb = (hl, wc)" by force
  obtain hp wd where d: "new_handle (Thread 0) wc = (hp, wd)" by force
  from assms(2) a b y c d obtain ev where e: "CreateEventA (event_name ''DD_Exit_'' str) wd = (Some ev, w1)"
    "x = \<lparr>dm_dd = y, dm_event = ev, dm_listener = hl, dm_processor = hp\<rparr>" "s' = s1"
    by (auto simp: dd_setup_def split: option.splits prod.splits)
  note A = call_fails_frame [OF a] and B = call_fails_frame [OF b]
  note C = wholds_new [OF B(1) [OF A(1) [OF assms(1)]] c]
  note D = wholds_new [OF conjunct1 [OF C] d]
  note E = CreateEventA_spec [OF conjunct1 [OF D] e(1)]
  from A(2) B(2) C D E have "set (fails w1) \<subseteq> set (fails w)" by auto
  with E y nf e(2,3) show ?thesis by simp
qed

lemma dd_await_returns:
  assumes "wholds H X w" "(dm_event x, Event name) \<in> set X"
  shows "dd_await x w = (if name \<in> signalled w then Some w else None)"
  using wholds_mem [OF assms] by (simp add: dd_await_def WaitForSingleObject_def)

lemma dd_close_spec:
  assumes "wholds H [(dm_event x, ob), (dm_processor x, Thread i), (dm_listener x, Thread j)] w"
  shows "wholds H [] (dd_close x w)"
proof -
  have "wholds H [(dm_listener x, Thread j), (dm_processor x, Thread i), (dm_event x, ob)] w" by (rule wholds_perm [OF assms]) simp
  note wholds_close(1) [OF wholds_close(1) [OF wholds_close(1) [OF this]]]
  then show ?thesis by (simp add: dd_close_def)
qed

text \<open>What holds in every state of the threads.\<close>

lemma dd_run:
  assumes "os_ok s" "dd_create True True ls0 str port s = Some (Some x, s1)" "True \<notin> set (oom s1)" "ls \<notin> socks s"
    and "(dstep f l)\<^sup>*\<^sup>* (dstart ls x s1) c"
  shows "os_ok (dheap c) \<and> warning_count (dd c) = of_nat (length (processed c)) \<and> length (processed c) \<le> length (received c) \<and>
    (dd_stage c = Destroyed \<longrightarrow> processed c = received c \<and> live (dheap c) = live s \<and> socks (dheap c) = socks s)"
proof -
  from dd_create_spec [OF assms(1,2)] have d: "dd_ok (live s) (socks s) x s1" "titems (dd_queue x) = []" "warning_count x = 0" by auto
  from dreach_dall [OF assms(5) dstart_dall [OF d assms(3,4)]] have i: "dall (live s) (socks s) c" .
  show ?thesis
  proof (cases "dd_stage c = Destroyed")
    case True
    with i show ?thesis by (auto simp: dall_def dgone_def)
  next
    case False
    with i have j: "dinv (live s) (socks s) c" by (simp add: dall_def)
    then have "os_ok (dheap c)" "warning_count (dd c) = of_nat (length (processed c))" using dd_ok_os by (auto simp: dinv_def)
    moreover have "\<exists>ws. received c = processed c @ ws" using j by (auto simp: dinv_def split: dd_stage.splits if_splits)
    ultimately show ?thesis using False by auto
  qed
qed

text \<open>Different ids give different files.\<close>

lemma count_file_inj:
  assumes "length str < 200" "length str' < 200" "count_file str = count_file str'"
  shows "str = str'"
  using assms by (simp add: count_file_def snprintf_def)

section \<open>Property\<close>

text \<open>
  C11. A destination from its start to its end: the wait of \<open>main\<close> ends exactly when the exit event with
  the name of its id is signalled; whenever that is, the file it writes holds the decimal number of
  the warnings that its processor has finished, which is at most the number received; and when
  \<open>dd_destroy\<close> is done, under every interleaving with the listener and the processor, everything
  received has been processed, and the heap, the sockets and the handles are as before the start.
\<close>

theorem destination_program:
  assumes "os_ok s" "wholds H [] w" "dd_setup ls0 [prog, str, port] w s = Some (Runs x, w1, s1)" "True \<notin> set (oom s1)" "ls \<notin> socks s"
    and "(dstep f l)\<^sup>*\<^sup>* (dstart ls (dm_dd x) s1) c" "(dstep f l)\<^sup>*\<^sup>* c c'" "w2 = w1\<lparr>signalled := E\<rparr>"
  shows "(dd_await x w2 \<noteq> None \<longleftrightarrow> event_name ''DD_Exit_'' str \<in> E) \<and>
    (opens (count_file str) \<and> length (processed c) < 2 ^ 31 \<longrightarrow>
       dd_report opens str (dd c) = Some (count_file str, string_of_nat (length (processed c)) @ newline)) \<and>
    length (processed c) \<le> length (received c) \<and>
    (dd_stage c' = Destroyed \<longrightarrow> processed c' = received c' \<and> live (dheap c') = live s \<and> socks (dheap c') = socks s) \<and>
    os_ok (dheap c') \<and> wholds H [] (dd_close x w2)"
proof -
  note S = dd_setup_runs [OF assms(2,3)]
  have W: "wholds H [(dm_event x, Event (event_name ''DD_Exit_'' str)), (dm_processor x, Thread 0), (dm_listener x, Thread 0)] w2"
    by (rule wholds_frame [OF S [THEN conjunct2, THEN conjunct1]]) (simp_all add: assms(8))
  have aw: "dd_await x w2 \<noteq> None \<longleftrightarrow> event_name ''DD_Exit_'' str \<in> E" using dd_await_returns [OF W, of x] by (simp add: assms(8))
  have c': "(dstep f l)\<^sup>*\<^sup>* (dstart ls (dm_dd x) s1) c'" using assms(6,7) by (rule rtranclp_trans)
  note R = dd_run [OF assms(1) S [THEN conjunct1] assms(4,5)]
  from R [OF assms(6)] have r: "warning_count (dd c) = of_nat (length (processed c))" "length (processed c) \<le> length (received c)" by auto
  have "dd_report opens str (dd c) = Some (count_file str, string_of_nat (length (processed c)) @ newline)"
    if "opens (count_file str)" "length (processed c) < 2 ^ 31"
    using that by (simp add: dd_report_def r(1) long_text_nat)
  with aw r(2) R [OF c'] dd_close_spec [OF W] show ?thesis by blast
qed

theorem destination_program_witness:
  "\<exists>x w1 s1 c. dd_setup 0 [''DataDestination.exe'', ''D1'', ''5001''] fresh_win fresh_os = Some (Runs x, w1, s1) \<and>
     (dstep (\<lambda>_. []) (\<lambda>_. \<lparr>tm_mday = 1, tm_mon = 0, tm_year = 0, tm_hour = 0, tm_min = 0, tm_sec = 0\<rparr>))\<^sup>*\<^sup>* (dstart 9 (dm_dd x) s1) c \<and>
     dd_await x (w1\<lparr>signalled := {event_name ''DD_Exit_'' ''D1''}\<rparr>) \<noteq> None \<and>
     dd_report (\<lambda>_. True) ''D1'' (dd c) = Some (count_file ''D1'', ''0'' @ newline) \<and>
     wholds (handles fresh_win) [] (dd_close x (w1\<lparr>signalled := {event_name ''DD_Exit_'' ''D1''}\<rparr>))"
proof -
  have "\<exists>x w1 s1. dd_setup 0 [''DataDestination.exe'', ''D1'', ''5001''] fresh_win fresh_os = Some (Runs x, w1, s1) \<and> oom s1 = []"
    by (simp add: dd_setup_def dd_create_def tsqueue_create_def queue_create_def strdup_def malloc_def fresh_os_def fresh_win_def
        call_fails_def new_handle_def CreateEventA_def)
  then obtain x w1 s1 where d: "dd_setup 0 [''DataDestination.exe'', ''D1'', ''5001''] fresh_win fresh_os = Some (Runs x, w1, s1)" "oom s1 = []"
    by blast
  let ?f = "\<lambda>_. []" and ?l = "\<lambda>_. \<lparr>tm_mday = 1, tm_mon = 0, tm_year = 0, tm_hour = 0, tm_min = 0, tm_sec = 0\<rparr>"
  let ?c = "dstart 9 (dm_dd x) s1"
  have o: "True \<notin> set (oom s1)" "9 \<notin> socks fresh_os" using d(2) by simp_all
  have p: "processed ?c = []" by (simp add: dstart_def)
  have z: "string_of_nat 0 = ''0''" by code_simp
  note P = destination_program [OF fresh_os_ok(1) fresh_win_ok(1) d(1) o, of ?f ?l ?c ?c "w1\<lparr>signalled := {event_name ''DD_Exit_'' ''D1''}\<rparr>"
      "{event_name ''DD_Exit_'' ''D1''}" "\<lambda>_. True"]
  from P p z d(1) show ?thesis by (intro exI [of _ x] exI [of _ w1] exI [of _ s1] exI [of _ ?c]) simp
qed

end
