(* ===== verification/ExitSignal.thy ===== *)
theory ExitSignal
  imports Delivery DestinationMain
begin

text \<open>
  How the programs stop together: the data source starts every program with the id of its row,
  the program creates an exit event with that id in its name, and the source signals it.
\<close>

section \<open>The events that the source signals\<close>

lemma ds_enter_signals:
  assumes "wholds H (ds_handles x @ X) w" "\<forall>n \<in> set (arr (ds_nodes x)). nid n \<noteq> None" "n \<in> set (arr (ds_nodes x))"
    and "kind = (if propagator n then ''CP_Exit_'' else ''DD_Exit_'')" "existing (exit_name kind n)"
  shows "exit_name kind n \<in> signalled (ds_enter existing x w)"
proof -
  have "handles w (ds_stop x) = Some (Event [])" by (rule wholds_mem [OF assms(1)]) (simp add: ds_handles_def)
  then have "SetEvent (ds_stop x) w = w\<lparr>signalled := insert [] (signalled w)\<rparr>" by (rule SetEvent_event)
  then have "wholds H (ds_handles x @ X) (SetEvent (ds_stop x) w)" by (intro wholds_frame [OF assms(1)]) simp_all
  note a = signal_exit_spec [OF this assms(2), of existing "''DD_Exit_''" destination]
  note b = signal_exit_spec [OF a [THEN conjunct1] assms(2), of existing "''CP_Exit_''" propagator]
  show ?thesis
  proof (cases "propagator n")
    case True
    with b assms(3-5) show ?thesis unfolding ds_enter_def by auto
  next
    case False
    with a b assms(3-5) show ?thesis unfolding ds_enter_def by auto
  qed
qed

lemma cp_setup_port:
  assumes "cp_setup True [prog, str, port] csv t w s = Some (Some x, t1, w1, s1)"
  shows "la_port (cm_args x) = word_of_int (atoi port)"
  using assms by (auto simp: cp_setup_def cp_start_listener_def cp_start_listener_thread_def split: prod.splits option.splits if_splits)

lemma dd_create_port: "dd_create True True ls str port s = Some (Some x, s1) \<Longrightarrow> dd_port x = port"
  by (auto simp: dd_create_def split: prod.splits option.splits)

text \<open>What the started program makes of its command line.\<close>

lemma propagator_started:
  assumes "wholds H [] w" "True \<notin> set (fails w)"
    and "quote \<notin> set exe" "quote \<notin> set str" "backslash \<notin> set str" "length exe + length str < 1000"
    and "cp_setup True (argv (command exe str port)) csv t w s = Some (Some x, t1, w1, s1)"
  shows "la_port (cm_args x) = port \<and> (cp_await x (w1\<lparr>signalled := E\<rparr>) \<noteq> None \<longleftrightarrow> event_name ''CP_Exit_'' str \<in> E)"
proof -
  note C = command_roundtrip [OF assms(3-6), of port]
  from assms(7) C have e: "cp_setup True [exe, str, string_of_nat (unat port)] csv t w s = Some (Some x, t1, w1, s1)" by simp
  note V = cp_setup_event [OF assms(1,2) e]
  then have "wholds H [(cm_listener x, Thread 0), (cm_event x, Event (event_name ''CP_Exit_'' str))] (w1\<lparr>signalled := E\<rparr>)"
    by (intro wholds_frame [OF conjunct1 [OF V]]) simp_all
  from cp_await_returns [OF this] V cp_setup_port [OF e] C show ?thesis by simp
qed

lemma destination_started:
  assumes "wholds H [] w"
    and "quote \<notin> set exe" "quote \<notin> set str" "backslash \<notin> set str" "length exe + length str < 1000"
    and "dd_setup ls (argv (command exe str port)) w s = Some (Runs x, w1, s1)"
  shows "dd_port (dm_dd x) = port \<and> (dd_await x (w1\<lparr>signalled := E\<rparr>) \<noteq> None \<longleftrightarrow> event_name ''DD_Exit_'' str \<in> E)"
proof -
  note C = command_roundtrip [OF assms(2-5), of port]
  from assms(6) C have e: "dd_setup ls [exe, str, string_of_nat (unat port)] w s = Some (Runs x, w1, s1)" by simp
  note R = dd_setup_runs [OF assms(1) e]
  have "wholds H [(dm_event x, Event (event_name ''DD_Exit_'' str)), (dm_processor x, Thread 0), (dm_listener x, Thread 0)] (w1\<lparr>signalled := E\<rparr>)"
    by (rule wholds_frame [OF R [THEN conjunct2, THEN conjunct1]]) simp_all
  from dd_await_returns [OF this, of x] dd_create_port [OF R [THEN conjunct1]] C show ?thesis by simp
qed

section \<open>Property\<close>

text \<open>
  C12. Enter in the data source stops every program it has started: the program of a row, started with
  the command line the launcher builds, listens on the row's port and waits for an event whose
  name has the row's id; its wait ends exactly when that event is signalled, and the data source
  signals the event of every row whose program has created it, of the right kind for a propagator
  and for a destination.
\<close>

theorem programs_stop_at_exit_signal:
  assumes "wholds H (ds_handles x @ X) w" "describes (file_rows cs) (arr (ds_nodes x))" "acyclic_rows (file_rows cs)"
    and "i < length (file_rows cs)" "n = arr (ds_nodes x) ! i" "str = row_id (file_rows cs ! i)"
    and "quote \<notin> set exe" "quote \<notin> set str" "backslash \<notin> set str" "length exe + length str < 1000"
    and "wholds Hp [] wp" "True \<notin> set (fails wp)"
    and "existing (event_name (if propagator n then ''CP_Exit_'' else ''DD_Exit_'') str)"
  shows "(propagator n \<longrightarrow> event_name ''CP_Exit_'' str \<in> signalled (ds_enter existing x w)) \<and>
    (destination n \<longrightarrow> event_name ''DD_Exit_'' str \<in> signalled (ds_enter existing x w)) \<and>
    (\<forall>csv t s y t1 w1 s1 E. cp_setup True (argv (command exe str (nport n))) csv t wp s = Some (Some y, t1, w1, s1) \<longrightarrow>
       la_port (cm_args y) = nport n \<and> (cp_await y (w1\<lparr>signalled := E\<rparr>) \<noteq> None \<longleftrightarrow> event_name ''CP_Exit_'' str \<in> E)) \<and>
    (\<forall>ls s y w1 s1 E. dd_setup ls (argv (command exe str (nport n))) wp s = Some (Runs y, w1, s1) \<longrightarrow>
       dd_port (dm_dd y) = nport n \<and> (dd_await y (w1\<lparr>signalled := E\<rparr>) \<noteq> None \<longleftrightarrow> event_name ''DD_Exit_'' str \<in> E))"
proof -
  from describes_row(1,5) [OF assms(2,4)] assms(5,6) have n: "n \<in> set (arr (ds_nodes x))" "chars (the (nid n)) = str" by auto
  note S = ds_enter_signals [OF assms(1) described_table(2) [OF assms(2,3)] n(1) refl, of existing]
  from this n(2) assms(13) have "propagator n \<longrightarrow> event_name ''CP_Exit_'' str \<in> signalled (ds_enter existing x w)"
    "destination n \<longrightarrow> event_name ''DD_Exit_'' str \<in> signalled (ds_enter existing x w)" by (auto split: if_splits)
  note signals = this
  show ?thesis
  proof (intro conjI allI impI, goal_cases)
    case (3 csv t s y t1 w1 s1 E)
    show ?case by (rule propagator_started [OF assms(11,12,7-10) 3, THEN conjunct1])
  next
    case (4 csv t s y t1 w1 s1 E)
    show ?case by (rule propagator_started [OF assms(11,12,7-10) 4, THEN conjunct2])
  next
    case (5 ls s y w1 s1 E)
    show ?case by (rule destination_started [OF assms(11,7-10) 5, THEN conjunct1])
  next
    case (6 ls s y w1 s1 E)
    show ?case by (rule destination_started [OF assms(11,7-10) 6, THEN conjunct2])
  qed (use signals in simp_all)
qed

theorem programs_stop_at_exit_signal_witness:
  "\<exists>x w y t1 w1 s1. describes (file_rows demo_csv) (arr (ds_nodes x)) \<and>
     cp_setup True (argv (command ''C:CentralPropagator.exe'' ''CP1'' 5000)) (Some demo_csv) demo_reuse fresh_win fresh_os = Some (Some y, t1, w1, s1) \<and>
     cp_await y (w1\<lparr>signalled := {}\<rparr>) = None \<and> cp_await y (w1\<lparr>signalled := signalled (ds_enter (\<lambda>_. True) x w)\<rparr>) \<noteq> None"
proof -
  from demo_source obtain x w s where x: "describes (file_rows demo_csv) (arr (ds_nodes x))" "ds_ready fresh_win fresh_os x w s" by blast
  then have h: "wholds (handles fresh_win) (ds_handles x @ launch_handles (ds_launch x)) w" by (simp add: ds_ready_def)
  note D = demo_context
  have id: "''CP1'' = row_id (file_rows demo_csv ! 0)" by (simp add: D(6))
  have a: "row_addr demo_csv 0 = (''127.0.0.1'', 5000)" and r: "row_parent (file_rows demo_csv) 0 = None"
    unfolding row_addr_def demo_rows by code_simp+
  have port: "nport (arr (ds_nodes x) ! 0) = 5000" using describes_row(4) [OF x(1) D(4)] a by (simp add: row_addr_def)
  have ty: "propagator (arr (ds_nodes x) ! 0)" using x(1) D(4) r by (simp add: describes_def)
  have q: "quote \<notin> set ''C:CentralPropagator.exe''" "quote \<notin> set ''CP1''" "backslash \<notin> set ''CP1''"
    "length ''C:CentralPropagator.exe'' + length ''CP1'' < 1000" by simp_all
  have "True \<notin> set (fails fresh_win)" using fresh_win_ok(3) by simp
  note P = programs_stop_at_exit_signal [OF h x(1) D(3,4) refl id q fresh_win_ok(1) this, of "\<lambda>_. True", OF TrueI, unfolded port]
  have "string_of_nat (unat (5000 :: u16)) = ''5000''"
    by (simp add: string_of_nat.simps digit_char_def) code_simp
  with command_roundtrip [OF q, of 5000] have "argv (command ''C:CentralPropagator.exe'' ''CP1'' 5000) = [''C:CentralPropagator.exe'', ''CP1'', ''5000'']" by simp
  with demo_setup [of "''C:CentralPropagator.exe''"] D(6) obtain y t1 w1 s1 where
    y: "cp_setup True (argv (command ''C:CentralPropagator.exe'' ''CP1'' 5000)) (Some demo_csv) demo_reuse fresh_win fresh_os = Some (Some y, t1, w1, s1)"
    by auto
  note A = P [THEN conjunct2, THEN conjunct2, THEN conjunct1, rule_format, OF y, THEN conjunct2]
  have "event_name ''CP_Exit_'' ''CP1'' \<in> signalled (ds_enter (\<lambda>_. True) x w)" using P ty by blast
  with A have "cp_await y (w1\<lparr>signalled := signalled (ds_enter (\<lambda>_. True) x w)\<rparr>) \<noteq> None" by blast
  moreover have "cp_await y (w1\<lparr>signalled := {}\<rparr>) = None" using A [of "{}"] by simp
  ultimately show ?thesis using x(1) y
    by (intro exI [of _ x] exI [of _ w] exI [of _ y] exI [of _ t1] exI [of _ w1] exI [of _ s1] conjI)
qed

end
