(* ===== verification/HopTransfer.thy ===== *)
theory HopTransfer
  imports Delivery Destination
begin

text \<open>
  Two programs and a connection between them: what a central propagator has written to a socket is
  read by the listener at the other end.
\<close>

section \<open>What a propagator accepts can be sent on\<close>

definition transmittable :: "Warning \<Rightarrow> bool" where
  "transmittable w \<longleftrightarrow> sendable w \<and> is_cstr (chars (city w)) \<and> is_cstr (chars (dest_node w))"

lemma carries_transmittable: "carries cn ws \<Longrightarrow> w \<in> set ws \<Longrightarrow> transmittable w"
  unfolding carries_def transmittable_def by blast

lemma carriesI: "conn_ok cn \<Longrightarrow> stream cn = concat (map encode ws) \<Longrightarrow> \<forall>w \<in> set ws. transmittable w \<Longrightarrow> carries cn ws"
  unfolding carries_def transmittable_def by simp

lemma view_transmittable: "view v = view w \<Longrightarrow> transmittable w \<Longrightarrow> sendable v \<Longrightarrow> transmittable v"
  by (simp add: transmittable_def view_def)

lemma crecv_step:
  assumes "cstep protocol f l ls args c c'" "cinv ctx L K ls args n fl c" "\<forall>w \<in> set (crecv c). transmittable w"
  shows "\<forall>w \<in> set (crecv c'). transmittable w"
  using assms(1)
proof (cases rule: cstep.cases)
  case (read_warning k cn w cn' s d s')
  from assms(2) obtain m where m: "cmem L K ls args m c" by (rule cinvE)
  with read_warning(2) obtain ws where ws: "carries cn ws" by (auto simp: cmem_def)
  from carries_step [OF ws cmem_os(1,3) [OF m] read_warning(3)] obtain v ws' where v: "ws = v # ws'" "view w = view v" "sendable w" by blast
  from carries_transmittable [OF ws, of v] v(1) view_transmittable [OF v(2) _ v(3)] have "transmittable w" by simp
  with assms(3) show ?thesis unfolding read_warning(1) by auto
qed (use assms(3) in simp_all)

lemma crecv_reach:
  assumes "(cstep protocol f l ls args)\<^sup>*\<^sup>* c c'" "cinv ctx L K ls args n fl c" "alive c'" "\<And>w. hop_of ctx w \<noteq> None"
    and "\<forall>w \<in> set (crecv c). transmittable w"
  shows "\<forall>w \<in> set (crecv c'). transmittable w"
  using assms(1,3)
proof (induction rule: rtranclp_induct)
  case (step y z)
  then have "alive y" using cstep_alive by blast
  from crecv_step [OF step.hyps(2) creach_cinv [OF step.hyps(1) assms(2) this assms(4)] step.IH [OF this]] show ?case .
qed (rule assms(5))

section \<open>Property\<close>


section \<open>Witness\<close>

lemma send_opens:
  assumes "connections_map (tab n) = Some m" "shares own L K m q X s" "capacity m < 2 ^ 60" "True \<notin> set (oom s)"
    and "answers m a p = None" "new_socks (tab n) = k # ks" "k \<noteq> INVALID_SOCKET" "refused (tab n) = []"
  shows "\<exists>b n' s'. send_open a p n s = (Some (k, b), n', s')"
proof -
  from assms(2) have c: "conn_inv (live s - set (conn.hm_blks m)) K m s" by (simp add: shares_def)
  obtain r t s1 where g: "get_or_create_connection a p (tab n) s = (r, t, s1)" by (metis prod.exhaust)
  from get_or_create_succeeds [OF assms(1) c assms(3-8) g] have r: "r = k" by simp
  have "conn.hm_owned m s" using c by (simp add: conn_inv_def)
  from get_or_create_oom [OF assms(1) this g] assms(4) have "True \<notin> set (oom s1)" by blast
  from malloc_succeeds [OF this] obtain b s2 where "malloc s1 = (Some b, s2)" by blast
  with g r assms(7) show ?thesis by (simp add: send_open_def)
qed

text \<open>A worker takes the only task, connects and sends.\<close>

lemma demo_worker_sends:
  assumes "cinv ctx L K ls args n True c" "cwork c = [Idle, Idle]" "clog c = []" "crecv c = [v]" "cstage c = Up" "\<And>w. hop_of ctx w \<noteq> None"
    and "connections_map (tab (cnet c)) = Some m" "capacity m < 2 ^ 60" "\<forall>a p. answers m a p = None"
    and "new_socks (tab (cnet c)) = [k]" "k \<noteq> INVALID_SOCKET" "refused (tab (cnet c)) = []" "wire (cnet c) = []"
  shows "\<exists>c' m' a p. (cstep protocol f l ls args)\<^sup>*\<^sup>* c c' \<and> cstage c' = Up \<and> connections_map (tab (cnet c')) = Some m' \<and>
    answers m' a p = Some k \<and> sent_on k (cnet c') = encode v \<and> clog c' = [(a, p, v, True)] \<and>
    crecv c' = [v] \<and> cwork c' = [Idle, Idle] \<and> cinv ctx L K ls args n True c'"
proof -
  let ?st = "cstep protocol f l ls args"
  from assms(1,7) have i: "cmem L K ls args m c" "cdata ctx c" "cfull m c" unfolding cinv_def by (auto simp: cmem_def)
  have "mset [v] = mset (map tw (tasks c))" using i(2) assms(2-4) by (simp add: cdata_def doing_def)
  then have ts: "map tw (tasks c) = [v]" by (metis mset_single_iff_right mset.simps(1) mset.simps(2))
  from assms(1) obtain ts' j where sh: "titems (dqueue (cdisp c)) = map Some ts' @ replicate j None" "j + gone (cwork c) = sentinels (cstage c)"
    unfolding cinv_def cshape_def by blast
  then have "titems (dqueue (cdisp c)) = map Some ts'" using assms(5) by simp
  with ts obtain t where t: "titems (dqueue (cdisp c)) = [Some t]" "tw t = v" by (cases ts'; cases "tl ts'") auto
  from dequeue_first [OF cmem_os(2) [OF i(1)] t(1)] obtain d q s where q: "tsqueue_dequeue (dqueue (cdisp c)) (cheap c) = Some (d, q, s)" by blast
  have ci: "0 < length (cwork c)" "cwork c ! 0 = Idle" using assms(2) by simp_all
  have d: "d = Some t" using cmem_dequeue [OF i(1) ci q, of "case d of None \<Rightarrow> Gone | Some t \<Rightarrow> Has t"] t(1) by (simp split: option.splits)
  let ?c1 = "(with_queue c q s)\<lparr>cwork := (cwork c)[0 := Has t]\<rparr>"
  have s1: "?st c ?c1" by (rule cstep.take [OF ci]) (use q d in simp)
  note i1 = cstep_cinv [OF s1 assms(1) _ assms(6), simplified assms(5)]
  from i1 assms(7) have m1: "cmem L K ls args m ?c1" "cdata ctx ?c1" unfolding cinv_def by (auto simp: cmem_def assms(5))
  have tk: "jctx (arg t) = ctx" "sendable v" using m1(2) assms(2) t(2) by (auto simp: cdata_def tok_def)
  from assms(6) [of v] obtain a p where h: "hop_of (jctx (arg t)) (tw t) = Some (a, p)" using tk(1) t(2) by fastforce
  have S1: "shares task_own L (K \<union> lsocks ls (clst ?c1)) m (dqueue (cdisp ?c1)) (cblks args ?c1 @ concat (map wblks (cwork ?c1))) (cheap ?c1)"
    and n1: "names_apart (cnet ?c1) (cheap ?c1)" and o1: "True \<notin> set (oom (cheap ?c1))" and T1: "connections_map (tab (cnet ?c1)) = Some m"
    using m1(1) unfolding cmem_def by blast+
  from send_opens [OF T1 S1 assms(8) o1, of a p k "[]"] assms(9-12) obtain b n2 s2 where
    o: "send_open a p (cnet ?c1) (cheap ?c1) = (Some (k, b), n2, s2)" by auto
  let ?c2 = "?c1\<lparr>cnet := n2, cheap := s2, cwork := (cwork ?c1)[0 := Sends t a p k b]\<rparr>"
  have s2: "?st ?c1 ?c2" by (rule cstep.connect [OF _ _ h o]) (use assms(2) in simp_all)
  from send_open_spec [OF T1 S1 n1 o1 o, unfolded option.case prod.case] obtain m2 where m2: "connections_map (tab n2) = Some m2"
    "wire n2 = wire (cnet ?c1)" "sends n2 = sends (cnet ?c1)" "\<forall>a' p'. answers m2 a' p' = (if a' = a \<and> p' = p then Some k else answers m a' p')"
    by (elim exE conjE)
  have a2: "answers m2 a p = Some k" using m2(4) [rule_format, of a p] by simp
  obtain ok n3 s3 where e: "send_data k b (tw t) n2 s2 = (ok, n3, s3)" by (metis prod.exhaust)
  have i2: "cinv ctx L K ls args n True ?c2" by (rule cstep_cinv [OF s2 i1 _ assms(6)]) (use assms(5) in simp_all)
  then obtain m' where m': "cmem L K ls args m' ?c2" "cdata ctx ?c2" unfolding cinv_def by blast
  have "mset (cblks args ?c2 @ concat (map wblks (cwork ?c2))) = mset (b # task_own t @ cblks args ?c2)" using assms(2) by simp
  moreover have "shares task_own L (K \<union> lsocks ls (clst ?c2)) m' (dqueue (cdisp ?c2)) (cblks args ?c2 @ concat (map wblks (cwork ?c2))) (cheap ?c2)"
    using m'(1) unfolding cmem_def by blast
  ultimately have X: "shares task_own L (K \<union> lsocks ls (clst ?c2)) m' (dqueue (cdisp ?c2)) (b # task_own t @ cblks args ?c2) (cheap ?c2)"
    using shares_perm by blast
  have "k \<notin> set (new_socks (tab n2))" using m'(2) assms(2) by (simp add: cdata_def)
  moreover have "names_apart n2 s2" using m'(1) by (simp add: cmem_def)
  moreover have "sends n2 = []" using m2(3) i(3) by (simp add: cfull_def)
  moreover have "shares task_own L (K \<union> lsocks ls (clst ?c2)) m' (dqueue (cdisp ?c2)) (b # task_own t @ cblks args ?c2) s2" using X by simp
  ultimately have D: "ok" "wire n3 = wire n2 @ [(k, encode v)]" "tab n3 = tab n2"
    using send_data_spec [OF _ _ tk(2) _ e [unfolded t(2)]] by blast+
  let ?c3 = "?c2\<lparr>cnet := n3, cheap := end_task t s3, cwork := (cwork ?c2)[0 := Idle], clog := clog ?c2 @ [(a, p, tw t, True)]\<rparr>"
  have s3: "?st ?c2 ?c3" by (rule cstep.send [where b = b and k = k]) (use assms(2) e D(1) in simp_all)
  have "cinv ctx L K ls args n True ?c3" by (rule cstep_cinv [OF s3 i2 _ assms(6)]) (use assms(5) in simp_all)
  moreover have "sent_on k (cnet ?c3) = encode v" using D(2) m2(2) assms(13) by (simp add: sent_on_def)
  moreover have "?st\<^sup>*\<^sup>* c ?c3" using s1 s2 s3 by (meson converse_rtranclp_into_rtranclp r_into_rtranclp)
  ultimately show ?thesis using m2(1) a2 D(3) t(2) assms(2-5)
    by (intro exI [of _ ?c3] exI [of _ m2] exI [of _ a] exI [of _ p]) simp
qed

lemma propagator_table:
  assumes "cp_setup True [prog, str, port] csv demo_reuse w fresh_os = Some (Some x, t1, w1, s1)"
  shows "\<exists>m. connections_map t1 = Some m \<and> capacity m < 2 ^ 60 \<and> (\<forall>a p. answers m a p = None) \<and> new_socks t1 = [5] \<and> refused t1 = []"
proof -
  obtain t' sc where i: "connections_init demo_reuse fresh_os = (t', sc)" by force
  then obtain m where m: "connections_map t' = Some m" "capacity m = 16" "new_socks t' = [5]" "refused t' = []"
    by (auto simp: connections_init_def hashmap_create_def calloc_def malloc_def fresh_os_def demo_reuse_def)
  have "t' = t1" using assms i by (auto simp: cp_setup_def split: prod.splits option.splits)
  with m connections_init_spec [OF fresh_os_ok(1) i m(1)] show ?thesis by simp
qed

text \<open>A client has sent the warning \<open>u\<close>, and a worker has sent it on.\<close>

lemma demo_relay:
  assumes "carries cn [u]"
  shows "\<exists>x t1 w1 s1 c m a p v. cp_setup True [''cp'', row_id (file_rows demo_csv ! 0), ''5000''] (Some demo_csv) demo_reuse fresh_win fresh_os = Some (Some x, t1, w1, s1) \<and>
     (cstep protocol f l 9 (la_blk (cm_args x)))\<^sup>*\<^sup>* (demo_start x t1 s1) c \<and> cstage c = Up \<and>
     connections_map (tab (cnet c)) = Some m \<and> answers m a p = Some 5 \<and> sent_on 5 (cnet c) = encode v \<and> clog c = [(a, p, v, True)] \<and>
     crecv c = [v] \<and> view v = view u \<and> cwork c = [Idle, Idle] \<and> (\<forall>w. hop_of (cm_ctx x) w \<noteq> None) \<and>
     cinv (cm_ctx x) (live fresh_os \<union> set (ctx_blks (cm_ctx x))) (socks fresh_os) 9 (la_blk (cm_args x)) THREAD_POOL_SIZE True c"
proof -
  from demo_setup [of "''cp''"] obtain x t1 w1 s1 where x: "cp_setup True [''cp'', row_id (file_rows demo_csv ! 0), ''5000''] (Some demo_csv) demo_reuse fresh_win fresh_os = Some (Some x, t1, w1, s1)"
    by blast
  from demo_accept [OF x assms, of f l] obtain c where c: "(cstep protocol f l 9 (la_blk (cm_args x)))\<^sup>*\<^sup>* (demo_start x t1 s1) c"
    "cstage c = Up" "cwork c = [Idle, Idle]" "clst c = Reads 7 cn" "crecv c = []" "clog c = []" "cnet c = \<lparr>tab = t1, sends = [], wire = []\<rparr>"
    "cinv (cm_ctx x) (live fresh_os \<union> set (ctx_blks (cm_ctx x))) (socks fresh_os) 9 (la_blk (cm_args x)) THREAD_POOL_SIZE True c"
    "\<forall>w. hop_of (cm_ctx x) w \<noteq> None" by blast
  from demo_read [OF c(8,4,2) _ c(5) assms, of f l] c(9) obtain c' v where r: "cstep protocol f l 9 (la_blk (cm_args x)) c c'"
    "cstage c' = Up" "crecv c' = [v]" "view v = view u" "cwork c' = cwork c" "clog c' = clog c" "cnet c' = cnet c" by blast
  have h: "hop_of (cm_ctx x) w \<noteq> None" for w using c(9) by blast
  have "alive c'" using r(2) by simp
  note i = cstep_cinv [OF r(1) c(8) this h]
  from propagator_table [OF x] obtain m0 where m0: "connections_map t1 = Some m0" "capacity m0 < 2 ^ 60" "\<forall>a p. answers m0 a p = None"
    "new_socks t1 = [5]" "refused t1 = []" by blast
  have five: "(5 :: SOCKET) \<noteq> INVALID_SOCKET" by (simp add: INVALID_SOCKET_def)
  have p: "cwork c' = [Idle, Idle]" "clog c' = []" "connections_map (tab (cnet c')) = Some m0" "new_socks (tab (cnet c')) = [5]"
    "refused (tab (cnet c')) = []" "wire (cnet c') = []" using r(5,6,7) c(3,6,7) m0(1,4,5) by simp_all
  from demo_worker_sends [OF i p(1,2) r(3,2) h p(3) m0(2,3) p(4) five p(5,6), of f l] obtain c3 m a p where
    c3: "(cstep protocol f l 9 (la_blk (cm_args x)))\<^sup>*\<^sup>* c' c3" "cstage c3 = Up" "connections_map (tab (cnet c3)) = Some m"
      "answers m a p = Some 5" "sent_on 5 (cnet c3) = encode v" "clog c3 = [(a, p, v, True)]" "crecv c3 = [v]" "cwork c3 = [Idle, Idle]"
      "cinv (cm_ctx x) (live fresh_os \<union> set (ctx_blks (cm_ctx x))) (socks fresh_os) 9 (la_blk (cm_args x)) THREAD_POOL_SIZE True c3"
    by (elim exE conjE)
  have run: "(cstep protocol f l 9 (la_blk (cm_args x)))\<^sup>*\<^sup>* (demo_start x t1 s1) c3"
    using c(1) r(1) c3(1) by (meson converse_rtranclp_into_rtranclp rtranclp_trans)
  show ?thesis
    by (intro exI [of _ x] exI [of _ t1] exI [of _ w1] exI [of _ s1] exI [of _ c3] exI [of _ m] exI [of _ a] exI [of _ p] exI [of _ v]
        conjI x run c3 r(4) c(9))
qed


end
