(* ===== verification/WholeNetwork.thy ===== *)
theory WholeNetwork
  imports HopTransfer
begin

text \<open>
  All programs of the network at once.  \<open>inbox i\<close> is what the program of row \<open>i\<close> has received,
  \<open>sentlog i\<close> the sends of a propagator.  That both come from a finished run of the program is
  \<open>propagator_run\<close>; what goes over a single connection is in \<open>HopTransfer\<close>.
\<close>

section \<open>What a propagator does with its inbox\<close>

text \<open>The contents of warnings, without their order.\<close>

definition views :: "Warning list \<Rightarrow> warning_view multiset" where
  "views ws = mset (map view ws)"

definition relayed :: "CPContext \<Rightarrow> Warning list \<Rightarrow> (string \<times> u16 \<times> Warning \<times> bool) list \<Rightarrow> bool" where
  "relayed ctx inb lg \<longleftrightarrow> views inb = views (logged lg) \<and> (\<forall>(a, p, w, ok) \<in> set lg. ok \<and> hop_of ctx w = Some (a, p))"

lemma views_simps [simp]: "views [] = {#}" "views (w # ws) = add_mset (view w) (views ws)" "views (xs @ ys) = views xs + views ys"
  by (simp_all add: views_def)

text \<open>
  A run of the propagator of row \<open>r\<close> that has ended: it was told to stop, its workers have left their
  loops, and no send has failed.
\<close>

definition propagator_run :: "string \<Rightarrow> nat \<Rightarrow> Warning list \<Rightarrow> (string \<times> u16 \<times> Warning \<times> bool) list \<Rightarrow> bool" where
  "propagator_run cs r inb lg \<longleftrightarrow> (\<exists>s prog port t w x t1 w1 s1 rs ls f l k c. os_ok s \<and> True \<notin> set (oom s) \<and>
     cp_setup True [prog, row_id (file_rows cs ! r), port] (Some cs) t w s = Some (Some x, t1, w1, s1) \<and>
     names_apart \<lparr>tab = t, sends = rs, wire = []\<rparr> s \<and> ls \<notin> socks s \<and> ls \<notin> set (new_socks t) \<and>
     (cstep protocol f l ls (la_blk (cm_args x)))\<^sup>*\<^sup>* (cp_run x k ls \<lparr>tab = t1, sends = rs, wire = []\<rparr> s1) c \<and>
     cstage c = Stopping THREAD_POOL_SIZE \<and> (\<forall>w \<in> set (cwork c). w = Gone) \<and> 0 < k \<and> k \<le> THREAD_POOL_SIZE \<and>
     crecv c = inb \<and> clog c = lg \<and> (\<forall>(a, p, w, ok) \<in> set lg. ok))"

lemma cp_setup_context:
  assumes "os_ok s" "True \<notin> set (oom s)"
    and "cp_setup True [prog, row_id (file_rows cs ! r), port] (Some cs) t w s = Some (Some x, t1, w1, s1)"
  shows "context_of cs r (cm_ctx x)"
proof -
  from init_succeeds [OF assms(2), of t] obtain t' m sc where t': "connections_init t s = (t', sc)" "connections_map t' = Some m"
    "True \<notin> set (oom sc)" by blast
  from connections_init_spec [OF assms(1) t'(1,2)] have "os_ok sc" using conn_inv_ok by blast
  moreover from assms(3) t'(1) obtain ev w2 ctx s0 d sd where e: "cp_context_create (Some cs) (row_id (file_rows cs ! r)) sc = Some (Some ctx, s0)"
    "cp_start_listener ctx (word_of_int (atoi port)) d ev w2 sd = Some (Some x, w1, s1)"
    by (auto simp: cp_setup_def split: prod.splits option.splits)
  moreover from e(2) have "cm_ctx x = ctx"
    by (auto simp: cp_start_listener_def split: prod.splits option.splits)
  ultimately show ?thesis using t'(3) unfolding context_of_def by blast
qed

lemma propagator_relays:
  assumes "length (file_rows cs) < 2 ^ 19" "distinct (map row_id (file_rows cs))" "acyclic_rows (file_rows cs)" "r < length (file_rows cs)"
    and "propagator_run cs r inb lg"
  shows "\<exists>ctx. context_of cs r ctx \<and> relayed ctx inb lg"
proof -
  from assms(5) obtain s prog port t w x t1 w1 s1 rs ls f l k c where a: "os_ok s" "True \<notin> set (oom s)"
    "cp_setup True [prog, row_id (file_rows cs ! r), port] (Some cs) t w s = Some (Some x, t1, w1, s1)"
    "names_apart \<lparr>tab = t, sends = rs, wire = []\<rparr> s" "ls \<notin> socks s" "ls \<notin> set (new_socks t)"
    "(cstep protocol f l ls (la_blk (cm_args x)))\<^sup>*\<^sup>* (cp_run x k ls \<lparr>tab = t1, sends = rs, wire = []\<rparr> s1) c"
    "cstage c = Stopping THREAD_POOL_SIZE" "\<forall>w \<in> set (cwork c). w = Gone" "0 < k" "k \<le> THREAD_POOL_SIZE"
    and fin: "crecv c = inb" "clog c = lg" "\<forall>(a, p, w, ok) \<in> set lg. ok" unfolding propagator_run_def by (elim exE conjE)
  from cp_setup_ready [OF a(1,2) assms(1-4) a(3)] have rd: "cp_ready cs r s x t1 s1" and ns: "new_socks t1 = new_socks t" by auto
  have "names_apart \<lparr>tab = t1, sends = rs, wire = []\<rparr> s" "ls \<notin> set (new_socks t1)" using a(4,6) ns by (simp_all add: names_apart_def)
  from cp_run_cinv [OF rd this(1) a(5) this(2)] have i0: "cinv (cm_ctx x) (live s \<union> set (ctx_blks (cm_ctx x))) (socks s) ls
    (la_blk (cm_args x)) THREAD_POOL_SIZE (rs = []) (cp_run x k ls \<lparr>tab = t1, sends = rs, wire = []\<rparr> s1)" by blast
  have hops: "hop_of (cm_ctx x) w \<noteq> None" for w using cp_ready_hops [OF rd assms(4), of w] by auto
  have "alive c" using a(8) by simp
  note i = creach_cinv [OF a(7) i0 this hops]
  from drained_all [OF i a(9) run_workers(2) [OF a(7,10,11)] a(8)] have "mset (crecv c) = mset (logged (clog c))" by blast
  then have "views (crecv c) = views (logged (clog c))" unfolding views_def mset_map by (rule arg_cong)
  moreover from i have "cdata (cm_ctx x) c" unfolding cinv_def by blast
  ultimately have "relayed (cm_ctx x) inb lg" using fin by (auto simp: relayed_def cdata_def)
  with cp_setup_context [OF a(1-3)] show ?thesis by blast
qed

section \<open>Selecting by destination\<close>

text \<open>The destination is the last field of the contents.\<close>

abbreviation vdest :: "warning_view \<Rightarrow> string" where
  "vdest v \<equiv> snd (snd (snd (snd v)))"

lemma vdest_view [simp]: "vdest (view w) = chars (dest_node w)"
  by (simp add: view_def)

lemma view_in_views: "w \<in> set ws \<Longrightarrow> view w \<in># views ws"
  by (simp add: views_def)

lemma views_filter: "views (filter (\<lambda>w. P (chars (dest_node w))) ws) = filter_mset (\<lambda>v. P (vdest v)) (views ws)"
  by (induction ws) simp_all

lemma filter_views_filter: "(\<And>v. P v \<Longrightarrow> Q v) \<Longrightarrow> filter_mset P (filter_mset Q (M :: warning_view multiset)) = filter_mset P M"
  by (simp add: filter_filter_mset) (metis)

text \<open>The ids of the leaves below a row.\<close>

definition leaf_ids :: "NodeInfo list \<Rightarrow> nat \<Rightarrow> string set" where
  "leaf_ids ns i = {name_of ns d | d. d \<in> tree ns i \<and> kids_of ns d = []}"

lemma leaf_idsI: "d < length ns \<Longrightarrow> below ns i d \<Longrightarrow> kids_of ns d = [] \<Longrightarrow> name_of ns d = str \<Longrightarrow> str \<in> leaf_ids ns i"
  unfolding leaf_ids_def tree_def by blast

lemma kid_not_leaf: "j \<in> set (kids_of ns i) \<Longrightarrow> kids_of ns i \<noteq> []"
  by (metis list.set(1) empty_iff)

lemma leaf_ids_kid:
  assumes "forest ns" "j < length ns" "nparent (ns ! j) = Some i"
  shows "leaf_ids ns j \<subseteq> leaf_ids ns i"
  using assms unfolding leaf_ids_def tree_def up_def [symmetric] by (blast intro: rtranclp.rtrancl_into_rtrancl)

lemma leaf_ids_leaf:
  assumes "tree ns d = {d}" "kids_of ns d = []"
  shows "leaf_ids ns d = {name_of ns d}"
proof (intro set_eqI iffI)
  fix str assume "str \<in> leaf_ids ns d"
  then obtain e where "str = name_of ns e" "e \<in> tree ns d" unfolding leaf_ids_def by blast
  with assms(1) show "str \<in> {name_of ns d}" by simp
next
  fix str assume "str \<in> {name_of ns d}"
  moreover have "d \<in> tree ns d" using assms(1) by simp
  ultimately show "str \<in> leaf_ids ns d" using leaf_idsI [OF _ _ assms(2)] by (simp add: tree_def)
qed

lemma roots_equal:
  assumes "below ns a d" "below ns b d" "nparent (ns ! a) = None" "nparent (ns ! b) = None"
  shows "a = b"
  using below_linear [OF assms(1,2)] below_cases [of ns a b] below_cases [of ns b a] assms(3,4) by (auto simp: up_def)

text \<open>What the source sends to a root.\<close>

lemma root_inbox:
  assumes "describes (file_rows cs) ns" "distinct (map row_id (file_rows cs))" "acyclic_rows (file_rows cs)"
    and "inj_on (row_addr cs) {..<length (file_rows cs)}" "\<forall>w \<in> set warnings. proper ns w" "r < length (file_rows cs)" "nparent (ns ! r) = None"
  shows "sent_to (fst (row_addr cs r)) (snd (row_addr cs r)) (concat (map (route ns) warnings)) =
    filter (\<lambda>w. chars (dest_node w) \<in> leaf_ids ns r) warnings"
  using assms(5)
proof (induction warnings)
  case Nil
  then show ?case by (simp add: sent_to_def)
next
  case (Cons w ws)
  note fn = describes_forest [OF assms(1,3)]
  have len: "length ns = length (file_rows cs)" using assms(1) by (simp add: describes_def)
  from Cons.prems have pw: "proper ns w" by simp
  from proper_route [OF described_table(1) [OF assms(1,3)] pw] obtain d rt a where d: "first_id ns (chars (dest_node w)) = Some d"
    "find_root ns d = Some rt" "rt < length ns" "nparent (ns ! rt) = None" "naddress (ns ! rt) = Some a" "route ns w = [(chars a, nport (ns ! rt), w)]"
    by blast
  have dl: "d < length ns" "name_of ns d = chars (dest_node w)"
    using d(1) describes_row(1) [OF assms(1), of d] len by (auto simp: first_id_def find_Some_iff)
  from pw obtain e where e: "e < length ns" "ntype (ns ! e) = NODE_DESTINATION" "map_option chars (nid (ns ! e)) = Some (chars (dest_node w))"
    unfolding proper_def by blast
  have same: "d' = d''" if "d' < length ns" "d'' < length ns" "name_of ns d' = name_of ns d''" for d' d''
    using that assms(2) describes_row(1) [OF assms(1)] len by (metis distinct_conv_nth length_map nth_map)
  have "name_of ns e = chars (dest_node w)" using e(3) by auto
  with same [of e d] e(1) dl have "e = d" by simp
  with e(2) have leaf: "kids_of ns d = []" using assms(1) e(1) len describes_kids [OF assms(1), of d] by (auto simp: describes_def split: if_splits)
  have b: "below ns rt d" using find_root_Some [OF d(2)] by blast
  have "row_addr cs rt = (chars a, nport (ns ! rt))" using describes_row(3,4) [OF assms(1), of rt] d(3,5) len by (auto simp: row_addr_def)
  then have "(chars a = fst (row_addr cs r) \<and> nport (ns ! rt) = snd (row_addr cs r)) \<longleftrightarrow> rt = r"
    using assms(4,6) d(3) len by (auto simp: inj_on_def prod_eq_iff)
  also have "\<dots> \<longleftrightarrow> chars (dest_node w) \<in> leaf_ids ns r"
  proof
    assume "rt = r"
    with leaf_idsI [OF dl(1) b leaf dl(2)] show "chars (dest_node w) \<in> leaf_ids ns r" by simp
  next
    assume "chars (dest_node w) \<in> leaf_ids ns r"
    then obtain d' where d': "d' < length ns" "below ns r d'" "name_of ns d' = name_of ns d" using dl(2) by (auto simp: leaf_ids_def tree_def)
    with same dl(1) have "below ns r d" by blast
    from roots_equal [OF b this d(4) assms(7)] show "rt = r" .
  qed
  finally show ?case using Cons.IH Cons.prems d(6) by (simp add: sent_to_def)
qed

text \<open>What a propagator sends to a child.\<close>

lemma child_inbox:
  assumes "length (file_rows cs) < 2 ^ 19" "distinct (map row_id (file_rows cs))" "acyclic_rows (file_rows cs)"
    and "describes (file_rows cs) ns" "context_of cs i ctx" "i < length (file_rows cs)" "inj_on (row_addr cs) {..<length (file_rows cs)}"
    and "j < length (file_rows cs)" "nparent (ns ! j) = Some i"
    and "\<forall>(a, p, w, ok) \<in> set lg. ok \<and> hop_of ctx w = Some (a, p) \<and> chars (dest_node w) \<in> leaf_ids ns i"
  shows "sent_to (fst (row_addr cs j)) (snd (row_addr cs j)) (reported lg) = filter (\<lambda>w. chars (dest_node w) \<in> leaf_ids ns j) (logged lg)"
  using assms(10)
proof (induction lg)
  case Nil
  then show ?case by (simp add: sent_to_def)
next
  case (Cons e lg)
  obtain a p w ok where e: "e = (a, p, w, ok)" by (cases e)
  note fn = describes_forest [OF assms(4,3)]
  have len: "length ns = length (file_rows cs)" using assms(4) by (simp add: describes_def)
  from Cons.prems e have w: "ok" "hop_of ctx w = Some (a, p)" "chars (dest_node w) \<in> leaf_ids ns i" by auto
  then obtain d where d: "d < length ns" "below ns i d" "kids_of ns d = []" "name_of ns d = chars (dest_node w)" by (auto simp: leaf_ids_def tree_def)
  have "j \<in> set (kids_of ns i)" using assms(8,9) len by simp
  from kid_not_leaf [OF this] have "d \<noteq> i" using d(3) by blast
  with d(2) obtain n where n: "(up ns ^^ Suc n) d i" by (metis not0_implies_Suc relpowp_0_E rtranclp_imp_relpowp)
  have dn: "chars (dest_node w) = row_id (file_rows cs ! d)" using describes_row(1) [OF assms(4), of d] d(1,4) len by simp
  from hop_down [OF assms(1-6) d(1) [unfolded len] n dn] obtain h where h: "h < length (file_rows cs)" "row_parent (file_rows cs) h = Some i"
    "(up ns ^^ n) d h" "hop_of ctx w = Some (row_addr cs h)" by blast
  have hk: "h \<in> set (kids_of ns i)" using h(1,2) describes_row(2) [OF assms(4) h(1)] len by simp
  have bh: "below ns h d" by (rule relpowp_imp_rtranclp [OF h(3)])
  have "(a = fst (row_addr cs j) \<and> p = snd (row_addr cs j)) \<longleftrightarrow> h = j"
    using h(4) w(2) assms(7,8) h(1) by (auto simp: inj_on_def prod_eq_iff)
  also have "\<dots> \<longleftrightarrow> chars (dest_node w) \<in> leaf_ids ns j"
  proof
    assume "h = j"
    with leaf_idsI [OF d(1) bh d(3,4)] show "chars (dest_node w) \<in> leaf_ids ns j" by simp
  next
    assume "chars (dest_node w) \<in> leaf_ids ns j"
    then obtain d' where d': "d' < length ns" "below ns j d'" "name_of ns d' = name_of ns d" using d(4) by (auto simp: leaf_ids_def tree_def)
    then have "d' = d" using d(1) assms(2) describes_row(1) [OF assms(4)] len by (metis distinct_conv_nth length_map nth_map)
    with d' bh have "d \<in> tree ns h" "d \<in> tree ns j" by (simp_all add: tree_def)
    with kids_disjoint [OF fn hk \<open>j \<in> set (kids_of ns i)\<close>] show "h = j" by blast
  qed
  finally show ?case using Cons.IH Cons.prems w(1) e by (simp add: sent_to_def)
qed

section \<open>All propagators together\<close>

text \<open>
  When every propagator has ended and every program has received what was sent to it, each leaf has
  received what names it.
\<close>

lemma network_delivers:
  assumes "length (file_rows cs) < 2 ^ 19" "distinct (map row_id (file_rows cs))" "acyclic_rows (file_rows cs)"
    and "describes (file_rows cs) ns" "inj_on (row_addr cs) {..<length (file_rows cs)}"
    and "\<forall>w \<in> set warnings. proper ns w"
    and "\<forall>i < length (file_rows cs). row_parent (file_rows cs) i = None \<longrightarrow>
      views (inbox i) = views (sent_to (fst (row_addr cs i)) (snd (row_addr cs i)) (concat (map (route ns) warnings)))"
    and "\<forall>i < length (file_rows cs). row_children (file_rows cs) i \<noteq> [] \<longrightarrow> propagator_run cs i (inbox i) (sentlog i)"
    and "\<forall>i < length (file_rows cs). \<forall>j < length (file_rows cs). row_parent (file_rows cs) j = Some i \<longrightarrow>
      views (inbox j) = views (sent_to (fst (row_addr cs j)) (snd (row_addr cs j)) (reported (sentlog i)))"
    and "d < length (file_rows cs)" "row_children (file_rows cs) d = []"
  shows "views (inbox d) = views (filter (\<lambda>w. chars (dest_node w) = row_id (file_rows cs ! d)) warnings)"
proof -
  note fn = describes_forest [OF assms(4,3)]
  have len: "length ns = length (file_rows cs)" using assms(4) by (simp add: describes_def)
  have main: "views (inbox j) = views (filter (\<lambda>w. chars (dest_node w) \<in> leaf_ids ns j) warnings)" if "j < length ns" for j
    using fn that
  proof (induction j rule: forest_induct)
    case (node j)
    show ?case
    proof (cases "nparent (ns ! j)")
      case None
      with root_inbox [OF assms(4,2,3,5,6) _ None] assms(7) node.hyps len describes_row(2) [OF assms(4), of j] show ?thesis by simp
    next
      case (Some i)
      then have i: "i < length ns" by (rule forest_parent [OF fn node.hyps])
      note IH = node.IH [OF Some i]
      have "j \<in> set (kids_of ns i)" using Some node.hyps by simp
      from kid_not_leaf [OF this] have "row_children (file_rows cs) i \<noteq> []" using describes_kids [OF assms(4), of i] by simp
      with assms(8) i len have "propagator_run cs i (inbox i) (sentlog i)" by simp
      from propagator_relays [OF assms(1-3) i [unfolded len] this] obtain ctx where
        r: "context_of cs i ctx" "views (inbox i) = views (logged (sentlog i))" "\<forall>(a, p, w, ok) \<in> set (sentlog i). ok \<and> hop_of ctx w = Some (a, p)"
        unfolding relayed_def by blast
      have "chars (dest_node w) \<in> leaf_ids ns i" if "w \<in> set (logged (sentlog i))" for w
      proof -
        from view_in_views [OF that] have "view w \<in># views (filter (\<lambda>w. chars (dest_node w) \<in> leaf_ids ns i) warnings)"
          unfolding r(2) [symmetric] IH .
        then have "vdest (view w) \<in> leaf_ids ns i" unfolding views_filter [of "\<lambda>str. str \<in> leaf_ids ns i"] by simp
        then show ?thesis by simp
      qed
      with r(3) have "\<forall>(a, p, w, ok) \<in> set (sentlog i). ok \<and> hop_of ctx w = Some (a, p) \<and> chars (dest_node w) \<in> leaf_ids ns i" by force
      note C = child_inbox [OF assms(1-4) r(1) i [unfolded len] assms(5) node.hyps [unfolded len] Some this]
      have "views (inbox j) = views (filter (\<lambda>w. chars (dest_node w) \<in> leaf_ids ns j) (logged (sentlog i)))"
        using C assms(9) node.hyps i len Some describes_row(2) [OF assms(4), of j] by simp
      also have "\<dots> = filter_mset (\<lambda>v. vdest v \<in> leaf_ids ns j) (filter_mset (\<lambda>v. vdest v \<in> leaf_ids ns i) (views warnings))"
        unfolding views_filter [of "\<lambda>str. str \<in> leaf_ids ns j"] r(2) [symmetric] IH views_filter [of "\<lambda>str. str \<in> leaf_ids ns i"] ..
      also have "\<dots> = filter_mset (\<lambda>v. vdest v \<in> leaf_ids ns j) (views warnings)"
        by (rule filter_views_filter) (use leaf_ids_kid [OF fn node.hyps Some] in blast)
      finally show ?thesis unfolding views_filter [of "\<lambda>str. str \<in> leaf_ids ns j"] .
    qed
  qed
  have k: "kids_of ns d = []" using assms(11) describes_kids [OF assms(4), of d] by simp
  have "tree ns d = {d}" using assms(10) len unfolding tree_unfold [OF fn assms(10) [folded len]] k by simp
  then have "leaf_ids ns d = {name_of ns d}" by (rule leaf_ids_leaf [OF _ k])
  then have "leaf_ids ns d = {row_id (file_rows cs ! d)}" using describes_row(1) [OF assms(4,10)] by simp
  with main [of d] assms(10) len show ?thesis by simp
qed

section \<open>A network with one warning\<close>

lemma clog_step: "cstep good f l ls args c c' \<Longrightarrow> \<exists>ys. clog c' = clog c @ ys"
  by (erule cstep.cases) simp_all

lemma clog_reach: "(cstep good f l ls args)\<^sup>*\<^sup>* c c' \<Longrightarrow> \<exists>ys. clog c' = clog c @ ys"
  by (induction rule: rtranclp_induct) (use clog_step in fastforce)+

text \<open>The propagator of the demonstration file receives one warning, sends it on, and is stopped.\<close>

lemma demo_finished:
  assumes "carries cn [u]"
  shows "\<exists>v a p. propagator_run demo_csv 0 [v] [(a, p, v, True)] \<and> view v = view u"
proof -
  let ?f = "\<lambda>_. []"
  from demo_relay [OF assms, of ?f plain_time] obtain x t1 w1 s1 c m a p v where
    x: "cp_setup True [''cp'', row_id (file_rows demo_csv ! 0), ''5000''] (Some demo_csv) demo_reuse fresh_win fresh_os = Some (Some x, t1, w1, s1)" and
    run: "(cstep protocol ?f plain_time 9 (la_blk (cm_args x)))\<^sup>*\<^sup>* (demo_start x t1 s1) c" and
    c: "cstage c = Up" "clog c = [(a, p, v, True)]" "crecv c = [v]" "view v = view u" "cwork c = [Idle, Idle]" "\<forall>w. hop_of (cm_ctx x) w \<noteq> None"
      "cinv (cm_ctx x) (live fresh_os \<union> set (ctx_blks (cm_ctx x))) (socks fresh_os) 9 (la_blk (cm_args x)) THREAD_POOL_SIZE True c"
    by (elim exE conjE)
  let ?st = "cstep protocol ?f plain_time 9 (la_blk (cm_args x))"
  have hops: "hop_of (cm_ctx x) w \<noteq> None" for w using c(6) by blast
  let ?d = "c\<lparr>cexit := True\<rparr>"
  let ?e = "?d\<lparr>cdisp := (cdisp c)\<lparr>dpool := (dpool (cdisp c))\<lparr>shutting_down := True\<rparr>\<rparr>, cstage := Stopping 0\<rparr>"
  have st: "?st c ?d" "?st ?d ?e" using cstep.exit_event [of _ _ _ _ _ c] cstep.shutdown [of ?d] c(1) by simp_all
  note i1 = cstep_cinv [OF st(1) c(7) _ hops]
  have "alive ?d" "alive ?e" using c(1) by simp_all
  note i2 = cstep_cinv [OF st(2) i1 [OF \<open>alive ?d\<close>] \<open>alive ?e\<close> hops]
  from sentinels_step [OF i2 _ _ hops, of 0 ?f plain_time] obtain g where g: "?st\<^sup>*\<^sup>* ?e g"
    "cinv (cm_ctx x) (live fresh_os \<union> set (ctx_blks (cm_ctx x))) (socks fresh_os) 9 (la_blk (cm_args x)) THREAD_POOL_SIZE True g"
    "cstage g = Stopping THREAD_POOL_SIZE" "cwork g = [Idle, Idle]" "crecv g = [v]" using c(3,5) by auto
  from workers_end [OF g(2,3) _ hops, of ?f plain_time] g(4) obtain h where h: "(worker_step ?f plain_time 9 (la_blk (cm_args x)))\<^sup>*\<^sup>* g h"
    "cinv (cm_ctx x) (live fresh_os \<union> set (ctx_blks (cm_ctx x))) (socks fresh_os) 9 (la_blk (cm_args x)) THREAD_POOL_SIZE True h"
    "\<forall>w \<in> set (cwork h). w = Gone" "cstage h = cstage g" "crecv h = crecv g" "length (cwork h) = length (cwork g)" by auto
  have ch: "?st\<^sup>*\<^sup>* c h" using st g(1) worker_steps [OF h(1)] by (meson converse_rtranclp_into_rtranclp rtranclp_trans)
  have "cwork h \<noteq> []" "cstage h = Stopping THREAD_POOL_SIZE" using h(4,6) g(3,4) by auto
  from drained_all [OF h(2,3) this] have "mset (crecv h) = mset (logged (clog h))" by blast
  then have "length (logged (clog h)) = 1" using h(5) g(5) by (metis One_nat_def length_Cons list.size(3) mset_eq_length)
  moreover from clog_reach [OF ch] obtain ys where "clog h = (a, p, v, True) # ys" using c(2) by auto
  ultimately have lg: "clog h = [(a, p, v, True)]" by simp
  have "?st\<^sup>*\<^sup>* (demo_start x t1 s1) h" using run ch by (rule rtranclp_trans)
  then have "propagator_run demo_csv 0 [v] [(a, p, v, True)]" unfolding propagator_run_def
    by (intro exI [of _ fresh_os] exI [of _ "''cp''"] exI [of _ "''5000''"] exI [of _ demo_reuse] exI [of _ fresh_win] exI [of _ x] exI [of _ t1]
        exI [of _ w1] exI [of _ s1] exI [of _ "[]"] exI [of _ 9] exI [of _ ?f] exI [of _ plain_time] exI [of _ 2] exI [of _ h] conjI
        demo_os x demo_names) (use h(3,4,5) g(3,5) lg in simp_all)
  with c(4) show ?thesis by blast
qed

lemma demo_shape:
  "i < length (file_rows demo_csv) \<Longrightarrow> i = 0 \<or> i = 1 \<or> i = 2" "row_parent (file_rows demo_csv) 0 = None" "row_parent (file_rows demo_csv) 2 = None"
  "row_children (file_rows demo_csv) 0 = [1]" "row_children (file_rows demo_csv) 1 = []" "row_children (file_rows demo_csv) 2 = []"
  "2 < length (file_rows demo_csv)" "row_id (file_rows demo_csv ! 2) = ''D2''"
proof -
  show "i < length (file_rows demo_csv) \<Longrightarrow> i = 0 \<or> i = 1 \<or> i = 2" "2 < length (file_rows demo_csv)" unfolding demo_rows by auto
qed (unfold demo_rows, code_simp+)

lemma demo_addresses: "inj_on (row_addr demo_csv) {..<length (file_rows demo_csv)}"
proof -
  have a: "row_addr demo_csv 0 = (''127.0.0.1'', 5000)" "row_addr demo_csv 1 = (''127.0.0.1'', 5001)"
    unfolding row_addr_def demo_rows by code_simp+
  have "trim ''host'' = ''host''" by code_simp
  then have h: "fst (row_addr demo_csv 2) = ''host''" unfolding row_addr_def fst_conv demo_rows by simp
  have "fst (row_addr demo_csv 0) \<noteq> fst (row_addr demo_csv 2)" "fst (row_addr demo_csv 1) \<noteq> fst (row_addr demo_csv 2)"
    "snd (row_addr demo_csv 0) \<noteq> snd (row_addr demo_csv 1)" unfolding a h fst_conv snd_conv by simp_all
  then have ne: "row_addr demo_csv 0 \<noteq> row_addr demo_csv 1" "row_addr demo_csv 0 \<noteq> row_addr demo_csv 2" "row_addr demo_csv 1 \<noteq> row_addr demo_csv 2"
    by (metis, metis, metis)
  show ?thesis
  proof (rule inj_onI)
    fix i j assume "i \<in> {..<length (file_rows demo_csv)}" "j \<in> {..<length (file_rows demo_csv)}" and e: "row_addr demo_csv i = row_addr demo_csv j"
    then have "i = 0 \<or> i = 1 \<or> i = 2" "j = 0 \<or> j = 1 \<or> j = 2" using demo_shape(1) by blast+
    with ne ne [symmetric] e show "i = j" by metis
  qed
qed

end
