(* ===== verification/DestinationRun.thy ===== *)
theory DestinationRun
  imports HopTransfer DestinationMain
begin

text \<open>
  Complete runs of a data destination: whatever its state, what the open connection still delivers
  can be received and the program can be brought to its end.
\<close>

section \<open>Steps that are always possible\<close>

text \<open>What \<open>main\<close> and the listener leave alone while messages are read.\<close>

definition dd_same :: "ddsys \<Rightarrow> ddsys \<Rightarrow> bool" where
  "dd_same c c' \<longleftrightarrow> dd_stage c' = dd_stage c \<and> proc c' = proc c \<and> processed c' = processed c \<and> dd_listen_sock (dd c') = dd_listen_sock (dd c)"

lemma dd_same_trans: "dd_same a b \<Longrightarrow> dd_same b c \<Longrightarrow> dd_same a c"
  by (simp add: dd_same_def)

lemma dd_read_one:
  assumes "dinv L K c" "lst c = Reading k cn" "carries cn (w # ws)"
  shows "\<exists>c' cn' v. dstep f l c c' \<and> dinv L K c' \<and> lst c' = Reading k cn' \<and> carries cn' ws \<and> view v = view w \<and>
    received c' = received c @ [v] \<and> dd_same c c'"
proof -
  from assms(1) have i: "dd_ok L (K \<union> dd_socks c) (dd c) (dheap c)" "True \<notin> set (oom (dheap c))" by (auto simp: dinv_def)
  then have o: "os_ok (dheap c)" "True \<notin> set (oom (dheap c))" using dd_ok_os by auto
  from carries_first [OF assms(3) o] obtain v cn' s where r: "deserialize_warning cn (dheap c) = (Some v, cn', s)" by blast
  from carries_step [OF assms(3) o r] have v: "view v = view w" "carries cn' ws" by auto
  have "tcapacity (dd_queue (dd c)) = 0" using i(1) by (simp add: dd_ok_def)
  from enqueue_unbounded [OF this, of "Some v" s] obtain u q s' where "tsqueue_enqueue (dd_queue (dd c)) (Some v) s = Some (u, q, s')" by blast
  then have p: "dd_put v (dd c) s = Some ((dd c)\<lparr>dd_queue := q\<rparr>, s')" by (simp add: dd_put_def)
  have r': "dd_deserialize_warning cn (dheap c) = (Some v, cn', s)" using r by (simp add: dd_deserialize_eq)
  let ?c = "c\<lparr>lst := Reading k cn', dd := (dd c)\<lparr>dd_queue := q\<rparr>, dheap := s', received := received c @ [v]\<rparr>"
  have "dstep f l c ?c" by (rule dstep.read_warning [OF assms(2) r' p])
  moreover have "dinv L K ?c" by (rule step_read_warning [OF assms(1,2) r' p])
  ultimately show ?thesis using v by (intro exI [of _ ?c] exI [of _ cn'] exI [of _ v]) (simp add: dd_same_def)
qed

lemma dd_read_end:
  assumes "dinv L K c" "lst c = Reading k cn" "carries cn []"
  shows "\<exists>c'. dstep f l c c' \<and> dinv L K c' \<and> lst c' = Accepting \<and> received c' = received c \<and> dd_same c c'"
proof -
  from assms(1) have "dd_ok L (K \<union> dd_socks c) (dd c) (dheap c)" and t: "True \<notin> set (oom (dheap c))" by (auto simp: dinv_def)
  then have o: "os_ok (dheap c)" using dd_ok_os by auto
  obtain r cn' s where d: "deserialize_warning cn (dheap c) = (r, cn', s)" by (metis prod.exhaust)
  have "r = None" using carries_step [OF assms(3) o t] d by (cases r) auto
  then have r: "dd_deserialize_warning cn (dheap c) = (None, cn', s)" using d by (simp add: dd_deserialize_eq)
  let ?c = "c\<lparr>lst := Accepting, dheap := closesocket k s\<rparr>"
  have "dstep f l c ?c" by (rule dstep.read_end [OF assms(2) r])
  moreover have "dinv L K ?c" by (rule step_read_end [OF assms(1,2) r])
  ultimately show ?thesis by (intro exI [of _ ?c]) (simp add: dd_same_def)
qed

lemma dd_read_all:
  assumes "dinv L K c" "lst c = Reading k cn" "carries cn ws"
  shows "\<exists>c' vs. (dstep f l)\<^sup>*\<^sup>* c c' \<and> dinv L K c' \<and> lst c' = Accepting \<and> received c' = received c @ vs \<and> map view vs = map view ws \<and> dd_same c c'"
  using assms
proof (induction ws arbitrary: c cn)
  case Nil
  from dd_read_end [OF this, of f l] obtain c1 where "dstep f l c c1" "dinv L K c1" "lst c1 = Accepting" "received c1 = received c" "dd_same c c1"
    by blast
  then show ?case by (intro exI [of _ c1] exI [of _ "[]"]) simp
next
  case (Cons w ws)
  from dd_read_one [OF Cons.prems, of f l] obtain c1 cn1 v where c1: "dstep f l c c1" "dinv L K c1" "lst c1 = Reading k cn1" "carries cn1 ws"
    "view v = view w" "received c1 = received c @ [v]" "dd_same c c1" by blast
  from Cons.IH [OF c1(2-4)] obtain c' vs where "(dstep f l)\<^sup>*\<^sup>* c1 c'" "dinv L K c'" "lst c' = Accepting" "received c' = received c1 @ vs"
    "map view vs = map view ws" "dd_same c1 c'" by blast
  with c1 dd_same_trans show ?case by (intro exI [of _ c'] exI [of _ "v # vs"]) (simp add: converse_rtranclp_into_rtranclp)
qed

text \<open>The processor empties the queue.\<close>

lemma dd_process_one:
  assumes "dinv L K c" "proc c" "titems (dd_queue (dd c)) = Some w # r"
  shows "\<exists>c'. dstep f l c c' \<and> dinv L K c' \<and> titems (dd_queue (dd c')) = r \<and> processed c' = processed c @ [w] \<and>
    received c' = received c \<and> lst c' = lst c \<and> proc c' \<and> dd_stage c' = dd_stage c \<and> dd_listen_sock (dd c') = dd_listen_sock (dd c)"
proof -
  from assms(1) have i: "dd_ok L (K \<union> dd_socks c) (dd c) (dheap c)" by (simp add: dinv_def)
  then have "tsq_ok (dd_queue (dd c)) (dheap c)" by (simp add: dd_ok_def qholds_def)
  from dequeue_first [OF this assms(3)] obtain q s where d: "tsqueue_dequeue (dd_queue (dd c)) (dheap c) = Some (Some w, q, s)" by blast
  obtain x s' where p: "dd_process f l w ((dd c)\<lparr>dd_queue := q\<rparr>) s = (x, s')" by force
  have x: "dd_queue x = q" "dd_listen_sock x = dd_listen_sock (dd c)" using p by (auto simp: dd_process_def split: prod.splits)
  from dd_dequeue_spec [OF i d] assms(3) have "titems q = r" by auto
  let ?c = "c\<lparr>dd := x, dheap := s', processed := processed c @ [w]\<rparr>"
  have "dstep f l c ?c" by (rule dstep.process [OF assms(2) d p])
  moreover have "dinv L K ?c" by (rule step_process [OF assms(1,2) d p])
  ultimately show ?thesis using x \<open>titems q = r\<close> assms(2) by (intro exI [of _ ?c]) simp
qed

lemma dd_process_all:
  assumes "dinv L K c" "proc c" "titems (dd_queue (dd c)) = map Some ws @ r"
  shows "\<exists>c'. (dstep f l)\<^sup>*\<^sup>* c c' \<and> dinv L K c' \<and> titems (dd_queue (dd c')) = r \<and> processed c' = processed c @ ws \<and>
    received c' = received c \<and> lst c' = lst c \<and> proc c' \<and> dd_stage c' = dd_stage c \<and> dd_listen_sock (dd c') = dd_listen_sock (dd c)"
  using assms
proof (induction ws arbitrary: c)
  case (Cons w ws)
  from dd_process_one [OF Cons.prems(1,2), of w "map Some ws @ r" f l] Cons.prems(3) obtain c1 where c1: "dstep f l c c1" "dinv L K c1"
    "titems (dd_queue (dd c1)) = map Some ws @ r" "processed c1 = processed c @ [w]" "received c1 = received c" "lst c1 = lst c" "proc c1"
    "dd_stage c1 = dd_stage c" "dd_listen_sock (dd c1) = dd_listen_sock (dd c)" by auto
  from Cons.IH [OF c1(2,7,3)] obtain c2 where c2: "(dstep f l)\<^sup>*\<^sup>* c1 c2" "dinv L K c2" "titems (dd_queue (dd c2)) = r"
    "processed c2 = processed c1 @ ws" "received c2 = received c1" "lst c2 = lst c1" "proc c2" "dd_stage c2 = dd_stage c1"
    "dd_listen_sock (dd c2) = dd_listen_sock (dd c1)" by blast
  from c1 c2 show ?case by (intro exI [of _ c2]) (simp add: converse_rtranclp_into_rtranclp)
qed auto

text \<open>The end of \<open>dd_destroy\<close>, once the NULL item is in the queue.\<close>

lemma dd_ends:
  assumes "dinv L K c" "dd_stage c = Join_processor"
  shows "\<exists>c'. (dstep f l)\<^sup>*\<^sup>* c c' \<and> dd_stage c' = Destroyed \<and> received c' = received c \<and> dgone L K c'"
proof -
  have "\<exists>d. (dstep f l)\<^sup>*\<^sup>* c d \<and> dinv L K d \<and> dd_stage d = Join_processor \<and> \<not> proc d \<and> received d = received c"
  proof (cases "proc c")
    case True
    with assms obtain ws where t: "titems (dd_queue (dd c)) = map Some ws @ [None]" by (auto simp: dinv_def)
    from dd_process_all [OF assms(1) True t, of f l] obtain d where d: "(dstep f l)\<^sup>*\<^sup>* c d" "dinv L K d" "titems (dd_queue (dd d)) = [None]"
      "received d = received c" "proc d" "dd_stage d = dd_stage c" by blast
    have "dd_ok L (K \<union> dd_socks d) (dd d) (dheap d)" using d(2) by (simp add: dinv_def)
    then have "tsq_ok (dd_queue (dd d)) (dheap d)" by (simp add: dd_ok_def qholds_def)
    from dequeue_first [OF this d(3)] obtain q s where e: "tsqueue_dequeue (dd_queue (dd d)) (dheap d) = Some (None, q, s)" by blast
    let ?e = "d\<lparr>dd := (dd d)\<lparr>dd_queue := q\<rparr>, dheap := s, proc := False\<rparr>"
    have "dstep f l d ?e" by (rule dstep.processor_ends [OF d(5) e])
    moreover have "dinv L K ?e" by (rule step_processor_ends [OF d(2,5) e])
    ultimately show ?thesis using d(1,4,6) assms(2) by (intro exI [of _ ?e]) simp
  qed (use assms in blast)
  then obtain d where d: "(dstep f l)\<^sup>*\<^sup>* c d" "dinv L K d" "dd_stage d = Join_processor" "\<not> proc d" "received d = received c" by blast
  have "dd_ok L (K \<union> dd_socks d) (dd d) (dheap d)" using d(2) by (simp add: dinv_def)
  from dd_free_spec [OF this] obtain s where fr: "dd_free (dd d) (dheap d) = Some s" by blast
  let ?e = "d\<lparr>dheap := s, dd_stage := Destroyed\<rparr>"
  have "dstep f l d ?e" by (rule dstep.destroy_ends [OF d(3,4) fr])
  moreover have "dgone L K ?e" by (rule step_destroy_ends [OF d(2-4) fr])
  ultimately show ?thesis using d(1,5) by (intro exI [of _ ?e]) simp
qed

text \<open>With the listener out of its loop.\<close>

lemma dd_sends_null:
  assumes "dinv L K c" "dd_stage c = Join_listener" "lst c = Ended"
  shows "\<exists>c'. dstep f l c c' \<and> dinv L K c' \<and> dd_stage c' = Join_processor \<and> received c' = received c"
proof -
  have "tcapacity (dd_queue (dd c)) = 0" using assms(1) by (simp add: dinv_def dd_ok_def)
  from enqueue_unbounded [OF this, of None "dheap c"] obtain r q s where e: "tsqueue_enqueue (dd_queue (dd c)) None (dheap c) = Some (r, q, s)" by blast
  from dstep.send_null [OF assms(2,3) e] step_send_null [OF assms e]
  show ?thesis by (intro exI [of _ "c\<lparr>dd := (dd c)\<lparr>dd_queue := q\<rparr>, dheap := s, dd_stage := Join_processor\<rparr>"]) simp
qed

lemma dd_shuts_down:
  assumes "dinv L K c" "lst c = Ended" "dd_listen_sock (dd c) = Some ls" "dd_stage c \<noteq> Destroyed"
  shows "\<exists>c'. (dstep f l)\<^sup>*\<^sup>* c c' \<and> dd_stage c' = Destroyed \<and> received c' = received c \<and> dgone L K c'"
proof -
  have joined: "\<exists>c'. (dstep f l)\<^sup>*\<^sup>* d c' \<and> dd_stage c' = Destroyed \<and> received c' = received d \<and> dgone L K c'"
    if d: "dinv L K d" "dd_stage d = Join_listener" "lst d = Ended" for d
  proof -
    from dd_sends_null [OF d, of f l] obtain e where e: "dstep f l d e" "dinv L K e" "dd_stage e = Join_processor" "received e = received d" by blast
    from dd_ends [OF e(2,3), of f l] e(1,4) show ?thesis by (metis converse_rtranclp_into_rtranclp)
  qed
  show ?thesis
  proof (cases "dd_stage c")
    case Active
    let ?d = "c\<lparr>dheap := closesocket ls (dheap c), dd_stage := Join_listener\<rparr>"
    have "dinv L K ?d" by (rule step_destroy_begins [OF assms(1) Active assms(3)])
    from joined [OF this] assms(2) dstep.destroy_begins [OF Active assms(3), of f l] show ?thesis
      by (auto intro: converse_rtranclp_into_rtranclp)
  next
    case Join_listener
    with joined assms show ?thesis by blast
  next
    case Join_processor
    with dd_ends assms show ?thesis by blast
  qed (use assms in blast)
qed

text \<open>What the connection that is open still delivers.\<close>

definition to_come :: "ddsys \<Rightarrow> Warning list \<Rightarrow> bool" where
  "to_come c ws \<longleftrightarrow> (case lst c of Reading k cn \<Rightarrow> carries cn ws | _ \<Rightarrow> ws = [])"

lemma dd_listener_ends:
  assumes "dinv L K c" "to_come c ws"
  shows "\<exists>c' vs. (dstep f l)\<^sup>*\<^sup>* c c' \<and> dinv L K c' \<and> lst c' = Ended \<and> received c' = received c @ vs \<and> map view vs = map view ws \<and> dd_same c c'"
proof -
  have idle: "\<exists>c'. (dstep f l)\<^sup>*\<^sup>* d c' \<and> dinv L K c' \<and> lst c' = Ended \<and> received c' = received d \<and> dd_same d c'"
    if "dinv L K d" "lst d = Accepting" for d
    using dstep.accept_fails [OF that(2), of f l] step_accept_fails [OF that]
    by (intro exI [of _ "d\<lparr>lst := Ended\<rparr>"]) (simp add: dd_same_def r_into_rtranclp)
  show ?thesis
  proof (cases "lst c")
    case Accepting
    with idle [OF assms(1)] assms(2) show ?thesis by (fastforce simp: to_come_def)
  next
    case (Reading k cn)
    with assms(2) have "carries cn ws" by (simp add: to_come_def)
    from dd_read_all [OF assms(1) Reading this, of f l] obtain d vs where d: "(dstep f l)\<^sup>*\<^sup>* c d" "dinv L K d" "lst d = Accepting"
      "received d = received c @ vs" "map view vs = map view ws" "dd_same c d" by blast
    from idle [OF d(2,3)] d show ?thesis by (metis dd_same_trans rtranclp_trans)
  next
    case Ended
    with assms show ?thesis by (intro exI [of _ c] exI [of _ "[]"]) (simp add: to_come_def dd_same_def)
  qed
qed

lemma dd_completes:
  assumes "dinv L K c" "to_come c ws" "dd_listen_sock (dd c) = Some ls" "dd_stage c \<noteq> Destroyed"
  shows "\<exists>c' vs. (dstep f l)\<^sup>*\<^sup>* c c' \<and> dd_stage c' = Destroyed \<and> received c' = received c @ vs \<and> map view vs = map view ws \<and> dgone L K c'"
proof -
  from dd_listener_ends [OF assms(1,2), of f l] obtain d vs where d: "(dstep f l)\<^sup>*\<^sup>* c d" "dinv L K d" "lst d = Ended"
    "received d = received c @ vs" "map view vs = map view ws" "dd_same c d" by blast
  then have "dd_listen_sock (dd d) = Some ls" "dd_stage d \<noteq> Destroyed" using assms(3,4) by (simp_all add: dd_same_def)
  from dd_shuts_down [OF d(2,3) this, of f l] d show ?thesis by (metis rtranclp_trans)
qed

text \<open>The listening socket of a started destination stays the same.\<close>

lemma dstep_listen: "dstep f l c c' \<Longrightarrow> dd_listen_sock (dd c') = dd_listen_sock (dd c)"
  by (erule dstep.cases) (auto simp: dd_put_def dd_process_def split: prod.splits)

lemma dreach_listen: "(dstep f l)\<^sup>*\<^sup>* c c' \<Longrightarrow> dd_listen_sock (dd c') = dd_listen_sock (dd c)"
  by (induction rule: rtranclp_induct) (simp_all add: dstep_listen)

text \<open>Processing only adds.\<close>

lemma dstep_processed: "dstep f l c c' \<Longrightarrow> \<exists>ws. processed c' = processed c @ ws"
  by (erule dstep.cases) auto

lemma dreach_processed: "(dstep f l)\<^sup>*\<^sup>* c c' \<Longrightarrow> \<exists>ws. processed c' = processed c @ ws"
  by (induction rule: rtranclp_induct) (use dstep_processed in fastforce)+

section \<open>Property\<close>

text \<open>
  C6. A destination can always be brought to its end: in whatever state its threads and \<open>dd_destroy\<close>
  are, if the client of the open connection follows the protocol, there are steps that lead to the
  end of \<open>dd_destroy\<close>, and then what was received, with all that the connection still delivered, has
  been processed, and the heap and the sockets are as before the start.
\<close>

theorem destination_completes:
  assumes "os_ok s" "dd_create True True ls0 str port s = Some (Some x, s1)" "True \<notin> set (oom s1)" "ls \<notin> socks s"
    and "(dstep f l)\<^sup>*\<^sup>* (dstart ls x s1) c" "to_come c ws"
  shows "\<exists>c'. (dstep f l)\<^sup>*\<^sup>* c c' \<and> dd_stage c' = Destroyed \<and> map view (processed c') = map view (received c) @ map view ws \<and>
    live (dheap c') = live s \<and> socks (dheap c') = socks s"
proof -
  from dd_create_spec [OF assms(1,2)] have d: "dd_ok (live s) (socks s) x s1" "titems (dd_queue x) = []" "warning_count x = 0" by auto
  from dreach_dall [OF assms(5) dstart_dall [OF d assms(3,4)]] have i: "dall (live s) (socks s) c" .
  show ?thesis
  proof (cases "dd_stage c = Destroyed")
    case True
    with i have g: "dgone (live s) (socks s) c" by (simp add: dall_def)
    then have "ws = []" using assms(6) by (simp add: dgone_def to_come_def)
    with g True show ?thesis by (intro exI [of _ c]) (simp add: dgone_def)
  next
    case False
    with i have j: "dinv (live s) (socks s) c" by (simp add: dall_def)
    have "dd_listen_sock (dd c) = Some ls" using dreach_listen [OF assms(5)] by (simp add: dstart_def)
    from dd_completes [OF j assms(6) this False, of f l] show ?thesis by (fastforce simp: dgone_def)
  qed
qed

theorem destination_completes_witness:
  "\<exists>x s1 c c'. dd_create True True 0 ''D1'' 5001 fresh_os = Some (Some x, s1) \<and>
     (dstep (\<lambda>_. []) plain_time)\<^sup>*\<^sup>* (dstart 9 x s1) c \<and> lst c = Reading 7 demo_conn \<and>
     (dstep (\<lambda>_. []) plain_time)\<^sup>*\<^sup>* c c' \<and> dd_stage c' = Destroyed \<and> map view (processed c') = [view demo_warning]"
proof -
  from demo_destination obtain x s1 where d: "dd_create True True 0 ''D1'' 5001 fresh_os = Some (Some x, s1)" "oom s1 = []" by blast
  from dd_create_spec [OF fresh_os_ok(1) d(1)] dd_ok_os have sk: "socks s1 = {}" by auto
  let ?c0 = "dstart 9 x s1"
  let ?c1 = "?c0\<lparr>lst := Reading 7 demo_conn, dheap := (dheap ?c0)\<lparr>socks := insert 7 (socks (dheap ?c0))\<rparr>\<rparr>"
  have "(7 :: SOCKET) \<noteq> INVALID_SOCKET" by (simp add: INVALID_SOCKET_def)
  then have st: "dstep (\<lambda>_. []) plain_time ?c0 ?c1" using sk by (intro dstep.accept) (auto simp: dstart_def)
  then have run: "(dstep (\<lambda>_. []) plain_time)\<^sup>*\<^sup>* ?c0 ?c1" by (rule r_into_rtranclp)
  have o: "True \<notin> set (oom s1)" "9 \<notin> socks fresh_os" "to_come ?c1 [demo_warning]"
    using d(2) demo_conn_carries by (simp_all add: to_come_def)
  from destination_completes [OF fresh_os_ok(1) d(1) o(1,2) run o(3)] obtain c' where
    "(dstep (\<lambda>_. []) plain_time)\<^sup>*\<^sup>* ?c1 c'" "dd_stage c' = Destroyed" "map view (processed c') = map view (received ?c1) @ map view [demo_warning]"
    by blast
  with d(1) run show ?thesis by (intro exI [of _ x] exI [of _ s1] exI [of _ ?c1] exI [of _ c']) (simp add: dstart_def)
qed

end
