(* ===== verification/SourceHop.thy ===== *)
theory SourceHop
  imports HopTransfer
begin

text \<open>
  The first hop: what the data source has written to a socket is read by the listener of the root
  propagator at the other end.
\<close>

section \<open>The warnings of the source can be sent\<close>

lemma set_strtok: "strtok d str = Some (a, r) \<Longrightarrow> set a \<subseteq> set str"
  by (auto simp: strtok_def split: list.splits if_splits dest!: set_takeWhileD) (metis list.set_intros set_dropWhileD)+

lemma set_trim: "set (trim str) \<subseteq> set str"
  by (auto simp: trim_def split: list.splits dest: set_dropWhileD) (metis list.set_intros set_dropWhileD set_rev)+

lemma file_rows_cstr: "r \<in> set (file_rows cs) \<Longrightarrow> is_cstr (row_id r)"
proof (induction cs rule: file_rows.induct)
  case (1 cs)
  show ?case
  proof (cases "fgets 512 cs")
    case None
    with 1(3) show ?thesis by (simp add: file_rows.simps [of cs])
  next
    case (Some p)
    then obtain line rest where f: "fgets 512 cs = Some (line, rest)" by (cases p) auto
    show ?thesis
    proof (cases "parse_line line")
      case None
      with 1 f show ?thesis by (simp add: file_rows.simps [of cs])
    next
      case (Some row)
      have "set (fst row) \<subseteq> set (strip_eol (c_str line))"
        using Some by (auto simp: parse_line_def split: option.splits prod.splits dest!: set_strtok)
      moreover have "set (strip_eol (c_str line)) \<subseteq> set (c_str line)" by (auto simp: strip_eol_def dest: in_set_butlastD)
      moreover have "is_cstr (c_str line)" by simp
      ultimately have "is_cstr (row_id row)" using set_trim [of "fst row"] by (auto simp: is_cstr_def row_id_def)
      moreover have "is_cstr (row_id r)" if "r \<in> set (file_rows rest)" using 1(2) f Some that by (cases row) auto
      ultimately show ?thesis using 1(3) f Some by (auto simp: file_rows.simps [of cs])
    qed
  qed
qed

lemma proper_transmittable:
  assumes "describes (file_rows cs) ns" "acyclic_rows (file_rows cs)" "proper ns w"
  shows "transmittable w"
proof -
  from assms(3) obtain i where i: "i < length ns" "map_option chars (nid (ns ! i)) = Some (chars (dest_node w))"
    "chars (city w) = chars (dest_node w)" unfolding proper_def by blast
  with assms(1) have "i < length (file_rows cs)" "row_id (file_rows cs ! i) = chars (dest_node w)" by (auto simp: describes_def)
  then have "is_cstr (chars (dest_node w))" using file_rows_cstr [of "file_rows cs ! i" cs] by simp
  with i(3) proper_sendable [OF described_table(1) [OF assms(1,2)] assms(3)] show ?thesis by (simp add: transmittable_def)
qed

section \<open>The root's listener\<close>

lemma sent_to_mem: "w \<in> set (sent_to a p xs) \<Longrightarrow> (a, p, w) \<in> set xs"
  by (auto simp: sent_to_def)

lemma cp_listener_takes:
  assumes "os_ok s" "cp_dispatcher_create ctx n s = Some (Some d, s1)" "True \<notin> set (oom s1)" "ls \<notin> socks s" "ls \<noteq> INVALID_SOCKET"
    and "i \<notin> insert ls (socks s)" "carries cn ws"
  shows "\<exists>d' s'. cp_listener_run f l ls [Client i cn, Exit] d s1 = Some (True, d', s') \<and> disp_ok (live s) (socks s) d' s' \<and>
    map view (pending d') = map view ws"
proof -
  from cp_dispatcher_create_spec [OF assms(1,2)] have d: "disp_ok (live s) (socks s) d s1" "pending d = []" by auto
  let ?s = "s1\<lparr>socks := insert ls (socks s1)\<rparr>" and ?rs = "[Client i cn, Exit]"
  note i = cps.inv_accept [OF d(1), of ls]
  have c: "\<forall>k c. Client k c \<in> set ?rs \<longrightarrow> k \<notin> insert ls (socks s) \<and> carries c ws" "True \<notin> set (oom ?s)"
    using assms(3,6,7) by auto
  from cps.accept_loop_delivers [OF i c(2,1), of f l] d(2) obtain d' s' where e: "accept_loop (cp_put f l) ?rs d ?s = Some (True, d', s')"
    "disp_ok (live s) (insert ls (socks s)) d' s'" "map view (pending d') = map view ws" by auto
  have "cp_listener_run f l ls ?rs d s1 = Some (True, d', closesocket ls s')" using e(1) assms(5) by (simp add: cp_listener_run_def)
  with cps.inv_close [OF e(2) assms(4)] e(3) show ?thesis by blast
qed

section \<open>Property\<close>

text \<open>
  C5. The first hop, from program to program: let the generator, the sender and the user of the data
  source run under any interleaving, and let \<open>cn\<close> be the other end of one of the sender's open
  connections, which delivers what was written to it in pieces of any size.  Then the listener of the
  propagator at that end hands over exactly the warnings that the sender has recorded as sent to that
  address since the connection was opened, in the same order and with the same fields; each
  of them was generated, and its route leads to that address.
\<close>

theorem source_hop_transfers:
  assumes "os_ok s" "True \<notin> set (oom s)" "wholds (handles w) [] w" "\<forall>p \<in> Windows.running w. p < next_pid w" "True \<notin> set (fails w)"
    and "length (file_rows cs) < 2 ^ 19" "acyclic_rows (file_rows cs)" "names_apart \<lparr>tab = t, sends = rs, wire = []\<rparr> s"
    and "ds_setup True (Some cs) path t rs w s = (Some x, w1, s1)" "destinations (arr (ds_nodes x)) \<noteq> []" "printable f l (arr (ds_nodes x))"
    and "malloc s1 = (Some b, s2)" "(sstep f l (arr (ds_nodes x)) b)\<^sup>*\<^sup>* (sstart (ds_queue x) (ds_net x) s2) c"
    and "connections_map (tab (snet c)) = Some m" "answers m a p = Some j" "conn_ok cn" "stream cn = sent_on j (snet c)"
    and "os_ok sr" "cp_dispatcher_create ctx n sr = Some (Some d, sr1)" "True \<notin> set (oom sr1)"
    and "ls \<notin> socks sr" "ls \<noteq> INVALID_SOCKET" "i \<notin> insert ls (socks sr)"
  shows "\<exists>d' sr2 old ws. cp_listener_run f' l' ls [Client i cn, Exit] d sr1 = Some (True, d', sr2) \<and> os_ok sr2 \<and> socks sr2 = socks sr \<and>
    sent_to a p (reported (slog c)) = old @ ws \<and> sent_on j (snet c) = concat (map encode ws) \<and>
    map view (pending d') = map view ws \<and> set ws \<subseteq> set (made c) \<and>
    (\<forall>w \<in> set ws. route (arr (ds_nodes x)) w = [(a, p, w)])"
proof -
  let ?ns = "arr (ds_nodes x)"
  note r = ds_reach [OF assms(1-13)]
  note tb = described_table(1) [OF r(2) assms(7)]
  obtain m' taken rest where I: "connections_map (tab (snet c)) = Some m'" "framed m' (snet c) (reported (slog c))" "made c = taken @ rest"
    "map (\<lambda>(a, p, w, ok). (a, p, w)) (slog c) = concat (map (route ?ns) taken)" "\<forall>w \<in> set (made c). proper ?ns w" by (rule sinvE [OF r(3)])
  have "m' = m" using I(1) assms(14) by simp
  with framedD [of m "snet c" "reported (slog c)"] I(2) assms(15) obtain old ws where
    ws: "sent_to a p (reported (slog c)) = old @ ws" "sent_on j (snet c) = concat (map encode ws)" by blast
  have src: "w \<in> set taken \<and> route ?ns w = [(a, p, w)]" if "w \<in> set ws" for w
  proof -
    have "w \<in> set (sent_to a p (reported (slog c)))" using that ws(1) by simp
    then have "(a, p, w) \<in> set (reported (slog c))" by (rule sent_to_mem)
    then have "(a, p, w) \<in> set (map (\<lambda>(a, p, w, ok). (a, p, w)) (slog c))" by force
    then obtain v where v: "v \<in> set taken" "(a, p, w) \<in> set (route ?ns v)" unfolding I(4) by auto
    then have "proper ?ns v" using I(3,5) by simp
    from proper_route [OF tb this] obtain rt and ad :: hstr where "route ?ns v = [(chars ad, nport (?ns ! rt), v)]" by blast
    with v show ?thesis by auto
  qed
  then have sub: "set ws \<subseteq> set (made c)" using I(3) by auto
  then have "\<forall>w \<in> set ws. transmittable w" using I(5) proper_transmittable [OF r(2) assms(7)] by blast
  then have "carries cn ws" using assms(17) ws(2) by (intro carriesI [OF assms(16)]) simp_all
  from cp_listener_takes [OF assms(18-23) this, of f' l'] obtain d' s' where d': "cp_listener_run f' l' ls [Client i cn, Exit] d sr1 = Some (True, d', s')"
    "disp_ok (live sr) (socks sr) d' s'" "map view (pending d') = map view ws" by blast
  have "os_ok s'" "socks s' = socks sr" using cps.inv_ok [OF d'(2)] by auto
  with d' ws sub src show ?thesis by blast
qed

section \<open>Witness\<close>

text \<open>A send on a network that takes every buffer whole.\<close>

lemma send_succeeds:
  assumes "connections_map (tab n) = Some m" "conn_inv L K m s" "names_apart n s" "sendable w" "capacity m < 2 ^ 60" "True \<notin> set (oom s)"
    and "answers m a p = None" "new_socks (tab n) = k # ks" "k \<noteq> INVALID_SOCKET" "refused (tab n) = []" "sends n = []"
    and "send_warning_to a p w n s = (r, n', s')"
  shows "r \<and> wire n' = wire n @ [(k, encode w)] \<and> (\<exists>m'. connections_map (tab n') = Some m' \<and> answers m' a p = Some k)"
proof -
  obtain u t s1 where g: "get_or_create_connection a p (tab n) s = (u, t, s1)" by (metis prod.exhaust)
  from get_or_create_succeeds [OF assms(1,2,5-10) g] have u: "u = k" by simp
  from get_step [OF assms(1-3) g] obtain m' where m': "connections_map t = Some m'"
    "\<forall>a' p'. answers m' a' p' = (if u \<noteq> INVALID_SOCKET \<and> a' = a \<and> p' = p then Some u else answers m a' p')" by (elim exE conjE)
  have a': "answers m' a p = Some k" using m'(2) [rule_format, of a p] u assms(9) by simp
  have "conn.hm_owned m s" using assms(2) by (simp add: conn_inv_def)
  from get_or_create_oom [OF assms(1) this g] assms(6) have "True \<notin> set (oom s1)" by blast
  from malloc_succeeds [OF this] obtain b s2 where b: "malloc s1 = (Some b, s2)" by blast
  have "send_warning_to a p w n s = (True, n\<lparr>tab := t, wire := wire n @ [(k, encode w)]\<rparr>, free_blk b s2)"
    using g u assms(9,11) b length_encode [OF assms(4)] by (simp add: send_warning_to_def sys_send_def Let_def)
  then have e: "r" "n' = n\<lparr>tab := t, wire := wire n @ [(k, encode w)]\<rparr>" using assms(12) by simp_all
  show ?thesis using e m'(1) a' by (intro conjI exI [of _ m']) simp_all
qed

text \<open>The source of the demonstration file, when it has generated and sent one warning.\<close>

lemma demo_source_table:
  assumes "ds_setup True csv path demo_reuse [] w fresh_os = (Some x, w1, s1)"
  shows "\<exists>m. connections_map (tab (ds_net x)) = Some m \<and> capacity m < 2 ^ 60 \<and> (\<forall>a p. answers m a p = None) \<and>
    new_socks (tab (ds_net x)) = [5] \<and> refused (tab (ds_net x)) = [] \<and> sends (ds_net x) = [] \<and> wire (ds_net x) = []"
proof -
  obtain t' sc where i: "connections_init demo_reuse fresh_os = (t', sc)" by force
  then obtain m where m: "connections_map t' = Some m" "capacity m = 16" "new_socks t' = [5]" "refused t' = []"
    by (auto simp: connections_init_def hashmap_create_def calloc_def malloc_def fresh_os_def demo_reuse_def)
  have "ds_net x = \<lparr>tab = t', sends = [], wire = []\<rparr>" using assms i by (auto simp: ds_setup_def ds_start_def split: prod.splits option.splits)
  with m connections_init_spec [OF fresh_os_ok(1) i m(1)] show ?thesis by simp
qed

lemma source_sends_first:
  assumes "sinv L K ns b c" "source_table ns" "sending c" "\<not> stopped c" "titems (squeue c) = [Some w]"
    and "connections_map (tab (snet c)) = Some m" "capacity m < 2 ^ 60" "\<forall>a p. answers m a p = None"
    and "new_socks (tab (snet c)) = [k]" "k \<noteq> INVALID_SOCKET" "refused (tab (snet c)) = []" "sends (snet c) = []" "wire (snet c) = []" "slog c = []"
  shows "\<exists>c' m' a p. sstep f l ns b c c' \<and> gen c' = gen c \<and> made c' = made c \<and> sending c' \<and> \<not> stopped c' \<and> titems (squeue c') = [] \<and>
    slog c' = [(a, p, w, True)] \<and> connections_map (tab (snet c')) = Some m' \<and> answers m' a p = Some k \<and> sent_on k (snet c') = encode w"
proof -
  obtain m0 taken rest where i: "connections_map (tab (snet c)) = Some m0" "both L K m0 (squeue c) (held b c) (sheap c)"
    "names_apart (snet c) (sheap c)" "made c = taken @ rest" "sitems c rest" "tsq_ok (squeue c) (sheap c)" "True \<notin> set (oom (sheap c))"
    "\<forall>w \<in> set (made c). proper ns w"
    "qholds (L \<union> set (conn.hm_blks m0)) (socks (sheap c)) warning_blks (held b c) (squeue c) (sheap c)" by (rule sinvE [OF assms(1)])
  have m0: "m0 = m" using i(1) assms(6) by simp
  have "w \<in> set rest" using i(5) assms(3,5) by (auto simp: sitems_def Cons_eq_map_conv split: option.splits)
  then have pw: "proper ns w" using i(4,8) by simp
  then have sd: "sendable w" by (rule proper_sendable [OF assms(2)])
  from dequeue_first [OF i(6) assms(5)] obtain q s1 where d: "tsqueue_dequeue (squeue c) (sheap c) = Some (Some w, q, s1)" by blast
  from qholds_dequeue [OF i(9) d] assms(5) have D: "titems q = []"
    "qholds (L \<union> set (conn.hm_blks m0)) (socks (sheap c)) warning_blks (warning_blks w @ held b c) q s1" by simp_all
  have b1: "both L K m0 q (warning_blks w @ held b c) s1" by (rule shares_queue [OF i(2) D(2)])
  have n1: "names_apart (snet c) s1" by (rule shares_names [OF i(2) b1 i(3)])
  have ci: "conn_inv (live s1 - set (conn.hm_blks m)) K m s1" using b1 m0 by (simp add: shares_def)
  have o1: "True \<notin> set (oom s1)" using dequeue_oom [OF d] i(7) by simp
  from proper_route [OF assms(2) pw] obtain dn rt a where r: "first_id ns (chars (dest_node w)) = Some dn" "find_root ns dn = Some rt"
    "naddress (ns ! rt) = Some a" by blast
  have nid: "\<forall>n \<in> set ns. nid n \<noteq> None" using assms(2) by (auto simp: source_table_def)
  note fi = node_find_by_id_first [OF nid, of "chars (dest_node w)" s1]
  let ?p = "nport (ns ! rt)"
  obtain ok n' s2 where sw: "send_warning_to (chars a) ?p w (snet c) s1 = (ok, n', s2)" by (metis prod.exhaust)
  from assms(8) have "answers m (chars a) ?p = None" by blast
  from send_succeeds [OF assms(6) ci n1 sd assms(7) o1 this assms(9-12) sw] obtain m' where z: "ok" "wire n' = [(k, encode w)]"
    "connections_map (tab n') = Some m'" "answers m' (chars a) ?p = Some k" using assms(13) by auto
  let ?lg = "[(chars a, ?p, w, True)]"
  have "network_sender_thread ns [stopped c] (squeue c) (snet c) (sheap c) = Some (Goes_on, ?lg, q, n', warning_destroy (Some w) s2)"
    using assms(4) d fi r sw z(1) by simp
  from sstep.send_round [OF assms(3) this] have "sstep f l ns b c (c\<lparr>squeue := q, snet := n', sheap := warning_destroy (Some w) s2,
      sending := (Goes_on = Goes_on), slog := slog c @ ?lg\<rparr>)" by simp
  then show ?thesis using D(1) z assms(4,14)
    by (intro exI [of _ "c\<lparr>squeue := q, snet := n', sheap := warning_destroy (Some w) s2, sending := True, slog := slog c @ ?lg\<rparr>"]
        exI [of _ m'] exI [of _ "chars a"] exI [of _ ?p]) (simp add: sent_on_def)
qed

text \<open>A tick of the generator.\<close>

definition demo_tick :: tick where
  "demo_tick = \<lparr>stop = False, rand1 = 0, rand2 = 2, rand3 = 42, now = 1700000000\<rparr>"

lemma source_makes_first:
  assumes "sinv L K ns b c" "source_table ns" "destinations ns \<noteq> []" "printable f l ns" "gen c = Some 0" "\<not> stopped c"
    and "titems (squeue c) = []" "made c = []"
  shows "\<exists>c' w. sstep f l ns b c c' \<and> proper ns w \<and> made c' = [w] \<and> titems (squeue c') = [Some w] \<and> snet c' = snet c \<and> slog c' = slog c \<and>
    sending c' = sending c \<and> \<not> stopped c' \<and> gen c' = Some 1"
proof -
  obtain m taken rest where i: "both L K m (squeue c) (held b c) (sheap c)" "tcapacity (squeue c) = 0" "True \<notin> set (oom (sheap c))"
    by (rule sinvE [OF assms(1)])
  have nid: "\<forall>n \<in> set ns. nid n \<noteq> None" using assms(2) by (auto simp: source_table_def)
  from gen_step [OF both_src_ok [OF i] assms(3) order_refl nid assms(4), of demo_tick] obtain w s1 h s2 q s3 where
    g: "generate ns (destinations ns) demo_tick (sheap c) = (Some w, s1)" "proper ns w" "warning_to_string f l (Some w) s1 = (Some h, s2)"
      "tsqueue_enqueue (squeue c) (Some w) (free_str h s2) = Some (0, q, s3)" "titems q = titems (squeue c) @ [Some w]" by blast
  have t: "stop demo_tick = stopped c" using assms(6) by (simp add: demo_tick_def)
  have "gen_loop f l ns (destinations ns) [demo_tick] 0 (squeue c) (sheap c) = Some (False, 1, q, s3)"
    using g by (simp add: demo_tick_def NUMBER_OF_WARNINGS_def)
  from sstep.gen_round [OF assms(5) t this, of b] g(2,5) assms(6-8) show ?thesis
    by (intro exI [of _ "c\<lparr>squeue := q, sheap := s3, gen := Some 1, made := made c @ somes (drop (length (titems (squeue c))) (titems q))\<rparr>"]
        exI [of _ w]) simp
qed

lemma demo_source_one:
  "\<exists>x w1 s1 b s2 c m a p u. ds_setup True (Some demo_csv) ''C:'' demo_reuse [] fresh_win fresh_os = (Some x, w1, s1) \<and>
     destinations (arr (ds_nodes x)) \<noteq> [] \<and> printable (\<lambda>v. ''1'') plain_time (arr (ds_nodes x)) \<and> malloc s1 = (Some b, s2) \<and>
     (sstep (\<lambda>v. ''1'') plain_time (arr (ds_nodes x)) b)\<^sup>*\<^sup>* (sstart (ds_queue x) (ds_net x) s2) c \<and> \<not> stopped c \<and>
     made c = [u] \<and> slog c = [(a, p, u, True)] \<and> connections_map (tab (snet c)) = Some m \<and> answers m a p = Some 5 \<and>
     sent_on 5 (snet c) = encode u \<and> proper (arr (ds_nodes x)) u \<and> describes (file_rows demo_csv) (arr (ds_nodes x))"
proof -
  note D = demo_context
  have w: "True \<notin> set (oom fresh_os)" "True \<notin> set (fails fresh_win)" using fresh_win_ok(3) by simp_all
  have n: "names_apart \<lparr>tab = demo_reuse, sends = [], wire = []\<rparr> fresh_os" by (rule demo_names(1))
  from demo_source obtain x w1 s1 where x: "ds_setup True (Some demo_csv) ''C:'' demo_reuse [] fresh_win fresh_os = (Some x, w1, s1)"
    "describes (file_rows demo_csv) (arr (ds_nodes x))" "destinations (arr (ds_nodes x)) \<noteq> []" "ds_ready fresh_win fresh_os x w1 s1" by blast
  have "True \<notin> set (oom s1)" using x(4) by (simp add: ds_ready_def)
  from malloc_succeeds [OF this] obtain b s2 where b: "malloc s1 = (Some b, s2)" by blast
  note p = plain_printable [OF x(2)] and tb = described_table(1) [OF x(2) D(3)]
  let ?ns = "arr (ds_nodes x)" and ?c0 = "sstart (ds_queue x) (ds_net x) s2"
  note R = ds_reach [OF fresh_os_ok(1) w(1) fresh_win_ok(1,2) w(2) D(1,3) n x(1,3) p b]
  note i0 = R(3) [OF rtranclp.rtrancl_refl]
  have z: "gen ?c0 = Some 0" "\<not> stopped ?c0" "titems (squeue ?c0) = []" "made ?c0 = []" "slog ?c0 = []" "sending ?c0" "snet ?c0 = ds_net x"
    using x(4) by (simp_all add: sstart_def ds_ready_def)
  from source_makes_first [OF i0 tb x(3) p z(1-4)] obtain c1 u where c1: "sstep (\<lambda>v. ''1'') plain_time ?ns b ?c0 c1" "proper ?ns u" "made c1 = [u]"
    "titems (squeue c1) = [Some u]" "snet c1 = snet ?c0" "slog c1 = slog ?c0" "sending c1 = sending ?c0" "\<not> stopped c1" by blast
  have "(sstep (\<lambda>v. ''1'') plain_time ?ns b)\<^sup>*\<^sup>* ?c0 c1" using c1(1) by (rule r_into_rtranclp)
  note i1 = R(3) [OF this]
  from demo_source_table [OF x(1)] obtain m0 where T: "connections_map (tab (ds_net x)) = Some m0" "capacity m0 < 2 ^ 60" "\<forall>a p. answers m0 a p = None"
    "new_socks (tab (ds_net x)) = [5]" "refused (tab (ds_net x)) = []" "sends (ds_net x) = []" "wire (ds_net x) = []" by blast
  have e: "snet c1 = ds_net x" "slog c1 = []" "sending c1" using c1(5-7) z(5-7) by simp_all
  have five: "(5 :: SOCKET) \<noteq> INVALID_SOCKET" by (simp add: INVALID_SOCKET_def)
  from source_sends_first [OF i1 tb e(3) c1(8,4), unfolded e(1), OF T(1-4) five T(5-7) e(2), of "\<lambda>v. ''1''" plain_time]
  obtain c m a pt where c: "sstep (\<lambda>v. ''1'') plain_time ?ns b c1 c" "made c = made c1" "\<not> stopped c" "slog c = [(a, pt, u, True)]"
    "connections_map (tab (snet c)) = Some m" "answers m a pt = Some 5" "sent_on 5 (snet c) = encode u" by blast
  have "(sstep (\<lambda>v. ''1'') plain_time ?ns b)\<^sup>*\<^sup>* ?c0 c" using c1(1) c(1) by (meson r_into_rtranclp rtranclp.rtrancl_into_rtrancl)
  with x(1-3) p b c c1(2,3) show ?thesis
    by (intro exI [of _ x] exI [of _ w1] exI [of _ s1] exI [of _ b] exI [of _ s2] exI [of _ c] exI [of _ m] exI [of _ a] exI [of _ pt] exI [of _ u] conjI)
      simp_all
qed

theorem source_hop_transfers_witness:
  "\<exists>x w1 s1 b s2 c m a p u d sr1 d' sr2. ds_setup True (Some demo_csv) ''C:'' demo_reuse [] fresh_win fresh_os = (Some x, w1, s1) \<and>
     (sstep (\<lambda>v. ''1'') plain_time (arr (ds_nodes x)) b)\<^sup>*\<^sup>* (sstart (ds_queue x) (ds_net x) s2) c \<and> made c = [u] \<and>
     connections_map (tab (snet c)) = Some m \<and> answers m a p = Some 5 \<and>
     cp_dispatcher_create demo_ctx 2 fresh_os = Some (Some d, sr1) \<and>
     cp_listener_run (\<lambda>_. []) plain_time 9 [Client 7 \<lparr>chunks = [sent_on 5 (snet c)], fin = Closed\<rparr>, Exit] d sr1 = Some (True, d', sr2) \<and>
     map view (pending d') = [view u]"
proof -
  note D = demo_context
  have w: "True \<notin> set (oom fresh_os)" "True \<notin> set (fails fresh_win)" using fresh_win_ok(3) by simp_all
  from demo_source_one obtain x w1 s1 b s2 c m a p u where
    x: "ds_setup True (Some demo_csv) ''C:'' demo_reuse [] fresh_win fresh_os = (Some x, w1, s1)" "destinations (arr (ds_nodes x)) \<noteq> []"
      "printable (\<lambda>v. ''1'') plain_time (arr (ds_nodes x))" "malloc s1 = (Some b, s2)"
      "(sstep (\<lambda>v. ''1'') plain_time (arr (ds_nodes x)) b)\<^sup>*\<^sup>* (sstart (ds_queue x) (ds_net x) s2) c" and
    c: "made c = [u]" "slog c = [(a, p, u, True)]" "connections_map (tab (snet c)) = Some m" "answers m a p = Some 5" "sent_on 5 (snet c) = encode u"
      "proper (arr (ds_nodes x)) u" "describes (file_rows demo_csv) (arr (ds_nodes x))" by (elim exE conjE)
  have "sendable u" using proper_transmittable [OF c(7) D(3) c(6)] by (simp add: transmittable_def)
  from length_encode [OF this] have ne: "encode u \<noteq> []" by auto
  let ?cn = "\<lparr>chunks = [encode u], fin = Closed\<rparr>"
  have cn: "conn_ok ?cn" "stream ?cn = sent_on 5 (snet c)" using ne c(5) by (simp_all add: conn_ok_def stream_def)
  from demo_dispatcher obtain d sr1 where d: "cp_dispatcher_create demo_ctx 2 fresh_os = Some (Some d, sr1)" "oom sr1 = []" by blast
  have k: "True \<notin> set (oom sr1)" "9 \<notin> socks fresh_os" "(9 :: SOCKET) \<noteq> INVALID_SOCKET" "7 \<notin> insert 9 (socks fresh_os)"
    using d(2) by (simp_all add: INVALID_SOCKET_def)
  from source_hop_transfers [OF fresh_os_ok(1) w(1) fresh_win_ok(1,2) w(2) D(1,3) demo_names(1) x c(3,4) cn fresh_os_ok(1) d(1) k, of "\<lambda>_. []" plain_time]
  obtain d' sr2 old ws where z: "cp_listener_run (\<lambda>_. []) plain_time 9 [Client 7 ?cn, Exit] d sr1 = Some (True, d', sr2)"
    "sent_to a p (reported (slog c)) = old @ ws" "sent_on 5 (snet c) = concat (map encode ws)" "map view (pending d') = map view ws" by (elim exE conjE)
  have "old @ ws = [u]" using z(2) c(2) by (simp add: sent_to_one)
  moreover have "ws \<noteq> []" using z(3) c(5) ne by auto
  ultimately have "ws = [u]" by (cases old) auto
  then have "map view (pending d') = [view u]" using z(4) by simp
  with x(1,5) c(1,3,4) d(1) z(1) show ?thesis unfolding c(5)
    by (intro exI [of _ x] exI [of _ w1] exI [of _ s1] exI [of _ b] exI [of _ s2] exI [of _ c] exI [of _ m] exI [of _ a] exI [of _ p] exI [of _ u]
        exI [of _ d] exI [of _ sr1] exI [of _ d'] exI [of _ sr2] conjI) (simp_all add: c(5))
qed

end
