(* ===== verification/EndToEnd.thy ===== *)
theory EndToEnd
  imports WholeNetwork DestinationRun SourceHop
begin

text \<open>
  From the generator to the file of a destination: the run of the data source, the runs of the
  propagators and the runs of the destinations, joined by what they send to each other.
\<close>

section \<open>A run of the data source\<close>

text \<open>
  A run of the data source whose two threads have ended: it has generated \<open>ws\<close>, \<open>lg\<close> are the sends,
  none of which has failed, and \<open>entered\<close> says whether Enter was pressed before the threads ended.
\<close>

definition source_run :: "string \<Rightarrow> NodeInfo list \<Rightarrow> Warning list \<Rightarrow> bool \<Rightarrow> (string \<times> u16 \<times> Warning \<times> bool) list \<Rightarrow> bool" where
  "source_run cs ns ws entered lg \<longleftrightarrow> (\<exists>s w t rs path x w1 s1 f l b s2 c. os_ok s \<and> True \<notin> set (oom s) \<and> wholds (handles w) [] w \<and>
     (\<forall>p \<in> Windows.running w. p < next_pid w) \<and> True \<notin> set (fails w) \<and> names_apart \<lparr>tab = t, sends = rs, wire = []\<rparr> s \<and>
     ds_setup True (Some cs) path t rs w s = (Some x, w1, s1) \<and> arr (ds_nodes x) = ns \<and> destinations ns \<noteq> [] \<and> printable f l ns \<and>
     malloc s1 = (Some b, s2) \<and> (sstep f l ns b)\<^sup>*\<^sup>* (sstart (ds_queue x) (ds_net x) s2) c \<and> gen c = None \<and> \<not> sending c \<and>
     made c = ws \<and> stopped c = entered \<and> slog c = lg \<and> (\<forall>(a, p, w, ok) \<in> set lg. ok))"

lemma source_sent:
  assumes "length (file_rows cs) < 2 ^ 19" "acyclic_rows (file_rows cs)" "source_run cs ns ws entered lg"
  shows "describes (file_rows cs) ns \<and> (\<forall>w \<in> set ws. proper ns w) \<and> (\<exists>k \<le> length ws. length ws \<le> NUMBER_OF_WARNINGS \<and>
    (\<not> entered \<longrightarrow> k = NUMBER_OF_WARNINGS) \<and> reported lg = concat (map (route ns) (take k ws)))"
proof -
  from assms(3) obtain s w t rs path x w1 s1 f l b s2 c where a: "os_ok s" "True \<notin> set (oom s)" "wholds (handles w) [] w"
    "\<forall>p \<in> Windows.running w. p < next_pid w" "True \<notin> set (fails w)" "names_apart \<lparr>tab = t, sends = rs, wire = []\<rparr> s"
    "ds_setup True (Some cs) path t rs w s = (Some x, w1, s1)" "arr (ds_nodes x) = ns" "destinations ns \<noteq> []" "printable f l ns"
    "malloc s1 = (Some b, s2)" "(sstep f l ns b)\<^sup>*\<^sup>* (sstart (ds_queue x) (ds_net x) s2) c" "gen c = None" "\<not> sending c"
    and fin: "made c = ws" "stopped c = entered" "slog c = lg" "\<forall>(a, p, w, ok) \<in> set lg. ok" unfolding source_run_def by (elim exE conjE)
  note r = ds_reach [OF a(1-5) assms(1,2) a(6,7) a(9-12) [folded a(8)], unfolded a(8)]
  obtain m taken rest where I: "made c = taken @ rest" "map (\<lambda>(a, p, w, ok). (a, p, w)) (slog c) = concat (map (route ns) taken)"
    "sitems c rest" "\<forall>w \<in> set (made c). proper ns w" "length (made c) \<le> NUMBER_OF_WARNINGS" by (rule sinvE [OF r(3)])
  have "filter (\<lambda>(a, p, w, ok). ok) lg = lg" using fin(4) by (simp add: filter_id_conv case_prod_beta)
  then have "reported lg = concat (map (route ns) (take (length taken) ws))" using I(1,2) fin(1,3) by simp
  moreover have "length taken = NUMBER_OF_WARNINGS" if "\<not> entered"
    using I(1,3) a(13,14) that fin(2) by (auto simp: sitems_def)
  ultimately show ?thesis using r(2) I fin(1) by (auto intro!: exI [of _ "length taken"])
qed

section \<open>A run of a destination\<close>

text \<open>
  A run of the destination with the id \<open>str\<close> until \<open>dd_destroy\<close> is done: \<open>inb\<close> is what it has received,
  \<open>done\<close> what it has processed, \<open>txt\<close> the contents of its file, and \<open>late\<close> the number of warnings that were
  processed after the file was written.
\<close>

definition destination_run :: "string \<Rightarrow> Warning list \<Rightarrow> Warning list \<Rightarrow> nat \<Rightarrow> string \<Rightarrow> bool" where
  "destination_run str inb finished late txt \<longleftrightarrow> (\<exists>s H w prog port x w1 s1 ls ls0 f l c c'. os_ok s \<and> wholds H [] w \<and>
     dd_setup ls0 [prog, str, port] w s = Some (Runs x, w1, s1) \<and> True \<notin> set (oom s1) \<and> ls \<notin> socks s \<and>
     (dstep f l)\<^sup>*\<^sup>* (dstart ls (dm_dd x) s1) c \<and> dd_report (\<lambda>_. True) str (dd c) = Some (count_file str, txt) \<and>
     (dstep f l)\<^sup>*\<^sup>* c c' \<and> dd_stage c' = Destroyed \<and> received c' = inb \<and> processed c' = finished \<and>
     length (processed c') = length (processed c) + late)"

lemma destination_reports:
  assumes "destination_run str inb finished late txt" "length inb < 2 ^ 31"
  shows "finished = inb \<and> txt = string_of_nat (length inb - late) @ newline"
proof -
  from assms(1) obtain s H w prog port x w1 s1 ls ls0 f l c c' where a: "os_ok s" "wholds H [] w"
    "dd_setup ls0 [prog, str, port] w s = Some (Runs x, w1, s1)" "True \<notin> set (oom s1)" "ls \<notin> socks s"
    "(dstep f l)\<^sup>*\<^sup>* (dstart ls (dm_dd x) s1) c" "dd_report (\<lambda>_. True) str (dd c) = Some (count_file str, txt)"
    "(dstep f l)\<^sup>*\<^sup>* c c'" "dd_stage c' = Destroyed" "received c' = inb" "processed c' = finished"
    "length (processed c') = length (processed c) + late" unfolding destination_run_def by (elim exE conjE)
  note R = dd_run [OF a(1) dd_setup_runs [OF a(2,3), THEN conjunct1] a(4,5)]
  have "(dstep f l)\<^sup>*\<^sup>* (dstart ls (dm_dd x) s1) c'" using a(6,8) by (rule rtranclp_trans)
  from R [OF this] a(9) have p: "processed c' = received c'" by blast
  then have "length (processed c) = length inb - late" "length (processed c) < 2 ^ 31" using a(10,12) assms(2) by simp_all
  moreover have "warning_count (dd c) = of_nat (length (processed c))" using R [OF a(6)] by blast
  ultimately have "txt = string_of_nat (length inb - late) @ newline" using a(7) long_text_nat by (simp add: dd_report_def)
  with p a(10,11) show ?thesis by simp
qed

section \<open>The destinations of a file\<close>

definition destination_rows :: "row list \<Rightarrow> nat set" where
  "destination_rows rs = {d. d < length rs \<and> row_parent rs d \<noteq> None \<and> row_children rs d = []}"

lemma finite_destination_rows: "finite (destination_rows rs)"
  by (simp add: destination_rows_def)

lemma sum_by_key:
  assumes "finite D" "inj_on g D" "\<forall>x \<in> set xs. \<exists>d \<in> D. h x = g d"
  shows "(\<Sum>d \<in> D. length (filter (\<lambda>x. h x = g d) xs)) = length xs"
  using assms(3)
proof (induction xs)
  case (Cons x xs)
  then obtain e where e: "e \<in> D" "h x = g e" by auto
  have "length (filter (\<lambda>y. h y = g d) (x # xs)) = (if d = e then 1 else 0) + length (filter (\<lambda>y. h y = g d) xs)" if "d \<in> D" for d
    using that e assms(2) by (auto simp: inj_on_def)
  then have "(\<Sum>d \<in> D. length (filter (\<lambda>y. h y = g d) (x # xs))) = (\<Sum>d \<in> D. (if d = e then 1 else 0) + length (filter (\<lambda>y. h y = g d) xs))"
    by (rule sum.cong [OF refl])
  also have "\<dots> = 1 + length xs" using Cons e(1) assms(1) by (simp add: sum.distrib sum.delta)
  finally show ?case by simp
qed simp

lemma proper_row:
  assumes "describes (file_rows cs) ns" "proper ns w"
  shows "\<exists>d \<in> destination_rows (file_rows cs). chars (dest_node w) = row_id (file_rows cs ! d)"
proof -
  from assms(2) obtain i where i: "i < length ns" "ntype (ns ! i) = NODE_DESTINATION" "map_option chars (nid (ns ! i)) = Some (chars (dest_node w))"
    unfolding proper_def by blast
  with assms(1) have "i \<in> destination_rows (file_rows cs)" "chars (dest_node w) = row_id (file_rows cs ! i)"
    by (auto simp: describes_def destination_rows_def split: if_splits)
  then show ?thesis by blast
qed

section \<open>Property\<close>


section \<open>Witness\<close>

text \<open>After Enter nothing more is generated or sent.\<close>

lemma sstep_stopped:
  assumes "sstep f l ns b c c'" "stopped c"
  shows "stopped c' \<and> made c' = made c \<and> slog c' = slog c"
  using assms by (cases rule: sstep.cases) auto

lemma sreach_stopped: "(sstep f l ns b)\<^sup>*\<^sup>* c c' \<Longrightarrow> stopped c \<Longrightarrow> stopped c' \<and> made c' = made c \<and> slog c' = slog c"
  by (induction rule: rtranclp_induct) (use sstep_stopped in fastforce)+

lemma demo_source_finished:
  "\<exists>ns u a p. source_run demo_csv ns [u] True [(a, p, u, True)] \<and> describes (file_rows demo_csv) ns \<and> proper ns u"
proof -
  note D = demo_context
  let ?f = "\<lambda>v :: u64. ''1''"
  have w: "True \<notin> set (oom fresh_os)" "True \<notin> set (fails fresh_win)" using fresh_win_ok(3) by simp_all
  from demo_source_one obtain x w1 s1 b s2 c m a p u where
    x: "ds_setup True (Some demo_csv) ''C:'' demo_reuse [] fresh_win fresh_os = (Some x, w1, s1)" "destinations (arr (ds_nodes x)) \<noteq> []"
      "printable ?f plain_time (arr (ds_nodes x))" "malloc s1 = (Some b, s2)"
      "(sstep ?f plain_time (arr (ds_nodes x)) b)\<^sup>*\<^sup>* (sstart (ds_queue x) (ds_net x) s2) c" and
    c: "\<not> stopped c" "made c = [u]" "slog c = [(a, p, u, True)]" "proper (arr (ds_nodes x)) u" "describes (file_rows demo_csv) (arr (ds_nodes x))"
    by (elim exE conjE)
  let ?st = "sstep ?f plain_time (arr (ds_nodes x)) b" and ?d = "c\<lparr>stopped := True\<rparr>"
  note R = ds_reach [OF fresh_os_ok(1) w(1) fresh_win_ok(1,2) w(2) D(1,3) demo_names(1) x(1-4)]
  have "?st c ?d" by (rule sstep.press_enter [OF c(1)])
  with x(5) have r: "?st\<^sup>*\<^sup>* (sstart (ds_queue x) (ds_net x) s2) ?d" by (rule rtranclp.rtrancl_into_rtrancl)
  from source_finishes [OF R(3) [OF r] described_table(1) [OF c(5) D(3)] x(2,3)] obtain e where e: "?st\<^sup>*\<^sup>* ?d e" "gen e = None" "\<not> sending e" by blast
  from sreach_stopped [OF e(1)] c(2,3) have q: "made e = [u]" "stopped e = True" "slog e = [(a, p, u, True)]" by simp_all
  have "?st\<^sup>*\<^sup>* (sstart (ds_queue x) (ds_net x) s2) e" using r e(1) by (rule rtranclp_trans)
  then have "source_run demo_csv (arr (ds_nodes x)) [u] True [(a, p, u, True)]" unfolding source_run_def
    by (intro exI [of _ fresh_os] exI [of _ fresh_win] exI [of _ demo_reuse] exI [of _ "[]"] exI [of _ "''C:''"] exI [of _ x] exI [of _ w1] exI [of _ s1]
        exI [of _ ?f] exI [of _ plain_time] exI [of _ b] exI [of _ s2] exI [of _ e] conjI fresh_os_ok(1) w fresh_win_ok(1,2) demo_names(1) x(1-4))
      (use e(2,3) q in simp_all)
  with c(4,5) show ?thesis by blast
qed

lemma demo_destination_run:
  assumes "carries cn [u]"
  shows "\<exists>v. view v = view u \<and> destination_run ''D1'' [v] [v] 0 (''1'' @ newline)"
proof -
  let ?f = "\<lambda>_ :: u64. []" and ?l = plain_time
  let ?st = "dstep ?f ?l"
  have "\<exists>x w1 s1. dd_setup 0 [''DataDestination.exe'', ''D1'', ''5001''] fresh_win fresh_os = Some (Runs x, w1, s1) \<and> oom s1 = []"
    by (simp add: dd_setup_def dd_create_def tsqueue_create_def queue_create_def strdup_def malloc_def fresh_os_def fresh_win_def
        call_fails_def new_handle_def CreateEventA_def)
  then obtain x w1 s1 where x: "dd_setup 0 [''DataDestination.exe'', ''D1'', ''5001''] fresh_win fresh_os = Some (Runs x, w1, s1)" "oom s1 = []"
    by blast
  note C = dd_setup_runs [OF fresh_win_ok(1) x(1), THEN conjunct1]
  from dd_create_spec [OF fresh_os_ok(1) C] have d: "dd_ok {} {} (dm_dd x) s1" "titems (dd_queue (dm_dd x)) = []" "warning_count (dm_dd x) = 0" by auto
  have o: "True \<notin> set (oom s1)" "9 \<notin> socks fresh_os" using x(2) by simp_all
  let ?c0 = "dstart 9 (dm_dd x) s1"
  let ?c1 = "?c0\<lparr>lst := Reading 7 cn, dheap := (dheap ?c0)\<lparr>socks := insert 7 (socks (dheap ?c0))\<rparr>\<rparr>"
  have sk: "socks s1 = {}" using dd_ok_os [OF d(1)] by simp
  have "(7 :: SOCKET) \<noteq> INVALID_SOCKET" by (simp add: INVALID_SOCKET_def)
  then have s1: "?st ?c0 ?c1" using sk by (intro dstep.accept) (auto simp: dstart_def)
  have "dall {} {} ?c0" by (rule dstart_dall [OF d o(1)]) simp
  from dstep_dall [OF s1 this] have i1: "dinv {} {} ?c1" by (simp add: dall_def dstart_def)
  from dd_read_all [OF i1 _ assms, of 7 ?f ?l] obtain c2 vs where c2: "?st\<^sup>*\<^sup>* ?c1 c2" "dinv {} {} c2" "lst c2 = Accepting" "received c2 = vs"
    "map view vs = [view u]" "dd_same ?c1 c2" by (auto simp: dstart_def)
  from c2(5) obtain v where v: "vs = [v]" "view v = view u" by auto
  have y: "dd_stage c2 = Active" "proc c2" "processed c2 = []" using c2(6) by (simp_all add: dd_same_def dstart_def)
  from c2(2) y obtain ws where "titems (dd_queue (dd c2)) = map Some ws" "received c2 = processed c2 @ ws" by (auto simp: dinv_def)
  then have t: "titems (dd_queue (dd c2)) = map Some [v] @ []" using y(3) c2(4) v(1) by simp
  from dd_process_all [OF c2(2) y(2) t, of ?f ?l] obtain c3 where c3: "?st\<^sup>*\<^sup>* c2 c3" "dinv {} {} c3" "processed c3 = [v]"
    "received c3 = [v]" "lst c3 = Accepting" "dd_stage c3 = Active" using y c2(3,4) v(1) by auto
  have r3: "?st\<^sup>*\<^sup>* ?c0 c3" using s1 c2(1) c3(1) by (meson converse_rtranclp_into_rtranclp rtranclp_trans)
  have "dd_listen_sock (dd c3) = Some 9" using dreach_listen [OF r3] by (simp add: dstart_def)
  from dd_completes [OF c3(2) _ this, of "[]" ?f ?l] c3(4-6) obtain c4 where c4: "?st\<^sup>*\<^sup>* c3 c4" "dd_stage c4 = Destroyed" "received c4 = [v]"
    "dgone {} {} c4" by (auto simp: to_come_def)
  have "warning_count (dd c3) = of_nat 1" using c3(2,3) by (simp add: dinv_def)
  moreover have "string_of_nat 1 = ''1''" by code_simp
  ultimately have "dd_report (\<lambda>_. True) ''D1'' (dd c3) = Some (count_file ''D1'', ''1'' @ newline)"
    using long_text_nat [of 1] by (simp add: dd_report_def)
  moreover have "processed c4 = [v]" using c4(3,4) by (simp add: dgone_def)
  ultimately have "destination_run ''D1'' [v] [v] 0 (''1'' @ newline)" unfolding destination_run_def
    by (intro exI [of _ fresh_os] exI [of _ "handles fresh_win"] exI [of _ fresh_win] exI [of _ "''DataDestination.exe''"] exI [of _ "''5001''"]
        exI [of _ x] exI [of _ w1] exI [of _ s1] exI [of _ 9] exI [of _ 0] exI [of _ ?f] exI [of _ ?l] exI [of _ c3] exI [of _ c4] conjI
        fresh_os_ok(1) fresh_win_ok(1) x(1) o r3 c4(1,2,3)) (simp_all add: c3(3))
  with v(2) show ?thesis by blast
qed

lemma demo_destinations: "destination_rows (file_rows demo_csv) = {1}"
proof -
  have "d \<in> destination_rows (file_rows demo_csv) \<longleftrightarrow> d = 1" for d
    using demo_shape(1) [of d] demo_shape(2-5) demo_context(5,8) by (auto simp: destination_rows_def)
  then show ?thesis by blast
qed


end
