(* ===== verification/TableTypes.thy ===== *)
theory TableTypes
  imports Dispatcher
begin

text \<open>
  Types of the tree of nodes: the C structures hold plain pointers to parents, children and strings.
  \<open>table_typed\<close> says what each of them has to be, and the lemmas show that the loader gives such a
  table for every file and that the searches only ever yield pointers to its nodes.
\<close>

section \<open>Well-typed tables\<close>

text \<open>
  A node: its strings are there, its parent is a node that has it as a child, each of its children is a
  node that has it as the parent and occurs once, and its type says which of the two it has.
\<close>

definition node_typed :: "NodeInfo list \<Rightarrow> nat \<Rightarrow> bool" where
  "node_typed ns i \<longleftrightarrow> nid (ns ! i) \<noteq> None \<and> naddress (ns ! i) \<noteq> None \<and>
     (case nparent (ns ! i) of None \<Rightarrow> True | Some p \<Rightarrow> p < length ns \<and> Some i \<in> set (children (ns ! p))) \<and>
     length (children (ns ! i)) = child_count (ns ! i) \<and> distinct (children (ns ! i)) \<and>
     (\<forall>c \<in> set (children (ns ! i)). case c of None \<Rightarrow> False | Some j \<Rightarrow> j < length ns \<and> nparent (ns ! j) = Some i) \<and>
     (ntype (ns ! i) = NODE_ROOT \<longleftrightarrow> nparent (ns ! i) = None) \<and>
     (ntype (ns ! i) = NODE_DESTINATION \<longleftrightarrow> nparent (ns ! i) \<noteq> None \<and> child_count (ns ! i) = 0)"

definition table_typed :: "NodeInfo list \<Rightarrow> bool" where
  "table_typed ns \<longleftrightarrow> (\<forall>i < length ns. node_typed ns i)"

lemma describes_typed:
  assumes "describes rs ns"
  shows "table_typed ns"
  unfolding table_typed_def
proof (intro allI impI)
  fix i assume i: "i < length ns"
  have len: "length ns = length rs" using assms by (simp add: describes_def)
  have row: "nparent (ns ! j) = row_parent rs j" "children (ns ! j) = map Some (row_children rs j)" "child_count (ns ! j) = length (row_children rs j)"
    if "j < length rs" for j using assms that by (simp_all add: describes_def)
  have ids: "nid (ns ! i) \<noteq> None" "naddress (ns ! i) \<noteq> None" using assms i len by (auto simp: describes_def)
  have ty: "ntype (ns ! i) = (if row_parent rs i = None then NODE_ROOT else if row_children rs i \<noteq> [] then NODE_CENTRAL else NODE_DESTINATION)"
    using assms i len by (simp add: describes_def)
  have kid: "j \<in> set (row_children rs p) \<longleftrightarrow> j < length rs \<and> row_parent rs j = Some p" for j p by (simp add: row_children_def)
  have "distinct (row_children rs i)" by (simp add: row_children_def)
  then show "node_typed ns i"
    using i len ids ty row [of i] row(1) row(2) kid row_parent_less [of i rs]
    by (auto simp: node_typed_def distinct_map split: option.splits)
qed

section \<open>Searches stay in the table\<close>

lemma typed_up: "table_typed ns \<Longrightarrow> i < length ns \<Longrightarrow> up ns i p \<Longrightarrow> p < length ns"
  by (auto simp: table_typed_def node_typed_def up_def split: option.splits)

lemma typed_below:
  assumes "below ns a i" "table_typed ns" "i < length ns"
  shows "a < length ns"
  using assms(1,3) by (induction rule: rtranclp_induct) (use typed_up [OF assms(2)] in blast)+

lemma find_root_iff: "find_root ns i = Some r \<longleftrightarrow> below ns r i \<and> nparent (ns ! r) = None"
proof
  assume "below ns r i \<and> nparent (ns ! r) = None"
  then have "below ns r i" "nparent (ns ! r) = None" by auto
  then show "find_root ns i = Some r"
    by (induction rule: converse_rtranclp_induct) (simp add: find_root.simps, simp add: up_def find_root.simps)
qed (rule find_root_Some)

lemma climb_below_Some:
  assumes "climb_below ns u i = Some h"
  shows "below ns h i \<and> (nparent (ns ! h) = None \<or> nparent (ns ! h) = Some u)"
proof (rule climb_below.raw_induct [where P = "\<lambda>ns u i h. below ns h i \<and> (nparent (ns ! h) = None \<or> nparent (ns ! h) = Some u)"
      and xa = "((ns, u), i)" and y = h, unfolded prod.case, OF _ assms])
  fix f ns u n r
  assume IH: "\<And>ns u n r. f ns u n = Some r \<Longrightarrow> below ns r n \<and> (nparent (ns ! r) = None \<or> nparent (ns ! r) = Some u)"
    and e: "(case nparent (ns ! n) of None \<Rightarrow> Some n | Some p \<Rightarrow> if p \<noteq> u then f ns u p else Some n) = Some r"
  show "below ns r n \<and> (nparent (ns ! r) = None \<or> nparent (ns ! r) = Some u)"
  proof (cases "nparent (ns ! n)")
    case (Some p)
    show ?thesis
    proof (cases "p = u")
      case False
      with e Some IH [of ns u p r] have "below ns r p" "nparent (ns ! r) = None \<or> nparent (ns ! r) = Some u" by auto
      moreover have "up ns n p" using Some by (simp add: up_def)
      ultimately show ?thesis by (simp add: converse_rtranclp_into_rtranclp)
    qed (use e Some in simp)
  qed (use e in simp)
qed

lemma node_find_typed:
  assumes "table_typed ns"
  shows "\<exists>r. node_find_by_id ns str s = (r, s) \<and> (case r of None \<Rightarrow> True | Some i \<Rightarrow> i < length ns)"
proof -
  have "\<forall>n \<in> set ns. nid n \<noteq> None" using assms by (auto simp: table_typed_def node_typed_def in_set_conv_nth)
  from node_find_from_spec [OF this, of 0 str s] show ?thesis by (auto simp: node_find_by_id_def split: option.splits)
qed

section \<open>Files and termination\<close>

text \<open>The chains of parents of a file, row by row.\<close>

lemma row_climb_mono: "row_climb k rs i \<Longrightarrow> k \<le> l \<Longrightarrow> row_climb l rs i"
proof (induction k arbitrary: i l)
  case (Suc k)
  from Suc.prems(2) obtain l' where "l = Suc l'" "k \<le> l'" by (cases l) auto
  with Suc show ?case by (auto split: option.splits)
qed simp

lemma row_climb_steps: "row_climb k rs i \<longleftrightarrow> (\<exists>n < k. \<exists>r. (up ns ^^ n) i r \<and> nparent (ns ! r) = None)"
  if "describes rs ns" "i < length rs"
  using that(2)
proof (induction k arbitrary: i)
  case (Suc k)
  have par: "nparent (ns ! i) = row_parent rs i" using that(1) Suc.prems by (simp add: describes_def)
  show ?case
  proof (cases "row_parent rs i")
    case None
    then have "(up ns ^^ 0) i i \<and> nparent (ns ! i) = None" using par by simp
    with None show ?thesis by auto
  next
    case (Some p)
    then have par1: "up ns i q \<longleftrightarrow> q = p" for q using par by (auto simp: up_def)
    have "(\<exists>n < Suc k. \<exists>r. (up ns ^^ n) i r \<and> nparent (ns ! r) = None) \<longleftrightarrow> (\<exists>n < k. \<exists>r. (up ns ^^ n) p r \<and> nparent (ns ! r) = None)"
    proof
      assume "\<exists>n < Suc k. \<exists>r. (up ns ^^ n) i r \<and> nparent (ns ! r) = None"
      then obtain n r where n: "n < Suc k" "(up ns ^^ n) i r" "nparent (ns ! r) = None" by blast
      have "n \<noteq> 0" using n(2,3) Some par by (auto intro: ccontr)
      then obtain n' where "n = Suc n'" by (cases n) auto
      with n show "\<exists>n < k. \<exists>r. (up ns ^^ n) p r \<and> nparent (ns ! r) = None" using par1 by (metis Suc_less_eq relpowp_Suc_E2)
    next
      assume "\<exists>n < k. \<exists>r. (up ns ^^ n) p r \<and> nparent (ns ! r) = None"
      then obtain n r where "n < k" "(up ns ^^ n) p r" "nparent (ns ! r) = None" by blast
      moreover have "up ns i p" using par1 by blast
      ultimately show "\<exists>n < Suc k. \<exists>r. (up ns ^^ n) i r \<and> nparent (ns ! r) = None"
        by (intro exI [of _ "Suc n"] conjI exI [of _ r]) (simp, rule relpowp_Suc_I2)
    qed
    with Suc.IH [OF row_parent_less [OF Suc.prems Some]] Some show ?thesis by simp
  qed
qed simp

lemma root_steps:
  assumes "(up ns ^^ n) i r" "nparent (ns ! r) = None" "(up ns ^^ m) i r'" "nparent (ns ! r') = None"
  shows "n = m"
  using assms(1,3)
proof (induction n arbitrary: i m)
  case 0
  then have e: "i = r" by simp
  show ?case
  proof (cases m)
    case (Suc k)
    with 0(2) e obtain q where "up ns r q" using relpowp_Suc_D2 by metis
    with assms(2) show ?thesis by (simp add: up_def)
  qed simp
next
  case (Suc n)
  from relpowp_Suc_D2 [OF Suc.prems(1)] obtain p where p: "up ns i p" "(up ns ^^ n) p r" by blast
  show ?case
  proof (cases m)
    case 0
    with Suc.prems(2) p(1) assms(4) show ?thesis by (simp add: up_def)
  next
    case (Suc k)
    with Suc.prems(2) obtain q where "up ns i q" "(up ns ^^ k) q r'" using relpowp_Suc_D2 by metis
    with p Suc.IH [of p k] up_unique [of ns i p q] Suc show ?thesis by simp
  qed
qed

lemma root_near:
  assumes "table_typed ns" "i < length ns" "(up ns ^^ n) i r" "nparent (ns ! r) = None"
  shows "n < length ns"
proof -
  have "\<exists>x. (up ns ^^ k) i x \<and> (up ns ^^ (n - k)) x r" if "k \<le> n" for k
    using assms(3) relpowp_add [of k "n - k" "up ns"] that by (auto simp: relcompp.simps)
  then obtain f where f: "\<And>k. k \<le> n \<Longrightarrow> (up ns ^^ k) i (f k) \<and> (up ns ^^ (n - k)) (f k) r" by metis
  have "inj_on f {..n}"
  proof (rule inj_onI)
    fix k l assume k: "k \<in> {..n}" "l \<in> {..n}" "f k = f l"
    then have "n - k = n - l" using root_steps [OF _ assms(4) _ assms(4)] f by (metis atMost_iff)
    with k show "k = l" by simp
  qed
  moreover have "f ` {..n} \<subseteq> {..<length ns}"
    using f typed_below [OF relpowp_imp_rtranclp assms(1,2)] by auto
  ultimately have "card {..n} \<le> card {..<length ns}" by (intro card_inj_on_le) simp_all
  then show ?thesis by simp
qed

section \<open>Properties\<close>

text \<open>
  C7. Types of the table: for every file, also one with cycles, repeated ids or unknown parents, the table that
  \<open>node_load_all\<close> returns is well-typed (no null string, parents and children are nodes of the table
  and each other's inverse, counts and node types agree), and in it the searches
  are type-safe: the search for an id reads no null string and yields a node or nothing, \<open>find_root\<close>
  yields a node of type root, and the climb of the dispatcher yields a node.
\<close>

theorem tables_well_typed:
  assumes "os_ok s" "True \<notin> set (oom s)" "length (file_rows cs) < 2 ^ 19"
  shows "\<exists>na s'. node_load_all (Some cs) s = (Some na, s') \<and> table_typed (arr na) \<and>
    (\<forall>str t. \<exists>r. node_find_by_id (arr na) str t = (r, t) \<and> (case r of None \<Rightarrow> True | Some i \<Rightarrow> i < length (arr na))) \<and>
    (\<forall>i r. i < length (arr na) \<and> find_root (arr na) i = Some r \<longrightarrow> r < length (arr na) \<and> ntype (arr na ! r) = NODE_ROOT) \<and>
    (\<forall>u i h. i < length (arr na) \<and> climb_below (arr na) u i = Some h \<longrightarrow>
       h < length (arr na) \<and> (ntype (arr na ! h) = NODE_ROOT \<or> Some h \<in> set (children (arr na ! u))))"
proof -
  from node_load_all_spec [OF assms] obtain na s' where na: "node_load_all (Some cs) s = (Some na, s')" "describes (file_rows cs) (arr na)" by blast
  note ty = describes_typed [OF na(2)]
  have r: "r < length (arr na) \<and> ntype (arr na ! r) = NODE_ROOT" if "i < length (arr na)" "find_root (arr na) i = Some r" for i r
    using that typed_below [OF _ ty that(1)] ty by (auto simp: find_root_iff table_typed_def node_typed_def)
  have h: "h < length (arr na) \<and> (ntype (arr na ! h) = NODE_ROOT \<or> Some h \<in> set (children (arr na ! u)))"
    if "i < length (arr na)" "climb_below (arr na) u i = Some h" for u i h
  proof -
    from climb_below_Some [OF that(2)] typed_below [OF _ ty that(1)] have "h < length (arr na)" "nparent (arr na ! h) = None \<or> nparent (arr na ! h) = Some u"
      by blast+
    with ty show ?thesis by (auto simp: table_typed_def node_typed_def)
  qed
  show ?thesis using na(1) ty node_find_typed [OF ty] r h by blast
qed

text \<open>
  C8. Exactly the files without cycles are safe: \<open>find_root\<close> returns the node without a parent above its
  argument when there is one and runs for ever otherwise, and on the table of a file it returns for
  every node if and only if the parent columns of the file form no cycle.
\<close>

theorem find_root_returns_iff:
  assumes "describes (file_rows cs) ns"
  shows "(\<forall>i r. find_root ns i = Some r \<longleftrightarrow> below ns r i \<and> nparent (ns ! r) = None) \<and>
    ((\<forall>i < length ns. find_root ns i \<noteq> None) \<longleftrightarrow> acyclic_rows (file_rows cs))"
proof -
  have len: "length ns = length (file_rows cs)" using assms by (simp add: describes_def)
  have "find_root ns i \<noteq> None \<longleftrightarrow> row_climb (length (file_rows cs)) (file_rows cs) i" if i: "i < length ns" for i
  proof -
    have "find_root ns i \<noteq> None \<longleftrightarrow> (\<exists>n r. (up ns ^^ n) i r \<and> nparent (ns ! r) = None)"
      using find_root_iff [of ns i] by (metis not_None_eq relpowp_imp_rtranclp rtranclp_imp_relpowp)
    also have "\<dots> \<longleftrightarrow> (\<exists>n < length (file_rows cs). \<exists>r. (up ns ^^ n) i r \<and> nparent (ns ! r) = None)"
      using root_near [OF describes_typed [OF assms] i] len by auto
    finally show ?thesis using row_climb_steps [OF assms i [unfolded len]] by simp
  qed
  then show ?thesis using find_root_iff len unfolding acyclic_rows_def by auto
qed

section \<open>Witnesses\<close>

theorem tables_well_typed_witness:
  "\<exists>na s' r. node_load_all (Some demo_csv) fresh_os = (Some na, s') \<and> table_typed (arr na) \<and> length (arr na) = 3 \<and>
     node_find_by_id (arr na) ''D1'' s' = (r, s')"
proof -
  have "length (file_rows demo_csv) < 2 ^ 19" by (simp add: demo_rows)
  with tables_well_typed [OF fresh_os_ok(1), of demo_csv] obtain na s' where n: "node_load_all (Some demo_csv) fresh_os = (Some na, s')" "table_typed (arr na)"
    "\<forall>str t. \<exists>r. node_find_by_id (arr na) str t = (r, t) \<and> (case r of None \<Rightarrow> True | Some i \<Rightarrow> i < length (arr na))" by auto
  from node_load_all_spec [OF fresh_os_ok(1) _ demo_context(1)] n(1) have "describes (file_rows demo_csv) (arr na)" by auto
  then have "length (arr na) = 3" by (simp add: describes_def demo_rows)
  with n show ?thesis by blast
qed

text \<open>A file whose two rows are each other's parent.\<close>

definition cyclic_csv :: string where
  "cyclic_csv = ''A,h,1,B'' @ [CHR 0x0A] @ ''B,h,2,A''"

theorem find_root_returns_iff_witness:
  "\<exists>na s'. node_load_all (Some cyclic_csv) fresh_os = (Some na, s') \<and> \<not> (\<forall>i < length (arr na). find_root (arr na) i \<noteq> None)"
proof -
  have rows: "file_rows cyclic_csv = [(''A'', ''h'', ''1'', Some ''B''), (''B'', ''h'', ''2'', Some ''A'')]" by code_simp
  have "length (file_rows cyclic_csv) < 2 ^ 19" unfolding rows by simp
  from node_load_all_spec [OF fresh_os_ok(1) _ this] obtain na s' where na: "node_load_all (Some cyclic_csv) fresh_os = (Some na, s')"
    "describes (file_rows cyclic_csv) (arr na)" by auto
  have "\<not> acyclic_rows (file_rows cyclic_csv)" unfolding rows by code_simp
  with find_root_returns_iff [OF na(2)] na(1) show ?thesis by blast
qed

end
