(* ===== verification/TableFile.thy ===== *)
theory TableFile
  imports TableTypes
begin

text \<open>
  Files for the loader of \<open>Common/node.c\<close>: how a table is written as \<open>nodes.csv\<close>, and that reading such a
  file with \<open>fgets\<close> and \<open>strtok\<close> gives the table back.
\<close>

section \<open>Writing rows\<close>

text \<open>A field has no separator and is not empty: \<open>strtok\<close> skips empty fields.\<close>

definition clean_field :: "string \<Rightarrow> bool" where
  "clean_field str \<longleftrightarrow> str \<noteq> [] \<and> (\<forall>c \<in> set str. c \<noteq> CHR '','' \<and> c \<noteq> CHR 0x0A \<and> c \<noteq> CHR 0x0D \<and> c \<noteq> NUL)"

definition row_line :: "row \<Rightarrow> string" where
  "row_line r = (case r of (i0, addr, ps, pid) \<Rightarrow>
     i0 @ '','' @ addr @ '','' @ ps @ (case pid of None \<Rightarrow> [] | Some p \<Rightarrow> '','' @ p))"

text \<open>A row that fits into the buffer of 512 bytes, with its newline.\<close>

definition clean_row :: "row \<Rightarrow> bool" where
  "clean_row r \<longleftrightarrow> (case r of (i0, addr, ps, pid) \<Rightarrow>
     clean_field i0 \<and> clean_field addr \<and> clean_field ps \<and> (case pid of None \<Rightarrow> True | Some p \<Rightarrow> clean_field p)) \<and>
     length (row_line r) < 511"

definition csv_of :: "row list \<Rightarrow> string" where
  "csv_of rs = concat (map (\<lambda>r. row_line r @ [CHR 0x0A]) rs)"

section \<open>Reading them\<close>

lemma strtok_field:
  assumes "clean_field a"
  shows "strtok CHR '','' (a @ CHR '','' # r) = Some (a, r)" "strtok CHR '','' a = Some (a, [])"
proof -
  obtain c t where a: "a = c # t" "c \<noteq> CHR '',''" "\<forall>x \<in> set t. x \<noteq> CHR '',''" using assms by (cases a) (auto simp: clean_field_def)
  have "takeWhile (\<lambda>x. x \<noteq> CHR '','') (t @ CHR '','' # r) = t" "dropWhile (\<lambda>x. x \<noteq> CHR '','') (t @ CHR '','' # r) = CHR '','' # r"
    using a(3) by (simp_all add: takeWhile_append dropWhile_append)
  with a show "strtok CHR '','' (a @ CHR '','' # r) = Some (a, r)" by (simp add: strtok_def)
  have "takeWhile (\<lambda>x. x \<noteq> CHR '','') t = t" "dropWhile (\<lambda>x. x \<noteq> CHR '','') t = []" using a(3) by (simp_all add: takeWhile_eq_all_conv dropWhile_eq_Nil_conv)
  then show "strtok CHR '','' a = Some (a, [])" using a(1,2) by (simp add: strtok_def del: dropWhile_eq_Nil_conv drop_eq_Nil)
qed

lemma fgets_take_line:
  assumes "length l < n" "CHR 0x0A \<notin> set l"
  shows "fgets_take n (l @ CHR 0x0A # rest) = (l @ [CHR 0x0A], rest)"
  using assms
proof (induction l arbitrary: n)
  case Nil
  then show ?case by (cases n) simp_all
next
  case (Cons c l)
  then obtain n' where "n = Suc n'" "length l < n'" by (cases n) auto
  with Cons show ?case by auto
qed

lemma clean_line:
  assumes "clean_row r"
  shows "CHR 0x0A \<notin> set (row_line r)" "NUL \<notin> set (row_line r)" "row_line r \<noteq> []"
proof -
  obtain i0 addr ps pid where r: "r = (i0, addr, ps, pid)" by (cases r)
  have f: "clean_field i0" "clean_field addr" "clean_field ps" "pid \<noteq> None \<longrightarrow> clean_field (the pid)"
    using assms r by (auto simp: clean_row_def split: option.splits)
  have n: "CHR 0x0A \<notin> set a" "NUL \<notin> set a" if "clean_field a" for a using that unfolding clean_field_def by blast+
  show "CHR 0x0A \<notin> set (row_line r)" "NUL \<notin> set (row_line r)" "row_line r \<noteq> []"
    using f n unfolding r row_line_def by (cases pid; simp)+
qed

lemma parse_clean:
  assumes "clean_row r"
  shows "parse_line (row_line r @ [CHR 0x0A]) = Some r"
proof -
  obtain i0 addr ps pid where r: "r = (i0, addr, ps, pid)" by (cases r)
  have "is_cstr (row_line r @ [CHR 0x0A])" using clean_line(2) [OF assms] by (simp add: is_cstr_def)
  then have "strip_eol (c_str (row_line r @ [CHR 0x0A])) = row_line r" by (simp add: strip_eol_def)
  moreover have "clean_field i0" "clean_field addr" "clean_field ps" "pid \<noteq> None \<longrightarrow> clean_field (the pid)"
    using assms r by (auto simp: clean_row_def split: option.splits)
  ultimately show ?thesis unfolding parse_line_def r
    by (cases pid) (simp_all add: row_line_def strtok_field, simp add: strtok_def)
qed

lemma file_rows_csv:
  assumes "\<forall>r \<in> set rs. clean_row r"
  shows "file_rows (csv_of rs) = rs"
  using assms
proof (induction rs)
  case Nil
  then show ?case by (simp add: csv_of_def file_rows.simps [of "[]"] fgets_def)
next
  case (Cons r rs)
  have c: "clean_row r" using Cons.prems by simp
  have e: "csv_of (r # rs) = row_line r @ CHR 0x0A # csv_of rs" by (simp add: csv_of_def)
  have "length (row_line r) < 511" using c by (simp add: clean_row_def)
  from fgets_take_line [OF this clean_line(1) [OF c]] have "fgets 512 (csv_of (r # rs)) = Some (row_line r @ [CHR 0x0A], csv_of rs)"
    unfolding e by (simp add: fgets_def)
  with parse_clean [OF c] Cons show ?case by (simp add: file_rows.simps [of "csv_of (r # rs)"])
qed

section \<open>Property\<close>

text \<open>
  C28. What is written is read: for every list of rows without separators in their fields and short enough
  for the line buffer, the loader reads the file that has these rows as lines back as exactly these rows,
  each once and in order, and builds the table that they describe; so every tree
  with such ids and addresses has a file.
\<close>

theorem table_file_roundtrip:
  assumes "\<forall>r \<in> set rs. clean_row r" "length rs < 2 ^ 19" "os_ok s" "True \<notin> set (oom s)"
  shows "file_rows (csv_of rs) = rs \<and> (\<exists>na s'. node_load_all (Some (csv_of rs)) s = (Some na, s') \<and> os_ok s' \<and>
    length (arr na) = length rs \<and> describes rs (arr na))"
proof -
  note R = file_rows_csv [OF assms(1)]
  have "length (file_rows (csv_of rs)) < 2 ^ 19" using assms(2) R by simp
  from node_load_all_spec [OF assms(3,4) this] obtain na s' where "node_load_all (Some (csv_of rs)) s = (Some na, s')"
    "describes (file_rows (csv_of rs)) (arr na)" "holds (live s) (socks s) (nodes_blks (arr na) @ [arr_blk na]) s'" by blast
  with R show ?thesis by (auto simp: describes_def holds_def)
qed

theorem table_file_roundtrip_witness:
  "\<exists>na s'. node_load_all (Some (csv_of [(''A'', ''h'', ''1'', None), (''B'', ''h'', ''2'', Some ''A'')])) fresh_os = (Some na, s') \<and>
     describes [(''A'', ''h'', ''1'', None), (''B'', ''h'', ''2'', Some ''A'')] (arr na)"
proof -
  let ?rs = "[(''A'', ''h'', ''1'', None), (''B'', ''h'', ''2'', Some ''A'')]"
  have "\<forall>r \<in> set ?rs. clean_row r" by (simp add: clean_row_def clean_field_def row_line_def)
  with table_file_roundtrip [of ?rs fresh_os] show ?thesis by auto
qed

end
