(* ===== verification/LateTask.thy ===== *)
theory LateTask
  imports ThreadPool
begin

text \<open>
  The gap between the test of \<open>shutting_down\<close> in \<open>tp_submit\<close> and its insertion
  (\<open>CentralPropagator/thread_pool.c\<close>): what happens to a client that is in the gap when the pool is shut down.
\<close>

section \<open>Steps of the shutdown\<close>

text \<open>No more NULL items than workers.\<close>

definition closing_ok :: "nat \<Rightarrow> ('f, 'a) psys \<Rightarrow> bool" where
  "closing_ok n c \<longleftrightarrow> thread_count (pool c) = n \<and> (case stage c of Closing j \<Rightarrow> j \<le> n | _ \<Rightarrow> True)"

lemma closing_step:
  assumes "pstep c c'" "closing_ok n c"
  shows "closing_ok n c'"
  using assms(1)
proof (cases rule: pstep.cases)
  case worker
  then show ?thesis using assms(2) by (auto simp: closing_ok_def elim!: wstepE)
next
  case (submit_rest j f a r p s new)
  then have "thread_count p = thread_count (pool c)" by (auto simp: tp_submit_rest_def split: prod.splits option.splits)
  with submit_rest(1) assms(2) show ?thesis by (simp add: closing_ok_def)
qed (use assms(2) in \<open>simp_all add: closing_ok_def\<close>)

lemma closing_reach: "pstep\<^sup>*\<^sup>* c c' \<Longrightarrow> closing_ok n c \<Longrightarrow> closing_ok n c'"
  by (induction rule: rtranclp_induct) (auto dest: closing_step)

lemma somes_replicate_None: "somes (replicate n None) = []"
  by (induction n) simp_all

lemma sentinels_follow:
  assumes "pool_inv L k n c" "stage c = Closing j" "j \<le> n"
  shows "\<exists>c'. pstep\<^sup>*\<^sup>* c c' \<and> stage c' = Closing n \<and> enqueued c' = enqueued c @ replicate (n - j) None \<and> clients c' = clients c"
  using assms
proof (induction "n - j" arbitrary: c j)
  case 0
  then show ?case by (intro exI [of _ c]) simp
next
  case (Suc d)
  from Suc.prems have m: "pool_mem L c" "thread_count (pool c) = n" by (auto simp: pool_inv_def)
  have j: "j < n" "d = n - (j + 1)" using Suc.hyps(2) by simp_all
  from m(1) have "tcapacity (pqueue (pool c)) = 0" by (simp add: pool_mem_def)
  from enqueue_unbounded [OF this, of None "pheap c"] obtain r q s where e: "tsqueue_enqueue (pqueue (pool c)) None (pheap c) = Some (r, q, s)" by blast
  from sentinel_spec [OF m(1) e] have r: "r = 0" by simp
  let ?c = "c\<lparr>pool := (pool c)\<lparr>pqueue := q\<rparr>, pheap := s, stage := Closing (j + 1), enqueued := enqueued c @ [None]\<rparr>"
  have st: "pstep c ?c" using pstep.sentinel [OF Suc.prems(2) _ e] j(1) m(2) r by simp
  note i = pstep_inv [OF st Suc.prems(1)]
  have "stage ?c = Closing (j + 1)" "j + 1 \<le> n" using j(1) by simp_all
  from Suc.hyps(1) [OF j(2) i this] obtain c' where "pstep\<^sup>*\<^sup>* ?c c'" "stage c' = Closing n"
    "enqueued c' = enqueued ?c @ replicate (n - (j + 1)) None" "clients c' = clients ?c" by blast
  moreover have "n - j = Suc (n - (j + 1))" using j(1) by simp
  ultimately show ?case using st by (intro exI [of _ c'] conjI) (simp_all add: converse_rtranclp_into_rtranclp)
qed

lemma wreach_frame: "wstep\<^sup>*\<^sup>* c c' \<Longrightarrow> clients c' = clients c \<and> stage c' = stage c \<and> enqueued c' = enqueued c \<and> length (workers c') = length (workers c)"
  by (induction rule: rtranclp_induct) (auto elim: wstepE)

lemma wreach_preach: "wstep\<^sup>*\<^sup>* c c' \<Longrightarrow> pstep\<^sup>*\<^sup>* c c'"
  by (induction rule: rtranclp_induct) (auto intro: rtranclp.rtrancl_into_rtrancl pstep.worker)

section \<open>Property\<close>

text \<open>
  C39. A task that \<open>tp_submit\<close> accepts can be dropped: in every reachable state in which the shutdown has
  begun while a client is between the test of \<open>shutting_down\<close> and the insertion, the pool can be
  shut down completely in such a way that the task of that client is queued after the NULL items:
  no worker ever runs it, and the clean-up frees it with the queue, so that nobody owns its argument any more.
\<close>

theorem accepted_task_dropped:
  assumes "os_ok s" "True \<notin> set (oom s)" "tp_create n s = Some (Some p, s1)" "0 < k" "k \<le> n"
    and "pstep\<^sup>*\<^sup>* (pstart k m p s1) c" "stage c = Closing j" "i < length (clients c)" "clients c ! i = Tested f a"
  shows "\<exists>c' t. pstep\<^sup>*\<^sup>* c c' \<and> stage c' = Freed \<and> fn t = f \<and> arg t = a \<and>
    enqueued c' = enqueued c @ replicate (n - j) None @ [Some t] \<and>
    mset (executed c') \<subseteq># mset (map job (somes (enqueued c))) \<and> os_ok (pheap c') \<and> live (pheap c') = live s"
proof -
  note i0 = preach_inv [OF assms(6) pool_mem_start [OF assms(1-3)]]
  have "closing_ok n (pstart k m p s1)" using assms(3)
    by (auto simp: closing_ok_def pstart_def tp_create_def split: prod.splits option.splits)
  from closing_reach [OF assms(6) this] assms(7) have j: "j \<le> n" by (simp add: closing_ok_def)
  from sentinels_follow [OF i0 assms(7) j] obtain d where d: "pstep\<^sup>*\<^sup>* c d" "stage d = Closing n" "enqueued d = enqueued c @ replicate (n - j) None"
    "clients d = clients c" by blast
  from preach_inv [OF d(1) i0] d(2) have i1: "pool_mem (live s) d" "pool_hist d" "length (workers d) = k" "thread_count (pool d) = n"
    by (simp_all add: pool_inv_def)
  have "length (workers d) \<le> n" using i1(3) assms(5) by simp
  from workers_finish [OF i1(1,2) d(2) this] obtain e where e: "wstep\<^sup>*\<^sup>* d e" "\<forall>w \<in> set (workers e). w = Exited" "pool_mem (live s) e" "pool_hist e" by blast
  note F = wreach_frame [OF e(1)]
  have "workers e \<noteq> []" using F i1(3) assms(4) by auto
  from drained [OF e(4,2) this] F d(3) have ex: "mset (executed e) \<subseteq># mset (map job (somes (enqueued c)))"
    by (simp add: somes_replicate_None)
  from e(3) have "tcapacity (pqueue (pool e)) = 0" by (simp add: pool_mem_def)
  from submit_rest_returns [OF this, of f a "pheap e"] obtain r p' s' where r: "tp_submit_rest (pool e) f a (pheap e) = Some (r, p', s')" by blast
  from submit_rest_spec [OF e(3) r] obtain t where t: "fn t = f" "arg t = a" "titems (pqueue p') = titems (pqueue (pool e)) @ [Some t]"
    "thread_count p' = thread_count (pool e)" "pool_mem (live s) (e\<lparr>pool := p', pheap := s'\<rparr>)" by blast
  let ?g = "e\<lparr>pool := p', pheap := s', clients := (clients e)[i := Outside], enqueued := enqueued e @ [Some t]\<rparr>"
  have st: "pstep e ?g" by (rule pstep.submit_rest [of i e f a r p' s']) (use F d(2,4) assms(8,9) r t(3) in simp_all)
  from preach_inv [OF wreach_preach [OF e(1)] preach_inv [OF d(1) i0]] F d(2) have tc: "thread_count (pool e) = n" by (simp add: pool_inv_def)
  have "pool_mem (live s) ?g" using t(5) pool_mem_cong [of ?g "e\<lparr>pool := p', pheap := s'\<rparr>" "live s"] by simp
  from tp_free_spec [OF this] e(2) obtain s2 where s2: "tp_free (pool ?g) (pheap ?g) = Some s2" "live s2 = live s" "os_ok s2" by auto
  let ?h = "?g\<lparr>pheap := s2, stage := Freed\<rparr>"
  have "pstep ?g ?h" by (rule pstep.join) (use F d(2) t(4) tc e(2) s2(1) in simp_all)
  then have "pstep\<^sup>*\<^sup>* c ?h" using d(1) wreach_preach [OF e(1)] st by (meson rtranclp.rtrancl_into_rtrancl rtranclp_trans)
  then show ?thesis using t(1,2) F d(3) ex s2(2,3) by (intro exI [of _ ?h] exI [of _ t]) simp
qed

theorem accepted_task_dropped_witness:
  "\<exists>(p :: (nat, nat) ThreadPool) s1 c c' t. tp_create 1 fresh_os = Some (Some p, s1) \<and> pstep\<^sup>*\<^sup>* (pstart 1 1 p s1) c \<and> pstep\<^sup>*\<^sup>* c c' \<and>
     stage c' = Freed \<and> enqueued c' = [None, Some t] \<and> arg t = 8 \<and> executed c' = []"
proof -
  obtain p :: "(nat, nat) ThreadPool" and s1 where p: "tp_create 1 fresh_os = Some (Some p, s1)"
    using tp_create_succeeds [of fresh_os 1] by auto
  let ?c0 = "pstart 1 1 p s1" and ?c1 = "(pstart 1 1 p s1)\<lparr>clients := [Tested 7 8]\<rparr>"
  let ?c2 = "?c1\<lparr>pool := (pool ?c1)\<lparr>shutting_down := True\<rparr>, stage := Closing 0\<rparr>"
  have sd: "shutting_down p = False" using p by (auto simp: tp_create_def split: prod.splits option.splits)
  have "pstep ?c0 ?c1" using pstep.submit_test [of 0 ?c0 7 8] sd by (simp add: pstart_def tp_submit_test_def)
  moreover have "pstep ?c1 ?c2" by (rule pstep.shutdown) (simp add: pstart_def)
  ultimately have r: "pstep\<^sup>*\<^sup>* ?c0 ?c2" by (meson r_into_rtranclp rtranclp.rtrancl_into_rtrancl)
  have "stage ?c2 = Closing 0" "0 < length (clients ?c2)" "clients ?c2 ! 0 = Tested 7 8" by simp_all
  from accepted_task_dropped [OF fresh_os_ok(1) _ p _ _ r this] obtain c' t where
    "pstep\<^sup>*\<^sup>* ?c2 c'" "stage c' = Freed" "arg t = 8" "enqueued c' = [None, Some t]" "mset (executed c') \<subseteq># {#}" by (auto simp: pstart_def)
  with p r show ?thesis by (intro exI [of _ p] exI [of _ s1] exI [of _ ?c2] exI [of _ c'] exI [of _ t]) simp
qed

end
