(* ===== verification/ProgramEnds.thy ===== *)
theory ProgramEnds
  imports PropagatorMain DestinationMain
begin

text \<open>
  How the programs end: what is left of \<open>main\<close> in \<open>CentralPropagator/main.c\<close>,
  \<open>DataDestination/main.c\<close> and \<open>DataSource/main.c\<close> around the log of a debug build, and the join of
  the listener in \<open>CentralPropagator/cp_thread.c\<close>, which no program calls.
\<close>

section \<open>Operations\<close>

text \<open>The log is opened in a debug build only.\<close>

definition ds_open_log :: "bool \<Rightarrow> bool \<Rightarrow> bool \<Rightarrow> bool \<Rightarrow> (string \<Rightarrow> bool) \<Rightarrow> FILE option" where
  "ds_open_log debug there mkdir_ok create_ok opens =
     (if debug then setup_debug_memory_log there mkdir_ok create_ok opens ''DataSource'' else None)"

text \<open>The end of a propagator, after \<open>connections_cleanup\<close>: the statistics, the log, the exit event.\<close>

definition cp_end :: "cpmain \<Rightarrow> FILE option \<Rightarrow> CrtMemState \<Rightarrow> CrtMemState \<Rightarrow> CrtMemState \<Rightarrow> bool \<Rightarrow> string \<Rightarrow> u64 \<Rightarrow> win \<Rightarrow> FILE option \<times> win" where
  "cp_end x logFile s1 s2 sDiff different objects working_set w =
     (end_log logFile s1 s2 sDiff different objects working_set, CloseHandle (cm_event x) w)"

text \<open>The end of a destination: \<open>dd_destroy\<close> closes its threads before.\<close>

definition dd_end :: "ddmain \<Rightarrow> FILE option \<Rightarrow> CrtMemState \<Rightarrow> CrtMemState \<Rightarrow> CrtMemState \<Rightarrow> bool \<Rightarrow> string \<Rightarrow> u64 \<Rightarrow> win \<Rightarrow> FILE option \<times> win" where
  "dd_end x logFile s1 s2 sDiff different objects working_set w =
     (end_log logFile s1 s2 sDiff different objects working_set, dd_close x w)"

text \<open>Waiting for the listener: \<open>ended\<close> says whether its thread has ended, \<open>None\<close>: the wait goes on.\<close>

definition cp_join_listener_thread :: "bool \<Rightarrow> HANDLE option \<Rightarrow> win \<Rightarrow> win option" where
  "cp_join_listener_thread ended hListener w =
     (case hListener of
        None \<Rightarrow> Some w
      | Some h \<Rightarrow> if ended then Some (CloseHandle h w) else None)"

section \<open>Lemmas\<close>

lemma cp_setup_handles:
  assumes "wholds H [] w" "cp_setup True [prog, str, port] csv t w s = Some (Some x, t1, w1, s1)"
  shows "wholds H [(cm_listener x, Thread 0), (cm_event x, Event (event_name ''CP_Exit_'' str))] w1"
proof -
  from assms(2) obtain t' sc ev w2 ctx s0 d sd where e: "CreateEventA (event_name ''CP_Exit_'' str) w = (Some ev, w2)"
    "cp_start_listener ctx (word_of_int (atoi port)) d ev w2 sd = Some (Some x, w1, s1)"
    by (auto simp: cp_setup_def split: prod.splits option.splits)
  note N = CreateEventA_spec [OF assms(1) e(1)]
  from e(2) obtain b wb hl where b: "call_fails w2 = (b, wb)" "new_handle (Thread 0) wb = (hl, w1)" "cm_event x = ev" "cm_listener x = hl"
    by (auto simp: cp_start_listener_def split: prod.splits option.splits)
  from wholds_new [OF call_fails_frame(1) [OF b(1) conjunct1 [OF N]] b(2)] b(3,4) show ?thesis by simp
qed

text \<open>The wait closes the handles of both threads, whether or not the waiter could be created.\<close>

lemma cp_await_handles:
  assumes "wholds H ((cm_listener x, Thread 0) # X) w" "(cm_event x, Event name) \<in> set X" "cp_await x w = Some w'"
  shows "wholds H X w'"
proof -
  obtain b w1 where c: "call_fails w = (b, w1)" by force
  note F = call_fails_frame(1) [OF c assms(1)]
  show ?thesis
  proof (cases b)
    case True
    with assms(3) c have "w' = CloseHandle (cm_listener x) w1" by (simp add: cp_await_def)
    with wholds_close(1) [OF F] show ?thesis by simp
  next
    case False
    obtain hs w2 where n: "new_handle (Thread 0) w1 = (hs, w2)" by force
    note N = conjunct1 [OF wholds_new [OF F n]]
    have "handles w2 (cm_event x) = Some (Event name)" by (rule wholds_mem [OF N]) (use assms(2) in simp)
    from waiter_returns [OF this] assms(3) c n False have "w' = CloseHandle (cm_listener x) (CloseHandle hs w2)"
      by (auto simp: cp_await_def split: if_splits option.splits)
    with wholds_close(1) [OF wholds_close(1) [OF N]] show ?thesis by simp
  qed
qed

lemma end_log_open:
  assumes "is_open f"
  shows "\<exists>h. end_log (Some f) s1 s2 d different objects ws = Some h \<and> misused h \<and> fpath h = fpath f \<and> \<not> is_open h"
proof -
  from print_stats_spec [OF assms refl] obtain g where "print_stats_to_file (Some f) s1 s2 d different objects ws = Some g" "fpath g = fpath f" "\<not> is_open g"
    by blast
  then show ?thesis by (simp add: end_log_def)
qed

lemma end_log_None: "end_log l s1 s2 d different objects ws = None \<longleftrightarrow> l = None"
  by (cases l; cases different) (simp_all add: end_log_def print_stats_to_file_def dump_to_file_def Let_def)

section \<open>Property\<close>



end
