(* ===== verification/WireBounds.thy ===== *)
theory WireBounds
  imports Client
begin

text \<open>
  The exact bounds of \<open>send_warning_to\<close> (\<open>Common/propagator_client.c\<close>): the length of the buffer is
  a sum of 32 bits that is passed to \<open>send\<close> as an \<open>int\<close>.  Up to which length of a message is the
  buffer large enough, and up to which is the message sent?
\<close>

section \<open>The length of a message\<close>

lemma length_message: "length (encode w) = unat (len32 (chars (city w))) + unat (len32 (chars (dest_node w))) + 28"
proof -
  have "unat (len32 str) \<le> length str" for str
    unfolding len32_def unat_of_nat by (rule mod_less_eq_dividend)
  then show ?thesis by (simp add: encode_def Let_def)
qed

lemma encode_len_wraps: "encode_len w = word_of_nat (length (encode w))"
  by (simp add: encode_len_def length_message)

lemma message_below_two_wraps: "length (encode w) < 2 * 2 ^ 32 + 28"
proof -
  have "unat x < 2 ^ 32" for x :: u32 using unsigned_less [of x] by simp
  from this [of "len32 (chars (city w))"] this [of "len32 (chars (dest_node w))"] show ?thesis
    by (simp add: length_message)
qed

lemma buffer_large_enough_iff: "length (encode w) \<le> unat (encode_len w) \<longleftrightarrow> length (encode w) < 2 ^ 32"
proof -
  have "unat (encode_len w) = length (encode w) mod 2 ^ 32" by (simp add: encode_len_wraps unat_of_nat)
  moreover have "l \<le> l mod 2 ^ 32 \<longleftrightarrow> l < 2 ^ 32" for l :: nat
  proof (cases "l < 2 ^ 32")
    case False
    moreover have "l mod 2 ^ 32 < 2 ^ 32" by simp
    ultimately show ?thesis by linarith
  qed simp
  ultimately show ?thesis by simp
qed

text \<open>As an \<open>int\<close> the length is right below \<open>2 ^ 31\<close> and negative from there on.\<close>

lemma sint_encode_len:
  assumes "length (encode w) < 2 ^ 32"
  shows "sint (encode_len w) =
    (if length (encode w) < 2 ^ 31 then int (length (encode w)) else int (length (encode w)) - 2 ^ 32)"
proof -
  have "unat (encode_len w) = length (encode w)" using assms by (simp add: encode_len_wraps unat_of_nat)
  then have u: "uint (encode_len w) = int (length (encode w))" by (metis uint_nat)
  show ?thesis
  proof (cases "length (encode w) < 2 ^ 31")
    case True
    then show ?thesis by (simp add: sint_uint u signed_take_bit_int_eq_self)
  next
    case False
    have "signed_take_bit 31 (int (length (encode w))) = int (length (encode w)) - 2 ^ 32"
    proof -
      have "(l + 2147483648) mod 4294967296 = l - 2147483648" if "2147483648 \<le> l" "l < 4294967296" for l :: int
        using that mod_pos_pos_trivial [of "l - 2147483648" 4294967296] mod_add_self2 [of "l - 2147483648" 4294967296] by (simp add: add.commute)
      from this [of "int (length (encode w))"] show ?thesis
        unfolding signed_take_bit_eq_take_bit_shift take_bit_eq_mod using assms False by simp
    qed
    with False show ?thesis by (simp add: sint_uint u)
  qed
qed

section \<open>Undefined behaviour stays\<close>

lemma ub_free: "ub s \<Longrightarrow> ub (free_blk b s)" "ub s \<Longrightarrow> ub (free_conn_key k s)" "ub s \<Longrightarrow> ub (free_socket v s)"
  by (auto simp: free_blk_def free_conn_key_def free_socket_def free_str_def closesocket_def split: option.split)

lemma ub_close:
  assumes "connections_map t = Some m" "conn.hm_owned m s0" "close_connection a p t s = (t', s')" "ub s"
  shows "ub s'"
  using assms by (auto simp: close_connection_def hashmap_remove_def conn.hm_owned_def call_free_def Let_def ub_free
      split: prod.splits option.splits)

section \<open>A send on an open connection\<close>

lemma open_is_valid: "conn_inv L K m s \<Longrightarrow> answers m a p = Some k \<Longrightarrow> k \<noteq> INVALID_SOCKET"
  by (auto dest: conn_inv_get)

lemma send_on_open:
  assumes "connections_map (tab n) = Some m" "conn_inv L K m s" "answers m a p = Some k" "True \<notin> set (oom s)"
    and "names_apart n s" "send_warning_to a p w n s = (r, n', s')"
    and "sys_send k (encode w) (sint (encode_len w)) n = (sent, n1)"
  shows "r \<longleftrightarrow> sent = sint (encode_len w)" and "wire n' = wire n1" and "ub s' \<longleftrightarrow> 2 ^ 32 \<le> length (encode w)"
proof -
  obtain k' t s1 where g: "get_or_create_connection a p (tab n) s = (k', t, s1)" by (metis prod.exhaust)
  from get_found_spec [OF assms(1-3) g] assms(4) have k: "k' = k" "t = tab n" by auto
  have v: "k \<noteq> INVALID_SOCKET" by (rule open_is_valid [OF assms(2,3)])
  from get_or_create_oom [OF assms(1) _ g] assms(2,4) have "True \<notin> set (oom s1)" by (auto simp: conn_inv_def)
  from malloc_succeeds [OF this] obtain b s2 where b: "malloc s1 = (Some b, s2)" by blast
  have i1: "conn_inv L K m s1" using get_step [OF assms(1,2,5) g] k(2) assms(1) by auto
  note M = conn_inv_malloc [OF i1 b]
  let ?o = "unat (encode_len w) < length (encode w)"
  let ?s3 = "free_blk b (if ?o then s2\<lparr>ub := True\<rparr> else s2)"
  obtain t4 s4 where c: "close_connection a p (tab n) ?s3 = (t4, s4)" by force
  have n1: "tab n1 = tab n" using assms(7) by (auto simp: sys_send_def Let_def split: if_splits list.splits)
  have e: "(r, n', s') = (if sent \<noteq> sint (encode_len w) then (False, n1\<lparr>tab := t4\<rparr>, s4) else (True, n1, ?s3))"
    using assms(6,7) g k v b c n1 by (auto simp: send_warning_to_def Let_def split: if_splits)
  then show "r \<longleftrightarrow> sent = sint (encode_len w)" "wire n' = wire n1" by (auto split: if_splits)
  have o: "?o \<longleftrightarrow> 2 ^ 32 \<le> length (encode w)" using buffer_large_enough_iff [of w] by linarith
  show "ub s' \<longleftrightarrow> 2 ^ 32 \<le> length (encode w)"
  proof (cases ?o)
    case True
    then have "ub ?s3" by (simp add: ub_free)
    moreover from this ub_close [OF assms(1) _ c] assms(2) have "ub s4" by (auto simp: conn_inv_def)
    ultimately show ?thesis using e True o by (auto split: if_splits)
  next
    case False
    have "conn_inv L K m ?s3" using conn_inv_free M False by simp
    with close_connection_spec [OF assms(1) this c] have "os_ok ?s3" "os_ok s4" by (auto dest: conn_inv_ok)
    then show ?thesis using e False o by (auto simp: os_ok_def split: if_splits)
  qed
qed

section \<open>Properties\<close>



end
